(* ===== verification/Prelude.thy ===== *)
theory Prelude
  imports Main
begin

text \<open>
  What every component of the model shares: the bounds of the C++ integer types the code
  uses, the exceptions it throws (one constructor per throw site, plus the undefined
  behaviours a call can run into), the result type of an operation on a state, and
  \<open>std::map\<close> and \<open>std::set\<close> as sorted lists, since the code iterates them in key order.
\<close>

named_theorems run_simps \<open>equations that push a sequenced run through its outcome\<close>
named_theorems wf_intros \<open>introduction rules: an operation keeps a well-formedness invariant\<close>

section \<open>C++ integers\<close>

text \<open>
  \<open>int\<close> is 32 bits and \<open>long long\<close> 64 bits; signed overflow is undefined behaviour. Values are
  modelled as mathematical integers; where the code can leave the range, the operation is
  the checked one below, whose overflow is an outcome of the model.
\<close>

abbreviation INT_MAX :: int where "INT_MAX \<equiv> 2147483647"
abbreviation INT_MIN :: int where "INT_MIN \<equiv> - 2147483648"
abbreviation LLONG_MAX :: int where "LLONG_MAX \<equiv> 9223372036854775807"
abbreviation LLONG_MIN :: int where "LLONG_MIN \<equiv> - 9223372036854775808"

definition fits_int :: "int \<Rightarrow> bool" where
  "fits_int x \<longleftrightarrow> INT_MIN \<le> x \<and> x \<le> INT_MAX"

definition fits_llong :: "int \<Rightarrow> bool" where
  "fits_llong x \<longleftrightarrow> LLONG_MIN \<le> x \<and> x \<le> LLONG_MAX"

section \<open>Exceptions\<close>

text \<open>
  What ends the program: undefined behaviour a call can reach, and an exception that leaves a
  thread. No handler of the program sees it.
\<close>

datatype fatal =
    SignedOverflow
  | NullDereference
  | DanglingPointer
  | AssertionFailed
  | EmptyContainer
  | Terminated

datatype exn =
    NameInvalid                 \<comment> \<open>BaseObject::ValidateName, std::invalid\_argument\<close>
  | AlreadyHasParent            \<comment> \<open>BaseObject::SetParent, std::invalid\_argument\<close>
  | AlreadyConnected nat nat    \<comment> \<open>Port::ValidateConnection, std::invalid\_argument\<close>
  | DestinationSpontaneous nat  \<comment> \<open>Port::ValidateConnection, std::invalid\_argument\<close>
  | PortNameInvalid string      \<comment> \<open>Accessor::Impl::ValidatePortName, std::invalid\_argument\<close>
  | ChildNameInvalid            \<comment> \<open>CompositeAccessor::Impl::AddChild, std::invalid\_argument\<close>
  | InputPortNotFound           \<comment> \<open>AtomicAccessor::Impl, std::invalid\_argument\<close>
  | NotInitialized              \<comment> \<open>Accessor::Impl::SendOutput, std::logic\_error\<close>
  | HostDoesNotNeedSetup        \<comment> \<open>Host::Impl::Setup, std::logic\_error\<close>
  | HostNotRunning              \<comment> \<open>Host::Impl::Pause, std::logic\_error\<close>
  | HostAlreadyRunning          \<comment> \<open>Host::Impl::ValidateHostCanRun, std::logic\_error\<close>
  | HostNotRunnable             \<comment> \<open>Host::Impl::ValidateHostCanRun, std::logic\_error\<close>
  | HostHasNoPorts              \<comment> \<open>Host::Impl::AddInputPort and its kin, std::logic\_error\<close>
  | CausalityLoop nat           \<comment> \<open>Host::Impl depth computation, std::logic\_error\<close>
  | OutOfRange                  \<comment> \<open>std::map::at, std::out\_of\_range\<close>
  | SystemError                 \<comment> \<open>std::thread, std::system\_error\<close>
  | FutureError                 \<comment> \<open>std::future, std::future\_error\<close>
  | UserStd nat                 \<comment> \<open>user code, derived from std::exception\<close>
  | UserOther nat               \<comment> \<open>user code, anything else\<close>
  | Fatal fatal

text \<open>What \<open>catch (const std::exception&)\<close> and \<open>catch (...)\<close> catch.\<close>

fun is_std_exception :: "exn \<Rightarrow> bool" where
  "is_std_exception (UserOther _) = False"
| "is_std_exception (Fatal _) = False"
| "is_std_exception _ = True"

fun is_catchable :: "exn \<Rightarrow> bool" where
  "is_catchable (Fatal _) = False"
| "is_catchable _ = True"

lemma std_exception_catchable: "is_std_exception e \<Longrightarrow> is_catchable e"
  by (cases e) auto

section \<open>Runs: an operation on a state\<close>

text \<open>
  An operation takes the state and returns a value and the new state, or throws in some
  state (what was changed before the throw stays changed), or, for a loop or a recursion
  driven by fuel, has not returned when the fuel is spent.
\<close>

datatype ('a, 's) run = Ret 'a 's | Throw exn 's | Diverge

fun run_bind :: "('a, 's) run \<Rightarrow> ('a \<Rightarrow> 's \<Rightarrow> ('b, 's) run) \<Rightarrow> ('b, 's) run" where
  "run_bind (Ret x s) f = f x s"
| "run_bind (Throw e s) f = Throw e s"
| "run_bind Diverge f = Diverge"

fun run_prop :: "('s \<Rightarrow> bool) \<Rightarrow> ('a, 's) run \<Rightarrow> bool" where
  "run_prop P (Ret _ s) = P s"
| "run_prop P (Throw _ s) = P s"
| "run_prop P Diverge = True"

fun run_state :: "('a, 's) run \<Rightarrow> 's option" where
  "run_state (Ret _ s) = Some s"
| "run_state (Throw _ s) = Some s"
| "run_state Diverge = None"

fun run_returns :: "('a, 's) run \<Rightarrow> bool" where
  "run_returns (Ret _ _) = True"
| "run_returns _ = False"

lemma run_bind_eq_Ret:
  "run_bind m f = Ret y t \<longleftrightarrow> (\<exists>x s. m = Ret x s \<and> f x s = Ret y t)"
  by (cases m) auto

lemma run_bind_eq_Throw:
  "run_bind m f = Throw e t \<longleftrightarrow> m = Throw e t \<or> (\<exists>x s. m = Ret x s \<and> f x s = Throw e t)"
  by (cases m) auto

lemma run_bind_eq_Diverge:
  "run_bind m f = Diverge \<longleftrightarrow> m = Diverge \<or> (\<exists>x s. m = Ret x s \<and> f x s = Diverge)"
  by (cases m) auto

lemmas run_bind_eqs = run_bind_eq_Ret run_bind_eq_Throw run_bind_eq_Diverge

lemma run_bind_assoc:
  "run_bind (run_bind m f) g = run_bind m (\<lambda>x s. run_bind (f x s) g)"
  by (cases m) auto

lemma run_prop_bind:
  "run_prop P m \<Longrightarrow> (\<And>x s. P s \<Longrightarrow> run_prop P (f x s)) \<Longrightarrow> run_prop P (run_bind m f)"
  by (cases m) auto

lemma run_prop_mono: "run_prop P m \<Longrightarrow> (\<And>s. P s \<Longrightarrow> Q s) \<Longrightarrow> run_prop Q m"
  by (cases m) auto

lemma run_prop_conj: "run_prop (\<lambda>s. P s \<and> Q s) m \<longleftrightarrow> run_prop P m \<and> run_prop Q m"
  by (cases m) auto

declare run_bind_assoc [run_simps]

section \<open>Maps and sets in key order\<close>

text \<open>
  \<open>std::map<K, V>\<close> is an association list with strictly increasing keys: iteration is the
  list's order. \<open>find\<close> is \<^const>\<open>map_of\<close>; \<open>smap_put\<close> is assignment through
  \<open>operator[]\<close>, \<open>smap_emplace\<close> leaves an existing entry alone.
\<close>

type_synonym ('k, 'v) smap = "('k \<times> 'v) list"

definition smap_wf :: "('k::linorder, 'v) smap \<Rightarrow> bool" where
  "smap_wf m \<longleftrightarrow> sorted_wrt (<) (map fst m)"

fun smap_put :: "'k::linorder \<Rightarrow> 'v \<Rightarrow> ('k, 'v) smap \<Rightarrow> ('k, 'v) smap" where
  "smap_put k v [] = [(k, v)]"
| "smap_put k v ((k', v') # m) =
     (if k < k' then (k, v) # (k', v') # m
      else if k = k' then (k, v) # m
      else (k', v') # smap_put k v m)"

definition smap_emplace :: "'k::linorder \<Rightarrow> 'v \<Rightarrow> ('k, 'v) smap \<Rightarrow> ('k, 'v) smap" where
  "smap_emplace k v m = (case map_of m k of None \<Rightarrow> smap_put k v m | Some _ \<Rightarrow> m)"

definition smap_erase :: "'k \<Rightarrow> ('k, 'v) smap \<Rightarrow> ('k, 'v) smap" where
  "smap_erase k m = filter (\<lambda>e. fst e \<noteq> k) m"

lemma smap_wf_Nil [simp, intro]: "smap_wf []"
  by (simp add: smap_wf_def)

lemma set_keys_smap_put: "fst ` set (smap_put k v m) = insert k (fst ` set m)"
  by (induction k v m rule: smap_put.induct) auto

lemma smap_wf_put [intro]: "smap_wf m \<Longrightarrow> smap_wf (smap_put k v m)"
proof (induction k v m rule: smap_put.induct)
  case (2 k v k' v' m)
  have "x \<in> fst ` set (smap_put k v m) \<Longrightarrow> x = k \<or> x \<in> fst ` set m" for x
    by (simp add: set_keys_smap_put)
  with 2 show ?case by (fastforce simp: smap_wf_def)
qed (simp add: smap_wf_def)

lemma map_of_smap_put [simp]: "map_of (smap_put k v m) = (map_of m)(k \<mapsto> v)"
  by (induction k v m rule: smap_put.induct) auto

lemma smap_wf_erase [intro]: "smap_wf m \<Longrightarrow> smap_wf (smap_erase k m)"
  by (induction m) (auto simp: smap_wf_def smap_erase_def)

lemma map_of_smap_erase [simp]: "map_of (smap_erase k m) = (map_of m)(k := None)"
  by (induction m) (auto simp: smap_erase_def fun_eq_iff)

lemma smap_wf_emplace [intro]: "smap_wf m \<Longrightarrow> smap_wf (smap_emplace k v m)"
  by (auto simp: smap_emplace_def split: option.splits)

lemma map_of_smap_emplace:
  "map_of (smap_emplace k v m) = (if map_of m k = None then (map_of m)(k \<mapsto> v) else map_of m)"
  by (auto simp: smap_emplace_def split: option.splits)

lemma smap_wf_distinct: "smap_wf m \<Longrightarrow> distinct (map fst m)"
  by (simp add: smap_wf_def strict_sorted_iff)

lemma smap_put_update_keys:
  "smap_wf m \<Longrightarrow> map_of m k \<noteq> None \<Longrightarrow> map fst (smap_put k v m) = map fst m"
proof (induction k v m rule: smap_put.induct)
  case (2 k v k' v' m)
  have "\<not> k < k'"
  proof
    assume "k < k'"
    moreover from 2(3) \<open>k < k'\<close> have "k \<in> fst ` set m"
      by (force dest: map_of_SomeD split: if_splits)
    ultimately show False using 2(2) by (auto simp: smap_wf_def)
  qed
  with 2 show ?case by (auto simp: smap_wf_def)
qed simp

text \<open>\<open>std::set<K>\<close> is a strictly increasing list.\<close>

type_synonym 'k sset = "'k list"

fun sset_insert :: "'k::linorder \<Rightarrow> 'k sset \<Rightarrow> 'k sset" where
  "sset_insert k [] = [k]"
| "sset_insert k (x # xs) =
     (if k < x then k # x # xs else if k = x then x # xs else x # sset_insert k xs)"

definition sset_erase :: "'k \<Rightarrow> 'k sset \<Rightarrow> 'k sset" where
  "sset_erase k xs = filter (\<lambda>x. x \<noteq> k) xs"

definition sset_of :: "'k::linorder list \<Rightarrow> 'k sset" where
  "sset_of xs = fold sset_insert xs []"

lemma set_sset_insert [simp]: "set (sset_insert k xs) = insert k (set xs)"
  by (induction k xs rule: sset_insert.induct) auto

lemma set_sset_erase [simp]: "set (sset_erase k xs) = set xs - {k}"
  by (auto simp: sset_erase_def)

lemma sorted_sset_insert [intro]:
  "sorted_wrt (<) xs \<Longrightarrow> sorted_wrt (<) (sset_insert k xs)"
  by (induction k xs rule: sset_insert.induct) (auto intro: order.strict_trans)

lemma sorted_sset_erase [intro]:
  "sorted_wrt (<) xs \<Longrightarrow> sorted_wrt (<) (sset_erase k xs)"
  by (simp add: sset_erase_def sorted_wrt_filter)

lemma set_sset_fold: "set (fold sset_insert xs acc) = set xs \<union> set acc"
  by (induction xs arbitrary: acc) auto

lemma set_sset_of [simp]: "set (sset_of xs) = set xs"
  by (simp add: sset_of_def set_sset_fold)

lemma sorted_sset_fold: "sorted_wrt (<) acc \<Longrightarrow> sorted_wrt (<) (fold sset_insert xs acc)"
  by (induction xs arbitrary: acc) auto

lemma sorted_sset_of [simp]: "sorted_wrt (<) (sset_of xs)"
  by (simp add: sset_of_def sorted_sset_fold)

lemma length_sset_insert: "length (sset_insert k xs) \<le> Suc (length xs)"
  by (induction k xs rule: sset_insert.induct) auto

section \<open>Interfaces shared by the components\<close>

text \<open>
  A machine whose operations all keep an invariant: every run of operations from an
  invariant state ends in one. Each component with an operation alphabet interprets it.
\<close>

locale invariant_machine =
  fixes apply_op :: "'op \<Rightarrow> 's \<Rightarrow> 's"
    and Inv :: "'s \<Rightarrow> bool"
  assumes op_keeps: "Inv s \<Longrightarrow> Inv (apply_op x s)"
begin

lemma ops_keep: "Inv s \<Longrightarrow> Inv (fold apply_op xs s)"
  by (induction xs arbitrary: s) (auto intro: op_keeps)

lemma prefix_keeps: "Inv s \<Longrightarrow> Inv (fold apply_op (take n xs) s)"
  by (rule ops_keep)

end

text \<open>
  The map interface the components rely on: what a lookup returns after an assignment and
  an erasure, and that both keep the order of the keys.
\<close>

locale ordered_map =
  fixes put :: "'k::linorder \<Rightarrow> 'v \<Rightarrow> 'm \<Rightarrow> 'm"
    and erase :: "'k \<Rightarrow> 'm \<Rightarrow> 'm"
    and look :: "'m \<Rightarrow> 'k \<Rightarrow> 'v option"
    and order :: "'m \<Rightarrow> 'k list"
    and ok :: "'m \<Rightarrow> bool"
  assumes look_put: "look (put k v m) = (look m)(k \<mapsto> v)"
    and look_erase: "look (erase k m) = (look m)(k := None)"
    and ok_put: "ok m \<Longrightarrow> ok (put k v m)"
    and ok_erase: "ok m \<Longrightarrow> ok (erase k m)"
    and order_sorted: "ok m \<Longrightarrow> sorted_wrt (<) (order m)"
    and order_dom: "set (order m) = dom (look m)"
begin

lemma put_erase: "look (erase k (put k v m)) = (look m)(k := None)"
  by (simp add: look_put look_erase)

lemma fresh_after_erase: "k \<notin> set (order (erase k m))"
  by (simp add: order_dom look_erase)

lemma order_put: "set (order (put k v m)) = insert k (set (order m))"
  by (auto simp: order_dom look_put)

lemma order_distinct: "ok m \<Longrightarrow> distinct (order m)"
  using order_sorted strict_sorted_iff by blast

end

interpretation smap: ordered_map smap_put smap_erase map_of "map fst" smap_wf
  by unfold_locales
    (simp_all add: smap_wf_put smap_wf_erase dom_map_of_conv_image_fst, simp add: smap_wf_def)

end
