(* ===== verification/BaseObject.thy ===== *)
theory BaseObject
  imports Prelude
begin

text \<open>
  \<open>src/src/BaseObject.h\<close>: every accessor and port has a name and a parent. The model gives
  the name rules, the parent slot that is set once, and the full name, which is the parent
  chain's names, each after a period.
\<close>

section \<open>Names\<close>

text \<open>The characters of the literal that \<open>find_first_of\<close> looks for: period, space, tab, CR, LF.\<close>

definition forbidden_chars :: "char list" where
  "forbidden_chars = [CHR ''.'', CHR '' '', CHR 0x09, CHR 0x0D, CHR 0x0A]"

fun find_first_of :: "char list \<Rightarrow> string \<Rightarrow> nat option" where
  "find_first_of cs [] = None"
| "find_first_of cs (c # s) =
     (if c \<in> set cs then Some 0 else map_option Suc (find_first_of cs s))"

definition NameIsValid :: "string \<Rightarrow> bool" where
  "NameIsValid name \<longleftrightarrow> name \<noteq> [] \<and> find_first_of forbidden_chars name = None"

lemma find_first_of_None: "find_first_of cs s = None \<longleftrightarrow> set s \<inter> set cs = {}"
  by (induction s) auto

lemma NameIsValid_iff: "NameIsValid s \<longleftrightarrow> s \<noteq> [] \<and> set s \<inter> set forbidden_chars = {}"
  by (simp add: NameIsValid_def find_first_of_None)

lemma NameIsValid_no_period: "NameIsValid s \<Longrightarrow> CHR ''.'' \<notin> set s"
  by (auto simp: NameIsValid_iff forbidden_chars_def)

section \<open>Objects\<close>

record base_object =
  m_name :: string
  m_parent :: "nat option"

definition ValidateName :: "'z base_object_scheme \<Rightarrow> (unit, 'z base_object_scheme) run" where
  "ValidateName b = (if \<not> NameIsValid (m_name b) then Throw NameInvalid b else Ret () b)"

definition SetParent :: "nat option \<Rightarrow> 'z base_object_scheme \<Rightarrow> (unit, 'z base_object_scheme) run" where
  "SetParent p b =
     (if m_parent b = None then Ret () (b\<lparr>m_parent := p\<rparr>) else Throw AlreadyHasParent b)"

text \<open>
  \<open>GetFullName\<close> recurses through the parent pointers. Objects live in a store; a parent
  pointer to an object that is gone, or a cyclic chain, gives \<^const>\<open>None\<close>.
\<close>

partial_function (option) GetFullName :: "(nat \<Rightarrow> base_object option) \<Rightarrow> nat \<Rightarrow> string option" where
  "GetFullName objs o1 =
     (case objs o1 of
        None \<Rightarrow> None
      | Some b \<Rightarrow>
          (case m_parent b of
             None \<Rightarrow> Some ([] @ ''.'' @ m_name b)
           | Some p \<Rightarrow>
               Option.bind (GetFullName objs p) (\<lambda>s. Some (s @ ''.'' @ m_name b))))"

declare GetFullName.simps [code]

section \<open>The full name determines the path\<close>

text \<open>The chain of names from the root down to an object.\<close>

inductive name_path :: "(nat \<Rightarrow> base_object option) \<Rightarrow> nat \<Rightarrow> string list \<Rightarrow> bool" for objs where
  root: "objs o1 = Some b \<Longrightarrow> m_parent b = None \<Longrightarrow> name_path objs o1 [m_name b]"
| child: "objs o1 = Some b \<Longrightarrow> m_parent b = Some p \<Longrightarrow> name_path objs p ns \<Longrightarrow>
    name_path objs o1 (ns @ [m_name b])"

inductive_cases name_pathE: "name_path objs o1 ns"

definition join_path :: "string list \<Rightarrow> string" where
  "join_path ns = concat (map (\<lambda>n. ''.'' @ n) ns)"

fun split_acc :: "string \<Rightarrow> string \<Rightarrow> string list" where
  "split_acc cur [] = [cur]"
| "split_acc cur (c # s) =
     (if c = CHR ''.'' then cur # split_acc [] s else split_acc (cur @ [c]) s)"

definition split_path :: "string \<Rightarrow> string list" where
  "split_path s = tl (split_acc [] s)"

lemma GetFullName_join: "name_path objs o1 ns \<Longrightarrow> GetFullName objs o1 = Some (join_path ns)"
  by (induction rule: name_path.induct) (simp_all add: GetFullName.simps join_path_def)

lemma split_acc_name:
  "CHR ''.'' \<notin> set n \<Longrightarrow> split_acc cur (n @ rest) = split_acc (cur @ n) rest"
  by (induction n arbitrary: cur) auto

lemma split_acc_join:
  "\<forall>n \<in> set ns. CHR ''.'' \<notin> set n \<Longrightarrow> split_acc cur (join_path ns) = cur # ns"
proof (induction ns arbitrary: cur)
  case Nil
  then show ?case by (simp add: join_path_def)
next
  case (Cons n ns)
  then have "split_acc [] (n @ join_path ns) = n # ns"
    by (simp add: split_acc_name)
  then show ?case by (simp add: join_path_def)
qed

text \<open>
  C31. The full name of an object determines its path: if every name on the parent chain is
  valid, then the full name is defined and splitting it at the periods gives back exactly
  the names from the root down to the object.
\<close>

theorem full_name_roundtrip:
  assumes "name_path objs o1 ns" and "\<forall>n \<in> set ns. NameIsValid n"
  shows "\<exists>s. GetFullName objs o1 = Some s \<and> split_path s = ns"
  using assms
  by (auto simp: GetFullName_join split_path_def split_acc_join NameIsValid_no_period)

definition demo_objects :: "nat \<Rightarrow> base_object option" where
  "demo_objects =
     [0 \<mapsto> \<lparr>m_name = ''Host'', m_parent = None\<rparr>, 1 \<mapsto> \<lparr>m_name = ''Adder'', m_parent = Some 0\<rparr>]"

lemma full_name_roundtrip_witness:
  "\<exists>s. GetFullName demo_objects 1 = Some s \<and> split_path s = [''Host'', ''Adder'']"
proof -
  have r: "name_path demo_objects 0 [''Host'']"
    using name_path.root[of demo_objects 0 "\<lparr>m_name = ''Host'', m_parent = None\<rparr>"]
    by (simp add: demo_objects_def)
  have "name_path demo_objects 1 ([''Host''] @ [m_name \<lparr>m_name = ''Adder'', m_parent = Some 0\<rparr>])"
    by (rule name_path.child[OF _ _ r]) (simp_all add: demo_objects_def)
  then have p: "name_path demo_objects 1 [''Host'', ''Adder'']" by simp
  have "\<forall>n \<in> set [''Host'', ''Adder'']. NameIsValid n"
    by (simp add: NameIsValid_def forbidden_chars_def)
  from full_name_roundtrip[OF p this] show ?thesis .
qed

text \<open>
  The parent of an object is set at most once: after a successful call every further call
  throws and leaves the object as it was.
\<close>

lemma SetParent_once:
  "SetParent (Some p) b = Ret () b' \<Longrightarrow> m_parent b' = Some p \<and> SetParent q b' = Throw AlreadyHasParent b'"
  by (auto simp: SetParent_def split: if_splits)

lemma ValidateName_iff: "run_returns (ValidateName b) \<longleftrightarrow> NameIsValid (m_name b)"
  by (simp add: ValidateName_def)

end
