(* ===== verification/UniquePriorityQueue.thy ===== *)
theory UniquePriorityQueue
  imports Prelude "HOL-Library.Multiset"
begin

text \<open>
  \<open>src/src/UniquePriorityQueue.h\<close>: a \<open>std::priority_queue\<close> that holds an element at most
  once, with the elements it holds in a \<open>std::set\<close> beside it. The priority queue is the
  standard library's binary heap in a vector, compared by \<open>cmp\<close>; the theory shows that it
  meets the interface its client (the reaction queue of a composite accessor) relies on.
\<close>

section \<open>The binary heap of std::priority_queue\<close>

definition swap :: "'a list \<Rightarrow> nat \<Rightarrow> nat \<Rightarrow> 'a list" where
  "swap xs i j = xs[i := xs ! j, j := xs ! i]"

function sift_up :: "('a \<Rightarrow> 'a \<Rightarrow> bool) \<Rightarrow> 'a list \<Rightarrow> nat \<Rightarrow> 'a list" where
  "sift_up cmp xs i =
     (if 0 < i \<and> cmp (xs ! ((i - 1) div 2)) (xs ! i)
      then sift_up cmp (swap xs i ((i - 1) div 2)) ((i - 1) div 2) else xs)"
  by pat_completeness auto
termination
  by (relation "measure (\<lambda>(l, xs, i). i)") auto

definition larger_child :: "('a \<Rightarrow> 'a \<Rightarrow> bool) \<Rightarrow> 'a list \<Rightarrow> nat \<Rightarrow> nat" where
  "larger_child cmp xs i =
     (if 2 * i + 2 < length xs \<and> \<not> cmp (xs ! (2 * i + 2)) (xs ! (2 * i + 1))
      then 2 * i + 2 else 2 * i + 1)"

function sift_down :: "('a \<Rightarrow> 'a \<Rightarrow> bool) \<Rightarrow> 'a list \<Rightarrow> nat \<Rightarrow> 'a list" where
  "sift_down cmp xs i =
     (if 2 * i + 1 < length xs \<and> cmp (xs ! i) (xs ! larger_child cmp xs i)
      then sift_down cmp (swap xs i (larger_child cmp xs i)) (larger_child cmp xs i)
      else xs)"
  by pat_completeness auto
termination
  by (relation "measure (\<lambda>(l, xs, i). length xs - i)") (auto simp: larger_child_def swap_def)

declare sift_up.simps [simp del] sift_down.simps [simp del]

definition heap_push :: "('a \<Rightarrow> 'a \<Rightarrow> bool) \<Rightarrow> 'a list \<Rightarrow> 'a \<Rightarrow> 'a list" where
  "heap_push cmp xs x = sift_up cmp (xs @ [x]) (length xs)"

definition heap_pop :: "('a \<Rightarrow> 'a \<Rightarrow> bool) \<Rightarrow> 'a list \<Rightarrow> 'a list" where
  "heap_pop cmp xs =
     (if length xs \<le> 1 then [] else sift_down cmp ((butlast xs)[0 := last xs]) 0)"

section \<open>The queue\<close>

record 'a unique_priority_queue =
  m_queue :: "'a list"
  m_elementsInQueue :: "'a sset"

definition upq_new :: "'a unique_priority_queue" where
  "upq_new = \<lparr>m_queue = [], m_elementsInQueue = []\<rparr>"

definition upq_empty :: "'a unique_priority_queue \<Rightarrow> bool" where
  "upq_empty q \<longleftrightarrow> m_queue q = []"

definition upq_top :: "'a unique_priority_queue \<Rightarrow> exn + 'a" where
  "upq_top q = (case m_queue q of [] \<Rightarrow> Inl (Fatal EmptyContainer) | x # _ \<Rightarrow> Inr x)"

definition upq_push ::
  "('a::linorder \<Rightarrow> 'a \<Rightarrow> bool) \<Rightarrow> 'a \<Rightarrow> 'a unique_priority_queue \<Rightarrow> 'a unique_priority_queue" where
  "upq_push cmp x q =
     (if x \<notin> set (m_elementsInQueue q)
      then q\<lparr>m_queue := heap_push cmp (m_queue q) x,
             m_elementsInQueue := sset_insert x (m_elementsInQueue q)\<rparr>
      else q)"

definition upq_pop ::
  "('a::linorder \<Rightarrow> 'a \<Rightarrow> bool) \<Rightarrow> 'a unique_priority_queue \<Rightarrow> exn + 'a unique_priority_queue" where
  "upq_pop cmp q =
     (case upq_top q of
        Inl e \<Rightarrow> Inl e
      | Inr x \<Rightarrow>
          if x \<in> set (m_elementsInQueue q)
          then Inr (q\<lparr>m_elementsInQueue := sset_erase x (m_elementsInQueue q),
                      m_queue := heap_pop cmp (m_queue q)\<rparr>)
          else Inl (Fatal EmptyContainer))"

section \<open>Heap order\<close>

text \<open>
  The comparison the client uses ranks elements by an integer (an accessor's priority value):
  \<open>cmp a b\<close> when \<open>a\<close> has the larger value, so the front of the heap has the smallest.
\<close>

definition by_rank :: "('a \<Rightarrow> int) \<Rightarrow> 'a \<Rightarrow> 'a \<Rightarrow> bool" where
  "by_rank rank a b \<longleftrightarrow> rank a > rank b"

definition heap_ok :: "('a \<Rightarrow> int) \<Rightarrow> 'a list \<Rightarrow> bool" where
  "heap_ok rank xs \<longleftrightarrow>
     (\<forall>j. 0 < j \<and> j < length xs \<longrightarrow> rank (xs ! ((j - 1) div 2)) \<le> rank (xs ! j))"

text \<open>Heap order but for the node \<open>i\<close> against its parent (going up) or its children (going down).\<close>

definition heap_but_up :: "('a \<Rightarrow> int) \<Rightarrow> 'a list \<Rightarrow> nat \<Rightarrow> bool" where
  "heap_but_up rank xs i \<longleftrightarrow>
     (\<forall>j. 0 < j \<and> j < length xs \<and> j \<noteq> i \<longrightarrow> rank (xs ! ((j - 1) div 2)) \<le> rank (xs ! j)) \<and>
     (\<forall>j. 0 < i \<and> 0 < j \<and> j < length xs \<and> (j - 1) div 2 = i \<longrightarrow>
        rank (xs ! ((i - 1) div 2)) \<le> rank (xs ! j))"

definition heap_but_down :: "('a \<Rightarrow> int) \<Rightarrow> 'a list \<Rightarrow> nat \<Rightarrow> bool" where
  "heap_but_down rank xs i \<longleftrightarrow>
     (\<forall>j. 0 < j \<and> j < length xs \<and> (j - 1) div 2 \<noteq> i \<longrightarrow> rank (xs ! ((j - 1) div 2)) \<le> rank (xs ! j)) \<and>
     (\<forall>j. 0 < i \<and> 0 < j \<and> j < length xs \<and> (j - 1) div 2 = i \<longrightarrow>
        rank (xs ! ((i - 1) div 2)) \<le> rank (xs ! j))"

lemma length_swap [simp]: "length (swap xs i j) = length xs"
  by (simp add: swap_def)

lemma nth_swap:
  "i < length xs \<Longrightarrow> j < length xs \<Longrightarrow> k < length xs \<Longrightarrow>
   swap xs i j ! k = (if k = j then xs ! i else if k = i then xs ! j else xs ! k)"
  by (simp add: swap_def nth_list_update)

lemma mset_swap_eq: "i < length xs \<Longrightarrow> j < length xs \<Longrightarrow> mset (swap xs i j) = mset xs"
  by (simp add: swap_def mset_swap)

lemma heap_but_up_step:
  assumes h: "heap_but_up rank xs i" and i: "0 < i" "i < length xs"
    and bad: "rank (xs ! i) < rank (xs ! ((i - 1) div 2))"
  shows "heap_but_up rank (swap xs i ((i - 1) div 2)) ((i - 1) div 2)"
proof -
  let ?p = "(i - 1) div 2" and ?ys = "swap xs i ((i - 1) div 2)"
  have p: "?p < length xs" "?p < i" using i by auto
  have up: "rank (xs ! ((j - 1) div 2)) \<le> rank (xs ! j)" if "0 < j" "j < length xs" "j \<noteq> i" for j
    using h that by (auto simp: heap_but_up_def)
  have gp: "rank (xs ! ?p) \<le> rank (xs ! j)" if "0 < j" "j < length xs" "(j - 1) div 2 = i" for j
    using h that i by (auto simp: heap_but_up_def)
  have lt: "(j - 1) div 2 < length xs" if "j < length xs" for j using that by linarith
  show ?thesis
    unfolding heap_but_up_def
  proof (intro conjI allI impI)
    fix j assume j: "0 < j \<and> j < length ?ys \<and> j \<noteq> ?p"
    show "rank (?ys ! ((j - 1) div 2)) \<le> rank (?ys ! j)"
    proof (cases "j = i")
      case True
      then show ?thesis using bad i p by (simp add: nth_swap)
    next
      case False
      define q where "q = (j - 1) div 2"
      have q: "q < length xs" using lt[of j] j by (simp add: q_def)
      have "rank (xs ! q) \<le> rank (xs ! j)" using up[of j] j False by (simp add: q_def)
      moreover have "rank (xs ! ?p) \<le> rank (xs ! j)" if "q = i"
        using gp[of j] j that by (simp add: q_def)
      ultimately show ?thesis
        unfolding q_def[symmetric] using j False bad i p q by (auto simp: nth_swap)
    qed
  next
    fix j assume j: "0 < ?p \<and> 0 < j \<and> j < length ?ys \<and> (j - 1) div 2 = ?p"
    define g where "g = (?p - 1) div 2"
    have g: "g < ?p" using j unfolding g_def by linarith
    have "rank (xs ! g) \<le> rank (xs ! ?p)"
      unfolding g_def using up[of ?p] j p by simp
    moreover have "rank (xs ! ?p) \<le> rank (xs ! j)" if "j \<noteq> i" using up[of j] j that by simp
    moreover have "j \<noteq> ?p" using j by linarith
    ultimately show "rank (?ys ! ((?p - 1) div 2)) \<le> rank (?ys ! j)"
      unfolding g_def[symmetric] using j i p bad g by (cases "j = i") (simp_all add: nth_swap)
  qed
qed

lemma sift_up_correct:
  "i < length xs \<Longrightarrow> heap_but_up rank xs i \<Longrightarrow>
   heap_ok rank (sift_up (by_rank rank) xs i) \<and> mset (sift_up (by_rank rank) xs i) = mset xs"
proof (induction "by_rank rank" xs i rule: sift_up.induct)
  case (1 xs i)
  show ?case
  proof (cases "0 < i \<and> by_rank rank (xs ! ((i - 1) div 2)) (xs ! i)")
    case True
    then have "heap_but_up rank (swap xs i ((i - 1) div 2)) ((i - 1) div 2)"
      using heap_but_up_step 1 by (auto simp: by_rank_def)
    moreover have "(i - 1) div 2 < length xs" using "1.prems" by linarith
    ultimately show ?thesis
      using 1 True by (subst (1 2) sift_up.simps) (simp add: mset_swap_eq)
  next
    case False
    then have "heap_ok rank xs"
      using "1.prems" by (fastforce simp: heap_ok_def heap_but_up_def by_rank_def)
    with False show ?thesis by (subst (1 2) sift_up.simps) auto
  qed
qed

lemma heap_push_correct:
  assumes "heap_ok rank xs"
  shows "heap_ok rank (heap_push (by_rank rank) xs x) \<and>
    mset (heap_push (by_rank rank) xs x) = add_mset x (mset xs)"
proof -
  have "heap_but_up rank (xs @ [x]) (length xs)"
    unfolding heap_but_up_def
  proof (intro conjI allI impI)
    fix j assume j: "0 < j \<and> j < length (xs @ [x]) \<and> j \<noteq> length xs"
    then have "(j - 1) div 2 < length xs" by auto
    with j assms show "rank ((xs @ [x]) ! ((j - 1) div 2)) \<le> rank ((xs @ [x]) ! j)"
      by (auto simp: heap_ok_def nth_append)
  qed auto
  from sift_up_correct[OF _ this] show ?thesis by (simp add: heap_push_def)
qed

lemma parent_cases: "0 < j \<Longrightarrow> (j - 1) div 2 = i \<longleftrightarrow> j = 2 * i + 1 \<or> j = 2 * i + 2"
  for i j :: nat
  by linarith

lemma larger_child_min:
  assumes "2 * i + 1 < length xs" "0 < j" "j < length xs" "(j - 1) div 2 = i"
  shows "rank (xs ! larger_child (by_rank rank) xs i) \<le> rank (xs ! j)"
  using assms parent_cases[of j i] by (auto simp: larger_child_def by_rank_def)

lemma larger_child_bounds:
  "2 * i + 1 < length xs \<Longrightarrow> larger_child l xs i < length xs \<and> 0 < larger_child l xs i \<and>
   (larger_child l xs i - 1) div 2 = i \<and> i < larger_child l xs i"
  by (auto simp: larger_child_def)

lemma heap_but_down_step:
  assumes h: "heap_but_down rank xs i" and i: "2 * i + 1 < length xs"
    and c: "c = larger_child (by_rank rank) xs i" and bad: "rank (xs ! c) < rank (xs ! i)"
  shows "heap_but_down rank (swap xs i c) c"
proof -
  have cb: "c < length xs" "0 < c" "(c - 1) div 2 = i" "i < c" "i < length xs"
    using larger_child_bounds[OF i] i c by auto
  have up: "rank (xs ! ((j - 1) div 2)) \<le> rank (xs ! j)"
    if "0 < j" "j < length xs" "(j - 1) div 2 \<noteq> i" for j
    using h that by (auto simp: heap_but_down_def)
  have gp: "rank (xs ! ((i - 1) div 2)) \<le> rank (xs ! j)"
    if "0 < i" "0 < j" "j < length xs" "(j - 1) div 2 = i" for j
    using h that by (auto simp: heap_but_down_def)
  have mn: "rank (xs ! c) \<le> rank (xs ! j)" if "0 < j" "j < length xs" "(j - 1) div 2 = i" for j
    using larger_child_min[OF i that] c by simp
  have lt: "(j - 1) div 2 < length xs" if "j < length xs" for j using that by linarith
  show ?thesis
    unfolding heap_but_down_def
  proof (intro conjI allI impI)
    fix j assume j: "0 < j \<and> j < length (swap xs i c) \<and> (j - 1) div 2 \<noteq> c"
    define q where "q = (j - 1) div 2"
    have q: "q < length xs" "q \<noteq> c" using lt[of j] j by (simp_all add: q_def)
    have "rank (xs ! q) \<le> rank (xs ! j)" if "q \<noteq> i" using up[of j] j that by (simp add: q_def)
    moreover have "rank (xs ! c) \<le> rank (xs ! j)" if "q = i"
      using mn[of j] j that by (simp add: q_def)
    moreover have "rank (xs ! q) \<le> rank (xs ! c)" if "j = i"
      using gp[of c] j cb that by (simp add: q_def)
    moreover have "q = i" if "j = c" using cb that by (simp add: q_def)
    moreover have "q \<noteq> i" if "j = i" using j that by (auto simp: q_def)
    ultimately show "rank (swap xs i c ! ((j - 1) div 2)) \<le> rank (swap xs i c ! j)"
      unfolding q_def[symmetric] using j bad cb q by (cases "j = c"; cases "j = i") (simp_all add: nth_swap)
  next
    fix j assume j: "0 < c \<and> 0 < j \<and> j < length (swap xs i c) \<and> (j - 1) div 2 = c"
    have "c < j" using j by linarith
    moreover have "rank (xs ! c) \<le> rank (xs ! j)" using up[of j] cb j by simp
    ultimately show "rank (swap xs i c ! ((c - 1) div 2)) \<le> rank (swap xs i c ! j)"
      using j cb by (simp add: nth_swap)
  qed
qed

lemma sift_down_correct:
  "heap_but_down rank xs i \<Longrightarrow>
   heap_ok rank (sift_down (by_rank rank) xs i) \<and> mset (sift_down (by_rank rank) xs i) = mset xs"
proof (induction "by_rank rank" xs i rule: sift_down.induct)
  case (1 xs i)
  let ?c = "larger_child (by_rank rank) xs i"
  show ?case
  proof (cases "2 * i + 1 < length xs \<and> by_rank rank (xs ! i) (xs ! ?c)")
    case True
    then have "heap_but_down rank (swap xs i ?c) ?c"
      using heap_but_down_step[of rank xs i ?c] "1.prems" by (auto simp: by_rank_def)
    moreover have "?c < length xs" "i < length xs"
      using larger_child_bounds[of i xs "by_rank rank"] True by auto
    ultimately show ?thesis
      using 1 True by (subst (1 2) sift_down.simps) (simp add: mset_swap_eq)
  next
    case False
    have "heap_ok rank xs"
      unfolding heap_ok_def
    proof (intro allI impI)
      fix j assume j: "0 < j \<and> j < length xs"
      show "rank (xs ! ((j - 1) div 2)) \<le> rank (xs ! j)"
      proof (cases "(j - 1) div 2 = i")
        case True
        then have "2 * i + 1 < length xs" using j parent_cases[of j i] by auto
        with False True j larger_child_min[of i xs j rank] show ?thesis
          by (auto simp: by_rank_def)
      next
        case False
        with j "1.prems" show ?thesis by (auto simp: heap_but_down_def)
      qed
    qed
    with False show ?thesis by (subst (1 2) sift_down.simps) auto
  qed
qed

lemma heap_pop_correct:
  assumes "heap_ok rank xs" and "xs \<noteq> []"
  shows "heap_ok rank (heap_pop (by_rank rank) xs) \<and>
    mset (heap_pop (by_rank rank) xs) = mset xs - {#hd xs#}"
proof (cases "length xs \<le> 1")
  case True
  with assms show ?thesis by (cases xs) (auto simp: heap_pop_def heap_ok_def)
next
  case False
  let ?ys = "(butlast xs)[0 := last xs]"
  have "heap_but_down rank ?ys 0"
    unfolding heap_but_down_def
  proof (intro conjI allI impI)
    fix j assume j: "0 < j \<and> j < length ?ys \<and> (j - 1) div 2 \<noteq> 0"
    then have "(j - 1) div 2 < length (butlast xs)" by auto
    with j assms show "rank (?ys ! ((j - 1) div 2)) \<le> rank (?ys ! j)"
      by (auto simp: heap_ok_def nth_butlast)
  qed auto
  from sift_down_correct[OF this] False
  have "heap_ok rank (heap_pop (by_rank rank) xs) \<and>
      mset (heap_pop (by_rank rank) xs) = mset ?ys"
    by (simp add: heap_pop_def)
  moreover have "mset ?ys = mset xs - {#hd xs#}"
  proof -
    obtain x ys where xs: "xs = x # ys" "ys \<noteq> []" using False by (cases xs) auto
    then have "?ys = last ys # butlast ys" by simp
    moreover have "add_mset (last ys) (mset (butlast ys)) = mset ys"
      using xs(2) by (metis append_butlast_last_id mset.simps(1,2) mset_append union_mset_add_mset_right add.right_neutral)
    ultimately show ?thesis using xs by simp
  qed
  ultimately show ?thesis by simp
qed

lemma heap_root_min:
  assumes "heap_ok rank xs"
  shows "j < length xs \<Longrightarrow> rank (xs ! 0) \<le> rank (xs ! j)"
proof (induction j rule: less_induct)
  case (less j)
  show ?case
  proof (cases "j = 0")
    case False
    then have "(j - 1) div 2 < j" by linarith
    with less False have "rank (xs ! 0) \<le> rank (xs ! ((j - 1) div 2))" by auto
    also have "\<dots> \<le> rank (xs ! j)" using assms less False by (auto simp: heap_ok_def)
    finally show ?thesis .
  qed simp
qed

section \<open>The interface of a reaction queue\<close>

text \<open>
  What the client relies on: an element is in the queue at most once, popping removes the
  top, and the top has the least rank. Draining is the client's loop.
\<close>

fun drain ::
  "('q \<Rightarrow> bool) \<Rightarrow> ('q \<Rightarrow> exn + 'a) \<Rightarrow> ('q \<Rightarrow> exn + 'q) \<Rightarrow> nat \<Rightarrow> 'q \<Rightarrow> 'a list option" where
  "drain is_empty front pop 0 q = (if is_empty q then Some [] else None)"
| "drain is_empty front pop (Suc n) q =
     (if is_empty q then Some []
      else (case front q of
              Inl e \<Rightarrow> None
            | Inr x \<Rightarrow>
                (case pop q of
                   Inl e \<Rightarrow> None
                 | Inr q' \<Rightarrow> map_option (Cons x) (drain is_empty front pop n q'))))"

locale reaction_queue =
  fixes push :: "'a \<Rightarrow> 'q \<Rightarrow> 'q"
    and pop :: "'q \<Rightarrow> exn + 'q"
    and front :: "'q \<Rightarrow> exn + 'a"
    and is_empty :: "'q \<Rightarrow> bool"
    and elems :: "'q \<Rightarrow> 'a set"
    and rank :: "'a \<Rightarrow> int"
    and ok :: "'q \<Rightarrow> bool"
  assumes ok_push: "ok q \<Longrightarrow> ok (push x q)"
    and elems_push: "ok q \<Longrightarrow> elems (push x q) = insert x (elems q)"
    and finite_elems: "ok q \<Longrightarrow> finite (elems q)"
    and is_empty_iff: "ok q \<Longrightarrow> is_empty q \<longleftrightarrow> elems q = {}"
    and top_pop: "ok q \<Longrightarrow> elems q \<noteq> {} \<Longrightarrow>
      \<exists>x q'. front q = Inr x \<and> pop q = Inr q' \<and> ok q' \<and> x \<in> elems q \<and>
        elems q' = elems q - {x} \<and> (\<forall>y \<in> elems q. rank x \<le> rank y)"
begin

lemma drain_total:
  "ok q \<Longrightarrow> card (elems q) \<le> n \<Longrightarrow>
   \<exists>xs. drain is_empty front pop n q = Some xs \<and> distinct xs \<and> set xs = elems q \<and> sorted (map rank xs)"
proof (induction n arbitrary: q)
  case 0
  then show ?case by (simp add: is_empty_iff finite_elems)
next
  case (Suc n)
  show ?case
  proof (cases "elems q = {}")
    case True
    with Suc.prems show ?thesis by (simp add: is_empty_iff)
  next
    case False
    then obtain x q' where t: "front q = Inr x" "pop q = Inr q'" "ok q'" "x \<in> elems q"
        "elems q' = elems q - {x}" "\<forall>y \<in> elems q. rank x \<le> rank y"
      using top_pop Suc.prems by blast
    with Suc.prems have "card (elems q') \<le> n" by (simp add: finite_elems)
    with Suc.IH t(3) obtain xs where "drain is_empty front pop n q' = Some xs" "distinct xs"
        "set xs = elems q'" "sorted (map rank xs)"
      by blast
    with t False Suc.prems show ?thesis by (auto simp: is_empty_iff intro!: exI[of _ "x # xs"])
  qed
qed

lemma pushes: "ok q \<Longrightarrow> ok (fold push xs q) \<and> elems (fold push xs q) = elems q \<union> set xs"
  by (induction xs arbitrary: q) (auto simp: ok_push elems_push)

end

definition upq_ok :: "('a::linorder \<Rightarrow> int) \<Rightarrow> 'a unique_priority_queue \<Rightarrow> bool" where
  "upq_ok rank q \<longleftrightarrow> heap_ok rank (m_queue q) \<and> distinct (m_queue q) \<and>
     set (m_queue q) = set (m_elementsInQueue q) \<and> sorted_wrt (<) (m_elementsInQueue q)"

lemma upq_ok_new [simp]: "upq_ok rank upq_new"
  by (simp add: upq_ok_def upq_new_def heap_ok_def)

lemma set_heap_push:
  "heap_ok rank xs \<Longrightarrow> set (heap_push (by_rank rank) xs x) = insert x (set xs)"
  using heap_push_correct[of rank xs x] by (metis set_mset_add_mset_insert set_mset_mset)

lemma distinct_heap_push:
  "heap_ok rank xs \<Longrightarrow> x \<notin> set xs \<Longrightarrow> distinct xs \<Longrightarrow> distinct (heap_push (by_rank rank) xs x)"
  using heap_push_correct[of rank xs x] mset_eq_imp_distinct_iff[of _ "x # xs"]
  by (metis distinct.simps(2) mset.simps(2))

lemma upq_ok_push: "upq_ok rank q \<Longrightarrow> upq_ok rank (upq_push (by_rank rank) x q)"
  using heap_push_correct[of rank "m_queue q" x]
  by (auto simp: upq_ok_def upq_push_def set_heap_push distinct_heap_push)

lemma heap_pop_distinct:
  assumes "heap_ok rank xs" "xs \<noteq> []" "distinct xs"
  shows "distinct (heap_pop (by_rank rank) xs) \<and> set (heap_pop (by_rank rank) xs) = set xs - {hd xs}"
proof -
  have m: "mset (heap_pop (by_rank rank) xs) = mset (tl xs)"
    using heap_pop_correct[OF assms(1,2)] assms(2) by (cases xs) auto
  have "distinct (heap_pop (by_rank rank) xs) = distinct (tl xs)"
    using m by (rule mset_eq_imp_distinct_iff)
  moreover have "set (heap_pop (by_rank rank) xs) = set (tl xs)"
    using m by (rule mset_eq_setD)
  ultimately show ?thesis using assms by (cases xs) auto
qed

lemma upq_top_pop:
  assumes "upq_ok rank q" "set (m_elementsInQueue q) \<noteq> {}"
  shows "\<exists>x q'. upq_top q = Inr x \<and> upq_pop (by_rank rank) q = Inr q' \<and> upq_ok rank q' \<and>
    x \<in> set (m_elementsInQueue q) \<and>
    set (m_elementsInQueue q') = set (m_elementsInQueue q) - {x} \<and>
    (\<forall>y \<in> set (m_elementsInQueue q). rank x \<le> rank y)"
proof -
  obtain x xs where q: "m_queue q = x # xs"
    using assms by (cases "m_queue q") (auto simp: upq_ok_def)
  have h: "heap_ok rank (m_queue q)" and d: "distinct (m_queue q)"
    and s: "set (m_elementsInQueue q) = set (m_queue q)"
    using assms by (auto simp: upq_ok_def)
  have "rank x \<le> rank y" if "y \<in> set (m_queue q)" for y
    using that heap_root_min[OF h] q by (metis in_set_conv_nth nth_Cons_0)
  moreover have "upq_top q = Inr x" using q by (simp add: upq_top_def)
  ultimately show ?thesis
    using heap_pop_distinct[OF h _ d] heap_pop_correct[OF h] q s assms(1)
    by (auto simp: upq_pop_def upq_ok_def)
qed

interpretation upq: reaction_queue
  "upq_push (by_rank rank)" "upq_pop (by_rank rank)" upq_top upq_empty
  "\<lambda>q. set (m_elementsInQueue q)" rank "upq_ok rank" for rank :: "'a::linorder \<Rightarrow> int"
proof unfold_locales
  fix q :: "'a unique_priority_queue" and x
  assume ok: "upq_ok rank q"
  show "upq_ok rank (upq_push (by_rank rank) x q)" using ok by (rule upq_ok_push)
  show "set (m_elementsInQueue (upq_push (by_rank rank) x q)) = insert x (set (m_elementsInQueue q))"
    by (auto simp: upq_push_def)
  show "upq_empty q \<longleftrightarrow> set (m_elementsInQueue q) = {}"
    using ok by (auto simp: upq_empty_def upq_ok_def)
qed (rule finite_set, rule upq_top_pop)

text \<open>
  C21. A child that asks for a reaction several times reacts once, and children react in
  priority order: whatever is pushed, in whatever order and however often, draining the
  queue gives every pushed element exactly once, in the order of the rank.
\<close>

theorem upq_drain_unique_sorted:
  "\<exists>ys. drain upq_empty upq_top (upq_pop (by_rank rank)) (length xs)
          (fold (upq_push (by_rank rank)) xs upq_new) = Some ys \<and>
        distinct ys \<and> set ys = set xs \<and> sorted (map rank ys)"
proof -
  let ?q = "fold (upq_push (by_rank rank)) xs upq_new"
  have ok: "upq_ok rank ?q" and el: "set (m_elementsInQueue ?q) = set xs"
    using upq.pushes[of rank upq_new xs] upq_ok_new[of rank] by (auto simp: upq_new_def)
  have "card (set (m_elementsInQueue ?q)) \<le> length xs"
    unfolding el by (rule card_length)
  from upq.drain_total[OF ok this] show ?thesis unfolding el by blast
qed

text \<open>Popping or reading the top of an empty queue is undefined, as in the source.\<close>

lemma upq_pop_empty: "upq_pop c upq_new = Inl (Fatal EmptyContainer)"
  by (simp add: upq_pop_def upq_top_def upq_new_def)

end
