(* ===== verification/CancellationToken.thy ===== *)
theory CancellationToken
  imports Prelude
begin

text \<open>
  \<open>src/src/CancellationToken.h\<close>: an atomic flag and a timed mutex that the token holds from
  its construction until it is cancelled. A sleeper waits for the mutex in chunks of at most
  an hour, so that cancelling wakes it. Whether an attempt to take the mutex succeeds within
  its time-out is decided by the environment (\<open>acquired k\<close> for the \<open>k\<close>-th attempt).
\<close>

section \<open>The token\<close>

record cancellation_token =
  m_isCanceled :: bool
  m_timedLock :: bool  \<comment> \<open>the mutex is held\<close>

definition new_token :: cancellation_token where
  "new_token = \<lparr>m_isCanceled = False, m_timedLock = True\<rparr>"

definition IsCanceled :: "cancellation_token \<Rightarrow> bool" where
  "IsCanceled t = m_isCanceled t"

definition Cancel :: "cancellation_token \<Rightarrow> cancellation_token" where
  "Cancel t = (if \<not> IsCanceled t then t\<lparr>m_isCanceled := True, m_timedLock := False\<rparr> else t)"

definition destroy_token :: "cancellation_token \<Rightarrow> cancellation_token" where
  "destroy_token t = (if \<not> m_isCanceled t then t\<lparr>m_timedLock := False\<rparr> else t)"

text \<open>The mutex is held exactly as long as the token is not cancelled.\<close>

definition token_ok :: "cancellation_token \<Rightarrow> bool" where
  "token_ok t \<longleftrightarrow> m_timedLock t = (\<not> m_isCanceled t)"

lemma token_ok_new [simp]: "token_ok new_token"
  by (simp add: token_ok_def new_token_def)

lemma token_ok_Cancel [wf_intros]: "token_ok t \<Longrightarrow> token_ok (Cancel t)"
  by (simp add: token_ok_def Cancel_def IsCanceled_def)

lemma IsCanceled_new [simp]: "\<not> IsCanceled new_token"
  by (simp add: IsCanceled_def new_token_def)

lemma IsCanceled_Cancel [simp]: "IsCanceled (Cancel t)"
  by (simp add: Cancel_def IsCanceled_def)

lemma Cancel_idem [simp]: "Cancel (Cancel t) = Cancel t"
  by (simp add: Cancel_def IsCanceled_def)

lemma destroy_token_unlocks: "token_ok t \<Longrightarrow> \<not> m_timedLock (destroy_token t)"
  by (simp add: token_ok_def destroy_token_def)

section \<open>Sleeping\<close>

text \<open>
  The loop of \<open>SleepFor\<close> on a duration in milliseconds. The result lists the time-outs it
  passed to \<open>try_lock_for\<close>, and says whether it left early because it got the mutex (which it
  releases at once).
\<close>

definition sleepInterval :: int where
  "sleepInterval = 3600000"

function sleep_loop :: "(nat \<Rightarrow> bool) \<Rightarrow> nat \<Rightarrow> int \<Rightarrow> int list \<times> bool" where
  "sleep_loop acquired k timeLeft =
     (if timeLeft > 0
      then let timeToSleep = min timeLeft sleepInterval in
           if acquired k then ([timeToSleep], True)
           else let rest = sleep_loop acquired (Suc k) (timeLeft - timeToSleep) in
                (timeToSleep # fst rest, snd rest)
      else ([], False))"
  by pat_completeness auto
termination
  by (relation "measure (\<lambda>(a, k, t). nat t)") (auto simp: sleepInterval_def min_def)

declare sleep_loop.simps [simp del]

definition SleepFor :: "(nat \<Rightarrow> bool) \<Rightarrow> int \<Rightarrow> int list \<times> bool" where
  "SleepFor acquired duration = sleep_loop acquired 0 duration"

definition chunk_count :: "int \<Rightarrow> nat" where
  "chunk_count d = nat ((d + (sleepInterval - 1)) div sleepInterval)"

lemma chunk_count_nonpos: "d \<le> 0 \<Longrightarrow> chunk_count d = 0"
  by (simp add: chunk_count_def sleepInterval_def)

lemma chunk_count_step:
  "0 < d \<Longrightarrow> chunk_count d = Suc (chunk_count (d - min d sleepInterval))"
  unfolding chunk_count_def sleepInterval_def min_def by (simp split: if_split) linarith

lemma sleep_chunks: "\<forall>c \<in> set (fst (sleep_loop a k d)). 0 < c \<and> c \<le> sleepInterval"
proof (induction a k d rule: sleep_loop.induct)
  case (1 a k d)
  show ?case
  proof (cases "0 < d")
    case True
    with "1.IH"[OF True refl] show ?thesis
      by (subst sleep_loop.simps) (auto simp: Let_def sleepInterval_def)
  next
    case False
    then show ?thesis by (subst sleep_loop.simps) simp
  qed
qed

lemma sleep_undisturbed:
  assumes "\<forall>j. k \<le> j \<and> j < k + chunk_count d \<longrightarrow> \<not> a j"
  shows "sum_list (fst (sleep_loop a k d)) = max 0 d \<and>
    length (fst (sleep_loop a k d)) = chunk_count d \<and> \<not> snd (sleep_loop a k d)"
  using assms
proof (induction a k d rule: sleep_loop.induct)
  case (1 a k d)
  show ?case
  proof (cases "0 < d")
    case True
    let ?c = "min d sleepInterval"
    have s: "chunk_count d = Suc (chunk_count (d - ?c))"
      using True by (rule chunk_count_step)
    with "1.prems" have n: "\<not> a k" by simp
    have "\<forall>j. Suc k \<le> j \<and> j < Suc k + chunk_count (d - ?c) \<longrightarrow> \<not> a j"
      using "1.prems" s by simp
    from "1.IH"[OF True refl n this]
    show ?thesis using True n s
      by (subst (1 2 3) sleep_loop.simps) (simp add: Let_def max_def min_def)
  next
    case False
    then show ?thesis by (subst (1 2 3) sleep_loop.simps) (simp add: chunk_count_nonpos)
  qed
qed

lemma sleep_released:
  assumes "a (k + n)" and "n < chunk_count d" and "\<forall>j < n. \<not> a (k + j)"
  shows "sleep_loop a k d = (replicate n sleepInterval @ [min (d - int n * sleepInterval) sleepInterval], True)"
  using assms
proof (induction a k d arbitrary: n rule: sleep_loop.induct)
  case (1 a k d)
  let ?c = "min d sleepInterval"
  from "1.prems"(2) have pos: "0 < d"
    by (cases "0 < d") (auto simp: chunk_count_nonpos)
  show ?case
  proof (cases n)
    case 0
    with "1.prems" pos show ?thesis by (subst sleep_loop.simps) (simp add: Let_def)
  next
    case (Suc m)
    with "1.prems" have n: "\<not> a k" by (metis add_0_right zero_less_Suc)
    have "a (Suc k + m)" "\<forall>j < m. \<not> a (Suc k + j)"
      using "1.prems" Suc by auto
    moreover have m: "m < chunk_count (d - ?c)"
      using "1.prems"(2) Suc chunk_count_step[OF pos] by simp
    ultimately have "sleep_loop a (Suc k) (d - ?c) =
        (replicate m sleepInterval @ [min (d - ?c - int m * sleepInterval) sleepInterval], True)"
      using "1.IH"[OF pos refl n] by blast
    moreover have "0 < d - ?c" using m chunk_count_nonpos[of "d - ?c"] by (cases "0 < d - ?c") simp_all
    then have "?c = sleepInterval" by (simp add: min_def split: if_splits)
    ultimately show ?thesis using pos n Suc by (subst sleep_loop.simps) (simp add: Let_def algebra_simps)
  qed
qed

text \<open>
  C32. No chunk that \<open>SleepFor\<close> waits for exceeds one hour, whatever the requested duration, and an
  uninterrupted sleep waits for exactly that duration in \<open>ceiling (d / 1h)\<close> chunks. If attempt
  \<open>n\<close> is the first to find the mutex free (the token was cancelled), the sleep ends there and then, after
  \<open>n\<close> full hours and that attempt, and says so.
\<close>

theorem SleepFor_chunks:
  "(\<forall>c \<in> set (fst (SleepFor acquired d)). 0 < c \<and> c \<le> sleepInterval) \<and>
   ((\<forall>j < chunk_count d. \<not> acquired j) \<longrightarrow>
      SleepFor acquired d = (fst (SleepFor acquired d), False) \<and>
      sum_list (fst (SleepFor acquired d)) = max 0 d \<and>
      length (fst (SleepFor acquired d)) = chunk_count d) \<and>
   (\<forall>n < chunk_count d. acquired n \<and> (\<forall>j < n. \<not> acquired j) \<longrightarrow>
      SleepFor acquired d = (replicate n sleepInterval @ [min (d - int n * sleepInterval) sleepInterval], True))"
  using sleep_chunks[of acquired 0 d] sleep_undisturbed[of 0 d acquired] sleep_released[of acquired 0 _ d]
  by (auto simp: SleepFor_def prod_eq_iff)

text \<open>Two and a half hours; and the same, cancelled in the second hour.\<close>

lemma SleepFor_chunks_witness:
  "sum_list (fst (SleepFor (\<lambda>_. False) 9000000)) = 9000000 \<and> length (fst (SleepFor (\<lambda>_. False) 9000000)) = 3 \<and>
   SleepFor (\<lambda>k. k = 1) 9000000 = ([3600000, 3600000], True)"
  using SleepFor_chunks[of "\<lambda>_. False" 9000000] SleepFor_chunks[of "\<lambda>k. k = 1" 9000000]
  by (simp add: chunk_count_def sleepInterval_def)

text \<open>With the token's own mutex: a cancelled token lets a sleeper go at once, any other lets it sleep on.\<close>

lemma token_sleep:
  assumes "token_ok t" and "0 < d"
  shows "SleepFor (\<lambda>_. \<not> m_timedLock (Cancel t)) d = ([min d sleepInterval], True)"
    and "\<not> IsCanceled t \<Longrightarrow> sum_list (fst (SleepFor (\<lambda>_. \<not> m_timedLock t) d)) = d"
proof -
  have "m_timedLock (Cancel t) = False" using token_ok_Cancel[OF assms(1)] IsCanceled_Cancel[of t] by (simp add: token_ok_def IsCanceled_def)
  moreover have "0 < chunk_count d" using chunk_count_step[OF assms(2)] by simp
  ultimately show "SleepFor (\<lambda>_. \<not> m_timedLock (Cancel t)) d = ([min d sleepInterval], True)"
    using sleep_released[of "\<lambda>_. \<not> m_timedLock (Cancel t)" 0 0 d] by (simp add: SleepFor_def)
  show "sum_list (fst (SleepFor (\<lambda>_. \<not> m_timedLock t) d)) = d" if "\<not> IsCanceled t"
    using that assms sleep_undisturbed[of 0 d "\<lambda>_. \<not> m_timedLock t"] by (simp add: SleepFor_def token_ok_def IsCanceled_def)
qed

end
