(* ===== verification/Director.thy ===== *)
theory Director
  imports CancellationToken "HOL-Library.Product_Lexorder"
begin

text \<open>
  \<open>src/src/Director.h\<close> and \<open>Director.cpp\<close>, the data and the operations on the callback
  queue. A callback is an opaque value of type \<open>'cb\<close> (the runtime gives it a meaning). The
  state is the director's members followed by what they share with other threads: the
  cancellation tokens, the futures, the activations of \<open>ExecuteInternal\<close> that were launched
  and have not run, the system clock and the outcomes of thread creation.
\<close>

section \<open>State\<close>

record 'cb scheduled_callback =
  callbackFunction :: 'cb
  delayInMilliseconds :: int
  isPeriodic :: bool
  cb_priority :: int
  nextExecutionTimeInMilliseconds :: int

type_synonym 'cb callback_map = "(int, 'cb scheduled_callback) smap"

record 'cb director =
  m_nextCallbackId :: int
  m_scheduledCallbacks :: "'cb callback_map"
  m_callbackQueue :: "int list"
  m_currentLogicalTime :: int
  m_startTime :: int
  m_nextScheduledExecutionTime :: int
  m_executionResult :: "nat option"             \<comment> \<open>index into \<open>futures\<close>\<close>
  m_executionCancellationToken :: "nat option"  \<comment> \<open>index into \<open>tokens\<close>\<close>

text \<open>
  A future is pending, holds a value or an exception, or was read (\<open>valid()\<close> is false). An
  activation is a launched thread: its delay, its promise (null when it was lost in a failed
  launch) and its token.
\<close>

datatype future_state = Pending | Ready bool | Failed exn | Retrieved

record activation =
  act_delay :: int
  act_promise :: "nat option"
  act_token :: nat

datatype spawn_outcome = SpawnOk | SpawnAgain | SpawnFailed

record 'cb dstate = "'cb director" +
  tokens :: "cancellation_token list"
  futures :: "future_state list"
  threads :: "activation list"
  clock :: "nat \<Rightarrow> (int \<times> int) option"  \<comment> \<open>readings of \<open>timespec_get\<close>: seconds and nanoseconds\<close>
  ticks :: nat
  spawnOutcomes :: "spawn_outcome list"  \<comment> \<open>then thread creation succeeds\<close>
  naps :: "int list"  \<comment> \<open>the time-outs that sleeping threads passed to \<open>try_lock_for\<close>, in order\<close>

section \<open>Operations\<close>

definition DefaultNextExecutionTime :: int where
  "DefaultNextExecutionTime = LLONG_MAX"

definition trunc_div :: "int \<Rightarrow> int \<Rightarrow> int" where
  "trunc_div a b = sgn a * sgn b * (\<bar>a\<bar> div \<bar>b\<bar>)"

text \<open>
  The arithmetic of \<open>timespec\<close> values is exact here: the product of the seconds by 1000 leaves the range
  of \<open>long long\<close> only for a clock that is more than 292 million years off, which is outside the model.
  Sums of times and delays, which a caller can make overflow, are checked where they are computed.
\<close>

definition timespec_to_milliseconds :: "(int \<times> int) option \<Rightarrow> int" where
  "timespec_to_milliseconds t =
     (case t of None \<Rightarrow> -1 | Some (sec, nsec) \<Rightarrow> sec * 1000 + trunc_div nsec 1000000)"

definition PosixUtcInMilliseconds :: "('cb, 'z) dstate_scheme \<Rightarrow> int \<times> ('cb, 'z) dstate_scheme" where
  "PosixUtcInMilliseconds d =
     (timespec_to_milliseconds (clock d (ticks d)), d\<lparr>ticks := Suc (ticks d)\<rparr>)"

definition Director_new ::
  "(nat \<Rightarrow> (int \<times> int) option) \<Rightarrow> spawn_outcome list \<Rightarrow> 'cb dstate" where
  "Director_new clk os =
     (let now = timespec_to_milliseconds (clk 0) in
      \<lparr>m_nextCallbackId = 0, m_scheduledCallbacks = [], m_callbackQueue = [],
       m_currentLogicalTime = now, m_startTime = now,
       m_nextScheduledExecutionTime = DefaultNextExecutionTime,
       m_executionResult = None, m_executionCancellationToken = None,
       tokens = [], futures = [], threads = [], clock = clk, ticks = 1, spawnOutcomes = os, naps = []\<rparr>)"

definition StopExecution :: "('cb, 'z) dstate_scheme \<Rightarrow> ('cb, 'z) dstate_scheme" where
  "StopExecution d =
     (case m_executionCancellationToken d of
        None \<Rightarrow> d
      | Some t \<Rightarrow> d\<lparr>tokens := (tokens d)[t := Cancel (tokens d ! t)],
                     m_executionCancellationToken := None\<rparr>)"

definition GetNextQueuedExecutionTime :: "('cb, 'z) dstate_scheme \<Rightarrow> exn + int" where
  "GetNextQueuedExecutionTime d =
     (case m_callbackQueue d of
        [] \<Rightarrow> Inr DefaultNextExecutionTime
      | i # _ \<Rightarrow>
          (case map_of (m_scheduledCallbacks d) i of
             None \<Rightarrow> Inl OutOfRange
           | Some c \<Rightarrow> Inr (nextExecutionTimeInMilliseconds c)))"

text \<open>
  The do-while loop around the thread's constructor: the unique pointer to the promise moves
  into the first attempt, so an attempt after a failed one passes a null pointer.
\<close>

fun launch :: "nat option \<Rightarrow> spawn_outcome list \<Rightarrow> (exn + nat option) \<times> spawn_outcome list" where
  "launch pr [] = (Inr pr, [])"
| "launch pr (SpawnOk # os) = (Inr pr, os)"
| "launch pr (SpawnAgain # os) = launch None os"
| "launch pr (SpawnFailed # os) = (Inl SystemError, os)"

definition ScheduleNextExecution ::
  "('cb, 'z) dstate_scheme \<Rightarrow> (unit, ('cb, 'z) dstate_scheme) run" where
  "ScheduleNextExecution d =
     (let (now, d1) = PosixUtcInMilliseconds d;
          untilNext = m_nextScheduledExecutionTime d1 - now
      in if \<not> fits_llong untilNext then Throw (Fatal SignedOverflow) d1
         else
           let tok = length (tokens d1);
               fut = length (futures d1);
               d2 = d1\<lparr>m_executionCancellationToken := Some tok, tokens := tokens d1 @ [new_token],
                       m_executionResult := Some fut, futures := futures d1 @ [Pending]\<rparr>;
               broken = (futures d2)[fut := Failed FutureError]
           in case launch (Some fut) (spawnOutcomes d2) of
                (Inl e, os) \<Rightarrow> Throw e (d2\<lparr>spawnOutcomes := os, futures := broken\<rparr>)
              | (Inr pr, os) \<Rightarrow>
                  Ret () (d2\<lparr>spawnOutcomes := os,
                            futures := (if pr = None then broken else futures d2),
                            threads := threads d2 @
                              [\<lparr>act_delay = max untilNext 0, act_promise = pr, act_token = tok\<rparr>]\<rparr>))"

definition ScheduledCallbackExistsInMap :: "int \<Rightarrow> ('cb, 'z) dstate_scheme \<Rightarrow> bool" where
  "ScheduledCallbackExistsInMap i d \<longleftrightarrow> map_of (m_scheduledCallbacks d) i \<noteq> None"

definition RemoveScheduledCallbackFromMap ::
  "int \<Rightarrow> ('cb, 'z) dstate_scheme \<Rightarrow> ('cb, 'z) dstate_scheme" where
  "RemoveScheduledCallbackFromMap i d =
     d\<lparr>m_scheduledCallbacks := smap_erase i (m_scheduledCallbacks d)\<rparr>"

text \<open>The while loop of \<open>QueueScheduledCallback\<close>: the index at which the new id goes.\<close>

fun insertion_index :: "'cb callback_map \<Rightarrow> int \<Rightarrow> int list \<Rightarrow> exn + nat" where
  "insertion_index m newId [] = Inr 0"
| "insertion_index m newId (queuedId # rest) =
     (case (map_of m newId, map_of m queuedId) of
        (Some c, Some c') \<Rightarrow>
          let later = map_sum id Suc (insertion_index m newId rest) in
          if nextExecutionTimeInMilliseconds c < nextExecutionTimeInMilliseconds c' then Inr 0
          else if nextExecutionTimeInMilliseconds c > nextExecutionTimeInMilliseconds c' then later
          else if cb_priority c < cb_priority c' then Inr 0
          else if cb_priority c > cb_priority c' then later
          else if newId < queuedId then Inr 0
          else if newId > queuedId then later
          else Inl (Fatal AssertionFailed)
      | _ \<Rightarrow> Inl OutOfRange)"

definition QueueScheduledCallback ::
  "int \<Rightarrow> ('cb, 'z) dstate_scheme \<Rightarrow> (unit, ('cb, 'z) dstate_scheme) run" where
  "QueueScheduledCallback newId d =
     (if m_callbackQueue d = [] then Ret () (d\<lparr>m_callbackQueue := [newId]\<rparr>)
      else case insertion_index (m_scheduledCallbacks d) newId (m_callbackQueue d) of
             Inl e \<Rightarrow> Throw e d
           | Inr i \<Rightarrow> Ret () (d\<lparr>m_callbackQueue :=
                         take i (m_callbackQueue d) @ newId # drop i (m_callbackQueue d)\<rparr>))"

definition ScheduleCallback ::
  "'cb \<Rightarrow> int \<Rightarrow> bool \<Rightarrow> int \<Rightarrow> ('cb, 'z) dstate_scheme \<Rightarrow> (int, ('cb, 'z) dstate_scheme) run" where
  "ScheduleCallback callback delay periodic prio d =
     (let executionTime = m_currentLogicalTime d + delay;
          newCallback = \<lparr>callbackFunction = callback, delayInMilliseconds = delay,
            isPeriodic = periodic, cb_priority = prio,
            nextExecutionTimeInMilliseconds = executionTime\<rparr>;
          newId = m_nextCallbackId d
      in if \<not> fits_llong executionTime \<or> \<not> fits_int (newId + 1)
         then Throw (Fatal SignedOverflow) d
         else
           run_bind (QueueScheduledCallback newId
               (d\<lparr>m_nextCallbackId := newId + 1,
                  m_scheduledCallbacks := smap_put newId newCallback (m_scheduledCallbacks d)\<rparr>))
             (\<lambda>_ d1.
               if m_nextScheduledExecutionTime d1 > executionTime
               then run_bind
                      (ScheduleNextExecution
                        ((StopExecution d1)\<lparr>m_nextScheduledExecutionTime := executionTime\<rparr>))
                      (\<lambda>_ d2. Ret newId d2)
               else Ret newId d1))"

definition NeedsReset :: "('cb, 'z) dstate_scheme \<Rightarrow> bool" where
  "NeedsReset d \<longleftrightarrow> m_callbackQueue d = [] \<or> m_scheduledCallbacks d = []"

definition Reset :: "('cb, 'z) dstate_scheme \<Rightarrow> ('cb, 'z) dstate_scheme" where
  "Reset d =
     (let d1 = (StopExecution d)\<lparr>m_callbackQueue := [], m_scheduledCallbacks := [],
                 m_nextCallbackId := 0\<rparr>;
          (now, d2) = PosixUtcInMilliseconds d1
      in d2\<lparr>m_currentLogicalTime := now, m_startTime := now,
            m_nextScheduledExecutionTime := DefaultNextExecutionTime\<rparr>)"

definition ClearScheduledCallback ::
  "int \<Rightarrow> ('cb, 'z) dstate_scheme \<Rightarrow> ('cb, 'z) dstate_scheme" where
  "ClearScheduledCallback i d =
     (let d1 = RemoveScheduledCallbackFromMap i
                 (d\<lparr>m_callbackQueue := remove1 i (m_callbackQueue d)\<rparr>)
      in if NeedsReset d1 then Reset d1 else d1)"

text \<open>
  \<open>HandlePriorityUpdate\<close> walks the map in key order; a callback that changes priority while
  it is queued is taken out and queued again.
\<close>

fun update_priorities ::
  "int \<Rightarrow> int \<Rightarrow> int list \<Rightarrow> ('cb, 'z) dstate_scheme \<Rightarrow> (unit, ('cb, 'z) dstate_scheme) run" where
  "update_priorities oldPriority newPriority [] d = Ret () d"
| "update_priorities oldPriority newPriority (i # ids) d =
     (case map_of (m_scheduledCallbacks d) i of
        None \<Rightarrow> update_priorities oldPriority newPriority ids d
      | Some c \<Rightarrow>
          if cb_priority c = oldPriority
          then let d1 = d\<lparr>m_scheduledCallbacks :=
                          smap_put i (c\<lparr>cb_priority := newPriority\<rparr>) (m_scheduledCallbacks d)\<rparr>
               in if i \<in> set (m_callbackQueue d1)
                  then run_bind
                         (QueueScheduledCallback i
                           (d1\<lparr>m_callbackQueue := remove1 i (m_callbackQueue d1)\<rparr>))
                         (\<lambda>_. update_priorities oldPriority newPriority ids)
                  else update_priorities oldPriority newPriority ids d1
          else update_priorities oldPriority newPriority ids d)"

definition HandlePriorityUpdate ::
  "int \<Rightarrow> int \<Rightarrow> ('cb, 'z) dstate_scheme \<Rightarrow> (unit, ('cb, 'z) dstate_scheme) run" where
  "HandlePriorityUpdate oldPriority newPriority d =
     update_priorities oldPriority newPriority (map fst (m_scheduledCallbacks d)) d"

section \<open>The order of the queue\<close>

text \<open>
  The specification of the order: execution time, then accessor priority, then callback id,
  as the lexicographic order of a key. Insertion is compared against the library's
  insertion into a list sorted by that key.
\<close>

definition sched_key :: "'cb callback_map \<Rightarrow> int \<Rightarrow> int \<times> int \<times> int" where
  "sched_key m i =
     (case map_of m i of
        None \<Rightarrow> (0, 0, i)
      | Some c \<Rightarrow> (nextExecutionTimeInMilliseconds c, cb_priority c, i))"

lemma sched_key_id [simp]: "snd (snd (sched_key m i)) = i"
  by (simp add: sched_key_def split: option.split)

lemma sched_key_inj: "sched_key m i = sched_key m j \<longleftrightarrow> i = j"
  by (metis sched_key_id)

lemma insertion_index_insort:
  assumes "map_of m n \<noteq> None" and "\<forall>q \<in> set qs. map_of m q \<noteq> None" and "n \<notin> set qs"
  shows "\<exists>i. insertion_index m n qs = Inr i \<and> i \<le> length qs \<and>
    take i qs @ n # drop i qs = insort_key (sched_key m) n qs"
  using assms
proof (induction qs)
  case (Cons q qs)
  then obtain c c' where c: "map_of m n = Some c" "map_of m q = Some c'" by auto
  from Cons obtain i where i: "insertion_index m n qs = Inr i" "i \<le> length qs"
      "take i qs @ n # drop i qs = insort_key (sched_key m) n qs" by auto
  have stop: "\<exists>j. Inr 0 = (Inr j :: exn + nat) \<and> j \<le> length (q # qs) \<and>
      take j (q # qs) @ n # drop j (q # qs) = n # q # qs" by auto
  have go: "\<exists>j. Inr (Suc i) = (Inr j :: exn + nat) \<and> j \<le> length (q # qs) \<and>
      take j (q # qs) @ n # drop j (q # qs) = q # insort_key (sched_key m) n qs"
    using i by auto
  have k: "sched_key m n = (nextExecutionTimeInMilliseconds c, cb_priority c, n)"
      "sched_key m q = (nextExecutionTimeInMilliseconds c', cb_priority c', q)"
    using c by (simp_all add: sched_key_def)
  from Cons.prems(3) have "n \<noteq> q" by simp
  then show ?case
    using stop go c i(1) by (auto simp: k Let_def)
qed simp

lemma QueueScheduledCallback_insort:
  assumes "map_of (m_scheduledCallbacks d) n \<noteq> None"
    and "\<forall>q \<in> set (m_callbackQueue d). map_of (m_scheduledCallbacks d) q \<noteq> None"
    and "n \<notin> set (m_callbackQueue d)"
  shows "QueueScheduledCallback n d =
    Ret () (d\<lparr>m_callbackQueue := insort_key (sched_key (m_scheduledCallbacks d)) n (m_callbackQueue d)\<rparr>)"
  using insertion_index_insort[OF assms] by (auto simp: QueueScheduledCallback_def)

section \<open>Frames\<close>

text \<open>What an operation leaves alone, as simplification rules.\<close>

lemma StopExecution_simps [simp]:
  "m_nextCallbackId (StopExecution d) = m_nextCallbackId d"
  "m_scheduledCallbacks (StopExecution d) = m_scheduledCallbacks d"
  "m_callbackQueue (StopExecution d) = m_callbackQueue d"
  "m_currentLogicalTime (StopExecution d) = m_currentLogicalTime d"
  "m_nextScheduledExecutionTime (StopExecution d) = m_nextScheduledExecutionTime d"
  "m_executionResult (StopExecution d) = m_executionResult d"
  "m_executionCancellationToken (StopExecution d) = None"
  "futures (StopExecution d) = futures d" "threads (StopExecution d) = threads d"
  "clock (StopExecution d) = clock d" "ticks (StopExecution d) = ticks d"
  "spawnOutcomes (StopExecution d) = spawnOutcomes d"
  "length (tokens (StopExecution d)) = length (tokens d)"
  by (simp_all add: StopExecution_def split: option.split)

lemma StopExecution_idem [simp]: "StopExecution (StopExecution d) = StopExecution d"
  by (simp add: StopExecution_def split: option.split)

lemma Reset_simps [simp]:
  "m_nextCallbackId (Reset d) = 0" "m_scheduledCallbacks (Reset d) = []"
  "m_callbackQueue (Reset d) = []" "m_executionCancellationToken (Reset d) = None"
  "m_nextScheduledExecutionTime (Reset d) = DefaultNextExecutionTime"
  "futures (Reset d) = futures d" "threads (Reset d) = threads d"
  "m_executionResult (Reset d) = m_executionResult d"
  "m_currentLogicalTime (Reset d) = timespec_to_milliseconds (clock d (ticks d))"
  "clock (Reset d) = clock d" "ticks (Reset d) = Suc (ticks d)"
  by (simp_all add: Reset_def PosixUtcInMilliseconds_def Let_def)

lemma RemoveScheduledCallbackFromMap_simps [simp]:
  "m_nextCallbackId (RemoveScheduledCallbackFromMap i d) = m_nextCallbackId d"
  "m_scheduledCallbacks (RemoveScheduledCallbackFromMap i d) = smap_erase i (m_scheduledCallbacks d)"
  "m_callbackQueue (RemoveScheduledCallbackFromMap i d) = m_callbackQueue d"
  "m_nextScheduledExecutionTime (RemoveScheduledCallbackFromMap i d) = m_nextScheduledExecutionTime d"
  by (simp_all add: RemoveScheduledCallbackFromMap_def)

definition same_queue ::
  "('cb, 'z) dstate_scheme \<Rightarrow> ('cb, 'z) dstate_scheme \<Rightarrow> bool" where
  "same_queue d d' \<longleftrightarrow> m_scheduledCallbacks d' = m_scheduledCallbacks d \<and>
     m_callbackQueue d' = m_callbackQueue d \<and> m_nextCallbackId d' = m_nextCallbackId d \<and>
     m_currentLogicalTime d' = m_currentLogicalTime d \<and>
     m_nextScheduledExecutionTime d' = m_nextScheduledExecutionTime d"

lemma ScheduleNextExecution_same_queue:
  "run_prop (same_queue d) (ScheduleNextExecution d)"
  by (simp add: ScheduleNextExecution_def PosixUtcInMilliseconds_def Let_def same_queue_def
      split: prod.split sum.split)

section \<open>The invariant\<close>

definition queue_wf :: "'cb callback_map \<Rightarrow> int list \<Rightarrow> int \<Rightarrow> bool" where
  "queue_wf m q n \<longleftrightarrow> smap_wf m \<and> distinct q \<and> (\<forall>i \<in> set q. map_of m i \<noteq> None) \<and>
     sorted (map (sched_key m) q) \<and> 0 \<le> n \<and> (\<forall>i c. map_of m i = Some c \<longrightarrow> 0 \<le> i \<and> i < n)"

definition director_ok :: "('cb, 'z) dstate_scheme \<Rightarrow> bool" where
  "director_ok d \<longleftrightarrow> queue_wf (m_scheduledCallbacks d) (m_callbackQueue d) (m_nextCallbackId d)"

lemma sched_key_put: "j \<noteq> i \<Longrightarrow> sched_key (smap_put i c m) j = sched_key m j"
  by (simp add: sched_key_def)

lemma sched_key_erase: "j \<noteq> i \<Longrightarrow> sched_key (smap_erase i m) j = sched_key m j"
  by (simp add: sched_key_def)

lemma map_sched_key_put: "i \<notin> set q \<Longrightarrow> map (sched_key (smap_put i c m)) q = map (sched_key m) q"
  by (rule map_cong[OF refl]) (metis sched_key_put)

lemma map_sched_key_erase: "i \<notin> set q \<Longrightarrow> map (sched_key (smap_erase i m)) q = map (sched_key m) q"
  by (rule map_cong[OF refl]) (metis sched_key_erase)

lemma queue_wf_empty [simp]: "queue_wf [] [] 0"
  by (simp add: queue_wf_def)

lemma queue_wf_put_out:
  "queue_wf m q n \<Longrightarrow> i \<notin> set q \<Longrightarrow> 0 \<le> i \<Longrightarrow> i < n \<Longrightarrow> queue_wf (smap_put i c m) q n"
  by (auto simp: queue_wf_def map_sched_key_put split: if_splits)

lemma queue_wf_erase_out: "queue_wf m q n \<Longrightarrow> i \<notin> set q \<Longrightarrow> queue_wf (smap_erase i m) q n"
  by (auto simp: queue_wf_def map_sched_key_erase split: if_splits)

lemma queue_wf_mono: "queue_wf m q n \<Longrightarrow> n \<le> n' \<Longrightarrow> queue_wf m q n'"
  by (fastforce simp: queue_wf_def)

lemma queue_wf_remove1: "queue_wf m q n \<Longrightarrow> queue_wf m (remove1 i q) n"
  using set_remove1_subset[of i q]
  by (auto simp: queue_wf_def distinct_remove1 sorted_map_remove1)

lemma queue_wf_tl: "queue_wf m (i # q) n \<Longrightarrow> queue_wf m q n \<and> i \<notin> set q"
  by (auto simp: queue_wf_def)

lemma queue_wf_insort:
  "queue_wf m q n \<Longrightarrow> map_of m i \<noteq> None \<Longrightarrow> i \<notin> set q \<Longrightarrow> queue_wf m (insort_key (sched_key m) i q) n"
  by (auto simp: queue_wf_def set_insort_key distinct_insort sorted_insort_key)

lemma queue_wf_queue:
  assumes "queue_wf (m_scheduledCallbacks d) (m_callbackQueue d) n"
    and "map_of (m_scheduledCallbacks d) i \<noteq> None" and "i \<notin> set (m_callbackQueue d)"
  shows "QueueScheduledCallback i d =
      Ret () (d\<lparr>m_callbackQueue := insort_key (sched_key (m_scheduledCallbacks d)) i (m_callbackQueue d)\<rparr>) \<and>
    queue_wf (m_scheduledCallbacks d)
      (insort_key (sched_key (m_scheduledCallbacks d)) i (m_callbackQueue d)) n"
  using assms by (auto simp: queue_wf_def QueueScheduledCallback_insort set_insort_key
      distinct_insort sorted_insort_key)

lemma director_ok_new [simp]: "director_ok (Director_new clk os)"
  by (simp add: director_ok_def Director_new_def Let_def)

lemma director_ok_same_queue: "same_queue d d' \<Longrightarrow> director_ok d \<Longrightarrow> director_ok d'"
  by (simp add: same_queue_def director_ok_def)

lemma director_ok_Stop [simp]: "director_ok (StopExecution d) = director_ok d"
  by (simp add: director_ok_def)

lemma director_ok_Reset [simp]: "director_ok (Reset d)"
  by (simp add: director_ok_def)

lemma director_ok_Clear [wf_intros]:
  assumes "director_ok d"
  shows "director_ok (ClearScheduledCallback i d)"
proof -
  from assms have "queue_wf (m_scheduledCallbacks d) (remove1 i (m_callbackQueue d)) (m_nextCallbackId d)"
    and "i \<notin> set (remove1 i (m_callbackQueue d))"
    by (auto simp: director_ok_def queue_wf_remove1, simp add: queue_wf_def)
  then have "queue_wf (smap_erase i (m_scheduledCallbacks d)) (remove1 i (m_callbackQueue d))
      (m_nextCallbackId d)"
    by (rule queue_wf_erase_out)
  then show ?thesis by (simp add: ClearScheduledCallback_def Let_def director_ok_def)
qed

section \<open>Scheduling a callback\<close>

definition new_callback :: "'cb \<Rightarrow> int \<Rightarrow> bool \<Rightarrow> int \<Rightarrow> int \<Rightarrow> 'cb scheduled_callback" where
  "new_callback f delay periodic prio t =
     \<lparr>callbackFunction = f, delayInMilliseconds = delay, isPeriodic = periodic,
      cb_priority = prio, nextExecutionTimeInMilliseconds = t\<rparr>"

text \<open>The state after the new callback is registered and queued, before a thread is armed.\<close>

definition registered ::
  "'cb \<Rightarrow> int \<Rightarrow> bool \<Rightarrow> int \<Rightarrow> ('cb, 'z) dstate_scheme \<Rightarrow> ('cb, 'z) dstate_scheme" where
  "registered f delay periodic prio d =
     (let i = m_nextCallbackId d;
          m = smap_put i (new_callback f delay periodic prio (m_currentLogicalTime d + delay))
                (m_scheduledCallbacks d)
      in d\<lparr>m_nextCallbackId := i + 1, m_scheduledCallbacks := m,
           m_callbackQueue := insort_key (sched_key m) i (m_callbackQueue d)\<rparr>)"

lemma registered_simps [simp]:
  "m_nextCallbackId (registered f delay p prio d) = m_nextCallbackId d + 1"
  "m_nextScheduledExecutionTime (registered f delay p prio d) = m_nextScheduledExecutionTime d"
  "m_currentLogicalTime (registered f delay p prio d) = m_currentLogicalTime d"
  "map_of (m_scheduledCallbacks (registered f delay p prio d)) =
     (map_of (m_scheduledCallbacks d))
       (m_nextCallbackId d \<mapsto> new_callback f delay p prio (m_currentLogicalTime d + delay))"
  "m_callbackQueue (registered f delay p prio d) =
     insort_key (sched_key (m_scheduledCallbacks (registered f delay p prio d)))
       (m_nextCallbackId d) (m_callbackQueue d)"
  by (simp_all add: registered_def Let_def)

lemma ScheduleCallback_registered:
  assumes "director_ok d"
    and "fits_llong (m_currentLogicalTime d + delay)" and "fits_int (m_nextCallbackId d + 1)"
  shows "director_ok (registered f delay p prio d) \<and>
    ScheduleCallback f delay p prio d =
      (if m_nextScheduledExecutionTime d > m_currentLogicalTime d + delay
       then run_bind
              (ScheduleNextExecution
                ((StopExecution (registered f delay p prio d))
                   \<lparr>m_nextScheduledExecutionTime := m_currentLogicalTime d + delay\<rparr>))
              (\<lambda>_. Ret (m_nextCallbackId d))
       else Ret (m_nextCallbackId d) (registered f delay p prio d))"
proof -
  let ?i = "m_nextCallbackId d"
  let ?m = "smap_put ?i (new_callback f delay p prio (m_currentLogicalTime d + delay))
              (m_scheduledCallbacks d)"
  let ?d = "d\<lparr>m_nextCallbackId := ?i + 1, m_scheduledCallbacks := ?m\<rparr>"
  from assms(1) have w: "queue_wf (m_scheduledCallbacks d) (m_callbackQueue d) ?i"
    by (simp add: director_ok_def)
  then have out: "?i \<notin> set (m_callbackQueue d)" and pos: "0 \<le> ?i"
    by (auto simp: queue_wf_def)
  from w have "queue_wf ?m (m_callbackQueue d) (?i + 1)"
    by (intro queue_wf_put_out queue_wf_mono[OF w] out pos) simp_all
  then have q: "QueueScheduledCallback ?i ?d = Ret () (registered f delay p prio d) \<and>
      queue_wf ?m (insort_key (sched_key ?m) ?i (m_callbackQueue d)) (?i + 1)"
    using queue_wf_queue[of ?d "?i + 1" ?i] out by (simp add: registered_def Let_def)
  then show ?thesis
    using assms(2,3)
    by (simp add: ScheduleCallback_def Let_def new_callback_def[symmetric] director_ok_def
        registered_def)
qed

lemma ScheduleCallback_cases:
  "\<not> (fits_llong (m_currentLogicalTime d + delay) \<and> fits_int (m_nextCallbackId d + 1)) \<Longrightarrow>
   ScheduleCallback f delay p prio d = Throw (Fatal SignedOverflow) d"
  by (auto simp: ScheduleCallback_def Let_def)

lemma director_ok_Schedule [wf_intros]:
  assumes "director_ok d"
  shows "run_prop director_ok (ScheduleCallback f delay p prio d)"
proof (cases "fits_llong (m_currentLogicalTime d + delay) \<and> fits_int (m_nextCallbackId d + 1)")
  case True
  let ?r = "registered f delay p prio d"
  let ?d = "(StopExecution ?r)\<lparr>m_nextScheduledExecutionTime := m_currentLogicalTime d + delay\<rparr>"
  from ScheduleCallback_registered[OF assms] True have ok: "director_ok ?r" by blast
  then have "director_ok ?d" by (simp add: director_ok_def)
  then have "run_prop director_ok (ScheduleNextExecution ?d)"
    using ScheduleNextExecution_same_queue director_ok_same_queue by (metis run_prop_mono)
  then have "run_prop director_ok (run_bind (ScheduleNextExecution ?d) (\<lambda>_. Ret (m_nextCallbackId d)))"
    by (rule run_prop_bind) simp
  with ok ScheduleCallback_registered[OF assms, of delay f p prio] True show ?thesis by simp
next
  case False
  then show ?thesis using assms by (simp add: ScheduleCallback_cases)
qed

lemma same_queue_next:
  "same_queue d d' \<Longrightarrow> m_scheduledCallbacks d' = m_scheduledCallbacks d \<and>
     m_callbackQueue d' = m_callbackQueue d \<and> m_nextCallbackId d' = m_nextCallbackId d \<and>
     m_nextScheduledExecutionTime d' = m_nextScheduledExecutionTime d"
  by (simp add: same_queue_def)

lemma ScheduleCallback_ok:
  assumes "director_ok d" and "ScheduleCallback f delay p prio d = Ret i d'"
  shows "map_of (m_scheduledCallbacks d) i = None \<and>
    map_of (m_scheduledCallbacks d') = (map_of (m_scheduledCallbacks d))
      (i \<mapsto> new_callback f delay p prio (m_currentLogicalTime d + delay)) \<and>
    m_callbackQueue d' = insort_key (sched_key (m_scheduledCallbacks d')) i (m_callbackQueue d) \<and>
    m_nextScheduledExecutionTime d' =
      min (m_nextScheduledExecutionTime d) (m_currentLogicalTime d + delay) \<and>
    m_nextCallbackId d' = m_nextCallbackId d + 1 \<and> director_ok d'"
proof -
  let ?r = "registered f delay p prio d"
  let ?t = "m_currentLogicalTime d + delay"
  let ?d = "(StopExecution ?r)\<lparr>m_nextScheduledExecutionTime := ?t\<rparr>"
  have fits: "fits_llong ?t \<and> fits_int (m_nextCallbackId d + 1)"
    using assms(2) ScheduleCallback_cases[of d delay f p prio] by (cases "fits_llong ?t") auto
  note reg = ScheduleCallback_registered[OF assms(1), of delay f p prio]
  have fresh: "map_of (m_scheduledCallbacks d) (m_nextCallbackId d) = None"
    using assms(1) by (cases "map_of (m_scheduledCallbacks d) (m_nextCallbackId d)")
      (auto simp: director_ok_def queue_wf_def)
  have ok: "director_ok d'" using director_ok_Schedule[OF assms(1), of f delay p prio] assms(2) by simp
  show ?thesis
  proof (cases "m_nextScheduledExecutionTime d > ?t")
    case True
    with reg fits assms(2)
    have "run_bind (ScheduleNextExecution ?d) (\<lambda>_. Ret (m_nextCallbackId d)) = Ret i d'" by simp
    then have "i = m_nextCallbackId d" "ScheduleNextExecution ?d = Ret () d'"
      by (auto simp: run_bind_eq_Ret)
    moreover from this have "same_queue ?d d'"
      using ScheduleNextExecution_same_queue[of ?d] by simp
    ultimately show ?thesis
      using True fresh ok by (auto dest!: same_queue_next)
  next
    case False
    with reg fits assms(2) fresh ok show ?thesis by auto
  qed
qed

text \<open>
  C17. A scheduled callback gets a fresh identifier, is due its delay after the current logical
  time, and takes the place in the queue that the order (execution time, then accessor
  priority, then identifier) gives it; the director's next execution is then no later than
  the new callback's.
\<close>

theorem ScheduleCallback_spec:
  assumes "director_ok d" and "ScheduleCallback f delay p prio d = Ret i d'"
  shows "map_of (m_scheduledCallbacks d) i = None \<and>
    map_of (m_scheduledCallbacks d') = (map_of (m_scheduledCallbacks d))
      (i \<mapsto> new_callback f delay p prio (m_currentLogicalTime d + delay)) \<and>
    m_callbackQueue d' = insort_key (sched_key (m_scheduledCallbacks d')) i (m_callbackQueue d) \<and>
    m_nextScheduledExecutionTime d' =
      min (m_nextScheduledExecutionTime d) (m_currentLogicalTime d + delay) \<and>
    m_nextCallbackId d' = m_nextCallbackId d + 1 \<and> director_ok d'"
  using assms by (rule ScheduleCallback_ok)

lemma ScheduleNextExecution_throws:
  "ScheduleNextExecution d = Throw e d' \<Longrightarrow> e = Fatal SignedOverflow \<or> e = SystemError"
proof -
  have "launch pr os = (Inl e, os') \<Longrightarrow> e = SystemError" for pr os e os'
    by (induction pr os rule: launch.induct) auto
  then show "ScheduleNextExecution d = Throw e d' \<Longrightarrow> e = Fatal SignedOverflow \<or> e = SystemError"
    by (auto simp: ScheduleNextExecution_def PosixUtcInMilliseconds_def Let_def split: if_splits prod.splits sum.splits)
qed

lemma ScheduleCallback_throws:
  assumes "director_ok d" and "ScheduleCallback f delay p prio d = Throw e d'"
  shows "e = Fatal SignedOverflow \<or> e = SystemError"
proof (cases "fits_llong (m_currentLogicalTime d + delay) \<and> fits_int (m_nextCallbackId d + 1)")
  case True
  let ?d = "(StopExecution (registered f delay p prio d))\<lparr>m_nextScheduledExecutionTime := m_currentLogicalTime d + delay\<rparr>"
  have "ScheduleNextExecution ?d = Throw e d'"
    using ScheduleCallback_registered[OF assms(1), of delay f p prio] assms(2) True
    by (cases "ScheduleNextExecution ?d") (simp_all split: if_splits)
  then show ?thesis by (rule ScheduleNextExecution_throws)
next
  case False
  then show ?thesis using ScheduleCallback_cases[of d delay f p prio] assms(2) by simp
qed

text \<open>A director that is part of a larger state changes nothing else in it.\<close>

lemma ScheduleNextExecution_more: "run_prop (\<lambda>d'. dstate.more d' = dstate.more d) (ScheduleNextExecution d)"
  by (simp add: ScheduleNextExecution_def PosixUtcInMilliseconds_def Let_def split: prod.split sum.split)

lemma QueueScheduledCallback_more: "run_prop (\<lambda>d'. dstate.more d' = dstate.more d) (QueueScheduledCallback i d)"
  by (auto simp: QueueScheduledCallback_def split: sum.splits)

lemma StopExecution_more [simp]: "dstate.more (StopExecution d) = dstate.more d"
  by (simp add: StopExecution_def split: option.split)

lemma ScheduleCallback_more:
  fixes d :: "('cb, 'z) dstate_scheme"
  shows "run_prop (\<lambda>d'. dstate.more d' = dstate.more d) (ScheduleCallback f delay p prio d)"
proof -
  have next_more: "run_prop (\<lambda>d'. dstate.more d' = dstate.more d)
      (run_bind (ScheduleNextExecution ((StopExecution d1)\<lparr>m_nextScheduledExecutionTime := t\<rparr>)) (\<lambda>_ d2. Ret i d2))"
    if "dstate.more d1 = dstate.more d" for d1 :: "('cb, 'z) dstate_scheme" and t and i :: int
    using ScheduleNextExecution_more[of "(StopExecution d1)\<lparr>m_nextScheduledExecutionTime := t\<rparr>"] that
    by (intro run_prop_bind) simp_all
  define t where "t = m_currentLogicalTime d + delay"
  define d0 where "d0 = d\<lparr>m_nextCallbackId := m_nextCallbackId d + 1, m_scheduledCallbacks :=
    smap_put (m_nextCallbackId d) \<lparr>callbackFunction = f, delayInMilliseconds = delay, isPeriodic = p,
      cb_priority = prio, nextExecutionTimeInMilliseconds = t\<rparr> (m_scheduledCallbacks d)\<rparr>"
  have "run_prop (\<lambda>d'. dstate.more d' = dstate.more d) (QueueScheduledCallback (m_nextCallbackId d) d0)"
    using QueueScheduledCallback_more[of d0 "m_nextCallbackId d"] by (simp add: d0_def)
  then have "run_prop (\<lambda>d'. dstate.more d' = dstate.more d)
      (run_bind (QueueScheduledCallback (m_nextCallbackId d) d0) (\<lambda>_ d1.
         if m_nextScheduledExecutionTime d1 > t
         then run_bind (ScheduleNextExecution ((StopExecution d1)\<lparr>m_nextScheduledExecutionTime := t\<rparr>))
                (\<lambda>_ d2. Ret (m_nextCallbackId d) d2)
         else Ret (m_nextCallbackId d) d1))"
    by (rule run_prop_bind) (use next_more in simp)
  then show ?thesis
    unfolding ScheduleCallback_def Let_def t_def[symmetric] d0_def[symmetric] by simp
qed

definition demo_clock :: "nat \<Rightarrow> (int \<times> int) option" where
  "demo_clock k = Some (1000 + int k, 500000000)"

definition demo_director :: "nat dstate" where
  "demo_director = Director_new demo_clock []"

lemma demo_registered_ok: "director_ok (registered f 250 p prio demo_director)"
proof -
  have "fits_llong (m_currentLogicalTime demo_director + 250)" "fits_int (m_nextCallbackId demo_director + 1)"
    by (simp_all add: demo_director_def Director_new_def fits_llong_def fits_int_def Let_def
        timespec_to_milliseconds_def demo_clock_def trunc_div_def)
  then show ?thesis
    using ScheduleCallback_registered[of demo_director 250 f p prio] by (simp add: demo_director_def)
qed

lemma ScheduleCallback_spec_witness:
  "\<exists>d'. ScheduleCallback 7 250 True 3 demo_director = Ret 0 d' \<and>
     m_callbackQueue d' = [0] \<and> m_nextScheduledExecutionTime d' = 1000750"
proof -
  obtain d' where d': "ScheduleCallback 7 250 True 3 demo_director = Ret 0 d'"
    by (simp add: demo_director_def ScheduleCallback_def Director_new_def QueueScheduledCallback_def
        ScheduleNextExecution_def PosixUtcInMilliseconds_def timespec_to_milliseconds_def
        demo_clock_def trunc_div_def fits_llong_def fits_int_def DefaultNextExecutionTime_def Let_def)
  have "director_ok demo_director" by (simp add: demo_director_def)
  from ScheduleCallback_spec[OF this d'] d' show ?thesis
    by (simp add: demo_director_def Director_new_def Let_def timespec_to_milliseconds_def
        demo_clock_def trunc_div_def DefaultNextExecutionTime_def)
qed

section \<open>Clearing a callback\<close>

lemma remove1_not_in: "distinct q \<Longrightarrow> i \<notin> set (remove1 i q)"
  by simp

text \<open>
  C18. Clearing a callback takes it out of the map and the queue. While other callbacks are
  queued nothing else changes; when it was the last one queued the director is reset: no
  callback stays registered, the identifiers start again at 0 and execution is stopped.
\<close>

theorem ClearScheduledCallback_spec:
  assumes "director_ok d"
  shows "map_of (m_scheduledCallbacks (ClearScheduledCallback i d)) i = None \<and>
    i \<notin> set (m_callbackQueue (ClearScheduledCallback i d)) \<and>
    (if remove1 i (m_callbackQueue d) = []
     then m_scheduledCallbacks (ClearScheduledCallback i d) = [] \<and>
       m_nextCallbackId (ClearScheduledCallback i d) = 0 \<and>
       m_executionCancellationToken (ClearScheduledCallback i d) = None \<and>
       m_nextScheduledExecutionTime (ClearScheduledCallback i d) = DefaultNextExecutionTime
     else map_of (m_scheduledCallbacks (ClearScheduledCallback i d)) =
         (map_of (m_scheduledCallbacks d))(i := None) \<and>
       m_callbackQueue (ClearScheduledCallback i d) = remove1 i (m_callbackQueue d) \<and>
       m_nextCallbackId (ClearScheduledCallback i d) = m_nextCallbackId d)"
proof -
  have w: "queue_wf (m_scheduledCallbacks d) (m_callbackQueue d) (m_nextCallbackId d)"
    using assms by (simp add: director_ok_def)
  then have out: "i \<notin> set (remove1 i (m_callbackQueue d))" by (simp add: queue_wf_def)
  have "smap_erase i (m_scheduledCallbacks d) \<noteq> []" if ne: "remove1 i (m_callbackQueue d) \<noteq> []"
  proof -
    from ne obtain j where j: "j \<in> set (remove1 i (m_callbackQueue d))" by (meson ex_in_conv set_empty)
    with out have "j \<noteq> i" by blast
    moreover from j have "j \<in> set (m_callbackQueue d)" using set_remove1_subset by fastforce
    ultimately have "map_of (smap_erase i (m_scheduledCallbacks d)) j \<noteq> None"
      using w by (simp add: queue_wf_def)
    then show ?thesis by (metis map_of.simps(1))
  qed
  with out show ?thesis
    by (auto simp: ClearScheduledCallback_def Let_def NeedsReset_def)
qed

lemma ClearScheduledCallback_spec_witness:
  "m_scheduledCallbacks (ClearScheduledCallback 0 (registered 7 250 True 3 demo_director)) = []"
proof -
  have "m_callbackQueue (registered 7 250 True 3 demo_director) = [0]"
    by (simp add: demo_director_def Director_new_def Let_def)
  with ClearScheduledCallback_spec[OF demo_registered_ok, of 0] show ?thesis by simp
qed

text \<open>
  What a client that clears callbacks relies on: a cleared callback is gone, none appears, and
  while some callback that is not cleared is queued, exactly the cleared ones go; with the last one
  queued all go. The client's conclusions about clearing several callbacks follow from these laws.
\<close>

locale callback_registry =
  fixes clear :: "'i \<Rightarrow> 's \<Rightarrow> 's"
    and entry :: "'s \<Rightarrow> 'i \<Rightarrow> 'c option"
    and queued :: "'s \<Rightarrow> 'i set"
    and ok :: "'s \<Rightarrow> bool"
  assumes ok_clear: "ok s \<Longrightarrow> ok (clear i s)"
    and clear_gone: "entry (clear i s) i = None"
    and clear_shrinks: "entry (clear i s) j = None \<or> entry (clear i s) j = entry s j"
    and clear_one: "ok s \<Longrightarrow> j \<in> queued s \<Longrightarrow> j \<noteq> i \<Longrightarrow>
      entry (clear i s) = (entry s)(i := None) \<and> j \<in> queued (clear i s)"
    and clear_queued: "ok s \<Longrightarrow> queued (clear i s) \<subseteq> queued s - {i}"
    and clear_last: "queued s \<subseteq> {i} \<Longrightarrow> ok s \<Longrightarrow> entry (clear i s) = Map.empty"
begin

lemma ok_clears: "ok s \<Longrightarrow> ok (fold clear is s)"
  by (induction "is" arbitrary: s) (auto intro: ok_clear)

lemma clears_shrink: "entry (fold clear is s) j = None \<or> entry (fold clear is s) j = entry s j"
proof (induction "is" arbitrary: s)
  case (Cons i ks)
  from Cons.IH[of "clear i s"] clear_shrinks[of i s j] show ?case by auto
qed simp

lemma clears_gone: "i \<in> set is \<Longrightarrow> entry (fold clear is s) i = None"
proof (induction "is" arbitrary: s)
  case (Cons j ks)
  then show ?case using clears_shrink[of ks "clear j s" i] clear_gone[of j s] by auto
qed simp

lemma clears_exactly:
  "ok s \<Longrightarrow> j \<in> queued s \<Longrightarrow> j \<notin> set is \<Longrightarrow> entry (fold clear is s) = (entry s) |` (- set is)"
proof (induction "is" arbitrary: s)
  case (Cons i ks)
  then have "entry (fold clear ks (clear i s)) = ((entry s)(i := None)) |` (- set ks)"
    using clear_one[of s j i] ok_clear[of s i] by auto
  then show ?case by (auto simp: restrict_map_def fun_eq_iff)
qed (simp add: restrict_map_def)

lemma clears_all: "ok s \<Longrightarrow> is \<noteq> [] \<Longrightarrow> queued s \<subseteq> set is \<Longrightarrow> entry (fold clear is s) = Map.empty"
proof (induction "is" arbitrary: s)
  case (Cons i ks)
  show ?case
  proof (cases ks)
    case Nil
    then show ?thesis using Cons.prems clear_last[of s i] by simp
  next
    case (Cons k ls)
    then have "queued (clear i s) \<subseteq> set ks" using clear_queued[of s i] Cons.prems by auto
    then show ?thesis using Cons.IH[of "clear i s"] ok_clear[of s i] Cons Cons.prems(1) by simp
  qed
qed simp

end

lemma smap_erase_nonempty: "map_of m j \<noteq> None \<Longrightarrow> j \<noteq> i \<Longrightarrow> smap_erase i m \<noteq> []"
  by (metis fun_upd_other map_of.simps(1) map_of_smap_erase)

interpretation registry: callback_registry ClearScheduledCallback
  "\<lambda>d. map_of (m_scheduledCallbacks d)" "\<lambda>d. set (m_callbackQueue d)" director_ok
proof unfold_locales
  fix d :: "('a, 'b) dstate_scheme" and i j :: int
  show "director_ok d \<Longrightarrow> director_ok (ClearScheduledCallback i d)" by (rule director_ok_Clear)
  show "map_of (m_scheduledCallbacks (ClearScheduledCallback i d)) i = None"
    by (simp add: ClearScheduledCallback_def Let_def)
  show "map_of (m_scheduledCallbacks (ClearScheduledCallback i d)) j = None \<or>
      map_of (m_scheduledCallbacks (ClearScheduledCallback i d)) j = map_of (m_scheduledCallbacks d) j"
    by (simp add: ClearScheduledCallback_def Let_def)
  assume "director_ok d" and j: "j \<in> set (m_callbackQueue d)" "j \<noteq> i"
  then have "map_of (m_scheduledCallbacks d) j \<noteq> None" by (simp add: director_ok_def queue_wf_def)
  then have "smap_erase i (m_scheduledCallbacks d) \<noteq> []" using j(2) by (rule smap_erase_nonempty)
  moreover have "j \<in> set (remove1 i (m_callbackQueue d))" using j by simp
  ultimately show "map_of (m_scheduledCallbacks (ClearScheduledCallback i d)) =
      (map_of (m_scheduledCallbacks d))(i := None) \<and> j \<in> set (m_callbackQueue (ClearScheduledCallback i d))"
    by (auto simp: ClearScheduledCallback_def Let_def NeedsReset_def)
next
  fix d :: "('a, 'b) dstate_scheme" and i :: int
  assume "director_ok d"
  then have dist: "distinct (m_callbackQueue d)" by (simp add: director_ok_def queue_wf_def)
  then show "set (m_callbackQueue (ClearScheduledCallback i d)) \<subseteq> set (m_callbackQueue d) - {i}"
    by (auto simp: ClearScheduledCallback_def Let_def)
  assume "set (m_callbackQueue d) \<subseteq> {i}"
  then have "set (remove1 i (m_callbackQueue d)) = {}" using dist by auto
  then show "map_of (m_scheduledCallbacks (ClearScheduledCallback i d)) = Map.empty"
    by (simp add: ClearScheduledCallback_def Let_def NeedsReset_def)
qed

section \<open>Changing the priority of an accessor's callbacks\<close>

definition reprioritised :: "int \<Rightarrow> int \<Rightarrow> 'cb scheduled_callback \<Rightarrow> 'cb scheduled_callback" where
  "reprioritised old new c = (if cb_priority c = old then c\<lparr>cb_priority := new\<rparr> else c)"

lemma queue_wf_requeue:
  assumes w: "queue_wf m q n" and m: "map_of m i \<noteq> None"
  shows "queue_wf (smap_put i c m) (remove1 i q) n"
proof -
  from w have "i \<notin> set (remove1 i q)" "0 \<le> i" "i < n"
    using m by (auto simp: queue_wf_def)
  with queue_wf_remove1[OF w, of i] show ?thesis by (rule queue_wf_put_out)
qed

lemma update_priorities_spec:
  assumes "director_ok d" and "distinct ids" and "\<forall>i \<in> set ids. map_of (m_scheduledCallbacks d) i \<noteq> None"
  shows "\<exists>d'. update_priorities old new ids d = Ret () d' \<and> director_ok d' \<and>
    set (m_callbackQueue d') = set (m_callbackQueue d) \<and>
    m_nextCallbackId d' = m_nextCallbackId d \<and>
    (\<forall>i. map_of (m_scheduledCallbacks d') i =
      (if i \<in> set ids then map_option (reprioritised old new) (map_of (m_scheduledCallbacks d) i)
       else map_of (m_scheduledCallbacks d) i))"
  using assms
proof (induction ids arbitrary: d)
  case (Cons i ids)
  then obtain c where c: "map_of (m_scheduledCallbacks d) i = Some c" by auto
  let ?m = "smap_put i (c\<lparr>cb_priority := new\<rparr>) (m_scheduledCallbacks d)"
  have w: "queue_wf (m_scheduledCallbacks d) (m_callbackQueue d) (m_nextCallbackId d)"
    using Cons.prems by (simp add: director_ok_def)
  show ?case
  proof (cases "cb_priority c = old")
    case False
    then have "reprioritised old new c = c" by (simp add: reprioritised_def)
    with Cons.IH[of d] Cons.prems c False show ?thesis by auto
  next
    case pr: True
    define e where "e = (if i \<in> set (m_callbackQueue d)
      then d\<lparr>m_scheduledCallbacks := ?m,
             m_callbackQueue := insort_key (sched_key ?m) i (remove1 i (m_callbackQueue d))\<rparr>
      else d\<lparr>m_scheduledCallbacks := ?m\<rparr>)"
    have qw: "queue_wf ?m (remove1 i (m_callbackQueue d)) (m_nextCallbackId d)"
      using queue_wf_requeue[OF w] c by simp
    have out: "i \<notin> set (remove1 i (m_callbackQueue d))" using w by (simp add: queue_wf_def)
    have ins: "queue_wf ?m (insort_key (sched_key ?m) i (remove1 i (m_callbackQueue d))) (m_nextCallbackId d)"
      using queue_wf_insort[OF qw _ out] by simp
    have e_ok: "director_ok e"
      using ins qw by (auto simp: e_def director_ok_def remove1_idem)
    have e_q: "set (m_callbackQueue e) = set (m_callbackQueue d)" "m_nextCallbackId e = m_nextCallbackId d"
        "m_scheduledCallbacks e = ?m"
      using w by (auto simp: e_def set_insort_key queue_wf_def)
    have ids_e: "\<forall>j \<in> set ids. map_of (m_scheduledCallbacks e) j \<noteq> None"
      using Cons.prems(3) e_q by auto
    have "update_priorities old new (i # ids) d = update_priorities old new ids e"
      using c pr qw out
        queue_wf_queue[of "d\<lparr>m_scheduledCallbacks := ?m, m_callbackQueue := remove1 i (m_callbackQueue d)\<rparr>"
          "m_nextCallbackId d" i]
      by (auto simp: e_def Let_def)
    moreover obtain d' where "update_priorities old new ids e = Ret () d'" "director_ok d'"
        "set (m_callbackQueue d') = set (m_callbackQueue e)" "m_nextCallbackId d' = m_nextCallbackId e"
        "\<forall>j. map_of (m_scheduledCallbacks d') j =
          (if j \<in> set ids then map_option (reprioritised old new) (map_of (m_scheduledCallbacks e) j)
           else map_of (m_scheduledCallbacks e) j)"
      using Cons.IH[OF e_ok _ ids_e] Cons.prems(2) by auto
    ultimately show ?thesis
      using c pr Cons.prems(2) e_q by (auto simp: reprioritised_def)
  qed
qed simp

lemma HandlePriorityUpdate_total:
  assumes "director_ok d"
  shows "\<exists>d'. HandlePriorityUpdate old new d = Ret () d' \<and> director_ok d' \<and>
    set (m_callbackQueue d') = set (m_callbackQueue d) \<and>
    (\<forall>i. map_of (m_scheduledCallbacks d') i =
       map_option (reprioritised old new) (map_of (m_scheduledCallbacks d) i))"
proof -
  let ?m = "m_scheduledCallbacks d"
  have "distinct (map fst ?m)" using assms smap_wf_distinct by (auto simp: director_ok_def queue_wf_def)
  moreover have "\<forall>i \<in> set (map fst ?m). map_of ?m i \<noteq> None"
    by (metis map_of_eq_None_iff set_map)
  ultimately obtain d' where d': "update_priorities old new (map fst ?m) d = Ret () d'" "director_ok d'"
      "set (m_callbackQueue d') = set (m_callbackQueue d)"
      "\<forall>i. map_of (m_scheduledCallbacks d') i =
        (if i \<in> set (map fst ?m) then map_option (reprioritised old new) (map_of ?m i) else map_of ?m i)"
    using update_priorities_spec[OF assms] by blast
  have "map_of (m_scheduledCallbacks d') i = map_option (reprioritised old new) (map_of ?m i)" for i
    using d'(4) map_of_eq_None_iff[of ?m i] by (cases "i \<in> fst ` set ?m") auto
  with d' show ?thesis by (auto simp: HandlePriorityUpdate_def)
qed

text \<open>
  C19. Moving an accessor from one priority to another keeps the queue in order and complete:
  the call returns, the same callbacks are queued, every callback at the old priority is at
  the new one and no other callback changes.
\<close>

theorem HandlePriorityUpdate_spec:
  assumes "director_ok d"
  shows "\<exists>d'. HandlePriorityUpdate old new d = Ret () d' \<and> director_ok d' \<and>
    set (m_callbackQueue d') = set (m_callbackQueue d) \<and>
    (\<forall>i. map_of (m_scheduledCallbacks d') i =
       map_option (reprioritised old new) (map_of (m_scheduledCallbacks d) i))"
  using assms by (rule HandlePriorityUpdate_total)

lemma HandlePriorityUpdate_spec_witness:
  "\<exists>d'. HandlePriorityUpdate 3 5 demo_director = Ret () d' \<and> director_ok d'"
  using HandlePriorityUpdate_spec[of demo_director 3 5] by (auto simp: demo_director_def)

lemma director_ok_Priority [wf_intros]:
  "director_ok d \<Longrightarrow> run_prop director_ok (HandlePriorityUpdate old new d)"
  using HandlePriorityUpdate_total[of d old new] by auto

section \<open>Every reachable director is well formed\<close>

text \<open>
  The operations the rest of the program calls on a director, as one alphabet. An operation
  that throws leaves the state it had reached; what it throws is the caller's business.
\<close>

datatype 'cb director_op =
    OpSchedule 'cb int bool int
  | OpClear int
  | OpPriority int int
  | OpStop
  | OpReset

fun apply_director_op :: "'cb director_op \<Rightarrow> ('cb, 'z) dstate_scheme \<Rightarrow> ('cb, 'z) dstate_scheme" where
  "apply_director_op (OpSchedule f delay p prio) d = the (run_state (ScheduleCallback f delay p prio d))"
| "apply_director_op (OpClear i) d = ClearScheduledCallback i d"
| "apply_director_op (OpPriority old new) d = the (run_state (HandlePriorityUpdate old new d))"
| "apply_director_op OpStop d = StopExecution d"
| "apply_director_op OpReset d = Reset d"

lemma ScheduleNextExecution_no_diverge: "ScheduleNextExecution d \<noteq> Diverge"
  by (auto simp: ScheduleNextExecution_def PosixUtcInMilliseconds_def Let_def
      split: prod.split sum.split)

lemma QueueScheduledCallback_no_diverge: "QueueScheduledCallback i d \<noteq> Diverge"
  by (simp add: QueueScheduledCallback_def split: sum.split)

lemma ScheduleCallback_no_diverge: "ScheduleCallback f delay p prio d \<noteq> Diverge"
  by (auto simp: ScheduleCallback_def Let_def run_bind_eqs QueueScheduledCallback_no_diverge
      ScheduleNextExecution_no_diverge split: if_splits)

lemma run_prop_state: "run_prop P m \<Longrightarrow> m \<noteq> Diverge \<Longrightarrow> P (the (run_state m))"
  by (cases m) auto

text \<open>
  The callbacks that are registered but not queued. Between the rounds of the director there is none; during
  a round there is the one that runs.
\<close>

definition unqueued :: "('cb, 'z) dstate_scheme \<Rightarrow> int set" where
  "unqueued d = {i. map_of (m_scheduledCallbacks d) i \<noteq> None \<and> i \<notin> set (m_callbackQueue d)}"

definition director_full :: "('cb, 'z) dstate_scheme \<Rightarrow> bool" where
  "director_full d \<longleftrightarrow> director_ok d \<and> unqueued d = {}"

lemma unqueued_empty: "unqueued d = {} \<Longrightarrow> map_of (m_scheduledCallbacks d) i \<noteq> None \<Longrightarrow> i \<in> set (m_callbackQueue d)"
  unfolding unqueued_def by blast

lemma unqueued_same: "same_queue d d' \<Longrightarrow> unqueued d' = unqueued d"
  by (simp add: unqueued_def same_queue_def)

lemma unqueued_Stop [simp]: "unqueued (StopExecution d) = unqueued d"
  by (simp add: unqueued_def)

lemma unqueued_Reset [simp]: "unqueued (Reset d) = {}"
  by (simp add: unqueued_def)

lemma unqueued_Clear: "unqueued (ClearScheduledCallback i d) \<subseteq> unqueued d"
  by (auto simp: unqueued_def ClearScheduledCallback_def Let_def split: if_splits)

lemma unqueued_registered: "unqueued (registered f delay p prio d) \<subseteq> unqueued d"
  by (auto simp: unqueued_def set_insort_key split: if_splits)

lemma unqueued_Schedule:
  assumes "director_ok d"
  shows "run_prop (\<lambda>d'. unqueued d' \<subseteq> unqueued d) (ScheduleCallback f delay p prio d)"
proof (cases "fits_llong (m_currentLogicalTime d + delay) \<and> fits_int (m_nextCallbackId d + 1)")
  case True
  let ?r = "registered f delay p prio d"
  let ?d = "(StopExecution ?r)\<lparr>m_nextScheduledExecutionTime := m_currentLogicalTime d + delay\<rparr>"
  have r: "unqueued ?d = unqueued ?r" by (simp add: unqueued_def)
  have "run_prop (\<lambda>d'. unqueued d' \<subseteq> unqueued d) (ScheduleNextExecution ?d)"
    by (rule run_prop_mono[OF ScheduleNextExecution_same_queue[of ?d]])
      (use unqueued_same[of ?d] unqueued_registered[of f delay p prio d] r in simp)
  then have "run_prop (\<lambda>d'. unqueued d' \<subseteq> unqueued d) (run_bind (ScheduleNextExecution ?d) (\<lambda>_. Ret (m_nextCallbackId d)))"
    by (rule run_prop_bind) simp
  then show ?thesis
    using ScheduleCallback_registered[OF assms, of delay f p prio] True unqueued_registered[of f delay p prio d] by simp
next
  case False
  then show ?thesis by (simp add: ScheduleCallback_cases)
qed

lemma unqueued_Priority:
  assumes ok: "director_ok d" and r: "HandlePriorityUpdate old new d = Ret () d'"
  shows "unqueued d' = unqueued d"
proof -
  have "distinct (map fst (m_scheduledCallbacks d))" "\<forall>i \<in> set (map fst (m_scheduledCallbacks d)). map_of (m_scheduledCallbacks d) i \<noteq> None"
    using ok smap_wf_distinct by (auto simp: director_ok_def queue_wf_def map_of_eq_None_iff image_iff)
  from update_priorities_spec[OF ok this, of old new] r show ?thesis
    by (auto simp: HandlePriorityUpdate_def unqueued_def split: if_splits)
qed

interpretation director_machine: invariant_machine apply_director_op director_full
proof unfold_locales
  fix d :: "('a, 'b) dstate_scheme" and x :: "'a director_op"
  assume full: "director_full d"
  then have ok: "director_ok d" and all: "unqueued d = {}" by (simp_all add: director_full_def)
  show "director_full (apply_director_op x d)"
  proof (cases x)
    case (OpSchedule f delay p prio)
    have "run_prop director_full (ScheduleCallback f delay p prio d)"
      using director_ok_Schedule[OF ok, of f delay p prio] unqueued_Schedule[OF ok, of f delay p prio] all
      by (cases "ScheduleCallback f delay p prio d") (simp_all add: director_full_def)
    from run_prop_state[OF this ScheduleCallback_no_diverge] show ?thesis using OpSchedule by simp
  next
    case (OpPriority old new)
    then show ?thesis
      using HandlePriorityUpdate_total[OF ok, of old new] unqueued_Priority[OF ok, of old new] all by (auto simp: director_full_def)
  next
    case (OpClear i)
    then show ?thesis using director_ok_Clear[OF ok] unqueued_Clear[of i d] all by (simp add: director_full_def)
  qed (use ok all in \<open>simp_all add: director_full_def\<close>)
qed

end
