(* ===== verification/DirectorExecution.thy ===== *)
theory DirectorExecution
  imports Director
begin

text \<open>
  The execution half of \<open>src/src/Director.cpp\<close>: running the due callbacks, the body of the
  thread that does so, and the main loop that waits for those threads. What a callback does is
  a parameter (\<open>run\<close>): it works on the whole state, so it can call back into the director.
  A launched thread is an entry of \<open>threads\<close>; it runs when its future is waited for, and it
  runs to its end (threads do not interleave inside a round).
\<close>

type_synonym ('cb, 'z) callback_semantics =
  "'cb \<Rightarrow> ('cb, 'z) dstate_scheme \<Rightarrow> (unit, ('cb, 'z) dstate_scheme) run"

section \<open>Running the due callbacks\<close>

definition call_callback ::
  "('cb, 'z) callback_semantics \<Rightarrow> int \<Rightarrow> ('cb, 'z) dstate_scheme \<Rightarrow> (unit, ('cb, 'z) dstate_scheme) run" where
  "call_callback run i d =
     (case map_of (m_scheduledCallbacks d) i of
        None \<Rightarrow> Throw OutOfRange d
      | Some c \<Rightarrow> run (callbackFunction c) d)"

text \<open>What happens to a callback that ran and is still registered.\<close>

definition reschedule_or_remove ::
  "int \<Rightarrow> ('cb, 'z) dstate_scheme \<Rightarrow> (unit, ('cb, 'z) dstate_scheme) run" where
  "reschedule_or_remove i d =
     (case map_of (m_scheduledCallbacks d) i of
        None \<Rightarrow> Ret () d
      | Some c \<Rightarrow>
          if isPeriodic c
          then let t = nextExecutionTimeInMilliseconds c + delayInMilliseconds c in
               if \<not> fits_llong t then Throw (Fatal SignedOverflow) d
               else QueueScheduledCallback i
                      (d\<lparr>m_scheduledCallbacks :=
                           smap_put i (c\<lparr>nextExecutionTimeInMilliseconds := t\<rparr>) (m_scheduledCallbacks d)\<rparr>)
          else Ret () (RemoveScheduledCallbackFromMap i d))"

definition execute_front ::
  "('cb, 'z) callback_semantics \<Rightarrow> int \<Rightarrow> ('cb, 'z) dstate_scheme \<Rightarrow> (unit, ('cb, 'z) dstate_scheme) run" where
  "execute_front run i d =
     (case call_callback run i (d\<lparr>m_callbackQueue := tl (m_callbackQueue d)\<rparr>) of
        Ret _ d1 \<Rightarrow> reschedule_or_remove i d1
      | Throw e d1 \<Rightarrow>
          Throw e (if is_std_exception e then RemoveScheduledCallbackFromMap i d1 else d1)
      | Diverge \<Rightarrow> Diverge)"

fun execute_due ::
  "('cb, 'z) callback_semantics \<Rightarrow> nat \<Rightarrow> ('cb, 'z) dstate_scheme \<Rightarrow> (unit, ('cb, 'z) dstate_scheme) run" where
  "execute_due run 0 d = Diverge"
| "execute_due run (Suc n) d =
     (case m_callbackQueue d of
        [] \<Rightarrow> Ret () d
      | i # _ \<Rightarrow>
          (case GetNextQueuedExecutionTime d of
             Inl e \<Rightarrow> Throw e d
           | Inr t \<Rightarrow>
               if t \<le> m_nextScheduledExecutionTime d
               then run_bind (execute_front run i d) (\<lambda>_. execute_due run n)
               else Ret () d))"

definition ExecuteCallbacks ::
  "('cb, 'z) callback_semantics \<Rightarrow> nat \<Rightarrow> ('cb, 'z) dstate_scheme \<Rightarrow> (unit, ('cb, 'z) dstate_scheme) run" where
  "ExecuteCallbacks run fuel d =
     execute_due run fuel (d\<lparr>m_currentLogicalTime := m_nextScheduledExecutionTime d\<rparr>)"

section \<open>The body of an execution thread\<close>

definition token_canceled :: "nat \<Rightarrow> ('cb, 'z) dstate_scheme \<Rightarrow> bool" where
  "token_canceled tok d \<longleftrightarrow> IsCanceled (tokens d ! tok)"

definition set_promise ::
  "nat option \<Rightarrow> future_state \<Rightarrow> ('cb, 'z) dstate_scheme \<Rightarrow> (unit, ('cb, 'z) dstate_scheme) run" where
  "set_promise pr v d =
     (case pr of
        None \<Rightarrow> Throw (Fatal NullDereference) d
      | Some p \<Rightarrow> Ret () (d\<lparr>futures := (futures d)[p := v]\<rparr>))"

text \<open>
  The thread first sleeps until the first callback is due, if that is not yet. \<open>SleepFor\<close> tries to take the
  mutex of the token, which is held until the token is cancelled: a thread that was cancelled
  before it ran gets it at the first attempt, any other sleeps for the whole delay. (The sleep goes by the
  steady clock and \<open>timespec_get\<close> by the time of day, which may be set; so no reading of the
  clock is tied to it.)
\<close>

definition sleep_until_due :: "activation \<Rightarrow> ('cb, 'z) dstate_scheme \<Rightarrow> ('cb, 'z) dstate_scheme" where
  "sleep_until_due a d =
     (if act_delay a \<noteq> 0
      then d\<lparr>naps := naps d @ fst (SleepFor (\<lambda>_. \<not> m_timedLock (tokens d ! act_token a)) (act_delay a))\<rparr>
      else d)"

text \<open>
  The while loop of \<open>ExecuteInternal\<close>. A value \<open>Some e\<close> is an exception that \<open>catch (...)\<close>
  took; an exception outside the try block leaves the thread.
\<close>

fun internal_loop ::
  "('cb, 'z) callback_semantics \<Rightarrow> nat \<Rightarrow> nat \<Rightarrow> nat \<Rightarrow> ('cb, 'z) dstate_scheme
     \<Rightarrow> (exn option, ('cb, 'z) dstate_scheme) run" where
  "internal_loop run cfuel tok 0 d = Diverge"
| "internal_loop run cfuel tok (Suc n) d =
     (if token_canceled tok d \<or> NeedsReset d then Ret None d
      else let (now, d1) = PosixUtcInMilliseconds d in
           if m_nextScheduledExecutionTime d1 > now then Ret None d1
           else case ExecuteCallbacks run cfuel d1 of
                  Diverge \<Rightarrow> Diverge
                | Throw e d2 \<Rightarrow> if is_catchable e then Ret (Some e) d2 else Throw e d2
                | Ret _ d2 \<Rightarrow>
                    if token_canceled tok d2 then internal_loop run cfuel tok n d2
                    else (case GetNextQueuedExecutionTime d2 of
                            Inl e \<Rightarrow> Throw (Fatal Terminated) d2
                          | Inr t \<Rightarrow>
                              internal_loop run cfuel tok n (d2\<lparr>m_nextScheduledExecutionTime := t\<rparr>)))"

definition ExecuteInternal ::
  "('cb, 'z) callback_semantics \<Rightarrow> nat \<Rightarrow> nat \<Rightarrow> activation \<Rightarrow> ('cb, 'z) dstate_scheme
     \<Rightarrow> (unit, ('cb, 'z) dstate_scheme) run" where
  "ExecuteInternal run cfuel fuel a d =
     run_bind (internal_loop run cfuel (act_token a) fuel (sleep_until_due a d))
       (\<lambda>thrown d1.
          case thrown of
            Some e \<Rightarrow> set_promise (act_promise a) (Failed e) d1
          | None \<Rightarrow>
              let executionWasCanceled = token_canceled (act_token a) d1 in
              if executionWasCanceled then set_promise (act_promise a) (Ready True) d1
              else (case ScheduleNextExecution (if NeedsReset d1 then Reset d1 else d1) of
                      Ret _ d2 \<Rightarrow> set_promise (act_promise a) (Ready False) d2
                    | Throw e d2 \<Rightarrow> Throw (if is_catchable e then Fatal Terminated else e) d2
                    | Diverge \<Rightarrow> Diverge))"

section \<open>The main loop\<close>

text \<open>
  Waiting for a future: the thread that holds its promise runs first. If no thread does, the
  call blocks for ever.
\<close>

definition find_activation :: "nat \<Rightarrow> activation list \<Rightarrow> activation option" where
  "find_activation f acts = List.find (\<lambda>a. act_promise a = Some f) acts"

definition take_result ::
  "nat \<Rightarrow> ('cb, 'z) dstate_scheme \<Rightarrow> (bool, ('cb, 'z) dstate_scheme) run" where
  "take_result f d =
     (let d1 = d\<lparr>futures := (futures d)[f := Retrieved]\<rparr> in
      case futures d ! f of
        Ready b \<Rightarrow> Ret b d1
      | Failed e \<Rightarrow> Throw e d1
      | Retrieved \<Rightarrow> Throw FutureError d
      | Pending \<Rightarrow> Diverge)"

definition future_get ::
  "('cb, 'z) callback_semantics \<Rightarrow> nat \<Rightarrow> nat \<Rightarrow> nat \<Rightarrow> ('cb, 'z) dstate_scheme
     \<Rightarrow> (bool, ('cb, 'z) dstate_scheme) run" where
  "future_get run cfuel fuel f d =
     (if futures d ! f = Pending
      then (case find_activation f (threads d) of
              None \<Rightarrow> Diverge
            | Some a \<Rightarrow>
                run_bind (ExecuteInternal run cfuel fuel a (d\<lparr>threads := remove1 a (threads d)\<rparr>))
                  (\<lambda>_. take_result f))
      else take_result f d)"

fun execute_rounds ::
  "('cb, 'z) callback_semantics \<Rightarrow> nat \<Rightarrow> nat \<Rightarrow> int \<Rightarrow> nat \<Rightarrow> int \<Rightarrow> nat option \<Rightarrow> ('cb, 'z) dstate_scheme
     \<Rightarrow> (unit, ('cb, 'z) dstate_scheme) run" where
  "execute_rounds run cfuel fuel numberOfIterations 0 currentIteration executionResult d = Diverge"
| "execute_rounds run cfuel fuel numberOfIterations (Suc n) currentIteration executionResult d =
     (case m_executionCancellationToken d of
        None \<Rightarrow> Ret () d
      | Some tok \<Rightarrow>
          if token_canceled tok d then Ret () d
          else (case executionResult of
                  None \<Rightarrow> Throw (Fatal NullDereference) d
                | Some f \<Rightarrow>
                    if futures d ! f = Retrieved \<or>
                       \<not> (numberOfIterations = 0 \<or> currentIteration < numberOfIterations)
                    then Ret () d
                    else run_bind (future_get run cfuel fuel f d)
                           (\<lambda>wasCanceled d1.
                              if wasCanceled \<and> m_executionResult d1 = None then Ret () d1
                              else execute_rounds run cfuel fuel numberOfIterations n
                                     (if numberOfIterations \<noteq> 0 then currentIteration + 1
                                      else currentIteration)
                                     (m_executionResult d1) d1)))"

definition Execute ::
  "('cb, 'z) callback_semantics \<Rightarrow> nat \<Rightarrow> nat \<Rightarrow> nat \<Rightarrow> int \<Rightarrow> ('cb, 'z) dstate_scheme
     \<Rightarrow> (unit, ('cb, 'z) dstate_scheme) run" where
  "Execute run cfuel fuel rounds numberOfIterations d =
     run_bind
       (case m_executionCancellationToken d of
          None \<Rightarrow> ScheduleNextExecution d
        | Some tok \<Rightarrow> if token_canceled tok d then ScheduleNextExecution d else Ret () d)
       (\<lambda>_ d1. run_bind
          (execute_rounds run cfuel fuel numberOfIterations rounds 0 (m_executionResult d1) d1)
          (\<lambda>_ d2. Ret () (StopExecution d2)))"

section \<open>Callbacks that respect the director\<close>

text \<open>
  The contract a callback must keep for the director to work: it leaves a well-formed
  director, does not restart the identifiers, and queues nothing but what was queued before
  or has a new identifier. Scheduling and priority updates keep it; a reset does not.
\<close>

definition extends_queue :: "('cb, 'z) dstate_scheme \<Rightarrow> ('cb, 'z) dstate_scheme \<Rightarrow> bool" where
  "extends_queue d d' \<longleftrightarrow> director_ok d' \<and> m_nextCallbackId d \<le> m_nextCallbackId d' \<and>
     (\<forall>i \<in> set (m_callbackQueue d'). i \<in> set (m_callbackQueue d) \<or> m_nextCallbackId d \<le> i)"

definition respects_director :: "('cb, 'z) callback_semantics \<Rightarrow> bool" where
  "respects_director run \<longleftrightarrow> (\<forall>f d. director_ok d \<longrightarrow> run_prop (extends_queue d) (run f d))"

lemma extends_queue_refl: "director_ok d \<Longrightarrow> extends_queue d d"
  by (simp add: extends_queue_def)

lemma extends_queue_trans: "extends_queue d e \<Longrightarrow> extends_queue e f \<Longrightarrow> extends_queue d f"
  unfolding extends_queue_def by (meson order_trans)

lemma extends_queue_same: "director_ok d \<Longrightarrow> same_queue d d' \<Longrightarrow> extends_queue d d'"
  by (auto simp: extends_queue_def same_queue_def director_ok_def)

lemma ScheduleNextExecution_extends:
  "director_ok d \<Longrightarrow> run_prop (extends_queue d) (ScheduleNextExecution d)"
  using ScheduleNextExecution_same_queue extends_queue_same by (metis run_prop_mono)

lemma ScheduleCallback_extends:
  assumes "director_ok d"
  shows "run_prop (extends_queue d) (ScheduleCallback f delay p prio d)"
proof (cases "fits_llong (m_currentLogicalTime d + delay) \<and> fits_int (m_nextCallbackId d + 1)")
  case True
  let ?r = "registered f delay p prio d"
  let ?d = "(StopExecution ?r)\<lparr>m_nextScheduledExecutionTime := m_currentLogicalTime d + delay\<rparr>"
  from ScheduleCallback_registered[OF assms] True have ok: "director_ok ?r" by blast
  then have r: "extends_queue d ?r" by (auto simp: extends_queue_def set_insort_key)
  then have e: "extends_queue d ?d" by (simp add: extends_queue_def director_ok_def)
  then have "run_prop (extends_queue d) (ScheduleNextExecution ?d)"
    using ScheduleNextExecution_extends[of ?d] extends_queue_trans
    by (metis (no_types, lifting) extends_queue_def run_prop_mono)
  then have "run_prop (extends_queue d)
      (run_bind (ScheduleNextExecution ?d) (\<lambda>_. Ret (m_nextCallbackId d)))"
    by (rule run_prop_bind) simp
  with r ScheduleCallback_registered[OF assms, of delay f p prio] True show ?thesis by simp
next
  case False
  then show ?thesis using assms by (simp add: ScheduleCallback_cases extends_queue_refl)
qed

lemma HandlePriorityUpdate_extends:
  "director_ok d \<Longrightarrow> run_prop (extends_queue d) (HandlePriorityUpdate old new d)"
proof -
  assume ok: "director_ok d"
  have "distinct (map fst (m_scheduledCallbacks d))"
      "\<forall>i \<in> set (map fst (m_scheduledCallbacks d)). map_of (m_scheduledCallbacks d) i \<noteq> None"
    using ok smap_wf_distinct by (auto simp: director_ok_def queue_wf_def map_of_eq_None_iff image_iff)
  from update_priorities_spec[OF ok this, of old new] show ?thesis
    by (auto simp: HandlePriorityUpdate_def extends_queue_def)
qed

text \<open>Clearing a callback keeps the contract while another one is queued.\<close>

lemma ClearScheduledCallback_extends:
  assumes ok: "director_ok d" and j: "j \<in> set (m_callbackQueue d)" "j \<noteq> i"
  shows "extends_queue d (ClearScheduledCallback i d)"
proof -
  let ?d = "RemoveScheduledCallbackFromMap i (d\<lparr>m_callbackQueue := remove1 i (m_callbackQueue d)\<rparr>)"
  have "map_of (m_scheduledCallbacks d) j \<noteq> None" using ok j(1) by (simp add: director_ok_def queue_wf_def)
  then have "m_scheduledCallbacks ?d \<noteq> []" using smap_erase_nonempty[of _ j i] j(2) by simp
  moreover have "j \<in> set (m_callbackQueue ?d)" using j by simp
  then have "m_callbackQueue ?d \<noteq> []" by force
  ultimately have "ClearScheduledCallback i d = ?d" by (simp add: ClearScheduledCallback_def NeedsReset_def Let_def)
  then show ?thesis
    using director_ok_Clear[OF ok, of i] set_remove1_subset[of i "m_callbackQueue d"] by (auto simp: extends_queue_def)
qed

section \<open>Executing the due callbacks keeps the invariant\<close>

text \<open>The exceptions a callback itself can throw.\<close>

definition callback_throws :: "('cb, 'z) callback_semantics \<Rightarrow> exn \<Rightarrow> bool" where
  "callback_throws run e \<longleftrightarrow> (\<exists>f d d'. run f d = Throw e d')"

fun run_throws_only :: "(exn \<Rightarrow> bool) \<Rightarrow> ('a, 's) run \<Rightarrow> bool" where
  "run_throws_only E (Throw e _) = E e"
| "run_throws_only E _ = True"

lemma run_throws_only_bind:
  "run_throws_only E m \<Longrightarrow> (\<And>x s. m = Ret x s \<Longrightarrow> run_throws_only E (f x s)) \<Longrightarrow>
   run_throws_only E (run_bind m f)"
  by (cases m) auto

abbreviation own_or_overflow :: "('cb, 'z) callback_semantics \<Rightarrow> exn \<Rightarrow> bool" where
  "own_or_overflow run e \<equiv> callback_throws run e \<or> e = Fatal SignedOverflow"

lemma reschedule_ok:
  assumes ok: "director_ok d" and out: "i \<notin> set (m_callbackQueue d)"
  shows "run_prop director_ok (reschedule_or_remove i d) \<and>
    run_throws_only (\<lambda>e. e = Fatal SignedOverflow) (reschedule_or_remove i d)"
proof (cases "map_of (m_scheduledCallbacks d) i")
  case None
  then show ?thesis using ok by (simp add: reschedule_or_remove_def)
next
  case (Some c)
  let ?t = "nextExecutionTimeInMilliseconds c + delayInMilliseconds c"
  let ?m = "smap_put i (c\<lparr>nextExecutionTimeInMilliseconds := ?t\<rparr>) (m_scheduledCallbacks d)"
  have w: "queue_wf (m_scheduledCallbacks d) (m_callbackQueue d) (m_nextCallbackId d)"
    using ok by (simp add: director_ok_def)
  with Some have b: "0 \<le> i" "i < m_nextCallbackId d" by (auto simp: queue_wf_def)
  from queue_wf_put_out[OF w out b] have "queue_wf ?m (m_callbackQueue d) (m_nextCallbackId d)" .
  with queue_wf_queue[of "d\<lparr>m_scheduledCallbacks := ?m\<rparr>" "m_nextCallbackId d" i] out Some
    queue_wf_erase_out[OF w out] ok
  show ?thesis by (auto simp: reschedule_or_remove_def director_ok_def Let_def)
qed

lemma execute_front_ok:
  assumes "respects_director run" and "director_ok d" and "m_callbackQueue d = i # q"
  shows "run_prop director_ok (execute_front run i d) \<and>
    run_throws_only (own_or_overflow run) (execute_front run i d)"
proof -
  let ?d = "d\<lparr>m_callbackQueue := q\<rparr>"
  have w: "queue_wf (m_scheduledCallbacks d) (i # q) (m_nextCallbackId d)"
    using assms by (simp add: director_ok_def)
  then obtain c where c: "map_of (m_scheduledCallbacks d) i = Some c" "i < m_nextCallbackId d"
    by (auto simp: queue_wf_def)
  have okd: "director_ok ?d" and iq: "i \<notin> set q"
    using queue_wf_tl[OF w] by (simp_all add: director_ok_def)
  then have r: "run_prop (extends_queue ?d) (run (callbackFunction c) ?d)"
    using assms(1) by (simp add: respects_director_def)
  have out: "i \<notin> set (m_callbackQueue d1)" if "extends_queue ?d d1" for d1
    using that c(2) iq by (auto simp: extends_queue_def)
  have rm: "director_ok (RemoveScheduledCallbackFromMap i d1)" if "extends_queue ?d d1" for d1
    using that out[OF that] by (auto simp: extends_queue_def director_ok_def intro: queue_wf_erase_out)
  show ?thesis
  proof (cases "run (callbackFunction c) ?d")
    case (Ret x d1)
    with r have "extends_queue ?d d1" by simp
    then have "director_ok d1" "i \<notin> set (m_callbackQueue d1)"
      using out by (auto simp: extends_queue_def)
    from reschedule_ok[OF this] show ?thesis
      using Ret c assms(3) by (cases "reschedule_or_remove i d1") (auto simp: execute_front_def call_callback_def)
  next
    case (Throw e d1)
    with r rm have "extends_queue ?d d1" "callback_throws run e" by (auto simp: callback_throws_def)
    with Throw c assms(3) rm show ?thesis
      by (auto simp: execute_front_def call_callback_def extends_queue_def)
  next
    case Diverge
    with c assms(3) show ?thesis by (simp add: execute_front_def call_callback_def)
  qed
qed

lemma execute_due_ok:
  assumes "respects_director run"
  shows "director_ok d \<Longrightarrow> run_prop director_ok (execute_due run n d) \<and>
    run_throws_only (own_or_overflow run) (execute_due run n d)"
proof (induction n arbitrary: d)
  case (Suc n)
  show ?case
  proof (cases "m_callbackQueue d")
    case (Cons i q)
    with Suc.prems obtain c where "map_of (m_scheduledCallbacks d) i = Some c"
      by (auto simp: director_ok_def queue_wf_def)
    then have g: "GetNextQueuedExecutionTime d = Inr (nextExecutionTimeInMilliseconds c)"
      using Cons by (simp add: GetNextQueuedExecutionTime_def)
    note f = execute_front_ok[OF assms Suc.prems Cons]
    have "run_prop director_ok (run_bind (execute_front run i d) (\<lambda>_. execute_due run n)) \<and>
        run_throws_only (own_or_overflow run) (run_bind (execute_front run i d) (\<lambda>_. execute_due run n))"
      using f Suc.IH by (cases "execute_front run i d") auto
    with Suc.prems Cons g show ?thesis by simp
  qed (use Suc.prems in simp)
qed simp

text \<open>
  C13. With callbacks that respect the director (they may schedule, update priorities and clear other
  callbacks, as long as no clearing empties the queue, which resets the director and starts the identifiers
  again), running the due callbacks leaves it well formed, whether the round ends normally or in an
  exception, and the only exceptions are the callbacks' own (or the overflow of a 64-bit time): the
  director's own lookups never fail.
\<close>

theorem ExecuteCallbacks_invariant:
  assumes "respects_director run" and "director_ok d"
  shows "run_prop director_ok (ExecuteCallbacks run fuel d) \<and>
    run_throws_only (own_or_overflow run) (ExecuteCallbacks run fuel d)"
  using execute_due_ok[OF assms(1)] assms(2) by (simp add: ExecuteCallbacks_def director_ok_def)

text \<open>A semantics to instantiate it: callback \<open>n\<close> schedules callback \<open>n - 1\<close> in one second.\<close>

definition countdown_semantics :: "(nat, 'z) callback_semantics" where
  "countdown_semantics n d =
     (if n = 0 then Ret () d
      else run_bind (ScheduleCallback (n - 1) 1000 False 5 d) (\<lambda>_. Ret ()))"

lemma countdown_respects: "respects_director countdown_semantics"
  unfolding respects_director_def countdown_semantics_def
  by (auto intro!: run_prop_bind ScheduleCallback_extends simp: extends_queue_refl)

lemma ExecuteCallbacks_invariant_witness:
  "run_prop director_ok (ExecuteCallbacks countdown_semantics 10 (registered 7 250 True 3 demo_director))"
  using ExecuteCallbacks_invariant[OF countdown_respects demo_registered_ok] by blast

section \<open>The queue between rounds\<close>

text \<open>
  Callbacks that, beyond respecting the director, leave nothing registered that is not queued (other than
  the one that runs). Scheduling, clearing and priority updates do.
\<close>

definition loyal :: "('cb, 'z) callback_semantics \<Rightarrow> bool" where
  "loyal run \<longleftrightarrow> respects_director run \<and> (\<forall>f d. director_ok d \<longrightarrow> run_prop (\<lambda>d'. unqueued d' \<subseteq> unqueued d) (run f d))"

text \<open>A round, or one step of it, that returns or throws a \<open>std::exception\<close> leaves every registered callback queued.\<close>

fun run_full :: "('a, ('cb, 'z) dstate_scheme) run \<Rightarrow> bool" where
  "run_full (Ret x d) = director_full d"
| "run_full (Throw e d) = (is_std_exception e \<longrightarrow> director_full d)"
| "run_full Diverge = True"

lemma reschedule_full:
  assumes ok: "director_ok d" and out: "i \<notin> set (m_callbackQueue d)" and u: "unqueued d \<subseteq> {i}"
  shows "run_full (reschedule_or_remove i d)"
proof (cases "map_of (m_scheduledCallbacks d) i")
  case None
  then have "unqueued d = {}" using u by (auto simp: unqueued_def)
  then show ?thesis using None ok by (simp add: reschedule_or_remove_def director_full_def)
next
  case (Some c)
  let ?t = "nextExecutionTimeInMilliseconds c + delayInMilliseconds c"
  let ?m = "smap_put i (c\<lparr>nextExecutionTimeInMilliseconds := ?t\<rparr>) (m_scheduledCallbacks d)"
  have w: "queue_wf (m_scheduledCallbacks d) (m_callbackQueue d) (m_nextCallbackId d)" using ok by (simp add: director_ok_def)
  with Some have b: "0 \<le> i" "i < m_nextCallbackId d" by (auto simp: queue_wf_def)
  from queue_wf_put_out[OF w out b] have "queue_wf ?m (m_callbackQueue d) (m_nextCallbackId d)" .
  from queue_wf_queue[of "d\<lparr>m_scheduledCallbacks := ?m\<rparr>" "m_nextCallbackId d" i] this out
  have q: "QueueScheduledCallback i (d\<lparr>m_scheduledCallbacks := ?m\<rparr>) =
      Ret () (d\<lparr>m_scheduledCallbacks := ?m, m_callbackQueue := insort_key (sched_key ?m) i (m_callbackQueue d)\<rparr>)"
    "queue_wf ?m (insort_key (sched_key ?m) i (m_callbackQueue d)) (m_nextCallbackId d)" by simp_all
  have "director_full (RemoveScheduledCallbackFromMap i d)"
    using queue_wf_erase_out[OF w out] u by (auto simp: director_full_def director_ok_def unqueued_def)
  moreover have "director_full (d\<lparr>m_scheduledCallbacks := ?m, m_callbackQueue := insort_key (sched_key ?m) i (m_callbackQueue d)\<rparr>)"
    using q(2) u by (auto simp: director_full_def director_ok_def unqueued_def set_insort_key)
  ultimately show ?thesis using Some q(1) by (simp add: reschedule_or_remove_def Let_def)
qed

lemma execute_front_full:
  assumes L: "loyal run" and d: "director_full d" "m_callbackQueue d = i # q"
  shows "run_full (execute_front run i d)"
proof -
  let ?d = "d\<lparr>m_callbackQueue := q\<rparr>"
  have w: "queue_wf (m_scheduledCallbacks d) (i # q) (m_nextCallbackId d)"
    using d by (simp add: director_full_def director_ok_def)
  then obtain c where c: "map_of (m_scheduledCallbacks d) i = Some c" "i < m_nextCallbackId d" by (auto simp: queue_wf_def)
  have ok: "director_ok ?d" and iq: "i \<notin> set q" using queue_wf_tl[OF w] by (simp_all add: director_ok_def)
  have "unqueued d = {}" using d(1) by (simp add: director_full_def)
  from unqueued_empty[OF this] have "j \<in> insert i (set q)" if "map_of (m_scheduledCallbacks d) j \<noteq> None" for j
    using that d(2) by (metis list.set(2))
  then have one: "unqueued ?d \<subseteq> {i}" by (auto simp: unqueued_def)
  have r: "run_prop (\<lambda>d'. extends_queue ?d d' \<and> unqueued d' \<subseteq> unqueued ?d) (run (callbackFunction c) ?d)"
    using L ok by (simp add: loyal_def respects_director_def run_prop_conj)
  have after: "director_ok d1" "i \<notin> set (m_callbackQueue d1)" "unqueued d1 \<subseteq> {i}"
    if "extends_queue ?d d1 \<and> unqueued d1 \<subseteq> unqueued ?d" for d1
    using that one c(2) iq by (auto simp: extends_queue_def)
  have rm: "director_full (RemoveScheduledCallbackFromMap i d1)"
    if "extends_queue ?d d1 \<and> unqueued d1 \<subseteq> unqueued ?d" for d1
    using after[OF that] by (auto simp: director_full_def director_ok_def unqueued_def intro: queue_wf_erase_out)
  show ?thesis
  proof (cases "run (callbackFunction c) ?d")
    case (Ret x d1)
    then have "run_full (reschedule_or_remove i d1)" using r after[of d1] by (intro reschedule_full) simp_all
    then show ?thesis using Ret c d(2) by (simp add: execute_front_def call_callback_def)
  next
    case (Throw e d1)
    then show ?thesis using r rm[of d1] c d(2) by (simp add: execute_front_def call_callback_def)
  next
    case Diverge
    then show ?thesis using c d(2) by (simp add: execute_front_def call_callback_def)
  qed
qed

lemma execute_due_full:
  assumes "loyal run"
  shows "director_full d \<Longrightarrow> run_full (execute_due run n d)"
proof (induction n arbitrary: d)
  case (Suc n)
  show ?case
  proof (cases "m_callbackQueue d")
    case (Cons i q)
    with Suc.prems obtain c where "map_of (m_scheduledCallbacks d) i = Some c"
      by (auto simp: director_full_def director_ok_def queue_wf_def)
    then have g: "GetNextQueuedExecutionTime d = Inr (nextExecutionTimeInMilliseconds c)"
      using Cons by (simp add: GetNextQueuedExecutionTime_def)
    have "run_full (run_bind (execute_front run i d) (\<lambda>_. execute_due run n))"
      using execute_front_full[OF assms Suc.prems Cons] Suc.IH by (cases "execute_front run i d") auto
    with Suc.prems Cons g show ?thesis by simp
  qed (use Suc.prems in simp)
qed simp

text \<open>
  The states of a director: the operations in any order, the rounds, and what the execution thread
  does between two rounds. (A round that ends in an exception that is not a \<open>std::exception\<close> is
  left out: the callback that threw it stays registered without being queued.)
\<close>

inductive director_reachable :: "('cb, 'z) callback_semantics \<Rightarrow> ('cb, 'z) dstate_scheme \<Rightarrow> ('cb, 'z) dstate_scheme \<Rightarrow> bool"
  for run d0 where
  start: "director_reachable run d0 d0"
| op: "director_reachable run d0 d \<Longrightarrow> director_reachable run d0 (apply_director_op x d)"
| round: "director_reachable run d0 d \<Longrightarrow> ExecuteCallbacks run fuel d = Ret () d' \<Longrightarrow> director_reachable run d0 d'"
| round_throws: "director_reachable run d0 d \<Longrightarrow> ExecuteCallbacks run fuel d = Throw e d' \<Longrightarrow> is_std_exception e \<Longrightarrow>
    director_reachable run d0 d'"
| advance: "director_reachable run d0 d \<Longrightarrow> GetNextQueuedExecutionTime d = Inr t \<Longrightarrow>
    director_reachable run d0 (d\<lparr>m_nextScheduledExecutionTime := t\<rparr>)"
| next_thread: "director_reachable run d0 d \<Longrightarrow> ScheduleNextExecution d = Ret () d' \<Longrightarrow> director_reachable run d0 d'"

lemma director_reachable_full:
  assumes "loyal run" and "director_full d0"
  shows "director_reachable run d0 d \<Longrightarrow> director_full d"
proof (induction rule: director_reachable.induct)
  case (op d x)
  then show ?case by (intro director_machine.op_keeps)
next
  case (round d fuel d')
  then have "director_full (d\<lparr>m_currentLogicalTime := m_nextScheduledExecutionTime d\<rparr>)"
    by (simp add: director_full_def director_ok_def unqueued_def)
  from execute_due_full[OF assms(1) this, of fuel] show ?case using round by (simp add: ExecuteCallbacks_def)
next
  case (round_throws d fuel e d')
  then have "director_full (d\<lparr>m_currentLogicalTime := m_nextScheduledExecutionTime d\<rparr>)"
    by (simp add: director_full_def director_ok_def unqueued_def)
  from execute_due_full[OF assms(1) this, of fuel] show ?case using round_throws by (simp add: ExecuteCallbacks_def)
next
  case (next_thread d d')
  then have "same_queue d d'" using ScheduleNextExecution_same_queue[of d] by simp
  then show ?case
    using next_thread.IH director_ok_same_queue[of d d'] unqueued_same[of d d'] by (simp add: director_full_def)
qed (use assms(2) in \<open>simp_all add: director_full_def director_ok_def unqueued_def\<close>)

text \<open>
  C8. Whatever is done with a director that was just created (callbacks are scheduled and cleared,
  priorities updated, the execution stopped, the director reset, rounds run), between the rounds the queue holds
  exactly the registered callbacks, each of them once, and is strictly sorted by execution time, accessor priority and
  identifier; if the callbacks that the rounds run schedule, update and clear without resetting the director,
  and throw nothing but \<open>std::exception\<close>s.
\<close>

theorem director_reachable_sorted:
  assumes "loyal run" and "director_reachable run (Director_new clk os) d"
  shows "distinct (m_callbackQueue d) \<and> set (m_callbackQueue d) = {i. ScheduledCallbackExistsInMap i d} \<and>
    sorted_wrt (\<lambda>i j. sched_key (m_scheduledCallbacks d) i < sched_key (m_scheduledCallbacks d) j)
      (m_callbackQueue d)"
proof -
  have "director_full (Director_new clk os)" by (simp add: director_full_def) (simp add: unqueued_def Director_new_def Let_def)
  from director_reachable_full[OF assms(1) this assms(2)] have ok: "director_ok d" and all: "unqueued d = {}"
    by (simp_all add: director_full_def)
  from ok have "sorted (map (sched_key (m_scheduledCallbacks d)) (m_callbackQueue d))"
      "distinct (map (sched_key (m_scheduledCallbacks d)) (m_callbackQueue d))"
    by (auto simp: director_ok_def queue_wf_def distinct_map inj_on_def sched_key_inj)
  then have "sorted_wrt (<) (map (sched_key (m_scheduledCallbacks d)) (m_callbackQueue d))"
    by (simp add: strict_sorted_iff)
  moreover have "distinct (m_callbackQueue d)" "\<forall>i \<in> set (m_callbackQueue d). map_of (m_scheduledCallbacks d) i \<noteq> None"
    using ok by (simp_all add: director_ok_def queue_wf_def)
  moreover note unqueued_empty[OF all]
  ultimately show ?thesis by (auto simp: ScheduledCallbackExistsInMap_def sorted_wrt_map)
qed

lemma countdown_loyal: "loyal countdown_semantics"
  unfolding loyal_def using countdown_respects unqueued_Schedule
  by (auto simp: countdown_semantics_def intro!: run_prop_bind)

text \<open>A callback is scheduled and a round is run, in which it schedules another one.\<close>

lemma director_reachable_sorted_witness:
  "\<exists>d. ExecuteCallbacks countdown_semantics 2 (apply_director_op (OpSchedule 1 0 False 3) (Director_new demo_clock [])) = Ret () d \<and>
     set (m_callbackQueue d) = {i. ScheduledCallbackExistsInMap i d} \<and> ScheduledCallbackExistsInMap 1 d"
proof -
  let ?d = "apply_director_op (OpSchedule 1 0 False 3) (Director_new demo_clock [])"
  have d: "director_reachable countdown_semantics (Director_new demo_clock []) ?d"
    by (intro director_reachable.op director_reachable.start)
  have "\<exists>e. ExecuteCallbacks countdown_semantics 2 ?d = Ret () e \<and> ScheduledCallbackExistsInMap 1 e"
    by (simp add: ExecuteCallbacks_def execute_front_def call_callback_def countdown_semantics_def numeral_2_eq_2
        Director_new_def new_callback_def GetNextQueuedExecutionTime_def RemoveScheduledCallbackFromMap_def StopExecution_def
        PosixUtcInMilliseconds_def timespec_to_milliseconds_def trunc_div_def ScheduleCallback_def demo_clock_def
        QueueScheduledCallback_def ScheduleNextExecution_def DefaultNextExecutionTime_def ScheduledCallbackExistsInMap_def
        reschedule_or_remove_def fits_llong_def fits_int_def smap_erase_def Let_def)
  then obtain e where e: "ExecuteCallbacks countdown_semantics 2 ?d = Ret () e" "ScheduledCallbackExistsInMap 1 e" by blast
  from director_reachable_sorted[OF countdown_loyal director_reachable.round[OF d e(1)]] e show ?thesis by blast
qed

end
