(* ===== verification/DirectorProgress.thy ===== *)
theory DirectorProgress
  imports DirectorExecution
begin

text \<open>
  Progress of \<open>Director::ExecuteCallbacks\<close>: how much work a round is, when it ends, what it
  leaves, and the cases in which it does not end or goes wrong.
\<close>

section \<open>The work of a round\<close>

text \<open>A callback that returns and leaves the director's members alone.\<close>

definition inert :: "('cb, 'z) callback_semantics \<Rightarrow> bool" where
  "inert run \<longleftrightarrow> (\<forall>f d. \<exists>d'. run f d = Ret () d' \<and> same_queue d d')"

text \<open>The number of times a queued callback runs in a round at logical time \<open>T\<close>.\<close>

definition due_count :: "'cb callback_map \<Rightarrow> int \<Rightarrow> int \<Rightarrow> nat" where
  "due_count m T i =
     (case map_of m i of
        None \<Rightarrow> 0
      | Some c \<Rightarrow>
          if nextExecutionTimeInMilliseconds c > T then 0
          else if isPeriodic c
               then nat ((T - nextExecutionTimeInMilliseconds c) div delayInMilliseconds c) + 1
               else 1)"

definition workload :: "('cb, 'z) dstate_scheme \<Rightarrow> nat" where
  "workload d =
     sum_list (map (due_count (m_scheduledCallbacks d) (m_nextScheduledExecutionTime d)) (m_callbackQueue d))"

text \<open>What a round at time \<open>T\<close> makes of a registered callback that is queued.\<close>

definition after_round :: "int \<Rightarrow> 'cb scheduled_callback \<Rightarrow> 'cb scheduled_callback option" where
  "after_round T c =
     (if nextExecutionTimeInMilliseconds c > T then Some c
      else if isPeriodic c
           then Some (c\<lparr>nextExecutionTimeInMilliseconds := nextExecutionTimeInMilliseconds c +
                  ((T - nextExecutionTimeInMilliseconds c) div delayInMilliseconds c + 1)
                    * delayInMilliseconds c\<rparr>)
           else None)"

definition expected_map :: "('cb, 'z) dstate_scheme \<Rightarrow> int \<Rightarrow> 'cb scheduled_callback option" where
  "expected_map d i =
     (if i \<in> set (m_callbackQueue d)
      then Option.bind (map_of (m_scheduledCallbacks d) i) (after_round (m_nextScheduledExecutionTime d))
      else map_of (m_scheduledCallbacks d) i)"

text \<open>Delays are non-negative \<open>int\<close>s, times are in range, and the round leaves room for a delay.\<close>

definition timing_ok :: "('cb, 'z) dstate_scheme \<Rightarrow> bool" where
  "timing_ok d \<longleftrightarrow> m_nextScheduledExecutionTime d \<le> LLONG_MAX - INT_MAX \<and>
     (\<forall>i c. map_of (m_scheduledCallbacks d) i = Some c \<longrightarrow>
        0 \<le> delayInMilliseconds c \<and> delayInMilliseconds c \<le> INT_MAX \<and>
        LLONG_MIN \<le> nextExecutionTimeInMilliseconds c)"

definition periods_positive :: "('cb, 'z) dstate_scheme \<Rightarrow> bool" where
  "periods_positive d \<longleftrightarrow> (\<forall>i c. map_of (m_scheduledCallbacks d) i = Some c \<longrightarrow> isPeriodic c \<longrightarrow>
     0 < delayInMilliseconds c)"

section \<open>One callback\<close>

lemma sum_list_insort_key:
  "sum_list (map f (insort_key k x xs)) = f x + sum_list (map (f :: 'a \<Rightarrow> nat) xs)"
  by (induction xs) auto

lemma div_step:
  fixes T t p :: int
  assumes "0 < p" and "t + p \<le> T"
  shows "(T - t) div p = (T - (t + p)) div p + 1"
proof -
  have "T - t = (T - (t + p)) + p" by simp
  then show ?thesis using assms(1) by (metis div_add_self2 less_numeral_extra(3))
qed

lemma div_last: "0 < p \<Longrightarrow> t \<le> T \<Longrightarrow> T < t + p \<Longrightarrow> (T - t) div p = 0" for T t p :: int
  by (simp add: div_pos_pos_trivial)

text \<open>The state after a due callback at the front ran, in both cases.\<close>

definition next_state :: "int \<Rightarrow> 'cb scheduled_callback \<Rightarrow> ('cb, 'z) dstate_scheme \<Rightarrow> ('cb, 'z) dstate_scheme" where
  "next_state i c d =
     (if isPeriodic c
      then let m = smap_put i (c\<lparr>nextExecutionTimeInMilliseconds :=
                 nextExecutionTimeInMilliseconds c + delayInMilliseconds c\<rparr>) (m_scheduledCallbacks d)
           in d\<lparr>m_scheduledCallbacks := m,
                m_callbackQueue := insort_key (sched_key m) i (m_callbackQueue d)\<rparr>
      else RemoveScheduledCallbackFromMap i d)"

lemma execute_front_inert:
  assumes "inert run" and ok: "director_ok d" and q: "m_callbackQueue d = i # q"
    and c: "map_of (m_scheduledCallbacks d) i = Some c"
    and due: "nextExecutionTimeInMilliseconds c \<le> m_nextScheduledExecutionTime d" and "timing_ok d"
  shows "\<exists>e. same_queue (d\<lparr>m_callbackQueue := q\<rparr>) e \<and>
    execute_front run i d = Ret () (next_state i c e) \<and> director_ok (next_state i c e)"
proof -
  let ?d = "d\<lparr>m_callbackQueue := q\<rparr>"
  let ?t = "nextExecutionTimeInMilliseconds c + delayInMilliseconds c"
  have w: "queue_wf (m_scheduledCallbacks d) (i # q) (m_nextCallbackId d)"
    using ok q by (simp add: director_ok_def)
  obtain e where e: "run (callbackFunction c) ?d = Ret () e" "same_queue ?d e"
    using assms(1) unfolding inert_def by blast
  then have m: "m_scheduledCallbacks e = m_scheduledCallbacks d" "m_callbackQueue e = q"
      "m_nextCallbackId e = m_nextCallbackId d"
    by (simp_all add: same_queue_def)
  have iq: "i \<notin> set q" and w2: "queue_wf (m_scheduledCallbacks e) (m_callbackQueue e) (m_nextCallbackId e)"
    using queue_wf_tl[OF w] m by simp_all
  have b: "0 \<le> i" "i < m_nextCallbackId e" using w c m by (auto simp: queue_wf_def)
  have "0 \<le> delayInMilliseconds c" "delayInMilliseconds c \<le> INT_MAX"
      "LLONG_MIN \<le> nextExecutionTimeInMilliseconds c"
      "m_nextScheduledExecutionTime d \<le> LLONG_MAX - INT_MAX"
    using assms(6) c unfolding timing_ok_def by blast+
  then have fits: "fits_llong ?t" using due by (simp add: fits_llong_def)
  let ?m = "smap_put i (c\<lparr>nextExecutionTimeInMilliseconds := ?t\<rparr>) (m_scheduledCallbacks e)"
  have wp: "queue_wf ?m (m_callbackQueue e) (m_nextCallbackId e)"
    using queue_wf_put_out[OF w2 _ b] iq m by simp
  have "reschedule_or_remove i e = Ret () (next_state i c e) \<and> director_ok (next_state i c e)"
    using queue_wf_queue[of "e\<lparr>m_scheduledCallbacks := ?m\<rparr>" "m_nextCallbackId e" i]
      wp fits iq c m queue_wf_erase_out[OF w2, of i]
    by (auto simp: reschedule_or_remove_def next_state_def director_ok_def Let_def)
  with e c q show ?thesis by (auto simp: execute_front_def call_callback_def)
qed

lemma next_state_simps:
  assumes "same_queue (d\<lparr>m_callbackQueue := q\<rparr>) e"
  shows "m_nextScheduledExecutionTime (next_state i c e) = m_nextScheduledExecutionTime d"
    and "m_currentLogicalTime (next_state i c e) = m_currentLogicalTime d"
    and "m_nextCallbackId (next_state i c e) = m_nextCallbackId d"
    and "set (m_callbackQueue (next_state i c e)) = (if isPeriodic c then insert i (set q) else set q)"
    and "map_of (m_scheduledCallbacks (next_state i c e)) =
      (map_of (m_scheduledCallbacks d))(i := if isPeriodic c
         then Some (c\<lparr>nextExecutionTimeInMilliseconds :=
           nextExecutionTimeInMilliseconds c + delayInMilliseconds c\<rparr>) else None)"
  using assms by (auto simp: next_state_def same_queue_def Let_def set_insort_key
      RemoveScheduledCallbackFromMap_def)

lemma next_state_timing:
  assumes "same_queue (d\<lparr>m_callbackQueue := q\<rparr>) e" and "timing_ok d"
    and "map_of (m_scheduledCallbacks d) i = Some c"
  shows "timing_ok (next_state i c e)" and "periods_positive d \<Longrightarrow> periods_positive (next_state i c e)"
  using assms(2,3) unfolding timing_ok_def periods_positive_def
  by (fastforce simp: next_state_simps[OF assms(1)] split: if_splits)+

lemma next_state_workload:
  assumes s: "same_queue (d\<lparr>m_callbackQueue := q\<rparr>) e" and q: "m_callbackQueue d = i # q"
    and iq: "i \<notin> set q" and c: "map_of (m_scheduledCallbacks d) i = Some c"
    and due: "nextExecutionTimeInMilliseconds c \<le> m_nextScheduledExecutionTime d"
    and pos: "isPeriodic c \<Longrightarrow> 0 < delayInMilliseconds c"
  shows "workload (next_state i c e) < workload d"
proof -
  let ?T = "m_nextScheduledExecutionTime d" and ?m = "m_scheduledCallbacks d"
  let ?m' = "m_scheduledCallbacks (next_state i c e)"
  let ?t = "nextExecutionTimeInMilliseconds c" and ?p = "delayInMilliseconds c"
  have "due_count ?m' ?T j = due_count ?m ?T j" if "j \<in> set q" for j
    using that iq by (auto simp: due_count_def next_state_simps[OF s])
  then have rest: "map (due_count ?m' ?T) q = map (due_count ?m ?T) q" by simp
  show ?thesis
  proof (cases "isPeriodic c")
    case False
    then have "m_callbackQueue (next_state i c e) = q"
      using s by (simp add: next_state_def same_queue_def)
    then have "workload (next_state i c e) = sum_list (map (due_count ?m ?T) q)"
      by (simp only: workload_def next_state_simps(1)[OF s] rest)
    moreover have "due_count ?m ?T i = 1" using due c False by (simp add: due_count_def)
    ultimately show ?thesis using q by (simp add: workload_def)
  next
    case True
    then have "m_callbackQueue (next_state i c e) = insort_key (sched_key ?m') i q"
      using s by (simp add: next_state_def same_queue_def Let_def)
    then have "workload (next_state i c e) = due_count ?m' ?T i + sum_list (map (due_count ?m ?T) q)"
      by (simp add: workload_def next_state_simps[OF s] sum_list_insort_key rest)
    moreover have "due_count ?m' ?T i < due_count ?m ?T i"
    proof (cases "?t + ?p \<le> ?T")
      case le: True
      then have "0 \<le> (?T - (?t + ?p)) div ?p"
        using pos True by (simp add: pos_imp_zdiv_nonneg_iff)
      then show ?thesis
        using True le due c div_step[of ?p ?t ?T] pos
        by (simp add: due_count_def next_state_simps[OF s])
    next
      case False
      with True due c show ?thesis by (simp add: due_count_def next_state_simps[OF s])
    qed
    ultimately show ?thesis using q by (simp add: workload_def)
  qed
qed

lemma next_state_expected:
  assumes s: "same_queue (d\<lparr>m_callbackQueue := q\<rparr>) e" and q: "m_callbackQueue d = i # q"
    and iq: "i \<notin> set q" and c: "map_of (m_scheduledCallbacks d) i = Some c"
    and due: "nextExecutionTimeInMilliseconds c \<le> m_nextScheduledExecutionTime d"
    and pos: "isPeriodic c \<Longrightarrow> 0 < delayInMilliseconds c"
  shows "expected_map (next_state i c e) = expected_map d"
proof
  fix j
  let ?T = "m_nextScheduledExecutionTime d"
  let ?t = "nextExecutionTimeInMilliseconds c" and ?p = "delayInMilliseconds c"
  have "after_round ?T (c\<lparr>nextExecutionTimeInMilliseconds := ?t + ?p\<rparr>) = after_round ?T c"
    if "isPeriodic c"
    using that due pos div_step[of ?p ?t ?T] div_last[of ?p ?t ?T]
    by (cases "?t + ?p \<le> ?T") (auto simp: after_round_def algebra_simps)
  moreover have "after_round ?T c = None" if "\<not> isPeriodic c"
    using that due by (simp add: after_round_def)
  ultimately show "expected_map (next_state i c e) j = expected_map d j"
    using q iq c by (auto simp: expected_map_def next_state_simps[OF s])
qed

section \<open>A round ends\<close>

lemma queue_times:
  assumes "director_ok d" and "m_callbackQueue d = i # q"
    and "map_of (m_scheduledCallbacks d) i = Some c" and "j \<in> set (i # q)"
    and "map_of (m_scheduledCallbacks d) j = Some c'"
  shows "nextExecutionTimeInMilliseconds c \<le> nextExecutionTimeInMilliseconds c'"
proof -
  have "sorted (map (sched_key (m_scheduledCallbacks d)) (i # q))"
    using assms(1,2) by (simp add: director_ok_def queue_wf_def)
  then have "sched_key (m_scheduledCallbacks d) i \<le> sched_key (m_scheduledCallbacks d) j"
    using assms(4) by auto
  with assms(3,5) show ?thesis by (auto simp: sched_key_def)
qed

definition nothing_due :: "('cb, 'z) dstate_scheme \<Rightarrow> bool" where
  "nothing_due d \<longleftrightarrow> (\<forall>i \<in> set (m_callbackQueue d). \<forall>c. map_of (m_scheduledCallbacks d) i = Some c \<longrightarrow>
     m_nextScheduledExecutionTime d < nextExecutionTimeInMilliseconds c)"

lemma expected_map_nothing_due:
  assumes "nothing_due d"
  shows "expected_map d = map_of (m_scheduledCallbacks d)"
proof
  fix i
  show "expected_map d i = map_of (m_scheduledCallbacks d) i"
    using assms by (cases "map_of (m_scheduledCallbacks d) i")
      (auto simp: expected_map_def nothing_due_def after_round_def)
qed

lemma execute_due_total:
  assumes "inert run"
  shows "director_ok d \<Longrightarrow> timing_ok d \<Longrightarrow> periods_positive d \<Longrightarrow> workload d < n \<Longrightarrow>
    \<exists>d'. execute_due run n d = Ret () d' \<and> director_ok d' \<and> nothing_due d' \<and>
      map_of (m_scheduledCallbacks d') = expected_map d \<and>
      m_nextScheduledExecutionTime d' = m_nextScheduledExecutionTime d \<and>
      m_currentLogicalTime d' = m_currentLogicalTime d"
proof (induction n arbitrary: d)
  case (Suc n)
  show ?case
  proof (cases "m_callbackQueue d")
    case Nil
    then have "nothing_due d" by (simp add: nothing_due_def)
    with Nil Suc.prems show ?thesis by (simp add: expected_map_nothing_due)
  next
    case (Cons i q)
    with Suc.prems(1) obtain c where c: "map_of (m_scheduledCallbacks d) i = Some c"
      and iq: "i \<notin> set q"
      by (auto simp: director_ok_def queue_wf_def)
    then have g: "GetNextQueuedExecutionTime d = Inr (nextExecutionTimeInMilliseconds c)"
      using Cons by (simp add: GetNextQueuedExecutionTime_def)
    show ?thesis
    proof (cases "nextExecutionTimeInMilliseconds c \<le> m_nextScheduledExecutionTime d")
      case False
      then have "nothing_due d"
        using queue_times[OF Suc.prems(1) Cons c] Cons by (fastforce simp: nothing_due_def)
      with False Cons g Suc.prems(1) show ?thesis by (simp add: expected_map_nothing_due)
    next
      case due: True
      obtain e where e: "same_queue (d\<lparr>m_callbackQueue := q\<rparr>) e"
          "execute_front run i d = Ret () (next_state i c e)" "director_ok (next_state i c e)"
        using execute_front_inert[OF assms Suc.prems(1) Cons c due Suc.prems(2)] by blast
      have pos: "isPeriodic c \<Longrightarrow> 0 < delayInMilliseconds c"
        using Suc.prems(3) c by (auto simp: periods_positive_def)
      have "workload (next_state i c e) < n"
        using next_state_workload[OF e(1) Cons iq c due pos] Suc.prems(4) by simp
      from Suc.IH[OF e(3) next_state_timing(1)[OF e(1) Suc.prems(2) c]
          next_state_timing(2)[OF e(1) Suc.prems(2) c Suc.prems(3)] this]
      show ?thesis
        using e(2) Cons g due next_state_expected[OF e(1) Cons iq c due pos]
        by (simp add: next_state_simps[OF e(1)])
    qed
  qed
qed simp

text \<open>
  C9. A round ends and does exactly its work. If the callbacks leave the director alone (they neither
  schedule nor clear; for those of the framework, which do, see theory \<open>Rounds\<close>) and do not throw, all
  periods are positive and the fuel exceeds the number of due occurrences, the round returns;
  nothing queued is due any more; a due one-shot callback is gone, a due periodic one is at
  the first multiple of its period after the round's time, and every other callback is as it
  was. The logical time is the round's.
\<close>

theorem ExecuteCallbacks_total:
  assumes "inert run" and "director_ok d" and "timing_ok d" and "periods_positive d"
    and "workload d < fuel"
  shows "\<exists>d'. ExecuteCallbacks run fuel d = Ret () d' \<and> director_ok d' \<and> nothing_due d' \<and>
    map_of (m_scheduledCallbacks d') = expected_map d \<and>
    m_currentLogicalTime d' = m_nextScheduledExecutionTime d"
proof -
  let ?d = "d\<lparr>m_currentLogicalTime := m_nextScheduledExecutionTime d\<rparr>"
  have "director_ok ?d" "timing_ok ?d" "periods_positive ?d" "workload ?d < fuel"
    "expected_map ?d = expected_map d"
    using assms by (simp_all add: director_ok_def timing_ok_def periods_positive_def workload_def
        expected_map_def fun_eq_iff)
  with execute_due_total[OF assms(1), of ?d fuel] show ?thesis by (auto simp: ExecuteCallbacks_def)
qed

definition silent_semantics :: "('cb, 'z) callback_semantics" where
  "silent_semantics f d = Ret () d"

lemma silent_inert: "inert silent_semantics"
  by (simp add: inert_def silent_semantics_def same_queue_def)

text \<open>A callback every 250 ms whose director wakes up a second late.\<close>

definition late_director :: "nat dstate" where
  "late_director = (registered 7 250 True 3 demo_director)\<lparr>m_nextScheduledExecutionTime := 1001750\<rparr>"

lemma late_director_simps:
  "m_nextScheduledExecutionTime late_director = 1001750"
  "m_callbackQueue late_director = [0]"
  "m_scheduledCallbacks late_director = [(0, new_callback 7 250 True 3 1000750)]"
  by (simp_all add: late_director_def demo_director_def Director_new_def registered_def Let_def
      timespec_to_milliseconds_def demo_clock_def trunc_div_def)

lemma late_director_ok: "director_ok late_director"
  using demo_registered_ok[of 7 True 3] by (simp add: late_director_def director_ok_def)

lemma ExecuteCallbacks_total_witness:
  "\<exists>d'. ExecuteCallbacks silent_semantics 6 late_director = Ret () d' \<and>
     map_of (m_scheduledCallbacks d') 0 = Some (new_callback 7 250 True 3 1002000)"
proof -
  have "timing_ok late_director" "periods_positive late_director" "workload late_director < 6"
    by (auto simp: timing_ok_def periods_positive_def workload_def due_count_def
        late_director_simps new_callback_def split: if_splits)
  from ExecuteCallbacks_total[OF silent_inert late_director_ok this] show ?thesis
    by (auto simp: expected_map_def after_round_def late_director_simps new_callback_def)
qed

section \<open>A periodic callback without delay\<close>

lemma zero_period_step:
  assumes "inert run" "director_ok d" "timing_ok d"
    and z: "z \<in> set (m_callbackQueue d)" "map_of (m_scheduledCallbacks d) z = Some cz"
      "isPeriodic cz" "delayInMilliseconds cz = 0"
      "nextExecutionTimeInMilliseconds cz \<le> m_nextScheduledExecutionTime d"
  shows "\<exists>i q d'. m_callbackQueue d = i # q \<and> execute_due run (Suc n) d = execute_due run n d' \<and>
    director_ok d' \<and> timing_ok d' \<and> z \<in> set (m_callbackQueue d') \<and>
    map_of (m_scheduledCallbacks d') z = Some cz \<and>
    m_nextScheduledExecutionTime d' = m_nextScheduledExecutionTime d"
proof -
  obtain i q where q: "m_callbackQueue d = i # q" using z(1) by (cases "m_callbackQueue d") auto
  with assms(2) obtain c where c: "map_of (m_scheduledCallbacks d) i = Some c"
    by (auto simp: director_ok_def queue_wf_def)
  have due: "nextExecutionTimeInMilliseconds c \<le> m_nextScheduledExecutionTime d"
    using queue_times[OF assms(2) q c _ z(2)] z(1,5) q by simp
  obtain e where e: "same_queue (d\<lparr>m_callbackQueue := q\<rparr>) e"
      "execute_front run i d = Ret () (next_state i c e)" "director_ok (next_state i c e)"
    using execute_front_inert[OF assms(1,2) q c due assms(3)] by blast
  have "GetNextQueuedExecutionTime d = Inr (nextExecutionTimeInMilliseconds c)"
    using q c by (simp add: GetNextQueuedExecutionTime_def)
  then have "execute_due run (Suc n) d = execute_due run n (next_state i c e)"
    using q due e(2) by simp
  moreover have "map_of (m_scheduledCallbacks (next_state i c e)) z = Some cz"
    using z c by (auto simp: next_state_simps[OF e(1)])
  moreover have "z \<in> set (m_callbackQueue (next_state i c e))"
    using z c q by (auto simp: next_state_simps[OF e(1)])
  ultimately show ?thesis
    using q e(3) next_state_timing(1)[OF e(1) assms(3) c] next_state_simps(1)[OF e(1)] by blast
qed

lemma zero_period_diverges:
  assumes "inert run"
  shows "director_ok d \<Longrightarrow> timing_ok d \<Longrightarrow> z \<in> set (m_callbackQueue d) \<Longrightarrow>
    map_of (m_scheduledCallbacks d) z = Some cz \<Longrightarrow> isPeriodic cz \<Longrightarrow> delayInMilliseconds cz = 0 \<Longrightarrow>
    nextExecutionTimeInMilliseconds cz \<le> m_nextScheduledExecutionTime d \<Longrightarrow>
    execute_due run n d = Diverge"
proof (induction n arbitrary: d)
  case (Suc n)
  from zero_period_step[OF assms Suc.prems, of n] Suc.IH Suc.prems show ?case by metis
qed simp

text \<open>
  C40. If the callbacks leave the director alone (they neither schedule nor clear, themselves
  included) and do not throw, a round with a due periodic callback whose delay is 0 never ends, however
  much fuel it is given: the callback is queued again at the round's own time, and no other callback or
  later thread runs again.
\<close>

theorem zero_period_never_returns:
  assumes "inert run" and "director_ok d" and "timing_ok d"
    and "z \<in> set (m_callbackQueue d)" and "map_of (m_scheduledCallbacks d) z = Some c"
    and "isPeriodic c" and "delayInMilliseconds c = 0"
    and "nextExecutionTimeInMilliseconds c \<le> m_nextScheduledExecutionTime d"
  shows "ExecuteCallbacks run fuel d = Diverge"
  unfolding ExecuteCallbacks_def
  by (rule zero_period_diverges[OF assms(1), of _ z c])
    (use assms in \<open>simp_all add: director_ok_def timing_ok_def\<close>)

definition spinning_director :: "nat dstate" where
  "spinning_director = demo_director\<lparr>m_nextCallbackId := 1, m_callbackQueue := [0],
     m_scheduledCallbacks := [(0, new_callback 7 0 True 3 1000500)],
     m_nextScheduledExecutionTime := 1000500\<rparr>"

lemma zero_period_never_returns_witness:
  "ExecuteCallbacks silent_semantics 1000000 spinning_director = Diverge"
proof (rule zero_period_never_returns[OF silent_inert, of _ 0 "new_callback 7 0 True 3 1000500"])
  show "director_ok spinning_director"
    by (simp add: spinning_director_def director_ok_def queue_wf_def smap_wf_def)
  show "timing_ok spinning_director"
    by (simp add: spinning_director_def timing_ok_def new_callback_def)
qed (simp_all add: spinning_director_def new_callback_def)

end
