(* ===== verification/DirectorHazards.thy ===== *)
theory DirectorHazards
  imports DirectorProgress
begin

text \<open>
  What happens in \<open>src/src/Director.cpp\<close> when a callback clears callbacks while it runs. The
  running callback is no longer queued, so clearing the last queued one resets the director in
  the middle of the round: identifiers restart at 0 and the next execution time becomes the
  largest 64-bit value. The theorems follow the round after that. A last part follows an
  exception through \<open>Director::Execute\<close>.
\<close>

section \<open>Clearing from inside a callback\<close>

text \<open>
  The queue is empty while its only callback runs, so clearing any identifier at all, even one
  that was never given out, resets the director and drops the running callback.
\<close>

lemma clear_while_running_resets:
  "m_callbackQueue d = [] \<Longrightarrow> ClearScheduledCallback j d =
     Reset (RemoveScheduledCallbackFromMap j (d\<lparr>m_callbackQueue := []\<rparr>))"
  by (simp add: ClearScheduledCallback_def Let_def NeedsReset_def)

definition clear_other :: "int \<Rightarrow> (nat, 'z) callback_semantics" where
  "clear_other j f d = Ret () (ClearScheduledCallback j d)"

text \<open>
  A periodic callback that is the only one queued and clears some other identifier (for
  instance one of a callback that already ran) is itself dropped: after the round no callback
  is registered any more, so it never runs again.
\<close>

theorem clear_other_drops_periodic:
  assumes "director_ok d" and "m_callbackQueue d = [i]"
    and "map_of (m_scheduledCallbacks d) i = Some c"
    and "nextExecutionTimeInMilliseconds c \<le> m_nextScheduledExecutionTime d"
  shows "\<exists>d'. ExecuteCallbacks (clear_other j) (Suc (Suc fuel)) d = Ret () d' \<and>
    m_scheduledCallbacks d' = [] \<and> m_callbackQueue d' = [] \<and> m_nextCallbackId d' = 0"
  using assms
  by (simp add: ExecuteCallbacks_def GetNextQueuedExecutionTime_def execute_front_def
      call_callback_def clear_other_def clear_while_running_resets reschedule_or_remove_def)

lemma clear_other_drops_periodic_witness:
  "\<exists>d'. ExecuteCallbacks (clear_other 99) 2 late_director = Ret () d' \<and> m_scheduledCallbacks d' = []"
  using clear_other_drops_periodic[OF late_director_ok, of 0 "new_callback 7 250 True 3 1000750" 99 0]
  by (auto simp: late_director_simps new_callback_def numeral_2_eq_2)

section \<open>Cancelling and rescheduling from inside a callback\<close>

text \<open>
  Callback 0 cancels itself (its identifier is the parameter) and schedules callback 1, which
  is the way to restart a timer. Callback 1 throws, so that its execution is visible.
\<close>

definition restart_timer :: "int \<Rightarrow> int \<Rightarrow> (nat, 'z) callback_semantics" where
  "restart_timer myId delay f d =
     (if f = 0
      then run_bind (ScheduleCallback 1 delay False 5 (ClearScheduledCallback myId d)) (\<lambda>_. Ret ())
      else Throw (UserStd f) d)"

definition timer_director :: "int \<Rightarrow> nat dstate" where
  "timer_director i =
     (Director_new (\<lambda>_. Some (1000, 0)) [])\<lparr>m_nextCallbackId := i + 1, m_callbackQueue := [i],
        m_scheduledCallbacks := [(i, new_callback 0 500 False 3 1000000)],
        m_nextScheduledExecutionTime := 1000000\<rparr>"

lemmas hazard_eval =
  ExecuteCallbacks_def execute_front_def call_callback_def restart_timer_def timer_director_def
  Director_new_def new_callback_def GetNextQueuedExecutionTime_def ClearScheduledCallback_def
  RemoveScheduledCallbackFromMap_def NeedsReset_def Reset_def StopExecution_def
  PosixUtcInMilliseconds_def timespec_to_milliseconds_def trunc_div_def ScheduleCallback_def
  QueueScheduledCallback_def ScheduleNextExecution_def DefaultNextExecutionTime_def
  reschedule_or_remove_def fits_llong_def fits_int_def smap_erase_def Let_def

text \<open>
  The identifiers restart while the callback runs: when callback 0 is the only one queued,
  cancels itself and schedules a successor, the successor gets identifier 0 again; the director
  then takes it for the callback that just ran and removes it from the map but not from the
  queue, and the next look at the queue throws \<open>std::out_of_range\<close> out of the round.
\<close>

theorem restart_timer_out_of_range:
  "\<exists>d'. ExecuteCallbacks (restart_timer 0 500) (Suc (Suc fuel)) (timer_director 0) = Throw OutOfRange d' \<and>
     m_callbackQueue d' = [0] \<and> m_scheduledCallbacks d' = []"
  by (simp add: hazard_eval)

text \<open>
  The round's end moves with the reset: when the same happens to a callback with another
  identifier, the successor's time becomes the director's next execution time, so the round
  that is running takes the successor to be due and runs it at once, though the clock still
  stands at the time at which it was scheduled, its whole delay too early.
\<close>

theorem restart_timer_runs_early:
  "\<exists>d'. ExecuteCallbacks (restart_timer 4 500) (Suc (Suc fuel)) (timer_director 4) = Throw (UserStd 1) d' \<and>
     m_nextScheduledExecutionTime d' = 1000500 \<and>
     (\<forall>k. timespec_to_milliseconds (clock d' k) = 1000000)"
  by (simp add: hazard_eval)

section \<open>Retrying a thread launch\<close>

text \<open>
  When the first attempt to start the execution thread fails with
  \<open>resource_unavailable_try_again\<close>, the retry starts a thread whose promise is a null pointer,
  and the future that \<open>Execute\<close> waits for already holds a broken-promise error.
\<close>

theorem launch_retry_loses_promise:
  assumes "spawnOutcomes d = SpawnAgain # SpawnOk # os"
    and "fits_llong (m_nextScheduledExecutionTime d - timespec_to_milliseconds (clock d (ticks d)))"
  shows "\<exists>d' a. ScheduleNextExecution d = Ret () d' \<and> threads d' = threads d @ [a] \<and>
    act_promise a = None \<and> m_executionResult d' = Some (length (futures d)) \<and>
    futures d' ! length (futures d) = Failed FutureError"
  using assms
  by (simp add: ScheduleNextExecution_def PosixUtcInMilliseconds_def Let_def)

lemma launch_retry_loses_promise_witness:
  "\<exists>d' a. ScheduleNextExecution (late_director\<lparr>spawnOutcomes := [SpawnAgain, SpawnOk]\<rparr>) = Ret () d' \<and>
     threads d' = [a] \<and> act_promise a = None"
  using launch_retry_loses_promise[of "late_director\<lparr>spawnOutcomes := [SpawnAgain, SpawnOk]\<rparr>" "[]"]
  by (fastforce simp: fits_llong_def late_director_def demo_director_def Director_new_def
      registered_def Let_def timespec_to_milliseconds_def demo_clock_def trunc_div_def)

section \<open>After an exception\<close>

text \<open>
  An exception of a round reaches the caller of \<open>Execute\<close> when it reads the future; the token
  is then still set and not cancelled, and the future has been read.
\<close>

definition stalled :: "('cb, 'z) dstate_scheme \<Rightarrow> bool" where
  "stalled d \<longleftrightarrow> (\<exists>t f. m_executionCancellationToken d = Some t \<and> \<not> token_canceled t d \<and>
     m_executionResult d = Some f \<and> futures d ! f = Retrieved)"

lemma take_result_failed_stalls:
  assumes "m_executionCancellationToken d = Some t" "\<not> token_canceled t d"
    and "m_executionResult d = Some f" "f < length (futures d)" "futures d ! f = Failed e"
  shows "\<exists>d'. take_result f d = Throw e d' \<and> stalled d'"
  using assms by (auto simp: take_result_def stalled_def token_canceled_def Let_def)

text \<open>
  The call of \<open>Execute\<close> that follows one that ended in an exception runs nothing: it
  finds the old token still live and the future already read, and only stops execution. The
  callbacks and their queue are exactly as the exception left them.
\<close>

theorem Execute_after_exception_is_empty:
  assumes "stalled d"
  shows "Execute run cfuel fuel (Suc rounds) n d = Ret () (StopExecution d)"
  using assms by (auto simp: stalled_def Execute_def)

lemma stalled_example: "stalled (demo_director\<lparr>m_executionCancellationToken := Some 0,
    tokens := [new_token], m_executionResult := Some 0, futures := [Retrieved]\<rparr>)"
  by (simp add: stalled_def token_canceled_def)

lemma Execute_after_exception_is_empty_witness:
  "\<exists>d :: nat dstate. stalled d \<and> Execute silent_semantics 10 10 1 5 d = Ret () (StopExecution d)"
  using Execute_after_exception_is_empty[OF stalled_example, of silent_semantics 10 10 0 5] stalled_example
  by auto

end
