(* ===== verification/Port.thy ===== *)
theory Port
  imports Prelude
begin

text \<open>
  \<open>src/src/Port.h\<close> and \<open>Port.cpp\<close>, all but the delivery of events (which needs the accessors
  and is in the runtime): the connections between ports, and the input queue of an input port.
  Ports live in a store; a pointer to a port that is not in the store is a dangling pointer.
  An event is \<open>'e option\<close>, \<open>None\<close> being the null shared pointer.
\<close>

section \<open>Ports\<close>

datatype port_kind = InputPort | OutputPort bool  \<comment> \<open>spontaneous\<close>

record 'e port =
  p_name :: string
  p_owner :: nat
  p_kind :: port_kind
  m_source :: "nat option"
  m_destinations :: "nat list"
  m_waitingForInputHandler :: bool
  m_inputQueue :: "'e option list"

type_synonym 'e port_store = "nat \<Rightarrow> 'e port option"

definition Port_new :: "string \<Rightarrow> nat \<Rightarrow> port_kind \<Rightarrow> 'e port" where
  "Port_new name owner1 k =
     \<lparr>p_name = name, p_owner = owner1, p_kind = k, m_source = None, m_destinations = [],
      m_waitingForInputHandler = False, m_inputQueue = []\<rparr>"

fun IsSpontaneous :: "'e port \<Rightarrow> bool" where
  "IsSpontaneous p = (case p_kind p of InputPort \<Rightarrow> False | OutputPort sp \<Rightarrow> sp)"

definition IsConnectedToSource :: "'e port \<Rightarrow> bool" where
  "IsConnectedToSource p \<longleftrightarrow> m_source p \<noteq> None"

definition GetSource :: "'e port \<Rightarrow> nat option" where
  "GetSource p = m_source p"

definition GetDestinations :: "'e port \<Rightarrow> nat list" where
  "GetDestinations p = m_destinations p"

definition modify_port :: "nat \<Rightarrow> ('e port \<Rightarrow> 'e port) \<Rightarrow> 'e port_store \<Rightarrow> 'e port_store" where
  "modify_port p f S = S(p := map_option f (S p))"

section \<open>Connections\<close>

definition ValidateConnection :: "nat \<Rightarrow> nat \<Rightarrow> 'e port_store \<Rightarrow> exn option" where
  "ValidateConnection source destination S =
     (case S destination of
        None \<Rightarrow> Some (Fatal DanglingPointer)
      | Some dp \<Rightarrow>
          (case m_source dp of
             Some s \<Rightarrow>
               if s \<noteq> source then Some (AlreadyConnected destination s)
               else if IsSpontaneous dp then Some (DestinationSpontaneous destination) else None
           | None \<Rightarrow>
               if IsSpontaneous dp then Some (DestinationSpontaneous destination) else None))"

definition Connect :: "nat \<Rightarrow> nat \<Rightarrow> 'e port_store \<Rightarrow> (unit, 'e port_store) run" where
  "Connect source destination S =
     (case ValidateConnection source destination S of
        Some e \<Rightarrow> Throw e S
      | None \<Rightarrow>
          if S source = None then Throw (Fatal DanglingPointer) S
          else Ret () (modify_port source (\<lambda>p. p\<lparr>m_destinations := m_destinations p @ [destination]\<rparr>)
                 (modify_port destination (\<lambda>p. p\<lparr>m_source := Some source\<rparr>) S)))"

definition Disconnect :: "nat \<Rightarrow> nat \<Rightarrow> 'e port_store \<Rightarrow> (unit, 'e port_store) run" where
  "Disconnect source destination S =
     (case S destination of
        None \<Rightarrow> Throw (Fatal DanglingPointer) S
      | Some dp \<Rightarrow>
          if m_source dp = Some source
          then if S source = None then Throw (Fatal DanglingPointer) S
               else Ret () (modify_port destination (\<lambda>p. p\<lparr>m_source := None\<rparr>)
                      (modify_port source
                        (\<lambda>p. p\<lparr>m_destinations := remove1 destination (m_destinations p)\<rparr>) S))
          else Ret () S)"

text \<open>The while loop of \<open>DisconnectAll\<close> over the destinations.\<close>

fun disconnect_destinations :: "nat \<Rightarrow> nat \<Rightarrow> 'e port_store \<Rightarrow> (unit, 'e port_store) run" where
  "disconnect_destinations 0 p S = Diverge"
| "disconnect_destinations (Suc n) p S =
     (case S p of
        None \<Rightarrow> Throw (Fatal DanglingPointer) S
      | Some pt \<Rightarrow>
          (case m_destinations pt of
             [] \<Rightarrow> Ret () S
           | d # _ \<Rightarrow> run_bind (Disconnect p d S) (\<lambda>_. disconnect_destinations n p)))"

definition DisconnectAll :: "nat \<Rightarrow> nat \<Rightarrow> 'e port_store \<Rightarrow> (unit, 'e port_store) run" where
  "DisconnectAll fuel p S =
     (case S p of
        None \<Rightarrow> Throw (Fatal DanglingPointer) S
      | Some pt \<Rightarrow>
          run_bind (case m_source pt of None \<Rightarrow> Ret () S | Some s \<Rightarrow> Disconnect s p S)
            (\<lambda>_. disconnect_destinations fuel p))"

text \<open>
  Consistency: a port lists a destination at most once, and exactly the ports whose source it
  is; a port with a source is not spontaneous.
\<close>

definition connections_ok :: "'e port_store \<Rightarrow> bool" where
  "connections_ok S \<longleftrightarrow>
     (\<forall>p x. S p = Some x \<longrightarrow> distinct (m_destinations x) \<and>
        (\<forall>d. d \<in> set (m_destinations x) \<longleftrightarrow> (\<exists>y. S d = Some y \<and> m_source y = Some p))) \<and>
     (\<forall>d y s. S d = Some y \<and> m_source y = Some s \<longrightarrow> S s \<noteq> None \<and> \<not> IsSpontaneous y)"

lemma modify_port_apply: "modify_port p f S q = (if q = p then map_option f (S p) else S q)"
  by (simp add: modify_port_def)

lemma connections_ok_distinct:
  "connections_ok S \<Longrightarrow> S p = Some x \<Longrightarrow> distinct (m_destinations x)"
  unfolding connections_ok_def by blast

lemma connections_ok_dest:
  "connections_ok S \<Longrightarrow> S p = Some x \<Longrightarrow>
   d \<in> set (m_destinations x) \<longleftrightarrow> (\<exists>y. S d = Some y \<and> m_source y = Some p)"
  unfolding connections_ok_def by blast

lemma connections_ok_source:
  "connections_ok S \<Longrightarrow> S d = Some y \<Longrightarrow> m_source y = Some s \<Longrightarrow> S s \<noteq> None \<and> \<not> IsSpontaneous y"
  unfolding connections_ok_def by blast

lemma connections_ok_Connect:
  assumes ok: "connections_ok S" and d: "S d = Some y" "m_source y = None" and s: "Connect s d S = Ret () S'"
  shows "connections_ok S'"
proof -
  from s d obtain x where x: "S s = Some x" and sp: "\<not> IsSpontaneous y"
    by (auto simp: Connect_def ValidateConnection_def split: if_splits option.splits)
  have S': "S' = modify_port s (\<lambda>p. p\<lparr>m_destinations := m_destinations p @ [d]\<rparr>)
      (modify_port d (\<lambda>p. p\<lparr>m_source := Some s\<rparr>) S)"
    using s d x sp by (simp add: Connect_def ValidateConnection_def)
  have nd: "d \<notin> set (m_destinations z)" if "S p = Some z" for p z
    using connections_ok_dest[OF ok that, of d] d by simp
  show ?thesis
    unfolding connections_ok_def
  proof (intro conjI allI impI)
    fix p z assume z: "S' p = Some z"
    then obtain w where w: "S p = Some w" by (auto simp: S' modify_port_apply split: if_splits)
    have mz: "m_destinations z = m_destinations w @ (if p = s then [d] else [])"
      using z w by (auto simp: S' modify_port_apply split: if_splits)
    show "distinct (m_destinations z)"
      using mz nd[OF w] connections_ok_distinct[OF ok w] by auto
    fix q
    show "q \<in> set (m_destinations z) \<longleftrightarrow> (\<exists>y. S' q = Some y \<and> m_source y = Some p)"
      using mz connections_ok_dest[OF ok w, of q] d by (auto simp: S' modify_port_apply)
  next
    fix q z t assume z: "S' q = Some z \<and> m_source z = Some t"
    show "S' t \<noteq> None" "\<not> IsSpontaneous z"
      using z x d sp connections_ok_source[OF ok, of q _ t]
      by (auto simp: S' modify_port_apply split: if_splits)
  qed
qed

lemma Disconnect_ok:
  assumes ok: "connections_ok S" and y: "S d = Some y" "m_source y = Some s"
  shows "\<exists>S'. Disconnect s d S = Ret () S' \<and> connections_ok S' \<and>
    (\<forall>q. S' q = map_option (\<lambda>z. z\<lparr>m_source := (if q = d then None else m_source z),
       m_destinations := (if q = s then remove1 d (m_destinations z) else m_destinations z)\<rparr>) (S q))"
proof -
  define S' where "S' = modify_port d (\<lambda>p. p\<lparr>m_source := None\<rparr>)
    (modify_port s (\<lambda>p. p\<lparr>m_destinations := remove1 d (m_destinations p)\<rparr>) S)"
  have S'q: "S' q = map_option (\<lambda>z. z\<lparr>m_source := (if q = d then None else m_source z),
       m_destinations := (if q = s then remove1 d (m_destinations z) else m_destinations z)\<rparr>) (S q)" for q
    by (cases "S q") (auto simp: S'_def modify_port_apply)
  have "connections_ok S'"
    unfolding connections_ok_def
  proof (intro conjI allI impI)
    fix p z assume z: "S' p = Some z"
    then obtain w where w: "S p = Some w" by (auto simp: S'q)
    have mz: "m_destinations z = (if p = s then remove1 d (m_destinations w) else m_destinations w)"
      using z w by (auto simp: S'q)
    show "distinct (m_destinations z)"
      using mz connections_ok_distinct[OF ok w] by (simp add: distinct_remove1)
    fix q
    have "d \<notin> set (m_destinations w)" if "p \<noteq> s"
      using connections_ok_dest[OF ok w, of d] y that by auto
    moreover have "(\<exists>y. S' q = Some y \<and> m_source y = Some p) \<longleftrightarrow>
        (\<exists>y. S q = Some y \<and> m_source y = Some p) \<and> q \<noteq> d"
      by (cases "S q") (auto simp: S'q)
    ultimately show "q \<in> set (m_destinations z) \<longleftrightarrow> (\<exists>y. S' q = Some y \<and> m_source y = Some p)"
      using mz connections_ok_dest[OF ok w, of q] connections_ok_distinct[OF ok w]
      by auto
  next
    fix q z t assume z: "S' q = Some z \<and> m_source z = Some t"
    then obtain w where w: "S q = Some w" "m_source w = Some t" "p_kind z = p_kind w"
      by (auto simp: S'q split: if_splits)
    from connections_ok_source[OF ok w(1,2)] show "S' t \<noteq> None" "\<not> IsSpontaneous z"
      using w(3) by (auto simp: S'q)
  qed
  moreover have "Disconnect s d S = Ret () S'"
    using y connections_ok_source[OF ok y] by (simp add: Disconnect_def S'_def)
  ultimately show ?thesis using S'q by blast
qed

lemma disconnect_destinations_ok:
  assumes "connections_ok S" and "S p = Some x" and "length (m_destinations x) < n"
  shows "\<exists>S'. disconnect_destinations n p S = Ret () S' \<and> connections_ok S' \<and>
    (\<exists>x'. S' p = Some x' \<and> m_destinations x' = [] \<and> (m_source x = None \<longrightarrow> m_source x' = None)) \<and>
    (\<forall>q. q \<noteq> p \<longrightarrow> S' q = map_option (\<lambda>z. if m_source z = Some p then z\<lparr>m_source := None\<rparr> else z) (S q))"
  using assms
proof (induction n arbitrary: S x)
  case (Suc n)
  show ?case
  proof (cases "m_destinations x")
    case Nil
    have "m_source z \<noteq> Some p" if "S q = Some z" for q z
      using connections_ok_dest[OF Suc.prems(1,2), of q] that Nil by auto
    then have "S q = map_option (\<lambda>z. if m_source z = Some p then z\<lparr>m_source := None\<rparr> else z) (S q)" for q
      by (cases "S q") auto
    with Suc.prems Nil show ?thesis by auto
  next
    case (Cons d ds)
    then obtain y where y: "S d = Some y" "m_source y = Some p"
      using connections_ok_dest[OF Suc.prems(1,2), of d] by auto
    obtain S1 where S1: "Disconnect p d S = Ret () S1" "connections_ok S1"
        "\<And>q. S1 q = map_option (\<lambda>z. z\<lparr>m_source := (if q = d then None else m_source z),
           m_destinations := (if q = p then remove1 d (m_destinations z) else m_destinations z)\<rparr>) (S q)"
      using Disconnect_ok[OF Suc.prems(1) y] by blast
    then obtain x1 where x1: "S1 p = Some x1" "m_destinations x1 = ds"
        "m_source x = None \<longrightarrow> m_source x1 = None"
      using Suc.prems(2) Cons by auto
    have len: "length (m_destinations x1) < n" using x1 Cons Suc.prems(3) by simp
    obtain S' x' where r: "disconnect_destinations n p S1 = Ret () S'" "connections_ok S'"
        "S' p = Some x'" "m_destinations x' = []" "m_source x1 = None \<longrightarrow> m_source x' = None"
        "\<forall>q. q \<noteq> p \<longrightarrow> S' q = map_option (\<lambda>z. if m_source z = Some p then z\<lparr>m_source := None\<rparr> else z) (S1 q)"
      using Suc.IH[OF S1(2) x1(1) len] by (elim exE conjE) (rule that; assumption)
    have "S' q = map_option (\<lambda>z. if m_source z = Some p then z\<lparr>m_source := None\<rparr> else z) (S q)"
      if "q \<noteq> p" for q
      using r(6) that y by (cases "S q") (auto simp: S1(3))
    moreover have "disconnect_destinations (Suc n) p S = disconnect_destinations n p S1"
      using Suc.prems(2) Cons S1(1) by simp
    ultimately show ?thesis using r x1(3) by auto
  qed
qed simp

lemma DisconnectAll_ok:
  assumes "connections_ok S" and "S p = Some x" and "length (m_destinations x) < fuel"
  shows "\<exists>S'. DisconnectAll fuel p S = Ret () S' \<and> connections_ok S' \<and>
    (\<exists>x'. S' p = Some x' \<and> m_source x' = None \<and> m_destinations x' = []) \<and>
    (\<forall>q. q \<noteq> p \<longrightarrow> map_option m_source (S' q) =
       map_option (\<lambda>z. if m_source z = Some p then None else m_source z) (S q))"
proof (cases "m_source x")
  case None
  obtain S' x' where S': "disconnect_destinations fuel p S = Ret () S'" "connections_ok S'"
      "S' p = Some x'" "m_destinations x' = []" "m_source x = None \<longrightarrow> m_source x' = None"
      "\<forall>q. q \<noteq> p \<longrightarrow> S' q = map_option (\<lambda>z. if m_source z = Some p then z\<lparr>m_source := None\<rparr> else z) (S q)"
    using disconnect_destinations_ok[OF assms] by (elim exE conjE) (rule that; assumption)
  have "map_option m_source (S' q) = map_option (\<lambda>z. if m_source z = Some p then None else m_source z) (S q)"
    if "q \<noteq> p" for q using S'(6) that by (cases "S q") auto
  with S' None assms(2) show ?thesis by (simp add: DisconnectAll_def)
next
  case (Some s)
  obtain S1 where S1: "Disconnect s p S = Ret () S1" "connections_ok S1"
      "\<And>q. S1 q = map_option (\<lambda>z. z\<lparr>m_source := (if q = p then None else m_source z),
         m_destinations := (if q = s then remove1 p (m_destinations z) else m_destinations z)\<rparr>) (S q)"
    using Disconnect_ok[OF assms(1,2) Some] by blast
  have "length (if p = s then remove1 p (m_destinations x) else m_destinations x) < fuel"
    using assms(3) by (auto simp: length_remove1)
  with S1(3)[of p] assms(2) obtain x1 where x1: "S1 p = Some x1" "m_source x1 = None"
      "length (m_destinations x1) < fuel" by auto
  obtain S' x' where S': "disconnect_destinations fuel p S1 = Ret () S'" "connections_ok S'"
      "S' p = Some x'" "m_destinations x' = []" "m_source x1 = None \<longrightarrow> m_source x' = None"
      "\<forall>q. q \<noteq> p \<longrightarrow> S' q = map_option (\<lambda>z. if m_source z = Some p then z\<lparr>m_source := None\<rparr> else z) (S1 q)"
    using disconnect_destinations_ok[OF S1(2) x1(1,3)] by (elim exE conjE) (rule that; assumption)
  have "map_option m_source (S' q) = map_option (\<lambda>z. if m_source z = Some p then None else m_source z) (S q)"
    if "q \<noteq> p" for q using S'(6) that by (cases "S q") (auto simp: S1(3))
  with S' Some S1(1) x1(2) assms(2) show ?thesis by (simp add: DisconnectAll_def)
qed

text \<open>An isolated port can go without making a connection dangle.\<close>

lemma connections_ok_delete:
  assumes ok: "connections_ok S" and p: "S p = Some x" "m_source x = None" "m_destinations x = []"
  shows "connections_ok (S(p := None))"
proof -
  have src: "m_source y \<noteq> Some p" if "S d = Some y" for d y
    using connections_ok_dest[OF ok p(1), of d] p(3) that by auto
  show ?thesis
    unfolding connections_ok_def
  proof (intro conjI allI impI)
    fix q z assume "(S(p := None)) q = Some z"
    then have z: "S q = Some z" "q \<noteq> p" by (auto split: if_splits)
    from connections_ok_distinct[OF ok z(1)] show "distinct (m_destinations z)" .
    fix d show "d \<in> set (m_destinations z) \<longleftrightarrow> (\<exists>y. (S(p := None)) d = Some y \<and> m_source y = Some q)"
      using connections_ok_dest[OF ok z(1), of d] p by auto
  next
    fix d y s assume y: "(S(p := None)) d = Some y \<and> m_source y = Some s"
    then have "S d = Some y" "m_source y = Some s" by (auto split: if_splits)
    with connections_ok_source[OF ok this] src show "(S(p := None)) s \<noteq> None" "\<not> IsSpontaneous y"
      by auto
  qed
qed

text \<open>
  C24. Disconnecting a port (which its destructor does) ends after one step per destination and
  leaves it without source and destinations; no other port keeps it as a source, all other
  sources stay, and the connections are consistent again.
\<close>

theorem DisconnectAll_isolates:
  assumes "connections_ok S" and "S p = Some x" and "length (m_destinations x) < fuel"
  shows "\<exists>S'. DisconnectAll fuel p S = Ret () S' \<and> connections_ok S' \<and>
    (\<exists>x'. S' p = Some x' \<and> m_source x' = None \<and> m_destinations x' = []) \<and>
    (\<forall>q. q \<noteq> p \<longrightarrow> map_option m_source (S' q) =
       map_option (\<lambda>z. if m_source z = Some p then None else m_source z) (S q))"
  using assms by (rule DisconnectAll_ok)

definition demo_ports :: "nat port_store" where
  "demo_ports =
     [0 \<mapsto> (Port_new ''Sum'' 10 (OutputPort False))\<lparr>m_destinations := [1, 2]\<rparr>,
      1 \<mapsto> (Port_new ''Left'' 11 InputPort)\<lparr>m_source := Some 0\<rparr>,
      2 \<mapsto> (Port_new ''Right'' 11 InputPort)\<lparr>m_source := Some 0\<rparr>]"

lemma demo_ports_ok: "connections_ok demo_ports"
  by (auto simp: connections_ok_def demo_ports_def Port_new_def)

lemma DisconnectAll_isolates_witness:
  "\<exists>S'. DisconnectAll 3 0 demo_ports = Ret () S' \<and> map_option m_source (S' 1) = Some None"
proof -
  have "demo_ports 0 = Some ((Port_new ''Sum'' 10 (OutputPort False))\<lparr>m_destinations := [1, 2]\<rparr>)"
    by (simp add: demo_ports_def)
  from DisconnectAll_isolates[OF demo_ports_ok this, of 3] obtain S' where
    S': "DisconnectAll 3 0 demo_ports = Ret () S'"
      "\<forall>q. q \<noteq> 0 \<longrightarrow> map_option m_source (S' q) =
         map_option (\<lambda>z. if m_source z = Some 0 then None else m_source z) (demo_ports q)"
    by (auto simp: Port_new_def)
  from S'(2) have "map_option m_source (S' 1) = Some None"
    by (simp add: demo_ports_def Port_new_def)
  with S'(1) show ?thesis by blast
qed

text \<open>
  C23. A connection is refused, and nothing changes, exactly when the destination already has
  another source or is a spontaneous output; otherwise the two ports know each other, and a
  destination that had no source leaves the store consistent.
\<close>

theorem Connect_spec:
  assumes "connections_ok S" and "S s \<noteq> None" and "S d = Some y"
  shows "(if (\<exists>t. m_source y = Some t \<and> t \<noteq> s) \<or> IsSpontaneous y
      then \<exists>e. Connect s d S = Throw e S \<and> is_std_exception e
      else \<exists>S'. Connect s d S = Ret () S' \<and>
        (\<exists>x' y'. S' s = Some x' \<and> S' d = Some y' \<and> d \<in> set (m_destinations x') \<and> m_source y' = Some s) \<and>
        (m_source y = None \<longrightarrow> connections_ok S'))"
proof (cases "(\<exists>t. m_source y = Some t \<and> t \<noteq> s) \<or> IsSpontaneous y")
  case True
  then show ?thesis
    using assms(3) by (auto simp: Connect_def ValidateConnection_def split: option.splits if_splits)
next
  case False
  then have "ValidateConnection s d S = None"
    using assms(3) by (cases "m_source y") (auto simp: ValidateConnection_def)
  then have "\<exists>S'. Connect s d S = Ret () S'" using assms(2) by (simp add: Connect_def)
  then obtain S' where S': "Connect s d S = Ret () S'" by blast
  moreover from this False assms(2,3)
  have "\<exists>x' y'. S' s = Some x' \<and> S' d = Some y' \<and> d \<in> set (m_destinations x') \<and> m_source y' = Some s"
    by (auto simp: Connect_def ValidateConnection_def modify_port_apply split: option.splits if_splits)
  ultimately show ?thesis using False connections_ok_Connect[OF assms(1,3)] by auto
qed

lemma Connect_spec_witness: "\<exists>e. Connect 2 1 demo_ports = Throw e demo_ports \<and> is_std_exception e"
proof -
  have "demo_ports 2 \<noteq> None"
      "demo_ports 1 = Some ((Port_new ''Left'' 11 InputPort)\<lparr>m_source := Some 0\<rparr>)"
    by (simp_all add: demo_ports_def)
  from Connect_spec[OF demo_ports_ok this] show ?thesis by (simp add: Port_new_def)
qed

lemma disconnect_stuck:
  "S p = Some x \<Longrightarrow> m_destinations x = d # ds \<Longrightarrow> S d = Some y \<Longrightarrow> m_source y \<noteq> Some p \<Longrightarrow>
   disconnect_destinations n p S = Diverge"
  by (induction n) (simp_all add: Disconnect_def)

text \<open>
  Connecting the same two ports twice is accepted, and the source then lists the
  destination twice (so it would send every event twice); the destructor of the source does
  not end any more, because one of the two entries is never removed.
\<close>

theorem Connect_twice_hangs:
  assumes "connections_ok S" and "S s = Some x" and "m_source x = None" and "m_destinations x = []"
    and "S d = Some y" and "m_source y = None" and "\<not> IsSpontaneous y" and "s \<noteq> d"
  shows "\<exists>S'. run_bind (Connect s d S) (\<lambda>_. Connect s d) = Ret () S' \<and>
    map_option m_destinations (S' s) = Some [d, d] \<and> DisconnectAll fuel s S' = Diverge"
proof -
  let ?S = "modify_port s (\<lambda>p. p\<lparr>m_destinations := [d, d]\<rparr>) (modify_port d (\<lambda>p. p\<lparr>m_source := Some s\<rparr>) S)"
  have sp: "p_kind y \<noteq> OutputPort True" using assms(7) by auto
  have "run_bind (Connect s d S) (\<lambda>_. Connect s d) = Ret () ?S"
    using assms by (auto simp: Connect_def ValidateConnection_def modify_port_def fun_eq_iff)
  moreover have "disconnect_destinations fuel s ?S = Diverge"
  proof (cases fuel)
    case (Suc n)
    let ?T = "modify_port d (\<lambda>p. p\<lparr>m_source := None\<rparr>)
      (modify_port s (\<lambda>p. p\<lparr>m_destinations := remove1 d (m_destinations p)\<rparr>) ?S)"
    have "disconnect_destinations n s ?T = Diverge"
      using assms by (intro disconnect_stuck) (auto simp: modify_port_apply)
    then show ?thesis
      using assms Suc by (simp add: modify_port_apply Disconnect_def)
  qed simp
  ultimately show ?thesis
    using assms by (auto simp: modify_port_apply DisconnectAll_def)
qed

lemma Connect_twice_hangs_witness:
  "\<exists>S'. run_bind (Connect 3 4 (demo_ports(3 \<mapsto> Port_new ''A'' 12 (OutputPort False), 4 \<mapsto> Port_new ''B'' 13 InputPort)))
      (\<lambda>_. Connect 3 4) = Ret () S' \<and> DisconnectAll 1000 3 S' = Diverge"
proof -
  let ?S = "demo_ports(3 \<mapsto> Port_new ''A'' 12 (OutputPort False), 4 \<mapsto> Port_new ''B'' 13 InputPort)"
  have "connections_ok ?S"
    by (auto simp: connections_ok_def demo_ports_def Port_new_def)
  from Connect_twice_hangs[OF this, of 3 "Port_new ''A'' 12 (OutputPort False)" 4 "Port_new ''B'' 13 InputPort" 1000]
  show ?thesis by (auto simp: Port_new_def)
qed

section \<open>The input queue\<close>

definition GetLatestInput :: "'e port \<Rightarrow> 'e option" where
  "GetLatestInput p = (case m_inputQueue p of [] \<Rightarrow> None | x # _ \<Rightarrow> x)"

definition ShareLatestInput :: "'e port \<Rightarrow> 'e option" where
  "ShareLatestInput p = (case m_inputQueue p of [] \<Rightarrow> None | x # _ \<Rightarrow> x)"

text \<open>\<open>static_cast<int>\<close> of a \<open>size_t\<close>: the residue modulo \<open>2^32\<close> in the range of \<open>int\<close>.\<close>

definition int_of_size :: "nat \<Rightarrow> int" where
  "int_of_size n = (int n + 2147483648) mod 4294967296 - 2147483648"

lemma int_of_size_small: "int n \<le> INT_MAX \<Longrightarrow> int_of_size n = int n"
  by (simp add: int_of_size_def)

definition GetInputQueueLength :: "'e port \<Rightarrow> int" where
  "GetInputQueueLength p = int_of_size (length (m_inputQueue p))"

definition IsWaitingForInputHandler :: "'e port \<Rightarrow> bool" where
  "IsWaitingForInputHandler p = m_waitingForInputHandler p"

definition DequeueLatestInput :: "'e port \<Rightarrow> 'e port" where
  "DequeueLatestInput p =
     (if m_inputQueue p \<noteq> []
      then let q = tl (m_inputQueue p) in
           if q = [] then p\<lparr>m_inputQueue := q, m_waitingForInputHandler := False\<rparr>
           else p\<lparr>m_inputQueue := q, m_waitingForInputHandler := hd q \<noteq> None\<rparr>
      else p)"

definition QueueInput :: "'e option \<Rightarrow> 'e port \<Rightarrow> 'e port" where
  "QueueInput input p =
     (let q = m_inputQueue p @ [input]
      in p\<lparr>m_inputQueue := q, m_waitingForInputHandler := hd q \<noteq> None\<rparr>)"

definition input_ok :: "'e port \<Rightarrow> bool" where
  "input_ok p \<longleftrightarrow> m_waitingForInputHandler p = (m_inputQueue p \<noteq> [] \<and> hd (m_inputQueue p) \<noteq> None)"

lemma input_ok_new [simp]: "input_ok (Port_new n a k)"
  by (simp add: input_ok_def Port_new_def)

lemma input_ok_Queue [wf_intros]: "input_ok p \<Longrightarrow> input_ok (QueueInput x p)"
  by (simp add: input_ok_def QueueInput_def Let_def)

lemma input_ok_Dequeue [wf_intros]: "input_ok p \<Longrightarrow> input_ok (DequeueLatestInput p)"
  by (simp add: input_ok_def DequeueLatestInput_def Let_def)

text \<open>The interface of the queue: first in, first out.\<close>

locale input_channel =
  fixes enq :: "'x \<Rightarrow> 'q \<Rightarrow> 'q"
    and deq :: "'q \<Rightarrow> 'q"
    and front :: "'q \<Rightarrow> 'x"
    and contents :: "'q \<Rightarrow> 'x list"
  assumes contents_enq: "contents (enq x q) = contents q @ [x]"
    and contents_deq: "contents (deq q) = tl (contents q)"
    and front_hd: "contents q \<noteq> [] \<Longrightarrow> front q = hd (contents q)"
begin

lemma contents_enqs: "contents (fold enq xs q) = contents q @ xs"
  by (induction xs arbitrary: q) (simp_all add: contents_enq)

lemma contents_deqs: "contents ((deq ^^ n) q) = drop n (contents q)"
  by (induction n) (simp_all add: contents_deq drop_Suc tl_drop)

lemma nth_front: "n < length (contents q) \<Longrightarrow> front ((deq ^^ n) q) = contents q ! n"
  using front_hd[of "(deq ^^ n) q"] by (simp add: contents_deqs hd_drop_conv_nth)

lemma received_in_order:
  "contents q = [] \<Longrightarrow> n < length xs \<Longrightarrow> front ((deq ^^ n) (fold enq xs q)) = xs ! n"
  by (simp add: nth_front contents_enqs)

end

interpretation inq: input_channel QueueInput DequeueLatestInput GetLatestInput m_inputQueue
proof unfold_locales
  fix x :: "'a option" and q :: "'a port"
  show "m_inputQueue (QueueInput x q) = m_inputQueue q @ [x]"
    by (simp add: QueueInput_def Let_def)
  show "m_inputQueue (DequeueLatestInput q) = tl (m_inputQueue q)"
    by (simp add: DequeueLatestInput_def Let_def)
  show "m_inputQueue q \<noteq> [] \<Longrightarrow> GetLatestInput q = hd (m_inputQueue q)"
    by (simp add: GetLatestInput_def split: list.split)
qed

lemma input_ok_run: "input_ok p \<Longrightarrow> input_ok ((DequeueLatestInput ^^ n) (fold QueueInput xs p))"
proof -
  assume "input_ok p"
  then have "input_ok (fold QueueInput xs p)"
    by (induction xs arbitrary: p) (auto intro: wf_intros)
  then show ?thesis by (induction n) (auto intro: wf_intros)
qed

text \<open>
  The events of an empty port, after some arrived and some were removed: the rest in order, and the
  port waits for its handlers while there is one, if none is null.
\<close>

lemma input_queue_fifo:
  assumes "m_inputQueue p = []" and "input_ok p" and "n \<le> length xs"
  defines "q \<equiv> (DequeueLatestInput ^^ n) (fold QueueInput (map Some xs) p)"
  shows "m_inputQueue q = map Some (drop n xs)" and "IsWaitingForInputHandler q = (n < length xs)"
    and "GetInputQueueLength q = int_of_size (length xs - n)"
proof -
  show c: "m_inputQueue q = map Some (drop n xs)"
    by (simp add: q_def inq.contents_deqs inq.contents_enqs assms(1) drop_map)
  have "input_ok q" unfolding q_def using assms(2) by (rule input_ok_run)
  then show "IsWaitingForInputHandler q = (n < length xs)"
    using c by (cases "n < length xs") (auto simp: input_ok_def IsWaitingForInputHandler_def hd_map)
  show "GetInputQueueLength q = int_of_size (length xs - n)" by (simp add: GetInputQueueLength_def c)
qed

text \<open>
  A null event at the front of an input queue blocks the port for good: whatever arrives
  afterwards, the port never waits for a handler, and only a waiting port is dequeued.
\<close>

theorem null_input_blocks:
  assumes "input_ok p" and "m_inputQueue p = None # q"
  shows "\<not> IsWaitingForInputHandler (fold QueueInput xs p) \<and>
    GetInputQueueLength (fold QueueInput xs p) = int_of_size (Suc (length q) + length xs)"
  using input_ok_run[OF assms(1), of 0 xs] assms(2)
  by (simp add: inq.contents_enqs input_ok_def IsWaitingForInputHandler_def GetInputQueueLength_def)

lemma null_input_blocks_witness:
  "\<not> IsWaitingForInputHandler (fold QueueInput [Some 1, Some 2] (QueueInput None (Port_new ''In'' 0 InputPort :: nat port)))"
proof -
  have "input_ok (QueueInput None (Port_new ''In'' 0 InputPort :: nat port))"
    by (intro input_ok_Queue input_ok_new)
  moreover have "m_inputQueue (QueueInput None (Port_new ''In'' 0 InputPort :: nat port)) = None # []"
    by (simp add: QueueInput_def Port_new_def)
  ultimately show ?thesis using null_input_blocks by blast
qed

end
