(* ===== verification/AccessorImpl.thy ===== *)
theory AccessorImpl
  imports BaseObject UniquePriorityQueue DirectorExecution Port
    "HOL-Library.List_Lexorder" "HOL-Library.Char_ord"
begin

text \<open>
  The state of a model (its accessors, their ports and the director of its host) and
  \<open>src/src/AccessorImpl.h\<close>, \<open>AccessorImpl.cpp\<close>: what every accessor can do. Accessors and
  ports are numbered; the number stands for the address, so sets of pointers are kept in the
  order of the numbers. User code (callbacks, handlers, event payloads) is named by numbers or
  type parameters, and given a meaning where it is called.
\<close>

section \<open>The state of a model\<close>

datatype 'e callback =
    SendOutputTo nat string "'e option"  \<comment> \<open>the lambda of \<open>SendOutput\<close>\<close>
  | ProcessQueueOf nat                   \<comment> \<open>the lambda of \<open>ScheduleReaction\<close>\<close>
  | UpdateModel nat                      \<comment> \<open>the lambda of \<open>Host::Impl::ChildrenChanged\<close>\<close>
  | UserCallback nat

record atomic_part =
  m_forwardPrunedDependencies :: "(nat, nat sset) smap"
  m_backwardPrunedDependencies :: "(nat, nat sset) smap"
  m_inputHandlers :: "(string, nat list) smap"
  m_hasFireFunction :: bool
  m_stateDependsOnInputPort :: bool

record composite_part =
  c_isHost :: bool
  m_reactionRequested :: bool
  m_children :: "(string, nat) smap"
  m_orderedChildren :: "nat list"
  m_childEventQueue :: "nat unique_priority_queue"

datatype accessor_kind = Atomic atomic_part | Composite composite_part

record accessor = base_object +
  m_initialized :: bool
  m_priority :: int
  m_callbackIds :: "int sset"
  m_inputPorts :: "(string, nat) smap"
  m_orderedInputPorts :: "nat list"
  m_outputPorts :: "(string, nat) smap"
  m_orderedOutputPorts :: "nat list"
  a_kind :: accessor_kind

record ('e, 'u) world = "'e callback dstate" +
  ports :: "'e port_store"
  accessors :: "nat \<Rightarrow> accessor option"
  nextPort :: nat   \<comment> \<open>the next port's number\<close>
  userState :: 'u

type_synonym ('a, 'e, 'u) op = "('e, 'u) world \<Rightarrow> ('a, ('e, 'u) world) run"

definition DefaultAccessorPriority :: int where
  "DefaultAccessorPriority = INT_MAX"

definition with_accessor :: "nat \<Rightarrow> (accessor \<Rightarrow> ('a, 'e, 'u) op) \<Rightarrow> ('a, 'e, 'u) op" where
  "with_accessor a f w =
     (case accessors w a of None \<Rightarrow> Throw (Fatal DanglingPointer) w | Some x \<Rightarrow> f x w)"

definition modify_accessor ::
  "nat \<Rightarrow> (accessor \<Rightarrow> accessor) \<Rightarrow> ('e, 'u) world \<Rightarrow> ('e, 'u) world" where
  "modify_accessor a f w = w\<lparr>accessors := (accessors w)(a := map_option f (accessors w a))\<rparr>"

fun is_host :: "accessor \<Rightarrow> bool" where
  "is_host x = (case a_kind x of Atomic _ \<Rightarrow> False | Composite c \<Rightarrow> c_isHost c)"

fun IsComposite :: "accessor \<Rightarrow> bool" where
  "IsComposite x = (case a_kind x of Atomic _ \<Rightarrow> False | Composite _ \<Rightarrow> True)"

text \<open>An operation on the port store, on the state.\<close>

definition on_ports :: "('e port_store \<Rightarrow> ('a, 'e port_store) run) \<Rightarrow> ('a, 'e, 'u) op" where
  "on_ports f w =
     (case f (ports w) of
        Ret x S \<Rightarrow> Ret x (w\<lparr>ports := S\<rparr>)
      | Throw e S \<Rightarrow> Throw e (w\<lparr>ports := S\<rparr>)
      | Diverge \<Rightarrow> Diverge)"

section \<open>Creation, priority and the director\<close>

definition Accessor_new :: "string \<Rightarrow> accessor_kind \<Rightarrow> accessor" where
  "Accessor_new name k =
     \<lparr>m_name = name, m_parent = None, m_initialized = False,
      m_priority = DefaultAccessorPriority, m_callbackIds = [], m_inputPorts = [],
      m_orderedInputPorts = [], m_outputPorts = [], m_orderedOutputPorts = [], a_kind = k\<rparr>"

definition IsInitialized :: "accessor \<Rightarrow> bool" where
  "IsInitialized x = m_initialized x"

definition GetPriority :: "accessor \<Rightarrow> int" where
  "GetPriority x = m_priority x"

definition SetPriority :: "nat \<Rightarrow> int \<Rightarrow> ('e, 'u) world \<Rightarrow> ('e, 'u) world" where
  "SetPriority a p w = modify_accessor a (\<lambda>x. x\<lparr>m_priority := p\<rparr>) w"

definition accessor_less :: "accessor \<Rightarrow> accessor \<Rightarrow> bool" where
  "accessor_less x y \<longleftrightarrow> m_priority x < GetPriority y"

definition accessor_greater :: "accessor \<Rightarrow> accessor \<Rightarrow> bool" where
  "accessor_greater x y \<longleftrightarrow> m_priority x > GetPriority y"

text \<open>
  \<open>GetDirector\<close> asks the parent until it reaches a host, which has the director, or an
  accessor without parent (a null pointer). Here the result says whether there is one; a parent
  that is gone is a dangling pointer, and parents in a circle are asked for ever.
\<close>

partial_function (option) GetDirector :: "('e, 'u) world \<Rightarrow> nat \<Rightarrow> (exn + bool) option" where
  "GetDirector w a =
     (case accessors w a of
        None \<Rightarrow> Some (Inl (Fatal DanglingPointer))
      | Some x \<Rightarrow>
          if is_host x then Some (Inr True)
          else (case m_parent x of None \<Rightarrow> Some (Inr False) | Some p \<Rightarrow> GetDirector w p))"

declare GetDirector.simps [code]

definition with_director :: "nat \<Rightarrow> ('a, 'e, 'u) op \<Rightarrow> ('a, 'e, 'u) op" where
  "with_director a f w =
     (case GetDirector w a of
        None \<Rightarrow> Diverge
      | Some (Inl e) \<Rightarrow> Throw e w
      | Some (Inr b) \<Rightarrow> if b then f w else Throw (Fatal NullDereference) w)"

section \<open>Callbacks of an accessor\<close>

definition Accessor_ScheduleCallback ::
  "nat \<Rightarrow> 'e callback \<Rightarrow> int \<Rightarrow> bool \<Rightarrow> (int, 'e, 'u) op" where
  "Accessor_ScheduleCallback a cb delay repeat =
     with_accessor a (\<lambda>x. with_director a (\<lambda>w.
       run_bind (ScheduleCallback cb delay repeat (m_priority x) w)
         (\<lambda>i w1. Ret i (modify_accessor a (\<lambda>x. x\<lparr>m_callbackIds := sset_insert i (m_callbackIds x)\<rparr>) w1))))"

definition Accessor_ClearScheduledCallback :: "nat \<Rightarrow> int \<Rightarrow> (unit, 'e, 'u) op" where
  "Accessor_ClearScheduledCallback a i =
     with_accessor a (\<lambda>x. with_director a (\<lambda>w.
       Ret () (modify_accessor a (\<lambda>x. x\<lparr>m_callbackIds := sset_erase i (m_callbackIds x)\<rparr>)
                 (ClearScheduledCallback i w))))"

text \<open>The loop clears the first identifier of the set until the set is empty.\<close>

fun clear_callbacks :: "nat \<Rightarrow> int list \<Rightarrow> (unit, 'e, 'u) op" where
  "clear_callbacks a [] w = Ret () w"
| "clear_callbacks a (i # is) w =
     run_bind (Accessor_ClearScheduledCallback a i w) (\<lambda>_. clear_callbacks a is)"

definition ClearAllScheduledCallbacks :: "nat \<Rightarrow> (unit, 'e, 'u) op" where
  "ClearAllScheduledCallbacks a = with_accessor a (\<lambda>x. clear_callbacks a (m_callbackIds x))"

section \<open>Ports of an accessor\<close>

definition HasInputPorts :: "accessor \<Rightarrow> bool" where
  "HasInputPorts x \<longleftrightarrow> m_inputPorts x \<noteq> []"

definition HasOutputPorts :: "accessor \<Rightarrow> bool" where
  "HasOutputPorts x \<longleftrightarrow> m_outputPorts x \<noteq> []"

definition HasInputPortWithName :: "string \<Rightarrow> accessor \<Rightarrow> bool" where
  "HasInputPortWithName name x \<longleftrightarrow> map_of (m_inputPorts x) name \<noteq> None"

definition HasOutputPortWithName :: "string \<Rightarrow> accessor \<Rightarrow> bool" where
  "HasOutputPortWithName name x \<longleftrightarrow> map_of (m_outputPorts x) name \<noteq> None"

definition GetInputPort :: "string \<Rightarrow> accessor \<Rightarrow> exn + nat" where
  "GetInputPort name x = (case map_of (m_inputPorts x) name of None \<Rightarrow> Inl OutOfRange | Some p \<Rightarrow> Inr p)"

definition GetOutputPort :: "string \<Rightarrow> accessor \<Rightarrow> exn + nat" where
  "GetOutputPort name x = (case map_of (m_outputPorts x) name of None \<Rightarrow> Inl OutOfRange | Some p \<Rightarrow> Inr p)"

definition GetInputPorts :: "accessor \<Rightarrow> nat list" where
  "GetInputPorts x = m_orderedInputPorts x"

definition GetOutputPorts :: "accessor \<Rightarrow> nat list" where
  "GetOutputPorts x = m_orderedOutputPorts x"

definition GetNumberOfInputPorts :: "accessor \<Rightarrow> nat" where
  "GetNumberOfInputPorts x = length (m_orderedInputPorts x)"

definition GetNumberOfOutputPorts :: "accessor \<Rightarrow> nat" where
  "GetNumberOfOutputPorts x = length (m_orderedOutputPorts x)"

definition NewPortNameIsValid :: "string \<Rightarrow> accessor \<Rightarrow> bool" where
  "NewPortNameIsValid name x \<longleftrightarrow>
     NameIsValid name \<and> \<not> HasInputPortWithName name x \<and> \<not> HasOutputPortWithName name x"

definition ValidatePortName :: "string \<Rightarrow> accessor \<Rightarrow> exn option" where
  "ValidatePortName name x = (if NewPortNameIsValid name x then None else Some (PortNameInvalid name))"

text \<open>A host overrides the operations that add ports with ones that throw.\<close>

definition add_input_port :: "nat \<Rightarrow> string \<Rightarrow> (unit, 'e, 'u) op" where
  "add_input_port a name =
     with_accessor a (\<lambda>x w.
       case ValidatePortName name x of
         Some e \<Rightarrow> Throw e w
       | None \<Rightarrow>
           let p = nextPort w in
           Ret () (modify_accessor a
             (\<lambda>x. x\<lparr>m_inputPorts := smap_emplace name p (m_inputPorts x),
                    m_orderedInputPorts := m_orderedInputPorts x @ [p]\<rparr>)
             (w\<lparr>ports := (ports w)(p \<mapsto> Port_new name a InputPort), nextPort := Suc p\<rparr>)))"

definition add_output_port :: "nat \<Rightarrow> string \<Rightarrow> bool \<Rightarrow> (unit, 'e, 'u) op" where
  "add_output_port a name isSpontaneous =
     with_accessor a (\<lambda>x w.
       case ValidatePortName name x of
         Some e \<Rightarrow> Throw e w
       | None \<Rightarrow>
           let p = nextPort w in
           Ret () (modify_accessor a
             (\<lambda>x. x\<lparr>m_outputPorts := smap_emplace name p (m_outputPorts x),
                    m_orderedOutputPorts := m_orderedOutputPorts x @ [p]\<rparr>)
             (w\<lparr>ports := (ports w)(p \<mapsto> Port_new name a (OutputPort isSpontaneous)), nextPort := Suc p\<rparr>)))"

definition AddInputPort :: "nat \<Rightarrow> string \<Rightarrow> (unit, 'e, 'u) op" where
  "AddInputPort a name =
     with_accessor a (\<lambda>x w. if is_host x then Throw HostHasNoPorts w else add_input_port a name w)"

definition AddOutputPort :: "nat \<Rightarrow> string \<Rightarrow> (unit, 'e, 'u) op" where
  "AddOutputPort a name =
     with_accessor a (\<lambda>x w. if is_host x then Throw HostHasNoPorts w else add_output_port a name False w)"

fun run_each :: "('x \<Rightarrow> 's \<Rightarrow> (unit, 's) run) \<Rightarrow> 'x list \<Rightarrow> 's \<Rightarrow> (unit, 's) run" where
  "run_each f [] s = Ret () s"
| "run_each f (x # xs) s = run_bind (f x s) (\<lambda>_. run_each f xs)"

definition AddInputPorts :: "nat \<Rightarrow> string list \<Rightarrow> (unit, 'e, 'u) op" where
  "AddInputPorts a names =
     with_accessor a (\<lambda>x w. if is_host x then Throw HostHasNoPorts w else run_each (AddInputPort a) names w)"

definition AddOutputPorts :: "nat \<Rightarrow> string list \<Rightarrow> (unit, 'e, 'u) op" where
  "AddOutputPorts a names =
     with_accessor a (\<lambda>x w. if is_host x then Throw HostHasNoPorts w else run_each (AddOutputPort a) names w)"

definition connect_found :: "exn + nat \<Rightarrow> exn + nat \<Rightarrow> (unit, 'e, 'u) op" where
  "connect_found source destination w =
     (case source of
        Inl e \<Rightarrow> Throw e w
      | Inr s \<Rightarrow> (case destination of Inl e \<Rightarrow> Throw e w | Inr d \<Rightarrow> on_ports (Connect s d) w))"

definition ConnectMyInputToMyOutput :: "nat \<Rightarrow> string \<Rightarrow> string \<Rightarrow> (unit, 'e, 'u) op" where
  "ConnectMyInputToMyOutput a inputName outputName =
     with_accessor a (\<lambda>x. connect_found (GetInputPort inputName x) (GetOutputPort outputName x))"

definition ConnectMyOutputToMyInput :: "nat \<Rightarrow> string \<Rightarrow> string \<Rightarrow> (unit, 'e, 'u) op" where
  "ConnectMyOutputToMyInput a outputName inputName =
     with_accessor a (\<lambda>x. connect_found (GetOutputPort outputName x) (GetInputPort inputName x))"

definition Accessor_GetLatestInput :: "nat \<Rightarrow> string \<Rightarrow> ('e option, 'e, 'u) op" where
  "Accessor_GetLatestInput a name =
     with_accessor a (\<lambda>x w.
       case GetInputPort name x of
         Inl e \<Rightarrow> Throw e w
       | Inr p \<Rightarrow> (case ports w p of None \<Rightarrow> Throw (Fatal DanglingPointer) w | Some pt \<Rightarrow> Ret (GetLatestInput pt) w))"

definition SendOutput :: "nat \<Rightarrow> string \<Rightarrow> 'e option \<Rightarrow> (unit, 'e, 'u) op" where
  "SendOutput a name out =
     with_accessor a (\<lambda>x w.
       if \<not> IsInitialized x then Throw NotInitialized w
       else run_bind (Accessor_ScheduleCallback a (SendOutputTo a name out) 0 False w) (\<lambda>_. Ret ()))"

section \<open>Ports stay well formed\<close>

text \<open>
  The invariant of an accessor's ports: the map by name and the list in creation order hold the
  same ports, no name is used twice (not even by an input and an output port), every name is
  valid, and every port exists and belongs to the accessor. An atomic accessor's two maps of
  pruned dependencies say the same.
\<close>

definition port_of :: "'e port_store \<Rightarrow> nat \<Rightarrow> string \<Rightarrow> nat \<Rightarrow> bool \<Rightarrow> bool" where
  "port_of S a n p isInput \<longleftrightarrow>
     (\<exists>pt. S p = Some pt \<and> p_name pt = n \<and> p_owner pt = a \<and> (p_kind pt = InputPort \<longleftrightarrow> isInput))"

definition pruned :: "(nat, nat sset) smap \<Rightarrow> nat \<Rightarrow> nat sset" where
  "pruned m p = (case map_of m p of None \<Rightarrow> [] | Some ps \<Rightarrow> ps)"

fun kind_ok :: "accessor_kind \<Rightarrow> bool" where
  "kind_ok (Atomic d) \<longleftrightarrow>
     smap_wf (m_forwardPrunedDependencies d) \<and> smap_wf (m_backwardPrunedDependencies d) \<and>
     (\<forall>i out. out \<in> set (pruned (m_forwardPrunedDependencies d) i) \<longleftrightarrow>
        i \<in> set (pruned (m_backwardPrunedDependencies d) out))"
| "kind_ok (Composite c) \<longleftrightarrow> True"

definition named_ports_ok ::
  "'e port_store \<Rightarrow> nat \<Rightarrow> bool \<Rightarrow> (string, nat) smap \<Rightarrow> nat list \<Rightarrow> bool" where
  "named_ports_ok S a isInput m ordered \<longleftrightarrow>
     smap_wf m \<and> distinct ordered \<and> set ordered = ran (map_of m) \<and>
     (\<forall>n p. map_of m n = Some p \<longrightarrow> NameIsValid n \<and> port_of S a n p isInput)"

definition accessor_ok :: "'e port_store \<Rightarrow> nat \<Rightarrow> accessor \<Rightarrow> bool" where
  "accessor_ok S a x \<longleftrightarrow>
     named_ports_ok S a True (m_inputPorts x) (m_orderedInputPorts x) \<and>
     named_ports_ok S a False (m_outputPorts x) (m_orderedOutputPorts x) \<and>
     dom (map_of (m_inputPorts x)) \<inter> dom (map_of (m_outputPorts x)) = {} \<and>
     kind_ok (a_kind x)"

definition world_ok :: "('e, 'u) world \<Rightarrow> bool" where
  "world_ok w \<longleftrightarrow>
     (\<forall>p \<ge> nextPort w. ports w p = None) \<and>
     (\<forall>a x. accessors w a = Some x \<longrightarrow> accessor_ok (ports w) a x)"

lemma named_ports_ok_mono:
  "named_ports_ok S a b m ps \<Longrightarrow> (\<And>n p. port_of S a n p b \<Longrightarrow> port_of S' a n p b) \<Longrightarrow>
   named_ports_ok S' a b m ps"
  by (simp add: named_ports_ok_def)

lemma accessor_ok_mono:
  "accessor_ok S a x \<Longrightarrow> (\<And>n p b. port_of S a n p b \<Longrightarrow> port_of S' a n p b) \<Longrightarrow> accessor_ok S' a x"
  unfolding accessor_ok_def using named_ports_ok_mono by blast

lemma named_ports_ok_add:
  assumes ok: "named_ports_ok S a b m ps" and n: "NameIsValid n" "map_of m n = None"
    and new: "S p = None" "port_of S' a n p b" and old: "\<And>q. q \<noteq> p \<Longrightarrow> S' q = S q"
  shows "named_ports_ok S' a b (smap_emplace n p m) (ps @ [p])"
proof -
  have keep: "port_of S' a k q b" if "map_of m k = Some q" for k q
  proof -
    have "port_of S a k q b" using ok that by (simp add: named_ports_ok_def)
    moreover from this new(1) have "q \<noteq> p" by (auto simp: port_of_def)
    ultimately show ?thesis using old by (simp add: port_of_def)
  qed
  have "p \<notin> ran (map_of m)"
    using ok new(1) by (fastforce simp: named_ports_ok_def port_of_def ran_def)
  with ok n new(2) keep show ?thesis
    by (auto simp: named_ports_ok_def map_of_smap_emplace ran_map_upd smap_wf_emplace)
qed

lemma world_ok_accessor: "world_ok w \<Longrightarrow> accessors w a = Some x \<Longrightarrow> accessor_ok (ports w) a x"
  by (simp add: world_ok_def)

lemma world_ok_fresh: "world_ok w \<Longrightarrow> ports w (nextPort w) = None"
  by (simp add: world_ok_def)

lemma modify_accessor_simps [simp]:
  "accessors (modify_accessor a f w) b = (if b = a then map_option f (accessors w a) else accessors w b)"
  "ports (modify_accessor a f w) = ports w" "nextPort (modify_accessor a f w) = nextPort w"
  "userState (modify_accessor a f w) = userState w"
  by (simp_all add: modify_accessor_def)

text \<open>The state after a port was added, and the names of an accessor's ports in creation order.\<close>

definition input_port_added :: "nat \<Rightarrow> string \<Rightarrow> ('e, 'u) world \<Rightarrow> ('e, 'u) world" where
  "input_port_added a n w = modify_accessor a
     (\<lambda>x. x\<lparr>m_inputPorts := smap_emplace n (nextPort w) (m_inputPorts x),
            m_orderedInputPorts := m_orderedInputPorts x @ [nextPort w]\<rparr>)
     (w\<lparr>ports := (ports w)(nextPort w \<mapsto> Port_new n a InputPort), nextPort := Suc (nextPort w)\<rparr>)"

definition output_port_added :: "nat \<Rightarrow> string \<Rightarrow> bool \<Rightarrow> ('e, 'u) world \<Rightarrow> ('e, 'u) world" where
  "output_port_added a n sp w = modify_accessor a
     (\<lambda>x. x\<lparr>m_outputPorts := smap_emplace n (nextPort w) (m_outputPorts x),
            m_orderedOutputPorts := m_orderedOutputPorts x @ [nextPort w]\<rparr>)
     (w\<lparr>ports := (ports w)(nextPort w \<mapsto> Port_new n a (OutputPort sp)), nextPort := Suc (nextPort w)\<rparr>)"

lemma add_input_port_eq:
  "accessors w a = Some x \<Longrightarrow> add_input_port a n w =
     (if NewPortNameIsValid n x then Ret () (input_port_added a n w) else Throw (PortNameInvalid n) w)"
  by (simp add: add_input_port_def with_accessor_def ValidatePortName_def input_port_added_def Let_def)

lemma add_output_port_eq:
  "accessors w a = Some x \<Longrightarrow> add_output_port a n sp w =
     (if NewPortNameIsValid n x then Ret () (output_port_added a n sp w) else Throw (PortNameInvalid n) w)"
  by (simp add: add_output_port_def with_accessor_def ValidatePortName_def output_port_added_def Let_def)

lemma world_ok_input_port_added:
  assumes ok: "world_ok w" and x: "accessors w a = Some x" and n: "NewPortNameIsValid n x"
  shows "world_ok (input_port_added a n w)"
proof -
  let ?p = "nextPort w" and ?S = "(ports w)(nextPort w \<mapsto> Port_new n a InputPort)"
  note fresh = world_ok_fresh[OF ok] and ax = world_ok_accessor[OF ok x]
  have keep: "port_of (ports w) b k q c \<Longrightarrow> port_of ?S b k q c" for b k q c
    using fresh by (auto simp: port_of_def)
  have "named_ports_ok ?S a True (smap_emplace n ?p (m_inputPorts x)) (m_orderedInputPorts x @ [?p])"
    by (rule named_ports_ok_add[where S = "ports w"])
      (use ax n fresh in \<open>auto simp: accessor_ok_def NewPortNameIsValid_def HasInputPortWithName_def
         port_of_def Port_new_def\<close>)
  moreover have "named_ports_ok ?S a False (m_outputPorts x) (m_orderedOutputPorts x)"
    using ax named_ports_ok_mono[OF _ keep] by (auto simp: accessor_ok_def)
  ultimately have "accessor_ok ?S a (x\<lparr>m_inputPorts := smap_emplace n ?p (m_inputPorts x),
      m_orderedInputPorts := m_orderedInputPorts x @ [?p]\<rparr>)"
    using ax n by (auto simp: accessor_ok_def NewPortNameIsValid_def HasInputPortWithName_def
        HasOutputPortWithName_def map_of_smap_emplace)
  moreover have "accessor_ok ?S b y" if "accessors w b = Some y" for b y
    by (rule accessor_ok_mono[OF world_ok_accessor[OF ok that] keep])
  ultimately show ?thesis
    using ok x by (auto simp: world_ok_def input_port_added_def)
qed

lemma world_ok_output_port_added:
  assumes ok: "world_ok w" and x: "accessors w a = Some x" and n: "NewPortNameIsValid n x"
  shows "world_ok (output_port_added a n sp w)"
proof -
  let ?p = "nextPort w" and ?S = "(ports w)(nextPort w \<mapsto> Port_new n a (OutputPort sp))"
  note fresh = world_ok_fresh[OF ok] and ax = world_ok_accessor[OF ok x]
  have keep: "port_of (ports w) b k q c \<Longrightarrow> port_of ?S b k q c" for b k q c
    using fresh by (auto simp: port_of_def)
  have "named_ports_ok ?S a False (smap_emplace n ?p (m_outputPorts x)) (m_orderedOutputPorts x @ [?p])"
    by (rule named_ports_ok_add[where S = "ports w"])
      (use ax n fresh in \<open>auto simp: accessor_ok_def NewPortNameIsValid_def HasOutputPortWithName_def
         port_of_def Port_new_def\<close>)
  moreover have "named_ports_ok ?S a True (m_inputPorts x) (m_orderedInputPorts x)"
    using ax named_ports_ok_mono[OF _ keep] by (auto simp: accessor_ok_def)
  ultimately have "accessor_ok ?S a (x\<lparr>m_outputPorts := smap_emplace n ?p (m_outputPorts x),
      m_orderedOutputPorts := m_orderedOutputPorts x @ [?p]\<rparr>)"
    using ax n by (auto simp: accessor_ok_def NewPortNameIsValid_def HasInputPortWithName_def
        HasOutputPortWithName_def map_of_smap_emplace)
  moreover have "accessor_ok ?S b y" if "accessors w b = Some y" for b y
    by (rule accessor_ok_mono[OF world_ok_accessor[OF ok that] keep])
  ultimately show ?thesis
    using ok x by (auto simp: world_ok_def output_port_added_def)
qed

definition port_name :: "'e port_store \<Rightarrow> nat \<Rightarrow> string" where
  "port_name S p = (case S p of None \<Rightarrow> [] | Some pt \<Rightarrow> p_name pt)"

definition input_names :: "('e, 'u) world \<Rightarrow> nat \<Rightarrow> string list" where
  "input_names w a =
     (case accessors w a of None \<Rightarrow> [] | Some x \<Rightarrow> map (port_name (ports w)) (m_orderedInputPorts x))"

definition output_names :: "('e, 'u) world \<Rightarrow> nat \<Rightarrow> string list" where
  "output_names w a =
     (case accessors w a of None \<Rightarrow> [] | Some x \<Rightarrow> map (port_name (ports w)) (m_orderedOutputPorts x))"

lemma named_ports_ok_name:
  "named_ports_ok S a b m ps \<Longrightarrow> map_of m n \<noteq> None \<longleftrightarrow> n \<in> set (map (port_name S) ps)"
  by (auto simp: named_ports_ok_def port_of_def port_name_def ran_def image_iff split: option.splits)
    (metis option.inject option.distinct(1))+

lemma named_ports_ok_names:
  assumes "named_ports_ok S a b m ps"
  shows "distinct (map (port_name S) ps) \<and> set (map (port_name S) ps) = dom (map_of m) \<and>
    (\<forall>n \<in> dom (map_of m). NameIsValid n)"
proof -
  have "port_name S p = n" if "map_of m n = Some p" for n p
    using that assms by (fastforce simp: named_ports_ok_def port_of_def port_name_def)
  then have "inj_on (port_name S) (set ps)"
    using assms by (auto simp: inj_on_def named_ports_ok_def ran_def)
  moreover have "set (map (port_name S) ps) = dom (map_of m)"
    using named_ports_ok_name[OF assms] by blast
  ultimately show ?thesis using assms by (auto simp: named_ports_ok_def distinct_map)
qed

lemma NewPortNameIsValid_names:
  "world_ok w \<Longrightarrow> accessors w a = Some x \<Longrightarrow> NewPortNameIsValid n x \<longleftrightarrow>
     NameIsValid n \<and> n \<notin> set (input_names w a) \<and> n \<notin> set (output_names w a)"
  using world_ok_accessor[of w a x] named_ports_ok_name[of "ports w" a _ _ _ n]
  unfolding accessor_ok_def NewPortNameIsValid_def HasInputPortWithName_def HasOutputPortWithName_def
    input_names_def output_names_def by (metis option.simps(5))

definition accepts_names :: "('e, 'u) world \<Rightarrow> nat \<Rightarrow> string list \<Rightarrow> bool" where
  "accepts_names w a ns \<longleftrightarrow> distinct ns \<and>
     (\<forall>n \<in> set ns. NameIsValid n \<and> n \<notin> set (input_names w a) \<and> n \<notin> set (output_names w a))"

lemma input_port_added_names:
  assumes ok: "world_ok w" and x: "accessors w a = Some x"
  shows "input_names (input_port_added a n w) a = input_names w a @ [n]"
    and "output_names (input_port_added a n w) a = output_names w a"
proof -
  have old: "p \<noteq> nextPort w" if "p \<in> set (m_orderedInputPorts x) \<union> set (m_orderedOutputPorts x)" for p
    using world_ok_accessor[OF ok x] world_ok_fresh[OF ok] that
    by (fastforce simp: accessor_ok_def named_ports_ok_def port_of_def ran_def)
  show "input_names (input_port_added a n w) a = input_names w a @ [n]"
    using x old by (simp add: input_names_def input_port_added_def port_name_def Port_new_def)
  show "output_names (input_port_added a n w) a = output_names w a"
    using x old by (simp add: output_names_def input_port_added_def port_name_def)
qed

lemma add_input_ports_each:
  assumes "world_ok w" and "accessors w a = Some x" and "\<not> is_host x"
  shows "\<exists>w'. world_ok w' \<and>
    (if accepts_names w a ns
     then run_each (AddInputPort a) ns w = Ret () w' \<and> input_names w' a = input_names w a @ ns
     else \<exists>pre n post. ns = pre @ n # post \<and> accepts_names w a pre \<and> \<not> accepts_names w a (pre @ [n]) \<and>
       run_each (AddInputPort a) ns w = Throw (PortNameInvalid n) w' \<and>
       input_names w' a = input_names w a @ pre)"
  using assms
proof (induction ns arbitrary: w x)
  case Nil
  then show ?case by (auto simp: accepts_names_def)
next
  case (Cons n ns)
  note ok = Cons.prems(1) and x = Cons.prems(2)
  have first: "AddInputPort a n w =
      (if NewPortNameIsValid n x then Ret () (input_port_added a n w) else Throw (PortNameInvalid n) w)"
    using x Cons.prems(3) by (simp add: AddInputPort_def with_accessor_def add_input_port_eq)
  show ?case
  proof (cases "NewPortNameIsValid n x")
    case False
    then have "\<not> accepts_names w a [n]"
      using NewPortNameIsValid_names[OF ok x, of n] by (simp add: accepts_names_def)
    then have "\<not> accepts_names w a (n # ns)" by (auto simp: accepts_names_def)
    moreover have "accepts_names w a []" by (simp add: accepts_names_def)
    ultimately show ?thesis
      using ok first False \<open>\<not> accepts_names w a [n]\<close>
      by (intro exI[of _ w]) (auto intro!: exI[of _ "[]"])
  next
    case True
    let ?w = "input_port_added a n w"
    note names = input_port_added_names[OF ok x, of n]
    have n: "accepts_names w a [n]"
      using True NewPortNameIsValid_names[OF ok x, of n] by (simp add: accepts_names_def)
    have step: "accepts_names w a (n # ms) \<longleftrightarrow> accepts_names ?w a ms" for ms
      using n by (auto simp: accepts_names_def names)
    obtain y where y: "accessors ?w a = Some y" "\<not> is_host y"
      using x Cons.prems(3) by (simp add: input_port_added_def)
    from Cons.IH[OF world_ok_input_port_added[OF ok x True] y] obtain w' where
      w': "world_ok w'" and
      r: "if accepts_names ?w a ns
        then run_each (AddInputPort a) ns ?w = Ret () w' \<and> input_names w' a = input_names ?w a @ ns
        else \<exists>pre k post. ns = pre @ k # post \<and> accepts_names ?w a pre \<and> \<not> accepts_names ?w a (pre @ [k]) \<and>
          run_each (AddInputPort a) ns ?w = Throw (PortNameInvalid k) w' \<and>
          input_names w' a = input_names ?w a @ pre" by blast
    show ?thesis
    proof (cases "accepts_names ?w a ns")
      case True
      with r w' first \<open>NewPortNameIsValid n x\<close> step names show ?thesis by auto
    next
      case False
      with r obtain pre k post where "ns = pre @ k # post" "accepts_names ?w a pre"
          "\<not> accepts_names ?w a (pre @ [k])" "run_each (AddInputPort a) ns ?w = Throw (PortNameInvalid k) w'"
          "input_names w' a = input_names ?w a @ pre" by auto
      with w' first \<open>NewPortNameIsValid n x\<close> step[of ns] step[of pre] step[of "pre @ [k]"] names False
      show ?thesis by (intro exI[of _ w'] conjI) (auto intro!: exI[of _ "n # pre"])
    qed
  qed
qed

text \<open>
  C30. Adding input ports adds exactly the ports asked for, in their order, when all the names
  are valid, different and not in use by a port of either direction; otherwise the call throws
  for the first name that is not, and the ports before it stay. The ports stay well formed on
  both paths.
\<close>

theorem AddInputPorts_spec:
  assumes "world_ok w" and "accessors w a = Some x" and "\<not> is_host x"
  shows "\<exists>w'. world_ok w' \<and>
    (if accepts_names w a ns
     then AddInputPorts a ns w = Ret () w' \<and> input_names w' a = input_names w a @ ns
     else \<exists>pre n post. ns = pre @ n # post \<and> accepts_names w a pre \<and> \<not> accepts_names w a (pre @ [n]) \<and>
       AddInputPorts a ns w = Throw (PortNameInvalid n) w' \<and>
       input_names w' a = input_names w a @ pre)"
proof -
  have "AddInputPorts a ns w = run_each (AddInputPort a) ns w"
    using assms(2,3) by (simp add: AddInputPorts_def with_accessor_def)
  with add_input_ports_each[OF assms, of ns] show ?thesis by presburger
qed

definition empty_world :: "(nat, unit) world" where
  "empty_world = dstate.extend (Director_new (\<lambda>_. Some (1000, 0)) [])
     \<lparr>ports = \<lambda>_. None, accessors = \<lambda>_. None, nextPort = 0, userState = ()\<rparr>"

definition no_atomic :: atomic_part where
  "no_atomic = \<lparr>m_forwardPrunedDependencies = [], m_backwardPrunedDependencies = [],
     m_inputHandlers = [], m_hasFireFunction = False, m_stateDependsOnInputPort = False\<rparr>"

definition one_world :: "(nat, unit) world" where
  "one_world = empty_world\<lparr>accessors := [7 \<mapsto> Accessor_new ''Sum'' (Atomic no_atomic)]\<rparr>"

lemma accessor_ok_new:
  "kind_ok k \<Longrightarrow> accessor_ok S a (Accessor_new n k)"
  by (simp add: accessor_ok_def named_ports_ok_def Accessor_new_def)

lemma one_world_ok: "world_ok one_world"
  by (auto simp: world_ok_def one_world_def empty_world_def dstate.extend_def no_atomic_def pruned_def
      intro!: accessor_ok_new)

lemma AddInputPorts_spec_witness:
  "\<exists>w'. AddInputPorts 7 [''Left'', ''Right''] one_world = Ret () w' \<and>
     input_names w' 7 = [''Left'', ''Right'']"
proof -
  have x: "accessors one_world 7 = Some (Accessor_new ''Sum'' (Atomic no_atomic))"
    by (simp add: one_world_def)
  have "accepts_names one_world 7 [''Left'', ''Right'']" "input_names one_world 7 = []"
    by (simp_all add: accepts_names_def input_names_def output_names_def x Accessor_new_def NameIsValid_def
        forbidden_chars_def)
  with AddInputPorts_spec[OF one_world_ok x, of "[''Left'', ''Right'']"] show ?thesis
    by (auto simp: Accessor_new_def)
qed

section \<open>Clearing an accessor's callbacks\<close>

text \<open>Whether an accessor has a director depends only on the parents and on who is a host.\<close>

definition same_shape :: "('e, 'u) world \<Rightarrow> ('e, 'u) world \<Rightarrow> bool" where
  "same_shape w w' \<longleftrightarrow> (\<forall>a. map_option (\<lambda>x. (m_parent x, is_host x)) (accessors w' a) =
     map_option (\<lambda>x. (m_parent x, is_host x)) (accessors w a))"

lemma GetDirector_mono: "GetDirector w a = Some b \<Longrightarrow> same_shape w w' \<Longrightarrow> GetDirector w' a = Some b"
proof (induction rule: GetDirector.raw_induct[rotated, consumes 1])
  case (1 f w a b)
  then have s: "map_option (\<lambda>x. (m_parent x, is_host x)) (accessors w' a) =
      map_option (\<lambda>x. (m_parent x, is_host x)) (accessors w a)" by (simp add: same_shape_def)
  show ?case
  proof (cases "accessors w a")
    case None
    with 1 s show ?thesis by (subst GetDirector.simps) simp
  next
    case (Some x)
    with s obtain x' where x': "accessors w' a = Some x'" "m_parent x' = m_parent x" "is_host x' = is_host x"
      by auto
    show ?thesis
      using 1 Some x' by (subst GetDirector.simps) (auto simp del: is_host.simps split: option.splits if_splits)
  qed
qed

lemma same_shape_sym: "same_shape w w' \<Longrightarrow> same_shape w' w"
  by (simp add: same_shape_def)

lemma GetDirector_shape: "same_shape w w' \<Longrightarrow> GetDirector w' a = GetDirector w a"
  by (metis GetDirector_mono same_shape_sym not_Some_eq)

lemma Clear_accessors [simp]: "accessors (ClearScheduledCallback i w) = accessors w"
  by (simp add: ClearScheduledCallback_def RemoveScheduledCallbackFromMap_def Reset_def Let_def
      StopExecution_def PosixUtcInMilliseconds_def split: option.split)

lemma Clear_modify_accessor:
  "ClearScheduledCallback i (modify_accessor a f w) = modify_accessor a f (ClearScheduledCallback i w)"
  by (simp add: modify_accessor_def ClearScheduledCallback_def RemoveScheduledCallbackFromMap_def
      Reset_def Let_def StopExecution_def PosixUtcInMilliseconds_def NeedsReset_def split: option.split)

lemma Clears_accessors [simp]: "accessors (fold ClearScheduledCallback is w) = accessors w"
  by (induction "is" arbitrary: w) auto

lemma Clears_modify_accessor:
  "fold ClearScheduledCallback is (modify_accessor a f w) =
   modify_accessor a f (fold ClearScheduledCallback is w)"
  by (induction "is" arbitrary: w) (auto simp: Clear_modify_accessor)

lemma modify_accessor_compose:
  "modify_accessor a f (modify_accessor a g w) = modify_accessor a (f \<circ> g) w"
  by (simp add: modify_accessor_def option.map_comp)

lemma clear_callbacks_fold:
  assumes "accessors w a = Some x" and "GetDirector w a = Some (Inr True)"
  shows "clear_callbacks a is w = Ret () (modify_accessor a
    (\<lambda>x. x\<lparr>m_callbackIds := filter (\<lambda>i. i \<notin> set is) (m_callbackIds x)\<rparr>) (fold ClearScheduledCallback is w))"
  using assms
proof (induction "is" arbitrary: w x)
  case Nil
  then have "modify_accessor a (\<lambda>x. x) w = w" by (simp add: modify_accessor_def fun_upd_idem)
  then show ?case by simp
next
  case (Cons i ks)
  let ?w = "modify_accessor a (\<lambda>x. x\<lparr>m_callbackIds := sset_erase i (m_callbackIds x)\<rparr>) (ClearScheduledCallback i w)"
  have "same_shape w ?w" using Cons.prems by (auto simp: same_shape_def)
  then have "GetDirector ?w a = Some (Inr True)" using Cons.prems(2) GetDirector_shape by metis
  moreover obtain y where "accessors ?w a = Some y" using Cons.prems by simp
  ultimately have r: "clear_callbacks a ks ?w = Ret () (modify_accessor a
      (\<lambda>x. x\<lparr>m_callbackIds := filter (\<lambda>i. i \<notin> set ks) (m_callbackIds x)\<rparr>) (fold ClearScheduledCallback ks ?w))"
    using Cons.IH by blast
  then have "clear_callbacks a ks ?w = Ret () (modify_accessor a
      ((\<lambda>x. x\<lparr>m_callbackIds := filter (\<lambda>i. i \<notin> set ks) (m_callbackIds x)\<rparr>) \<circ>
       (\<lambda>x. x\<lparr>m_callbackIds := sset_erase i (m_callbackIds x)\<rparr>)) (fold ClearScheduledCallback (i # ks) w))"
    by (simp add: modify_accessor_compose Clears_modify_accessor)
  moreover have "(\<lambda>x :: accessor. x\<lparr>m_callbackIds := filter (\<lambda>i. i \<notin> set ks) (m_callbackIds x)\<rparr>) \<circ>
       (\<lambda>x. x\<lparr>m_callbackIds := sset_erase i (m_callbackIds x)\<rparr>) =
      (\<lambda>x. x\<lparr>m_callbackIds := filter (\<lambda>j. j \<notin> set (i # ks)) (m_callbackIds x)\<rparr>)"
    by (auto simp: fun_eq_iff sset_erase_def intro!: filter_cong)
  ultimately show ?case
    using Cons.prems by (simp add: Accessor_ClearScheduledCallback_def with_accessor_def with_director_def)
qed


definition plain_composite :: "bool \<Rightarrow> nat list \<Rightarrow> composite_part" where
  "plain_composite host cs = \<lparr>c_isHost = host, m_reactionRequested = False, m_children = [],
     m_orderedChildren = cs, m_childEventQueue = upq_new\<rparr>"

definition two_timers :: "(nat, unit) world" where
  "two_timers = one_world\<lparr>m_nextCallbackId := 2, m_callbackQueue := [1, 0],
     m_scheduledCallbacks := [(0, new_callback (UserCallback 1) 500 True 3 1000500),
       (1, new_callback (UserCallback 2) 250 True 3 1000250)],
     accessors := [7 \<mapsto> (Accessor_new ''Sum'' (Atomic no_atomic))\<lparr>m_parent := Some 8, m_callbackIds := [0]\<rparr>,
       8 \<mapsto> Accessor_new ''Host'' (Composite (plain_composite True [7]))]\<rparr>"


end
