(* ===== verification/AtomicAccessor.thy ===== *)
theory AtomicAccessor
  imports AccessorImpl
begin

text \<open>
  \<open>src/src/AtomicAccessorImpl.h\<close>, \<open>AtomicAccessorImpl.cpp\<close>, all but the handling of inputs
  (which calls user code and is in the runtime): the input handlers, the dependencies between
  an atomic accessor's ports, and the classes of equivalent input ports that follow from them.
  Pointers to ports are numbers, so a \<open>std::set\<close> of pointers is a strictly increasing list.
\<close>

section \<open>Construction and input handlers\<close>

text \<open>A static cast to the atomic accessor: the record of its own members.\<close>

definition with_atomic :: "nat \<Rightarrow> (accessor \<Rightarrow> atomic_part \<Rightarrow> ('a, 'e, 'u) op) \<Rightarrow> ('a, 'e, 'u) op" where
  "with_atomic a f = with_accessor a (\<lambda>x w.
     case a_kind x of Atomic d \<Rightarrow> f x d w | Composite _ \<Rightarrow> Throw (Fatal DanglingPointer) w)"

definition modify_atomic :: "nat \<Rightarrow> (atomic_part \<Rightarrow> atomic_part) \<Rightarrow> ('e, 'u) world \<Rightarrow> ('e, 'u) world" where
  "modify_atomic a f = modify_accessor a
     (\<lambda>x. case a_kind x of Atomic d \<Rightarrow> x\<lparr>a_kind := Atomic (f d)\<rparr> | Composite _ \<Rightarrow> x)"

definition AccessorStateDependsOn :: "nat \<Rightarrow> string \<Rightarrow> (unit, 'e, 'u) op" where
  "AccessorStateDependsOn a name = with_atomic a (\<lambda>x d w.
     if \<not> HasInputPortWithName name x then Throw InputPortNotFound w
     else Ret () (modify_atomic a (\<lambda>d. d\<lparr>m_stateDependsOnInputPort := True\<rparr>) w))"

definition handlers_of :: "string \<Rightarrow> atomic_part \<Rightarrow> nat list" where
  "handlers_of name d = (case map_of (m_inputHandlers d) name of None \<Rightarrow> [] | Some hs \<Rightarrow> hs)"

definition AddInputHandlers :: "nat \<Rightarrow> string \<Rightarrow> nat list \<Rightarrow> (unit, 'e, 'u) op" where
  "AddInputHandlers a name hs = with_atomic a (\<lambda>x d w.
     if \<not> HasInputPortWithName name x then Throw InputPortNotFound w
     else Ret () (modify_atomic a
            (\<lambda>d. d\<lparr>m_inputHandlers := smap_put name (handlers_of name d @ hs) (m_inputHandlers d)\<rparr>) w))"

definition AddInputHandler :: "nat \<Rightarrow> string \<Rightarrow> nat \<Rightarrow> (unit, 'e, 'u) op" where
  "AddInputHandler a name h = with_atomic a (\<lambda>x d w.
     if \<not> HasInputPortWithName name x then Throw InputPortNotFound w
     else Ret () (modify_atomic a
            (\<lambda>d. d\<lparr>m_inputHandlers := smap_put name (handlers_of name d @ [h]) (m_inputHandlers d)\<rparr>) w))"

section \<open>Pruned dependencies\<close>

text \<open>\<open>m[key].insert(p)\<close> on a map of sets.\<close>

definition prune :: "nat \<Rightarrow> nat \<Rightarrow> (nat, nat sset) smap \<Rightarrow> (nat, nat sset) smap" where
  "prune key p m = smap_put key (sset_insert p (pruned m key)) m"

definition RemoveDependency :: "nat \<Rightarrow> string \<Rightarrow> string \<Rightarrow> (unit, 'e, 'u) op" where
  "RemoveDependency a inputName outputName = with_atomic a (\<lambda>x d w.
     case GetInputPort inputName x of
       Inl e \<Rightarrow> Throw e w
     | Inr i \<Rightarrow>
         (case GetOutputPort outputName x of
            Inl e \<Rightarrow> Throw e w
          | Inr out \<Rightarrow> Ret () (modify_atomic a
              (\<lambda>d. d\<lparr>m_forwardPrunedDependencies := prune i out (m_forwardPrunedDependencies d),
                     m_backwardPrunedDependencies := prune out i (m_backwardPrunedDependencies d)\<rparr>) w)))"

definition RemoveDependencies :: "nat \<Rightarrow> string \<Rightarrow> string list \<Rightarrow> (unit, 'e, 'u) op" where
  "RemoveDependencies a inputName outputNames = run_each (RemoveDependency a inputName) outputNames"

definition AddSpontaneousOutputPort :: "nat \<Rightarrow> string \<Rightarrow> (unit, 'e, 'u) op" where
  "AddSpontaneousOutputPort a name w =
     run_bind (add_output_port a name True w) (\<lambda>_. with_accessor a (\<lambda>x w1.
       run_each (\<lambda>p w2. case ports w2 p of
           None \<Rightarrow> Throw (Fatal DanglingPointer) w2
         | Some pt \<Rightarrow> RemoveDependency a (p_name pt) name w2) (GetInputPorts x) w1))"

definition AddSpontaneousOutputPorts :: "nat \<Rightarrow> string list \<Rightarrow> (unit, 'e, 'u) op" where
  "AddSpontaneousOutputPorts a names = run_each (AddSpontaneousOutputPort a) names"

text \<open>
  The constructors. A constructor that throws destroys what it built, so the model is as
  before; in the base class' constructor no override of a derived class is called.
\<close>

definition construct :: "(unit, 'e, 'u) op \<Rightarrow> (unit, 'e, 'u) op" where
  "construct f w = (case f w of Ret x w1 \<Rightarrow> Ret x w1 | Throw e _ \<Rightarrow> Throw e w | Diverge \<Rightarrow> Diverge)"

definition Accessor_construct ::
  "nat \<Rightarrow> string \<Rightarrow> accessor_kind \<Rightarrow> string list \<Rightarrow> string list \<Rightarrow> (unit, 'e, 'u) op" where
  "Accessor_construct a name k inputNames outputNames w =
     run_bind (run_each (add_input_port a) inputNames
         (w\<lparr>accessors := (accessors w)(a \<mapsto> Accessor_new name k)\<rparr>))
       (\<lambda>_. run_each (\<lambda>n. add_output_port a n False) outputNames)"

definition AtomicAccessor_construct ::
  "nat \<Rightarrow> string \<Rightarrow> string list \<Rightarrow> string list \<Rightarrow> string list \<Rightarrow> (string, nat list) smap \<Rightarrow> bool
     \<Rightarrow> (unit, 'e, 'u) op" where
  "AtomicAccessor_construct a name inputNames outputNames spontaneousNames handlers hasFire =
     construct (\<lambda>w. run_bind
       (Accessor_construct a name
         (Atomic \<lparr>m_forwardPrunedDependencies = [], m_backwardPrunedDependencies = [],
            m_inputHandlers = handlers, m_hasFireFunction = hasFire, m_stateDependsOnInputPort = False\<rparr>)
         inputNames outputNames w)
       (\<lambda>_. AddSpontaneousOutputPorts a spontaneousNames))"

section \<open>Dependencies and equivalent ports\<close>

definition SetSubtract :: "'k sset \<Rightarrow> 'k sset \<Rightarrow> 'k sset" where
  "SetSubtract minuend subtrahend = fold sset_erase subtrahend minuend"

definition GetInputPortDependencies :: "accessor \<Rightarrow> atomic_part \<Rightarrow> nat \<Rightarrow> nat list" where
  "GetInputPortDependencies x d out =
     (case map_of (m_backwardPrunedDependencies d) out of
        None \<Rightarrow> GetInputPorts x
      | Some ps \<Rightarrow> SetSubtract (sset_of (GetInputPorts x)) ps)"

definition GetDependentOutputPorts :: "accessor \<Rightarrow> atomic_part \<Rightarrow> nat \<Rightarrow> nat list" where
  "GetDependentOutputPorts x d i =
     (case map_of (m_forwardPrunedDependencies d) i of
        None \<Rightarrow> GetOutputPorts x
      | Some ps \<Rightarrow> SetSubtract (sset_of (GetOutputPorts x)) ps)"

fun fold_opt :: "('x \<Rightarrow> 's \<Rightarrow> 's option) \<Rightarrow> 'x list \<Rightarrow> 's \<Rightarrow> 's option" where
  "fold_opt f [] s = Some s"
| "fold_opt f (x # xs) s = (case f x s of None \<Rightarrow> None | Some t \<Rightarrow> fold_opt f xs t)"

text \<open>
  \<open>FindEquivalentPorts\<close> over the two dependency functions; the two sets that the C++ passes by
  reference are the state. The number bounds the depth of the recursion.
\<close>

fun find_equivalent ::
  "(nat \<Rightarrow> nat list) \<Rightarrow> (nat \<Rightarrow> nat list) \<Rightarrow> nat \<Rightarrow> nat \<Rightarrow> nat sset \<times> nat sset \<Rightarrow> (nat sset \<times> nat sset) option" where
  "find_equivalent outs ins 0 i ED = None"
| "find_equivalent outs ins (Suc n) i (E, D) =
     (if i \<in> set E then Some (E, D)
      else fold_opt (\<lambda>out (E, D).
             if out \<in> set D then Some (E, D)
             else fold_opt (find_equivalent outs ins n) (ins out) (E, sset_insert out D))
           (outs i) (sset_insert i E, D))"

definition FindEquivalentPorts ::
  "accessor \<Rightarrow> atomic_part \<Rightarrow> nat \<Rightarrow> nat sset \<times> nat sset \<Rightarrow> (nat sset \<times> nat sset) option" where
  "FindEquivalentPorts x d =
     find_equivalent (GetDependentOutputPorts x d) (GetInputPortDependencies x d)
       (Suc (GetNumberOfInputPorts x))"

definition GetEquivalentPorts :: "accessor \<Rightarrow> atomic_part \<Rightarrow> nat \<Rightarrow> nat list option" where
  "GetEquivalentPorts x d i =
     (if m_forwardPrunedDependencies d = [] \<or> GetNumberOfInputPorts x = 1 \<or> GetNumberOfOutputPorts x = 0
      then Some (GetInputPorts x)
      else map_option fst (FindEquivalentPorts x d i ([], [])))"

section \<open>The search finds the class\<close>

text \<open>Two input ports in one step: some output port depends on both.\<close>

definition linked :: "(nat \<Rightarrow> nat list) \<Rightarrow> (nat \<Rightarrow> nat list) \<Rightarrow> (nat \<times> nat) set" where
  "linked outs ins = {(i, j). \<exists>out \<in> set (outs i). j \<in> set (ins out)}"

lemma fold_opt_total:
  assumes "P s" and "\<And>x s. x \<in> set xs \<Longrightarrow> P s \<Longrightarrow> \<exists>t. f x s = Some t \<and> P t"
  shows "\<exists>t. fold_opt f xs s = Some t \<and> P t"
  using assms
proof (induction xs arbitrary: s)
  case (Cons x xs)
  from Cons.prems(2)[of x s] Cons.prems(1) obtain t where t: "f x s = Some t" "P t" by auto
  then show ?case using Cons.IH[of t] Cons.prems(2) by auto
qed simp

lemma fold_opt_each:
  assumes "R s s" and "\<And>s t u. R s t \<Longrightarrow> R t u \<Longrightarrow> R s u"
    and "\<And>x s. x \<in> set xs \<Longrightarrow> P s \<Longrightarrow> \<exists>t. f x s = Some t \<and> P t \<and> R s t \<and> Q x t"
    and "\<And>x s t. Q x s \<Longrightarrow> R s t \<Longrightarrow> Q x t" and "P s" and "\<And>s. R s s"
  shows "\<exists>t. fold_opt f xs s = Some t \<and> P t \<and> R s t \<and> (\<forall>x \<in> set xs. Q x t)"
  using assms(3,5)
proof (induction xs arbitrary: s)
  case Nil
  then show ?case using assms(6) by simp
next
  case (Cons x xs)
  from Cons.prems(1)[of x s] Cons.prems(2) obtain t where t: "f x s = Some t" "P t" "R s t" "Q x t"
    by auto
  from Cons.IH[of t] Cons.prems(1) t(2) obtain u where
    u: "fold_opt f xs t = Some u" "P u" "R t u" "\<forall>x \<in> set xs. Q x u" by auto
  then have "R s u" "Q x u" using t assms(2,4) by blast+
  then show ?case using t(1) u by auto
qed

text \<open>
  What the search adds: the sets grow, everything added is reachable from the start, and what
  is added is closed under the dependencies.
\<close>

definition grows :: "(nat \<Rightarrow> nat list) \<Rightarrow> (nat \<Rightarrow> nat list) \<Rightarrow> nat sset \<times> nat sset \<Rightarrow> nat sset \<times> nat sset \<Rightarrow> bool" where
  "grows outs ins ED ED' \<longleftrightarrow> set (fst ED) \<subseteq> set (fst ED') \<and> set (snd ED) \<subseteq> set (snd ED') \<and>
     (\<forall>j \<in> set (fst ED') - set (fst ED). set (outs j) \<subseteq> set (snd ED')) \<and>
     (\<forall>out \<in> set (snd ED') - set (snd ED). set (ins out) \<subseteq> set (fst ED'))"

lemma grows_refl: "grows outs ins s s"
  by (simp add: grows_def)

lemma grows_trans: "grows outs ins s t \<Longrightarrow> grows outs ins t u \<Longrightarrow> grows outs ins s u"
  unfolding grows_def by blast

lemma fold_opt_inv:
  assumes "fold_opt f xs s = Some t" and "P s"
    and "\<And>x s t. x \<in> set xs \<Longrightarrow> P s \<Longrightarrow> f x s = Some t \<Longrightarrow> P t"
  shows "P t"
  using assms
proof (induction xs arbitrary: s)
  case (Cons x xs)
  then obtain u where u: "f x s = Some u" "fold_opt f xs u = Some t" by (auto split: option.splits)
  with Cons.prems(3)[of x s u] Cons.prems(2) have "P u" by simp
  with Cons.IH[OF u(2)] Cons.prems(3) show ?case by (meson list.set_intros(2))
qed simp

lemma find_equivalent_total:
  assumes I: "finite I" "\<And>out. set (ins out) \<subseteq> I"
  shows "i \<in> I \<Longrightarrow> set E \<subseteq> I \<Longrightarrow> card (I - set E) < n \<Longrightarrow>
    \<exists>ED'. find_equivalent outs ins n i (E, D) = Some ED' \<and>
      (set (fst ED') \<subseteq> I \<and> card (I - set (fst ED')) < n) \<and>
      grows outs ins (E, D) ED' \<and> i \<in> set (fst ED')"
proof (induction n arbitrary: i E D)
  case (Suc n)
  show ?case
  proof (cases "i \<in> set E")
    case True
    then show ?thesis using Suc.prems by (simp add: grows_refl)
  next
    case False
    let ?P = "\<lambda>s :: nat sset \<times> nat sset. set (fst s) \<subseteq> I \<and> card (I - set (fst s)) < n"
    let ?inner = "\<lambda>out s. fold_opt (find_equivalent outs ins n) (ins out) s"
    let ?f = "\<lambda>out (E, D). if out \<in> set D then Some (E, D) else ?inner out (E, sset_insert out D)"
    have "card (I - set (sset_insert i E)) < card (I - set E)"
      by (rule psubset_card_mono) (use Suc.prems False I(1) in auto)
    then have start: "?P (sset_insert i E, D)" using Suc.prems by auto
    have one: "\<exists>t. find_equivalent outs ins n j s = Some t \<and> ?P t \<and> grows outs ins s t \<and> j \<in> set (fst t)"
      if "j \<in> set (ins out)" "?P s" for j out s
      using Suc.IH[of j "fst s" "snd s"] that I(2)[of out] by auto
    have inner: "\<exists>t. ?inner out s = Some t \<and> ?P t \<and> grows outs ins s t \<and> (\<forall>j \<in> set (ins out). j \<in> set (fst t))"
      if "?P s" for out s
      by (rule fold_opt_each[where R = "grows outs ins" and P = ?P, OF grows_refl grows_trans])
        (use that one[of _ out] grows_refl in \<open>blast | (auto simp: grows_def)\<close>)+
    have outer: "\<exists>t. ?f out s = Some t \<and> ?P t \<and> grows outs ins s t \<and> out \<in> set (snd t)"
      if P: "?P s" for out s
    proof -
      obtain E1 D1 where s: "s = (E1, D1)" by (cases s)
      show ?thesis
      proof (cases "out \<in> set D1")
        case True
        then show ?thesis using s P by (simp add: grows_refl)
      next
        case False
        from inner[of "(E1, sset_insert out D1)" out] P s obtain t where
          t: "?inner out (E1, sset_insert out D1) = Some t" "?P t"
            "grows outs ins (E1, sset_insert out D1) t" "\<forall>j \<in> set (ins out). j \<in> set (fst t)" by auto
        then have "grows outs ins (E1, D1) t" "out \<in> set (snd t)"
          by (auto simp: grows_def)
        then show ?thesis using t(1,2) s False by simp
      qed
    qed
    have "\<exists>t. fold_opt ?f (outs i) (sset_insert i E, D) = Some t \<and> ?P t \<and>
        grows outs ins (sset_insert i E, D) t \<and> (\<forall>out \<in> set (outs i). out \<in> set (snd t))"
      by (rule fold_opt_each[where R = "grows outs ins" and P = ?P, OF grows_refl grows_trans])
        (use start outer grows_refl in \<open>auto simp: grows_def\<close>)
    then obtain t where t: "fold_opt ?f (outs i) (sset_insert i E, D) = Some t" "?P t"
        "grows outs ins (sset_insert i E, D) t" "\<forall>out \<in> set (outs i). out \<in> set (snd t)" by blast
    then have "grows outs ins (E, D) t" "i \<in> set (fst t)" by (auto simp: grows_def)
    then show ?thesis using t(1,2) False by (intro exI[of _ t]) auto
  qed
qed simp

lemma find_equivalent_sound:
  "find_equivalent outs ins n i (E, D) = Some (E', D') \<Longrightarrow>
   set E' \<subseteq> set E \<union> (linked outs ins)\<^sup>* `` {i}"
proof (induction n arbitrary: i E D E' D')
  case (Suc n)
  let ?L = "(linked outs ins)\<^sup>*"
  let ?P = "\<lambda>s :: nat sset \<times> nat sset. set (fst s) \<subseteq> set E \<union> ?L `` {i}"
  show ?case
  proof (cases "i \<in> set E")
    case False
    let ?f = "\<lambda>out (E, D). if out \<in> set D then Some (E, D)
      else fold_opt (find_equivalent outs ins n) (ins out) (E, sset_insert out D)"
    have inner: "?P t" if "?P s" "find_equivalent outs ins n j s = Some t" "out \<in> set (outs i)" "j \<in> set (ins out)"
      for out j s t
    proof -
      from that have "(i, j) \<in> linked outs ins" by (auto simp: linked_def)
      then have "?L `` {j} \<subseteq> ?L `` {i}" by (auto intro: converse_rtrancl_into_rtrancl)
      with Suc.IH[of j "fst s" "snd s" "fst t" "snd t"] that show ?thesis by auto
    qed
    have outer: "?P t" if out: "out \<in> set (outs i)" and s: "?P s" and f: "?f out s = Some t" for out s t
    proof (cases "out \<in> set (snd s)")
      case True
      then show ?thesis using s f by (auto split: prod.splits)
    next
      case False
      then have "fold_opt (find_equivalent outs ins n) (ins out) (fst s, sset_insert out (snd s)) = Some t"
        using f by (auto split: prod.splits)
      then show ?thesis
        by (rule fold_opt_inv[where P = ?P]) (use s inner out in auto)
    qed
    have "fold_opt ?f (outs i) (sset_insert i E, D) = Some (E', D')"
      using Suc.prems False by simp
    then have "?P (E', D')"
      by (rule fold_opt_inv[where P = ?P]) (use outer in auto)
    then show ?thesis by simp
  qed (use Suc.prems in auto)
qed simp

lemma find_equivalent_sorted:
  "find_equivalent outs ins n i s = Some t \<Longrightarrow> sorted_wrt (<) (fst s) \<Longrightarrow> sorted_wrt (<) (fst t)"
proof (induction n arbitrary: i s t)
  case (Suc n)
  obtain E D where s: "s = (E, D)" by (cases s)
  let ?P = "\<lambda>s :: nat sset \<times> nat sset. sorted_wrt (<) (fst s)"
  let ?f = "\<lambda>out (E, D). if out \<in> set D then Some (E, D)
    else fold_opt (find_equivalent outs ins n) (ins out) (E, sset_insert out D)"
  have outer: "?P v" if "?P u" "?f out u = Some v" for out u v
  proof (cases "out \<in> set (snd u)")
    case True
    then show ?thesis using that by (auto split: prod.splits)
  next
    case False
    then have "fold_opt (find_equivalent outs ins n) (ins out) (fst u, sset_insert out (snd u)) = Some v"
      using that by (auto split: prod.splits)
    then show ?thesis by (rule fold_opt_inv[where P = ?P]) (use that(1) Suc.IH in auto)
  qed
  show ?case
  proof (cases "i \<in> set E")
    case False
    then have "fold_opt ?f (outs i) (sset_insert i E, D) = Some t" using Suc.prems(1) s by simp
    then show ?thesis
      by (rule fold_opt_inv[where P = ?P]) (use Suc.prems(2) s outer in \<open>auto intro: sorted_sset_insert\<close>)
  qed (use Suc.prems s in auto)
qed simp

lemma find_equivalent_class:
  assumes "finite I" and "\<And>out. set (ins out) \<subseteq> I" and "i \<in> I" and "card I < n"
  shows "\<exists>E D. find_equivalent outs ins n i ([], []) = Some (E, D) \<and> sorted_wrt (<) E \<and>
    set E = (linked outs ins)\<^sup>* `` {i}"
proof -
  from find_equivalent_total[where ins = ins, OF assms(1,2,3), where E = "[]" and D = "[]" and n = n and outs = outs] assms(4) obtain E D where
    r: "find_equivalent outs ins n i ([], []) = Some (E, D)" "grows outs ins ([], []) (E, D)" "i \<in> set E"
    by auto
  have "j \<in> set E" if "(i, j) \<in> (linked outs ins)\<^sup>*" for j
    using that
  proof (induction rule: rtrancl_induct)
    case (step j k)
    then show ?case using r(2) by (auto simp: grows_def linked_def)
  qed (rule r(3))
  with find_equivalent_sound[OF r(1)] find_equivalent_sorted[OF r(1)] r(1) show ?thesis by auto
qed

section \<open>The classes of equivalent input ports\<close>

lemma set_SetSubtract [simp]: "set (SetSubtract a b) = set a - set b"
  unfolding SetSubtract_def by (induction b arbitrary: a) auto

lemma sorted_SetSubtract: "sorted_wrt (<) a \<Longrightarrow> sorted_wrt (<) (SetSubtract a b)"
  unfolding SetSubtract_def by (induction b arbitrary: a) auto

lemma set_GetInputPortDependencies:
  "set (GetInputPortDependencies x d out) =
     set (GetInputPorts x) - set (pruned (m_backwardPrunedDependencies d) out)"
  by (simp add: GetInputPortDependencies_def pruned_def split: option.split)

lemma set_GetDependentOutputPorts:
  "set (GetDependentOutputPorts x d i) =
     set (GetOutputPorts x) - set (pruned (m_forwardPrunedDependencies d) i)"
  by (simp add: GetDependentOutputPorts_def pruned_def split: option.split)

abbreviation port_links :: "accessor \<Rightarrow> atomic_part \<Rightarrow> (nat \<times> nat) set" where
  "port_links x d \<equiv> linked (GetDependentOutputPorts x d) (GetInputPortDependencies x d)"

text \<open>An output port depends on an input port exactly when the input port leads to it.\<close>

lemma dependencies_mirrored:
  assumes "kind_ok (Atomic d)" and "i \<in> set (GetInputPorts x)" and "out \<in> set (GetOutputPorts x)"
  shows "out \<in> set (GetDependentOutputPorts x d i) \<longleftrightarrow> i \<in> set (GetInputPortDependencies x d out)"
  using assms by (simp add: set_GetInputPortDependencies set_GetDependentOutputPorts)

lemma port_links_inputs: "(i, j) \<in> port_links x d \<Longrightarrow> j \<in> set (GetInputPorts x)"
  by (auto simp: linked_def set_GetInputPortDependencies)

lemma port_links_sym:
  assumes "kind_ok (Atomic d)" and "i \<in> set (GetInputPorts x)" and "(i, j) \<in> port_links x d"
  shows "(j, i) \<in> port_links x d"
proof -
  from assms(3) obtain out where o: "out \<in> set (GetDependentOutputPorts x d i)"
      "j \<in> set (GetInputPortDependencies x d out)" by (auto simp: linked_def)
  then have "out \<in> set (GetOutputPorts x)" "j \<in> set (GetInputPorts x)"
    by (simp_all add: set_GetDependentOutputPorts set_GetInputPortDependencies)
  with o dependencies_mirrored[OF assms(1)] assms(2) show ?thesis by (auto simp: linked_def)
qed

lemma port_links_star:
  assumes "kind_ok (Atomic d)" and "i \<in> set (GetInputPorts x)" and "(i, j) \<in> (port_links x d)\<^sup>*"
  shows "j \<in> set (GetInputPorts x) \<and> (j, i) \<in> (port_links x d)\<^sup>*"
  using assms(3)
proof (induction rule: rtrancl_induct)
  case (step j k)
  then have "(k, j) \<in> port_links x d" "k \<in> set (GetInputPorts x)"
    using port_links_sym[OF assms(1)] port_links_inputs by blast+
  then show ?case using step.IH by (meson converse_rtrancl_into_rtrancl)
qed (simp add: assms(2))

lemma port_links_class:
  assumes "kind_ok (Atomic d)" and "i \<in> set (GetInputPorts x)" and "(i, j) \<in> (port_links x d)\<^sup>*"
  shows "(port_links x d)\<^sup>* `` {j} = (port_links x d)\<^sup>* `` {i}"
  using port_links_star[OF assms] assms(3) by (auto intro: rtrancl_trans)

text \<open>The early exit for an accessor without pruned dependencies is right if it has an output.\<close>

lemma unpruned_class:
  assumes ok: "kind_ok (Atomic d)" and i: "i \<in> set (GetInputPorts x)"
    and e: "m_forwardPrunedDependencies d = [] \<or> GetNumberOfInputPorts x = 1" and o: "GetOutputPorts x \<noteq> []"
  shows "(port_links x d)\<^sup>* `` {i} = set (GetInputPorts x)"
proof
  show "(port_links x d)\<^sup>* `` {i} \<subseteq> set (GetInputPorts x)"
    using port_links_star[OF ok i] by blast
  show "set (GetInputPorts x) \<subseteq> (port_links x d)\<^sup>* `` {i}"
  proof (cases "GetNumberOfInputPorts x = 1")
    case True
    then obtain k where "GetInputPorts x = [k]"
      by (auto simp: GetNumberOfInputPorts_def GetInputPorts_def length_Suc_conv)
    then show ?thesis using i by simp
  next
    case False
    with e have f: "m_forwardPrunedDependencies d = []" by simp
    then have b: "set (pruned (m_backwardPrunedDependencies d) out) = {}" for out
      using ok by (auto simp: pruned_def)
    from o obtain out where "out \<in> set (GetOutputPorts x)" by fastforce
    then have "out \<in> set (GetDependentOutputPorts x d i)" using f by (simp add: set_GetDependentOutputPorts pruned_def)
    then have "(i, j) \<in> port_links x d" if "j \<in> set (GetInputPorts x)" for j
      using that b by (auto simp: linked_def set_GetInputPortDependencies)
    then show ?thesis by blast
  qed
qed

lemma GetEquivalentPorts_set:
  assumes ok: "kind_ok (Atomic d)" and i: "i \<in> set (GetInputPorts x)"
  shows "\<exists>ps. GetEquivalentPorts x d i = Some ps \<and>
    set ps = (if GetOutputPorts x = [] then set (GetInputPorts x) else (port_links x d)\<^sup>* `` {i})"
proof (cases "m_forwardPrunedDependencies d = [] \<or> GetNumberOfInputPorts x = 1 \<or> GetNumberOfOutputPorts x = 0")
  case True
  then show ?thesis
    using unpruned_class[OF ok i]
    by (auto simp: GetEquivalentPorts_def GetNumberOfOutputPorts_def GetOutputPorts_def)
next
  case False
  have "card (set (GetInputPorts x)) < Suc (GetNumberOfInputPorts x)"
    by (simp add: GetInputPorts_def GetNumberOfInputPorts_def card_length le_imp_less_Suc)
  from find_equivalent_class[OF _ _ i this, of "GetInputPortDependencies x d" "GetDependentOutputPorts x d"]
  obtain E D where "FindEquivalentPorts x d i ([], []) = Some (E, D)" "set E = (port_links x d)\<^sup>* `` {i}"
    by (auto simp: FindEquivalentPorts_def set_GetInputPortDependencies)
  with False show ?thesis
    by (auto simp: GetEquivalentPorts_def GetNumberOfOutputPorts_def GetOutputPorts_def)
qed

text \<open>
  C12. The search for the ports equivalent to an input port always ends, and finds exactly the
  ports that outputs connect to it: those reached by going from an input to an output that
  depends on it and on to another input of that output, any number of times. (An accessor
  without outputs counts all its inputs as equivalent.)
\<close>

theorem GetEquivalentPorts_closure:
  assumes "accessor_ok S a x" and "a_kind x = Atomic d" and "i \<in> set (GetInputPorts x)"
  shows "\<exists>ps. GetEquivalentPorts x d i = Some ps \<and>
    set ps = (if GetOutputPorts x = [] then set (GetInputPorts x)
      else {j. (i, j) \<in> {(p, q). \<exists>out \<in> set (GetDependentOutputPorts x d p).
              q \<in> set (GetInputPortDependencies x d out)}\<^sup>*})"
  using GetEquivalentPorts_set[of d i x] assms by (auto simp: accessor_ok_def linked_def)

text \<open>An accessor with inputs A, B and C, whose output Sum ignores C and whose output Echo ignores A and B.\<close>

definition mixer_deps :: atomic_part where
  "mixer_deps = no_atomic\<lparr>m_forwardPrunedDependencies := [(1, [11]), (2, [11]), (3, [10])],
     m_backwardPrunedDependencies := [(10, [3]), (11, [1, 2])]\<rparr>"

definition mixer :: accessor where
  "mixer = (Accessor_new ''Mixer'' (Atomic mixer_deps))
     \<lparr>m_inputPorts := [(''A'', 1), (''B'', 2), (''C'', 3)], m_orderedInputPorts := [1, 2, 3],
      m_outputPorts := [(''Echo'', 11), (''Sum'', 10)], m_orderedOutputPorts := [11, 10]\<rparr>"

definition mixer_ports :: "nat port_store" where
  "mixer_ports =
     [1 \<mapsto> Port_new ''A'' 5 InputPort, 2 \<mapsto> Port_new ''B'' 5 InputPort, 3 \<mapsto> Port_new ''C'' 5 InputPort,
      10 \<mapsto> Port_new ''Sum'' 5 (OutputPort False), 11 \<mapsto> Port_new ''Echo'' 5 (OutputPort False)]"

lemma named_ports_ok_list:
  "smap_wf m \<Longrightarrow> distinct ps \<Longrightarrow> set ps = snd ` set m \<Longrightarrow>
   (\<forall>e \<in> set m. NameIsValid (fst e) \<and> port_of S a (fst e) (snd e) b) \<Longrightarrow> named_ports_ok S a b m ps"
  unfolding named_ports_ok_def ran_distinct[OF smap_wf_distinct]
  by (auto dest!: map_of_SomeD)

lemma mixer_ok: "accessor_ok mixer_ports 5 mixer"
proof -
  have "named_ports_ok mixer_ports 5 True (m_inputPorts mixer) (m_orderedInputPorts mixer)"
    "named_ports_ok mixer_ports 5 False (m_outputPorts mixer) (m_orderedOutputPorts mixer)"
    by (rule named_ports_ok_list; simp add: mixer_def mixer_ports_def smap_wf_def port_of_def Port_new_def
        NameIsValid_def forbidden_chars_def less_char_def )+
  moreover have "kind_ok (Atomic mixer_deps)"
    by (auto simp: mixer_deps_def no_atomic_def smap_wf_def pruned_def)
  ultimately show ?thesis
    by (simp add: accessor_ok_def) (auto simp: mixer_def Accessor_new_def split: if_splits)
qed

lemma mixer_simps:
  "a_kind mixer = Atomic mixer_deps" "GetInputPorts mixer = [1, 2, 3]" "GetOutputPorts mixer = [11, 10]"
  by (simp_all add: mixer_def Accessor_new_def GetInputPorts_def GetOutputPorts_def)

lemma GetEquivalentPorts_closure_witness:
  "\<exists>ps. GetEquivalentPorts mixer mixer_deps 1 = Some ps \<and> 2 \<in> set ps"
proof -
  have "10 \<in> set (GetDependentOutputPorts mixer mixer_deps 1)" "2 \<in> set (GetInputPortDependencies mixer mixer_deps 10)"
    by (simp_all add: set_GetDependentOutputPorts set_GetInputPortDependencies mixer_simps pruned_def mixer_deps_def)
  with GetEquivalentPorts_closure[OF mixer_ok mixer_simps(1), of 1] show ?thesis
    by (auto simp: mixer_simps)
qed

lemma GetEquivalentPorts_same:
  assumes ok: "kind_ok (Atomic d)" and i: "i \<in> set (GetInputPorts x)"
    and j: "GetEquivalentPorts x d i = Some ps" "j \<in> set ps"
  shows "GetEquivalentPorts x d j = Some ps"
proof (cases "m_forwardPrunedDependencies d = [] \<or> GetNumberOfInputPorts x = 1 \<or> GetNumberOfOutputPorts x = 0")
  case True
  then show ?thesis using j(1) by (auto simp: GetEquivalentPorts_def)
next
  case False
  then have o: "GetOutputPorts x \<noteq> []" by (simp add: GetNumberOfOutputPorts_def GetOutputPorts_def)
  from GetEquivalentPorts_set[OF ok i] j o have star: "(i, j) \<in> (port_links x d)\<^sup>*" and
      ps: "set ps = (port_links x d)\<^sup>* `` {i}" by auto
  then have "j \<in> set (GetInputPorts x)" using port_links_star[OF ok i] by blast
  from GetEquivalentPorts_set[OF ok this] o port_links_class[OF ok i star] ps obtain qs where
    qs: "GetEquivalentPorts x d j = Some qs" "set qs = set ps" by auto
  have "sorted_wrt (<) ls" if "GetEquivalentPorts x d k = Some ls" for k ls
  proof -
    from that False obtain t where "FindEquivalentPorts x d k ([], []) = Some t" "ls = fst t"
      by (auto simp: GetEquivalentPorts_def)
    then show ?thesis using find_equivalent_sorted[of _ _ _ k "([], [])" t] by (auto simp only: FindEquivalentPorts_def fst_conv sorted_wrt.simps)
  qed
  then have "ps = qs" using qs j(1) by (metis strict_sorted_equal)
  with qs show ?thesis by simp
qed

text \<open>
  Equivalent ports form classes: a port is in its own class, every port of the class has
  the same class, listed in the same order, and all the inputs that one output depends on are
  in one class.
\<close>

theorem GetEquivalentPorts_partition:
  assumes "accessor_ok S a x" and "a_kind x = Atomic d" and "i \<in> set (GetInputPorts x)"
  shows "\<exists>ps. GetEquivalentPorts x d i = Some ps \<and> i \<in> set ps \<and> set ps \<subseteq> set (GetInputPorts x) \<and>
    (\<forall>j \<in> set ps. GetEquivalentPorts x d j = Some ps) \<and>
    (\<forall>out \<in> set (GetOutputPorts x). i \<in> set (GetInputPortDependencies x d out) \<longrightarrow>
       set (GetInputPortDependencies x d out) \<subseteq> set ps)"
proof -
  have ok: "kind_ok (Atomic d)" using assms(1,2) by (simp add: accessor_ok_def)
  from GetEquivalentPorts_set[OF ok assms(3)] obtain ps where ps: "GetEquivalentPorts x d i = Some ps"
      "set ps = (if GetOutputPorts x = [] then set (GetInputPorts x) else (port_links x d)\<^sup>* `` {i})" by auto
  have "j \<in> set ps" if out: "out \<in> set (GetOutputPorts x)" and
      i: "i \<in> set (GetInputPortDependencies x d out)" and j: "j \<in> set (GetInputPortDependencies x d out)" for out j
  proof -
    have "out \<in> set (GetDependentOutputPorts x d i)"
      using dependencies_mirrored[OF ok assms(3) out] i by simp
    with j have "(i, j) \<in> port_links x d" by (auto simp: linked_def)
    with out ps(2) show ?thesis by auto
  qed
  moreover have "i \<in> set ps" "set ps \<subseteq> set (GetInputPorts x)"
    using ps(2) assms(3) port_links_star[OF ok assms(3)] by (auto split: if_splits)
  ultimately show ?thesis
    using ps(1) GetEquivalentPorts_same[OF ok assms(3) ps(1)] by blast
qed

lemma GetEquivalentPorts_partition_witness:
  "GetEquivalentPorts mixer mixer_deps 1 = GetEquivalentPorts mixer mixer_deps 2"
proof -
  have "1 \<in> set (GetInputPortDependencies mixer mixer_deps 10)" "2 \<in> set (GetInputPortDependencies mixer mixer_deps 10)"
    by (simp_all add: set_GetInputPortDependencies mixer_simps pruned_def mixer_deps_def)
  with GetEquivalentPorts_partition[OF mixer_ok mixer_simps(1), of 1] show ?thesis
    by (auto simp: mixer_simps)
qed

section \<open>Building a model keeps its ports well formed\<close>

lemma set_pruned_prune:
  "set (pruned (prune k p m) k') = (if k' = k then insert p (set (pruned m k)) else set (pruned m k'))"
  by (auto simp: prune_def pruned_def)

lemma smap_wf_prune [intro]: "smap_wf m \<Longrightarrow> smap_wf (prune k p m)"
  by (auto simp: prune_def)

lemma kind_ok_prune:
  "kind_ok (Atomic d) \<Longrightarrow> kind_ok (Atomic (d\<lparr>m_forwardPrunedDependencies := prune i out (m_forwardPrunedDependencies d),
     m_backwardPrunedDependencies := prune out i (m_backwardPrunedDependencies d)\<rparr>))"
  by (auto simp: set_pruned_prune split: if_splits)

lemma modify_atomic_simps [simp]:
  "ports (modify_atomic a f w) = ports w" "nextPort (modify_atomic a f w) = nextPort w"
  by (simp_all add: modify_atomic_def)

lemma accessors_modify_atomic:
  "accessors w a = Some x \<Longrightarrow> a_kind x = Atomic d \<Longrightarrow>
   accessors (modify_atomic a f w) = (accessors w)(a \<mapsto> x\<lparr>a_kind := Atomic (f d)\<rparr>)"
  by (auto simp: modify_atomic_def fun_eq_iff)

lemma world_ok_modify_atomic:
  assumes "world_ok w" and "\<And>d. kind_ok (Atomic d) \<Longrightarrow> kind_ok (Atomic (f d))"
  shows "world_ok (modify_atomic a f w)"
proof -
  have "accessor_ok (ports w) b y"
    if y: "accessors (modify_atomic a f w) b = Some y" for b y
  proof -
    from y obtain x where x: "accessors w b = Some x"
      by (auto simp: modify_atomic_def split: if_splits)
    then have "accessor_ok (ports w) b x" using assms(1) by (simp add: world_ok_def)
    with assms(2) x y show ?thesis
      by (cases "b = a"; cases "a_kind x")
        (clarsimp simp: modify_atomic_def accessor_ok_def simp del: kind_ok.simps; blast?)+
  qed
  then show ?thesis using assms(1) by (simp add: world_ok_def)
qed

lemma run_each_prop:
  assumes "\<And>x s. x \<in> set xs \<Longrightarrow> P s \<Longrightarrow> run_prop P (f x s)"
  shows "P s \<Longrightarrow> run_prop P (run_each f xs s)"
  using assms by (induction xs arbitrary: s) (auto intro!: run_prop_bind)

lemma with_accessor_prop:
  "P w \<Longrightarrow> (\<And>x. accessors w a = Some x \<Longrightarrow> run_prop P (f x w)) \<Longrightarrow> run_prop P (with_accessor a f w)"
  by (simp add: with_accessor_def split: option.split)

lemma with_atomic_prop:
  "P w \<Longrightarrow> (\<And>x d. accessors w a = Some x \<Longrightarrow> a_kind x = Atomic d \<Longrightarrow> run_prop P (f x d w)) \<Longrightarrow>
   run_prop P (with_atomic a f w)"
  by (simp add: with_atomic_def with_accessor_def split: option.split accessor_kind.split)

lemma world_ok_add_input [wf_intros]: "world_ok w \<Longrightarrow> run_prop world_ok (add_input_port a n w)"
proof (cases "accessors w a")
  case None
  moreover assume "world_ok w"
  ultimately show ?thesis by (simp add: add_input_port_def with_accessor_def)
qed (simp add: add_input_port_eq world_ok_input_port_added)

lemma world_ok_add_output [wf_intros]: "world_ok w \<Longrightarrow> run_prop world_ok (add_output_port a n sp w)"
proof (cases "accessors w a")
  case None
  moreover assume "world_ok w"
  ultimately show ?thesis by (simp add: add_output_port_def with_accessor_def)
qed (simp add: add_output_port_eq world_ok_output_port_added)

lemma world_ok_RemoveDependency [wf_intros]: "world_ok w \<Longrightarrow> run_prop world_ok (RemoveDependency a i out w)"
  unfolding RemoveDependency_def
  by (rule with_atomic_prop)
    (auto split: sum.split intro!: world_ok_modify_atomic kind_ok_prune simp del: kind_ok.simps)

lemma world_ok_handlers [wf_intros]:
  "world_ok w \<Longrightarrow> run_prop world_ok (AddInputHandlers a n hs w)"
  "world_ok w \<Longrightarrow> run_prop world_ok (AddInputHandler a n h w)"
  "world_ok w \<Longrightarrow> run_prop world_ok (AccessorStateDependsOn a n w)"
  unfolding AddInputHandlers_def AddInputHandler_def AccessorStateDependsOn_def
  by (rule with_atomic_prop; auto intro!: world_ok_modify_atomic)+

lemma world_ok_spontaneous [wf_intros]:
  "world_ok w \<Longrightarrow> run_prop world_ok (AddSpontaneousOutputPort a n w)"
  unfolding AddSpontaneousOutputPort_def
  by (rule run_prop_bind[OF world_ok_add_output])
    (auto intro!: with_accessor_prop run_each_prop world_ok_RemoveDependency split: option.split)

text \<open>A connection changes no port's name, owner or direction.\<close>

lemma Connect_port_of:
  "run_prop (\<lambda>S'. (\<forall>p. S' p = None \<longleftrightarrow> S p = None) \<and> (\<forall>a n p b. port_of S' a n p b = port_of S a n p b))
     (Connect s d S)"
  by (auto simp: Connect_def port_of_def modify_port_apply split: option.split)

lemma world_ok_ports:
  assumes "world_ok w" and "\<And>p. S p = None \<longleftrightarrow> ports w p = None"
    and "\<And>a n p b. port_of S a n p b = port_of (ports w) a n p b"
  shows "world_ok (w\<lparr>ports := S\<rparr>)"
  using assms by (auto simp: world_ok_def accessor_ok_def named_ports_ok_def)

lemma world_ok_on_ports_Connect [wf_intros]: "world_ok w \<Longrightarrow> run_prop world_ok (on_ports (Connect s d) w)"
  using Connect_port_of[of "ports w" s d]
  by (cases "Connect s d (ports w)") (auto simp: on_ports_def intro: world_ok_ports)

lemma world_ok_connect_found [wf_intros]: "world_ok w \<Longrightarrow> run_prop world_ok (connect_found s d w)"
  by (auto simp: connect_found_def split: sum.split intro: world_ok_on_ports_Connect)

lemma world_ok_new_accessor:
  "world_ok w \<Longrightarrow> kind_ok k \<Longrightarrow> world_ok (w\<lparr>accessors := (accessors w)(a \<mapsto> Accessor_new n k)\<rparr>)"
  by (auto simp: world_ok_def accessor_ok_new)

lemma world_ok_construct:
  fixes w :: "('e, 'u) world"
  assumes "world_ok w"
  shows "run_prop world_ok (AtomicAccessor_construct a name ins outs sp hs fire w)"
proof -
  let ?k = "Atomic \<lparr>m_forwardPrunedDependencies = [], m_backwardPrunedDependencies = [],
    m_inputHandlers = hs, m_hasFireFunction = fire, m_stateDependsOnInputPort = False\<rparr>"
  have "kind_ok ?k" by (simp add: pruned_def)
  then have "run_prop world_ok (Accessor_construct a name ?k ins outs w)"
    unfolding Accessor_construct_def
    by (intro run_prop_bind run_each_prop world_ok_new_accessor assms wf_intros)
  then have "run_prop world_ok (run_bind (Accessor_construct a name ?k ins outs w)
      (\<lambda>_. AddSpontaneousOutputPorts a sp))"
    unfolding AddSpontaneousOutputPorts_def by (rule run_prop_bind) (intro run_each_prop wf_intros)
  moreover have "run_prop world_ok f \<Longrightarrow> run_prop world_ok (case f of Ret x w1 \<Rightarrow> Ret x w1
      | Throw e u \<Rightarrow> Throw e w | Diverge \<Rightarrow> Diverge)" for f :: "(unit, ('e, 'u) world) run"
    using assms by (cases f) auto
  ultimately show ?thesis by (simp add: AtomicAccessor_construct_def construct_def)
qed

text \<open>What the invariant says of the names of a model's ports.\<close>

lemma world_ok_names:
  assumes w: "world_ok w" and "accessors w a = Some x"
  shows "distinct (input_names w a @ output_names w a) \<and>
    (\<forall>n \<in> set (input_names w a @ output_names w a). NameIsValid n) \<and>
    (\<forall>n p. GetInputPort n x = Inr p \<longrightarrow> p \<in> set (GetInputPorts x) \<and> port_of (ports w) a n p True) \<and>
    (\<forall>n p. GetOutputPort n x = Inr p \<longrightarrow> p \<in> set (GetOutputPorts x) \<and> port_of (ports w) a n p False)"
proof -
  have ok: "accessor_ok (ports w) a x" using assms by (simp add: world_ok_def)
  note names = named_ports_ok_names
  from ok have i: "named_ports_ok (ports w) a True (m_inputPorts x) (m_orderedInputPorts x)"
    and out: "named_ports_ok (ports w) a False (m_outputPorts x) (m_orderedOutputPorts x)"
    and disj: "dom (map_of (m_inputPorts x)) \<inter> dom (map_of (m_outputPorts x)) = {}"
    by (simp_all add: accessor_ok_def)
  have "input_names w a = map (port_name (ports w)) (m_orderedInputPorts x)"
      "output_names w a = map (port_name (ports w)) (m_orderedOutputPorts x)"
    using assms(2) by (simp_all add: input_names_def output_names_def)
  with names[OF i] names[OF out] disj have "distinct (input_names w a @ output_names w a)"
      "\<forall>n \<in> set (input_names w a @ output_names w a). NameIsValid n" by auto
  moreover have "p \<in> set (GetInputPorts x) \<and> port_of (ports w) a n p True" if "GetInputPort n x = Inr p" for n p
    using that i by (auto simp: GetInputPort_def GetInputPorts_def named_ports_ok_def ran_def split: option.splits)
  moreover have "p \<in> set (GetOutputPorts x) \<and> port_of (ports w) a n p False" if "GetOutputPort n x = Inr p" for n p
    using that out by (auto simp: GetOutputPort_def GetOutputPorts_def named_ports_ok_def ran_def split: option.splits)
  ultimately show ?thesis by blast
qed

section \<open>Spontaneous outputs\<close>

text \<open>After a dependency was removed between two ports, exactly that pair is gone.\<close>

lemma RemoveDependency_ok:
  assumes "accessors w a = Some x" and "a_kind x = Atomic d"
    and "GetInputPort i x = Inr p" and "GetOutputPort out x = Inr q"
  shows "\<exists>w'. RemoveDependency a i out w = Ret () w' \<and> ports w' = ports w \<and>
    accessors w' a = Some (x\<lparr>a_kind := Atomic
      (d\<lparr>m_forwardPrunedDependencies := prune p q (m_forwardPrunedDependencies d),
         m_backwardPrunedDependencies := prune q p (m_backwardPrunedDependencies d)\<rparr>)\<rparr>)"
  using assms by (simp add: RemoveDependency_def with_atomic_def with_accessor_def accessors_modify_atomic)

definition same_ports :: "accessor \<Rightarrow> accessor \<Rightarrow> bool" where
  "same_ports x y \<longleftrightarrow> m_inputPorts y = m_inputPorts x \<and> m_orderedInputPorts y = m_orderedInputPorts x \<and>
     m_outputPorts y = m_outputPorts x \<and> m_orderedOutputPorts y = m_orderedOutputPorts x"

lemma prune_inputs:
  assumes "accessors w a = Some x" and "a_kind x = Atomic d" and "GetOutputPort out x = Inr q"
    and "\<And>p. p \<in> set ps \<Longrightarrow> \<exists>pt. ports w p = Some pt \<and> GetInputPort (p_name pt) x = Inr p"
  shows "\<exists>w' y e. run_each (\<lambda>p w2. case ports w2 p of
        None \<Rightarrow> Throw (Fatal DanglingPointer) w2
      | Some pt \<Rightarrow> RemoveDependency a (p_name pt) out w2) ps w = Ret () w' \<and>
    accessors w' a = Some y \<and> same_ports x y \<and> a_kind y = Atomic e \<and>
    set (pruned (m_backwardPrunedDependencies e) q) =
      set ps \<union> set (pruned (m_backwardPrunedDependencies d) q)"
  using assms
proof (induction ps arbitrary: w x d)
  case (Cons p ps)
  from Cons.prems(4)[of p] obtain pt where pt: "ports w p = Some pt" "GetInputPort (p_name pt) x = Inr p" by auto
  let ?d = "d\<lparr>m_forwardPrunedDependencies := prune p q (m_forwardPrunedDependencies d),
    m_backwardPrunedDependencies := prune q p (m_backwardPrunedDependencies d)\<rparr>"
  let ?x = "x\<lparr>a_kind := Atomic ?d\<rparr>"
  from RemoveDependency_ok[OF Cons.prems(1,2) pt(2) Cons.prems(3)] obtain w1 where
    w1: "RemoveDependency a (p_name pt) out w = Ret () w1" "ports w1 = ports w" "accessors w1 a = Some ?x" by blast
  have "GetOutputPort out ?x = Inr q" using Cons.prems(3) by (simp add: GetOutputPort_def)
  moreover have "\<exists>pt. ports w1 k = Some pt \<and> GetInputPort (p_name pt) ?x = Inr k" if "k \<in> set ps" for k
    using Cons.prems(4)[of k] that w1(2) by (simp add: GetInputPort_def)
  moreover have "a_kind ?x = Atomic ?d" by simp
  ultimately show ?case
    using Cons.IH[OF w1(3), of ?d] pt w1(1) by (auto simp: same_ports_def set_pruned_prune)
qed (auto simp: same_ports_def)

text \<open>
  A spontaneous output port that is added with a free, valid name is listed last and
  depends on none of the accessor's input ports.
\<close>

theorem AddSpontaneousOutputPort_spec:
  assumes "world_ok w" and "accessors w a = Some x" and "a_kind x = Atomic d" and "NewPortNameIsValid n x"
    and "pruned (m_backwardPrunedDependencies d) (nextPort w) = []"
  shows "\<exists>w' y e. AddSpontaneousOutputPort a n w = Ret () w' \<and> world_ok w' \<and>
    accessors w' a = Some y \<and> a_kind y = Atomic e \<and>
    GetInputPorts y = GetInputPorts x \<and> GetOutputPorts y = GetOutputPorts x @ [nextPort w] \<and>
    GetOutputPort n y = Inr (nextPort w) \<and> set (GetInputPortDependencies y e (nextPort w)) = {}"
proof -
  let ?w = "output_port_added a n True w" and ?q = "nextPort w"
  have add: "add_output_port a n True w = Ret () ?w" using add_output_port_eq assms(2,4) by metis
  have ok: "world_ok ?w" by (rule world_ok_output_port_added[OF assms(1,2,4)])
  obtain z where z: "accessors ?w a = Some z" "a_kind z = Atomic d" "GetOutputPort n z = Inr ?q"
      "GetInputPorts z = GetInputPorts x" "GetOutputPorts z = GetOutputPorts x @ [?q]"
    using assms(2,3,4) by (auto simp: output_port_added_def GetOutputPort_def GetInputPorts_def
        GetOutputPorts_def map_of_smap_emplace NewPortNameIsValid_def HasOutputPortWithName_def)
  have found: "\<exists>pt. ports ?w p = Some pt \<and> GetInputPort (p_name pt) z = Inr p"
    if "p \<in> set (GetInputPorts z)" for p
    using that world_ok_accessor[OF ok z(1)]
    by (fastforce simp: accessor_ok_def named_ports_ok_def GetInputPorts_def GetInputPort_def ran_def port_of_def)
  from prune_inputs[OF z(1,2,3) found] obtain w' y e where
    r: "run_each (\<lambda>p w2. case ports w2 p of None \<Rightarrow> Throw (Fatal DanglingPointer) w2
        | Some pt \<Rightarrow> RemoveDependency a (p_name pt) n w2) (GetInputPorts z) ?w = Ret () w'"
      "accessors w' a = Some y" "same_ports z y" "a_kind y = Atomic e"
      "set (pruned (m_backwardPrunedDependencies e) ?q) =
        set (GetInputPorts z) \<union> set (pruned (m_backwardPrunedDependencies d) ?q)" by blast
  have run: "AddSpontaneousOutputPort a n w = Ret () w'"
    using add z(1) r(1) by (simp add: AddSpontaneousOutputPort_def with_accessor_def)
  then have "world_ok w'" using world_ok_spontaneous[OF assms(1), of a n] by simp
  with run r z assms(5) show ?thesis
    by (auto simp: same_ports_def GetInputPorts_def GetOutputPorts_def GetOutputPort_def
        set_GetInputPortDependencies)
qed

lemma AddSpontaneousOutputPort_spec_witness:
  "\<exists>w' y e. AddSpontaneousOutputPort 7 ''Tick'' one_world = Ret () w' \<and> accessors w' 7 = Some y \<and>
     a_kind y = Atomic e \<and> set (GetInputPortDependencies y e 0) = {}"
proof -
  have x: "accessors one_world 7 = Some (Accessor_new ''Sum'' (Atomic no_atomic))"
    "nextPort one_world = 0"
    by (simp_all add: one_world_def empty_world_def dstate.extend_def)
  have "NewPortNameIsValid ''Tick'' (Accessor_new ''Sum'' (Atomic no_atomic))"
    by (simp add: NewPortNameIsValid_def NameIsValid_def forbidden_chars_def Accessor_new_def
        HasInputPortWithName_def HasOutputPortWithName_def)
  from AddSpontaneousOutputPort_spec[OF one_world_ok x(1) _ this, of no_atomic] x show ?thesis
    by (auto simp: Accessor_new_def pruned_def no_atomic_def)
qed

text \<open>
  The independence of a spontaneous output ends with the next input port: an input port
  that is added after it becomes one of its dependencies.
\<close>

theorem late_input_feeds_spontaneous:
  "\<exists>w' y e. run_bind (AddSpontaneousOutputPort 7 ''Tick'' one_world) (\<lambda>_. AddInputPort 7 ''In'') = Ret () w' \<and>
     accessors w' 7 = Some y \<and> a_kind y = Atomic e \<and> GetOutputPort ''Tick'' y = Inr 0 \<and>
     GetInputPort ''In'' y = Inr 1 \<and> GetInputPortDependencies y e 0 = [1]"
  by (simp add: AddSpontaneousOutputPort_def AddInputPort_def add_input_port_def add_output_port_def
      with_accessor_def ValidatePortName_def NewPortNameIsValid_def HasInputPortWithName_def
      HasOutputPortWithName_def Accessor_new_def one_world_def empty_world_def dstate.extend_def
      NameIsValid_def forbidden_chars_def smap_emplace_def Let_def GetInputPorts_def GetOutputPort_def
      GetInputPort_def GetInputPortDependencies_def no_atomic_def)

end
