(* ===== verification/CompositeAccessor.thy ===== *)
theory CompositeAccessor
  imports AtomicAccessor
begin

text \<open>
  \<open>src/src/CompositeAccessorImpl.h\<close>, \<open>CompositeAccessorImpl.cpp\<close>: the children of a composite
  accessor, their connections, the queue of children that asked for a reaction, and the
  destruction of a subtree. Running the reactions and initialising children calls user code and
  is in the runtime. Recursions through the tree take a bound on their depth.
\<close>

section \<open>Children\<close>

definition with_composite :: "nat \<Rightarrow> (accessor \<Rightarrow> composite_part \<Rightarrow> ('a, 'e, 'u) op) \<Rightarrow> ('a, 'e, 'u) op" where
  "with_composite a f = with_accessor a (\<lambda>x w.
     case a_kind x of Composite c \<Rightarrow> f x c w | Atomic _ \<Rightarrow> Throw (Fatal DanglingPointer) w)"

definition modify_composite :: "nat \<Rightarrow> (composite_part \<Rightarrow> composite_part) \<Rightarrow> ('e, 'u) world \<Rightarrow> ('e, 'u) world" where
  "modify_composite a f = modify_accessor a
     (\<lambda>x. case a_kind x of Composite c \<Rightarrow> x\<lparr>a_kind := Composite (f c)\<rparr> | Atomic _ \<Rightarrow> x)"

definition CompositeAccessor_construct ::
  "nat \<Rightarrow> string \<Rightarrow> bool \<Rightarrow> string list \<Rightarrow> string list \<Rightarrow> (unit, 'e, 'u) op" where
  "CompositeAccessor_construct a name isHost inputNames outputNames =
     construct (Accessor_construct a name
       (Composite \<lparr>c_isHost = isHost, m_reactionRequested = False, m_children = [],
          m_orderedChildren = [], m_childEventQueue = upq_new\<rparr>) inputNames outputNames)"

definition HasChildWithName :: "string \<Rightarrow> composite_part \<Rightarrow> bool" where
  "HasChildWithName name c \<longleftrightarrow> map_of (m_children c) name \<noteq> None"

definition GetChild :: "string \<Rightarrow> composite_part \<Rightarrow> exn + nat" where
  "GetChild name c = (case map_of (m_children c) name of None \<Rightarrow> Inl OutOfRange | Some b \<Rightarrow> Inr b)"

definition GetChildren :: "composite_part \<Rightarrow> nat list" where
  "GetChildren c = m_orderedChildren c"

definition NewChildNameIsValid :: "string \<Rightarrow> accessor \<Rightarrow> composite_part \<Rightarrow> bool" where
  "NewChildNameIsValid name x c \<longleftrightarrow>
     NameIsValid name \<and> name \<noteq> m_name x \<and> \<not> HasChildWithName name c"

definition add_child :: "nat \<Rightarrow> nat \<Rightarrow> (unit, 'e, 'u) op" where
  "add_child a b = with_composite a (\<lambda>x c. with_accessor b (\<lambda>y w.
     let childName = m_name y in
     if \<not> NewChildNameIsValid childName x c then Throw ChildNameInvalid w
     else (case SetParent (Some a) y of
             Throw e _ \<Rightarrow> Throw e w
           | Diverge \<Rightarrow> Diverge
           | Ret _ y1 \<Rightarrow>
               Ret () (modify_composite a
                 (\<lambda>c. c\<lparr>m_children := smap_emplace childName b (m_children c),
                        m_orderedChildren := m_orderedChildren c @ [b]\<rparr>)
                 (modify_accessor b (\<lambda>_. y1) w)))))"

text \<open>\<open>CompositeAccessor::Impl::ConnectMyInputToChildInput\<close> and its kin.\<close>

definition child_port ::
  "(string \<Rightarrow> accessor \<Rightarrow> exn + nat) \<Rightarrow> string \<Rightarrow> string \<Rightarrow> composite_part \<Rightarrow> ('e, 'u) world \<Rightarrow> exn + nat" where
  "child_port get portName childName c w =
     (case GetChild childName c of
        Inl e \<Rightarrow> Inl e
      | Inr b \<Rightarrow> (case accessors w b of None \<Rightarrow> Inl (Fatal DanglingPointer) | Some y \<Rightarrow> get portName y))"

definition ConnectMyInputToChildInput :: "nat \<Rightarrow> string \<Rightarrow> string \<Rightarrow> string \<Rightarrow> (unit, 'e, 'u) op" where
  "ConnectMyInputToChildInput a myInput childName childInput = with_composite a (\<lambda>x c w.
     connect_found (GetInputPort myInput x) (child_port GetInputPort childInput childName c w) w)"

definition ConnectChildOutputToMyOutput :: "nat \<Rightarrow> string \<Rightarrow> string \<Rightarrow> string \<Rightarrow> (unit, 'e, 'u) op" where
  "ConnectChildOutputToMyOutput a childName childOutput myOutput = with_composite a (\<lambda>x c w.
     connect_found (child_port GetOutputPort childOutput childName c w) (GetOutputPort myOutput x) w)"

definition ConnectChildren :: "nat \<Rightarrow> string \<Rightarrow> string \<Rightarrow> string \<Rightarrow> string \<Rightarrow> (unit, 'e, 'u) op" where
  "ConnectChildren a sourceChild sourceOutput destinationChild destinationInput = with_composite a (\<lambda>x c w.
     connect_found (child_port GetOutputPort sourceOutput sourceChild c w)
       (child_port GetInputPort destinationInput destinationChild c w) w)"

section \<open>Removing children\<close>

text \<open>
  The destruction of an accessor's ports: each port is disconnected and gone. The loop of
  \<open>DisconnectAll\<close> gets one step more than the port has destinations, which is enough when the
  connections are consistent.
\<close>

fun destroy_ports :: "nat list \<Rightarrow> (unit, 'e, 'u) op" where
  "destroy_ports [] w = Ret () w"
| "destroy_ports (p # ps) w =
     (case ports w p of
        None \<Rightarrow> Throw (Fatal DanglingPointer) w
      | Some pt \<Rightarrow>
          run_bind (on_ports (DisconnectAll (Suc (length (m_destinations pt))) p) w)
            (\<lambda>_ w1. destroy_ports ps (w1\<lparr>ports := (ports w1)(p := None)\<rparr>)))"

text \<open>
  \<open>~CompositeAccessor::Impl\<close> removes the children, \<open>~Accessor::Impl\<close> clears the callbacks, then
  the members go: output ports, input ports. A destructor does not let an exception out.
\<close>

definition noexcept_run :: "(unit, 's) run \<Rightarrow> (unit, 's) run" where
  "noexcept_run r = (case r of Throw e s \<Rightarrow> Throw (if is_catchable e then Fatal Terminated else e) s | _ \<Rightarrow> r)"

definition destroy_base :: "nat \<Rightarrow> (unit, 'e, 'u) op" where
  "destroy_base a w =
     noexcept_run (run_bind (ClearAllScheduledCallbacks a w) (\<lambda>_. with_accessor a (\<lambda>x w1.
       run_bind (destroy_ports (map snd (m_outputPorts x) @ map snd (m_inputPorts x)) w1)
         (\<lambda>_ w2. Ret () (w2\<lparr>accessors := (accessors w2)(a := None)\<rparr>)))))"

definition first_named :: "('e, 'u) world \<Rightarrow> string \<Rightarrow> nat list \<Rightarrow> nat option" where
  "first_named w name bs = List.find (\<lambda>b. map_option m_name (accessors w b) = Some name) bs"

definition remove_child_with :: "(nat \<Rightarrow> (unit, 'e, 'u) op) \<Rightarrow> nat \<Rightarrow> string \<Rightarrow> (unit, 'e, 'u) op" where
  "remove_child_with destroy a name = with_composite a (\<lambda>x c w.
     let w1 = (case first_named w name (m_orderedChildren c) of
                 None \<Rightarrow> w
               | Some b \<Rightarrow> modify_composite a
                   (\<lambda>c. c\<lparr>m_orderedChildren := remove1 b (m_orderedChildren c)\<rparr>) w)
     in (case map_of (m_children c) name of
           None \<Rightarrow> Ret () w1
         | Some b \<Rightarrow> run_bind (destroy b w1) (\<lambda>_ w2.
             Ret () (modify_composite a (\<lambda>c. c\<lparr>m_children := smap_erase name (m_children c)\<rparr>) w2))))"

fun destroy_accessor :: "nat \<Rightarrow> nat \<Rightarrow> (unit, 'e, 'u) op"
  and RemoveAllChildren :: "nat \<Rightarrow> nat \<Rightarrow> (unit, 'e, 'u) op" where
  "destroy_accessor 0 a w = Diverge"
| "destroy_accessor (Suc n) a w = with_accessor a (\<lambda>x w.
     if IsComposite x then run_bind (RemoveAllChildren n a w) (\<lambda>_. destroy_base a)
     else destroy_base a w) w"
| "RemoveAllChildren 0 a w = Diverge"
| "RemoveAllChildren (Suc n) a w = with_composite a (\<lambda>x c w.
     case m_orderedChildren c of
       [] \<Rightarrow> Ret () w
     | b # _ \<Rightarrow> with_accessor b (\<lambda>y w.
         run_bind (remove_child_with (destroy_accessor n) a (m_name y) w)
           (\<lambda>_. RemoveAllChildren n a)) w) w"

text \<open>
  \<open>AddChild\<close> owns the child from the call on: when it throws, the child is destroyed on the way out.
\<close>

definition AddChild :: "nat \<Rightarrow> nat \<Rightarrow> nat \<Rightarrow> (unit, 'e, 'u) op" where
  "AddChild n a b w =
     (case add_child a b w of
        Throw e w1 \<Rightarrow> if is_catchable e then run_bind (destroy_accessor n b w1) (\<lambda>_. Throw e) else Throw e w1
      | r \<Rightarrow> r)"

definition RemoveChild :: "nat \<Rightarrow> nat \<Rightarrow> string \<Rightarrow> (unit, 'e, 'u) op" where
  "RemoveChild fuel = remove_child_with (destroy_accessor fuel)"

section \<open>Asking for a reaction\<close>

text \<open>
  The comparison of the queue reads the priorities of the accessors in it; an entry whose
  accessor is gone is a dangling pointer (here whenever the queue is not empty, though the C++
  reads only the entries it compares with).
\<close>

definition accessor_priority :: "('e, 'u) world \<Rightarrow> nat \<Rightarrow> int" where
  "accessor_priority w b = (case accessors w b of None \<Rightarrow> 0 | Some y \<Rightarrow> m_priority y)"

definition GreaterAccessorImplPtrs :: "('e, 'u) world \<Rightarrow> nat \<Rightarrow> nat \<Rightarrow> bool" where
  "GreaterAccessorImplPtrs w = by_rank (accessor_priority w)"

definition queue_child :: "nat \<Rightarrow> nat \<Rightarrow> (unit, 'e, 'u) op" where
  "queue_child a child = with_composite a (\<lambda>x c w.
     if \<exists>b \<in> set (m_queue (m_childEventQueue c)). accessors w b = None
     then Throw (Fatal DanglingPointer) w
     else Ret () (modify_composite a
       (\<lambda>c. c\<lparr>m_childEventQueue := upq_push (GreaterAccessorImplPtrs w) child (m_childEventQueue c)\<rparr>) w))"

fun ScheduleReaction :: "nat \<Rightarrow> nat \<Rightarrow> nat \<Rightarrow> int \<Rightarrow> (unit, 'e, 'u) op" where
  "ScheduleReaction 0 a child priority w = Diverge"
| "ScheduleReaction (Suc n) a child priority w = with_composite a (\<lambda>x c w.
     let priority = (if priority = INT_MAX then GetPriority x else priority) in
     case m_parent x of
       Some p \<Rightarrow> run_bind (queue_child a child w) (\<lambda>_. ScheduleReaction n p a priority)
     | None \<Rightarrow>
         if \<not> m_reactionRequested c
         then run_bind (queue_child a child (modify_composite a (\<lambda>c. c\<lparr>m_reactionRequested := True\<rparr>) w))
                (\<lambda>_. with_director a (\<lambda>w1.
                   run_bind (ScheduleCallback (ProcessQueueOf a) 0 False priority w1) (\<lambda>_. Ret ())))
         else queue_child a child w) w"

section \<open>Adding a child\<close>

text \<open>
  The invariant of a composite's children: the map by name and the list hold the same
  accessors, each under its own name and with the composite as its parent.
\<close>

definition children_ok :: "('e, 'u) world \<Rightarrow> nat \<Rightarrow> composite_part \<Rightarrow> bool" where
  "children_ok w a c \<longleftrightarrow> smap_wf (m_children c) \<and> distinct (m_orderedChildren c) \<and>
     set (m_orderedChildren c) = ran (map_of (m_children c)) \<and>
     (\<forall>n b. map_of (m_children c) n = Some b \<longrightarrow>
        (\<exists>y. accessors w b = Some y \<and> m_name y = n \<and> m_parent y = Some a))"

lemma accessors_modify_composite:
  "accessors w a = Some x \<Longrightarrow> a_kind x = Composite c \<Longrightarrow>
   accessors (modify_composite a f w) = (accessors w)(a \<mapsto> x\<lparr>a_kind := Composite (f c)\<rparr>)"
  by (auto simp: modify_composite_def fun_eq_iff)

lemma modify_composite_simps [simp]:
  "ports (modify_composite a f w) = ports w" "nextPort (modify_composite a f w) = nextPort w"
  by (simp_all add: modify_composite_def)

lemma add_child_ok:
  assumes x: "accessors w a = Some x" "a_kind x = Composite c" and ok: "children_ok w a c"
    and y: "accessors w b = Some y" and "a \<noteq> b"
  shows "if NewChildNameIsValid (m_name y) x c \<and> m_parent y = None
    then \<exists>w' c'. add_child a b w = Ret () w' \<and>
      accessors w' a = Some (x\<lparr>a_kind := Composite c'\<rparr>) \<and> children_ok w' a c' \<and>
      GetChild (m_name y) c' = Inr b \<and> GetChildren c' = GetChildren c @ [b] \<and>
      accessors w' b = Some (y\<lparr>m_parent := Some a\<rparr>)
    else add_child a b w =
      Throw (if NewChildNameIsValid (m_name y) x c then AlreadyHasParent else ChildNameInvalid) w"
proof (cases "NewChildNameIsValid (m_name y) x c \<and> m_parent y = None")
  case True
  let ?c = "c\<lparr>m_children := smap_emplace (m_name y) b (m_children c), m_orderedChildren := m_orderedChildren c @ [b]\<rparr>"
  let ?w = "modify_composite a (\<lambda>c. c\<lparr>m_children := smap_emplace (m_name y) b (m_children c),
    m_orderedChildren := m_orderedChildren c @ [b]\<rparr>) (modify_accessor b (\<lambda>_. y\<lparr>m_parent := Some a\<rparr>) w)"
  have acc: "accessors ?w = (accessors w)(b \<mapsto> y\<lparr>m_parent := Some a\<rparr>, a \<mapsto> x\<lparr>a_kind := Composite ?c\<rparr>)"
    using assms by (subst accessors_modify_composite) (auto simp: fun_eq_iff)
  have new: "map_of (m_children c) (m_name y) = None"
    using True by (simp add: NewChildNameIsValid_def HasChildWithName_def)
  have b: "b \<notin> ran (map_of (m_children c))"
    using ok y True by (fastforce simp: children_ok_def ran_def)
  have "\<exists>z. accessors ?w k = Some z \<and> m_name z = n \<and> m_parent z = Some a"
    if "map_of (m_children ?c) n = Some k" for n k
  proof (cases "n = m_name y")
    case True
    then show ?thesis using that new acc \<open>a \<noteq> b\<close> by (simp add: map_of_smap_emplace)
  next
    case False
    then have k: "map_of (m_children c) n = Some k" using that new by (simp add: map_of_smap_emplace)
    with b have "k \<noteq> b" by (auto simp: ran_def)
    moreover from k ok obtain z where "accessors w k = Some z" "m_name z = n" "m_parent z = Some a"
      unfolding children_ok_def by blast
    ultimately show ?thesis using acc x(1) by auto
  qed
  then have "children_ok ?w a ?c"
    using ok new b by (auto simp: children_ok_def map_of_smap_emplace ran_map_upd smap_wf_emplace)
  moreover have "add_child a b w = Ret () ?w"
    using assms True by (simp add: add_child_def with_composite_def with_accessor_def SetParent_def Let_def)
  moreover have "GetChild (m_name y) ?c = Inr b" using new by (simp add: GetChild_def map_of_smap_emplace)
  ultimately show ?thesis using True acc \<open>a \<noteq> b\<close>
    by (auto simp: GetChildren_def intro!: exI[of _ ?w] exI[of _ ?c])
next
  case False
  then show ?thesis using assms
    by (auto simp: add_child_def with_composite_def with_accessor_def SetParent_def Let_def)
qed

section \<open>Removing a child\<close>

text \<open>Disconnecting ports leaves them where they are; destroying an accessor takes its own ports only.\<close>

definition same_places :: "'e port_store \<Rightarrow> 'e port_store \<Rightarrow> bool" where
  "same_places S S' \<longleftrightarrow> (\<forall>p. (S' p = None \<longleftrightarrow> S p = None) \<and> (\<forall>a n b. port_of S' a n p b = port_of S a n p b))"

lemma same_places_refl: "same_places S S"
  by (simp add: same_places_def)

lemma same_places_trans: "same_places S S' \<Longrightarrow> same_places S' S'' \<Longrightarrow> same_places S S''"
  by (simp add: same_places_def)

lemma Disconnect_places: "same_places S0 S \<Longrightarrow> run_prop (same_places S0) (Disconnect s d S)"
proof -
  assume "same_places S0 S"
  moreover have "run_prop (same_places S) (Disconnect s d S)"
    by (auto simp: Disconnect_def same_places_def port_of_def modify_port_apply split: option.split)
  ultimately show ?thesis using run_prop_mono same_places_trans by blast
qed

lemma disconnect_destinations_places: "same_places S0 S \<Longrightarrow> run_prop (same_places S0) (disconnect_destinations n p S)"
  by (induction n arbitrary: S) (auto split: option.split list.split intro!: run_prop_bind Disconnect_places)

lemma DisconnectAll_places: "run_prop (same_places S) (DisconnectAll n p S)"
  unfolding DisconnectAll_def
  by (auto split: option.split intro!: run_prop_bind Disconnect_places disconnect_destinations_places same_places_refl)

text \<open>The ports \<open>P\<close> are destroyed, the others stay where they are.\<close>

definition wiped :: "'e port_store \<Rightarrow> 'e port_store \<Rightarrow> nat set \<Rightarrow> bool" where
  "wiped S S' P \<longleftrightarrow> (\<forall>q. (q \<in> P \<longrightarrow> S' q = None) \<and> (q \<notin> P \<longrightarrow> (S' q = None \<longleftrightarrow> S q = None) \<and>
       (\<forall>a n b. port_of S' a n q b = port_of S a n q b)))"

lemma wiped_trans: "wiped S S1 P \<Longrightarrow> wiped S1 S2 Q \<Longrightarrow> wiped S S2 (P \<union> Q)"
  unfolding wiped_def by auto

lemma wiped_refl: "wiped S S {}"
  by (simp add: wiped_def)

lemma wiped_None: "wiped S S' P \<Longrightarrow> S' q = None \<longleftrightarrow> q \<in> P \<or> S q = None"
  unfolding wiped_def by (cases "q \<in> P") simp_all

lemma destroy_ports_places:
  "destroy_ports ps w = Ret () w' \<Longrightarrow> \<exists>S. w' = w\<lparr>ports := S\<rparr> \<and> wiped (ports w) S (set ps)"
  unfolding wiped_def
proof (induction ps arbitrary: w)
  case Nil
  then show ?case by (intro exI[of _ "ports w"]) simp
next
  case (Cons p ps)
  then obtain pt where pt: "ports w p = Some pt" by (cases "ports w p") simp_all
  obtain S1 where S1: "DisconnectAll (Suc (length (m_destinations pt))) p (ports w) = Ret () S1"
      "destroy_ports ps (w\<lparr>ports := S1(p := None)\<rparr>) = Ret () w'"
    using Cons.prems pt
    by (cases "DisconnectAll (Suc (length (m_destinations pt))) p (ports w)") (simp_all add: on_ports_def)
  have keep: "same_places (ports w) S1"
    using DisconnectAll_places[of "ports w" "Suc (length (m_destinations pt))" p] S1(1) by simp
  from Cons.IH[OF S1(2)] obtain S where S0: "w' = w\<lparr>ports := S1(p := None)\<rparr>\<lparr>ports := S\<rparr>"
      "\<forall>q. (q \<in> set ps \<longrightarrow> S q = None) \<and> (q \<notin> set ps \<longrightarrow> (S q = None \<longleftrightarrow> ports (w\<lparr>ports := S1(p := None)\<rparr>) q = None) \<and>
        (\<forall>a n b. port_of S a n q b = port_of (ports (w\<lparr>ports := S1(p := None)\<rparr>)) a n q b))" by blast
  then have S: "w' = w\<lparr>ports := S\<rparr>"
      "\<forall>q. (q \<in> set ps \<longrightarrow> S q = None) \<and> (q \<notin> set ps \<longrightarrow> (S q = None \<longleftrightarrow> (S1(p := None)) q = None) \<and>
        (\<forall>a n b. port_of S a n q b = port_of (S1(p := None)) a n q b))" by simp_all
  have "(q \<in> set (p # ps) \<longrightarrow> S q = None) \<and> (q \<notin> set (p # ps) \<longrightarrow> (S q = None \<longleftrightarrow> ports w q = None) \<and>
      (\<forall>a n b. port_of S a n q b = port_of (ports w) a n q b))" for q
    using S(2)[rule_format, of q] keep by (auto simp: same_places_def port_of_def)
  then show ?case using S(1) by blast
qed

text \<open>The ports of an accessor, and those of several.\<close>

definition own_ports :: "accessor \<Rightarrow> nat set" where
  "own_ports x = snd ` set (m_outputPorts x) \<union> snd ` set (m_inputPorts x)"

definition kin_ports :: "('e, 'u) world \<Rightarrow> nat set \<Rightarrow> nat set" where
  "kin_ports w B = {p. \<exists>b \<in> B. \<exists>y. accessors w b = Some y \<and> p \<in> own_ports y}"

lemma own_port_owner:
  assumes "accessor_ok S a x" and "p \<in> own_ports x"
  shows "\<exists>n b. port_of S a n p b"
proof -
  from assms(1) have "smap_wf (m_inputPorts x)" "smap_wf (m_outputPorts x)"
      "\<And>n p. map_of (m_inputPorts x) n = Some p \<Longrightarrow> port_of S a n p True"
      "\<And>n p. map_of (m_outputPorts x) n = Some p \<Longrightarrow> port_of S a n p False"
    unfolding accessor_ok_def named_ports_ok_def by blast+
  with assms(2) show ?thesis unfolding own_ports_def by (fastforce dest: smap_wf_distinct map_of_is_SomeI)
qed

lemma world_ok_wiped:
  assumes ok: "world_ok w" and S: "wiped (ports w) (ports w') (kin_ports w B)" "nextPort w' = nextPort w"
    and acc: "\<And>j x'. accessors w' j = Some x' \<Longrightarrow> j \<notin> B \<and> (\<exists>x. accessors w j = Some x \<and>
       m_inputPorts x' = m_inputPorts x \<and> m_orderedInputPorts x' = m_orderedInputPorts x \<and>
       m_outputPorts x' = m_outputPorts x \<and> m_orderedOutputPorts x' = m_orderedOutputPorts x \<and>
       (kind_ok (a_kind x) \<longrightarrow> kind_ok (a_kind x')))"
  shows "world_ok w'"
  unfolding world_ok_def
proof (intro conjI allI impI)
  fix p assume "nextPort w' \<le> p"
  then have "ports w p = None" using ok S(2) by (simp add: world_ok_def)
  then show "ports w' p = None" using wiped_None[OF S(1)] by blast
next
  fix j x' assume "accessors w' j = Some x'"
  from acc[OF this] obtain x where j: "j \<notin> B" and x: "accessors w j = Some x" "m_inputPorts x' = m_inputPorts x"
      "m_orderedInputPorts x' = m_orderedInputPorts x" "m_outputPorts x' = m_outputPorts x"
      "m_orderedOutputPorts x' = m_orderedOutputPorts x" "kind_ok (a_kind x) \<longrightarrow> kind_ok (a_kind x')" by blast
  have old: "accessor_ok (ports w) j x" by (rule world_ok_accessor[OF ok x(1)])
  have "accessor_ok (ports w') j x"
  proof (rule accessor_ok_mono[OF old])
    fix n p b assume p: "port_of (ports w) j n p b"
    have "p \<notin> kin_ports w B"
      using p j own_port_owner[OF world_ok_accessor[OF ok]] unfolding kin_ports_def by (fastforce simp: port_of_def)
    then show "port_of (ports w') j n p b" using p S(1) unfolding wiped_def by blast
  qed
  then show "accessor_ok (ports w') j x'" using x old by (simp add: accessor_ok_def)
qed

lemma world_ok_modify:
  assumes "world_ok w" and "\<And>x. accessors w a = Some x \<Longrightarrow> accessor_ok (ports w) a x \<Longrightarrow> accessor_ok (ports w) a (f x)"
  shows "world_ok (modify_accessor a f w)"
  using assms unfolding world_ok_def by (auto split: if_splits)

lemma accessor_ok_cong:
  "m_inputPorts y = m_inputPorts x \<Longrightarrow> m_orderedInputPorts y = m_orderedInputPorts x \<Longrightarrow>
   m_outputPorts y = m_outputPorts x \<Longrightarrow> m_orderedOutputPorts y = m_orderedOutputPorts x \<Longrightarrow>
   kind_ok (a_kind x) \<Longrightarrow> kind_ok (a_kind y) \<Longrightarrow> accessor_ok S a y = accessor_ok S a x"
  by (simp add: accessor_ok_def)

lemma world_ok_modify_composite [wf_intros]: "world_ok w \<Longrightarrow> world_ok (modify_composite a f w)"
  unfolding modify_composite_def
  by (rule world_ok_modify) (auto simp: accessor_ok_def split: accessor_kind.split)

lemma destroy_ports_ok:
  "connections_ok (ports w) \<Longrightarrow> distinct ps \<Longrightarrow> (\<forall>p \<in> set ps. ports w p \<noteq> None) \<Longrightarrow>
   \<exists>S. destroy_ports ps w = Ret () (w\<lparr>ports := S\<rparr>) \<and> connections_ok S \<and>
     (\<forall>p. S p = None \<longleftrightarrow> p \<in> set ps \<or> ports w p = None)"
proof (induction ps arbitrary: w)
  case Nil
  then show ?case by (intro exI[of _ "ports w"]) simp
next
  case (Cons p ps)
  then obtain x where x: "ports w p = Some x" by auto
  obtain S where S: "DisconnectAll (Suc (length (m_destinations x))) p (ports w) = Ret () S" "connections_ok S"
      "\<exists>x'. S p = Some x' \<and> m_source x' = None \<and> m_destinations x' = []"
      "\<forall>q. q \<noteq> p \<longrightarrow> map_option m_source (S q) =
         map_option (\<lambda>z. if m_source z = Some p then None else m_source z) (ports w q)"
    using DisconnectAll_ok[OF Cons.prems(1) x, of "Suc (length (m_destinations x))"] by auto
  let ?S = "S(p := None)" and ?w = "w\<lparr>ports := S(p := None)\<rparr>"
  have dom: "?S q = None \<longleftrightarrow> q = p \<or> ports w q = None" for q
    using S(4) by (metis (no_types, lifting) fun_upd_apply option.map_disc_iff)
  have "connections_ok ?S" using connections_ok_delete S(2,3) by blast
  moreover have "\<forall>q \<in> set ps. ?S q \<noteq> None" using Cons.prems dom by auto
  ultimately have "connections_ok (ports ?w)" "\<forall>q \<in> set ps. ports ?w q \<noteq> None"
    by (simp_all del: fun_upd_apply)
  moreover have "distinct ps" using Cons.prems(2) by simp
  ultimately obtain S' where "destroy_ports ps ?w = Ret () (?w\<lparr>ports := S'\<rparr>)" "connections_ok S'"
      "\<forall>q. S' q = None \<longleftrightarrow> q \<in> set ps \<or> ports ?w q = None"
    using Cons.IH[of ?w] by blast
  then show ?case using x S(1) dom by (auto simp: on_ports_def)
qed

lemma Clear_ports [simp]: "ports (ClearScheduledCallback i w) = ports w"
  by (simp add: ClearScheduledCallback_def RemoveScheduledCallbackFromMap_def Reset_def Let_def
      StopExecution_def PosixUtcInMilliseconds_def split: option.split)

lemma Clears_ports [simp]: "ports (fold ClearScheduledCallback is w) = ports w"
  by (induction "is" arbitrary: w) auto

lemma port_of_name: "port_of S a n p b \<Longrightarrow> port_name S p = n"
  by (auto simp: port_of_def port_name_def)

lemma named_ports_ok_snd: "named_ports_ok S a b m ps \<Longrightarrow> set ps = snd ` set m"
  using ran_distinct[OF smap_wf_distinct] by (auto simp only: named_ports_ok_def)

lemma accessor_ports_distinct:
  assumes "accessor_ok S a x"
  shows "distinct (map snd (m_outputPorts x) @ map snd (m_inputPorts x)) \<and>
    (\<forall>p \<in> set (map snd (m_outputPorts x) @ map snd (m_inputPorts x)). S p \<noteq> None)"
proof -
  have one: "distinct (map snd m)" "\<And>p. p \<in> set (map snd m) \<Longrightarrow> \<exists>n. port_of S a n p b"
    if "named_ports_ok S a b m ps" for b m ps
  proof -
    have d: "distinct (map fst m)" using that smap_wf_distinct by (auto simp: named_ports_ok_def)
    then have e: "port_of S a (fst e) (snd e) b" if "e \<in> set m" for e
      using \<open>named_ports_ok S a b m ps\<close> that by (auto simp: named_ports_ok_def)
    show "\<exists>n. port_of S a n p b" if "p \<in> set (map snd m)" for p
    proof -
      from that obtain k where "k \<in> set m" "snd k = p" by auto
      with e[of k] show ?thesis by blast
    qed
    have "fst e = fst f" if "e \<in> set m" "f \<in> set m" "snd e = snd f" for e f
      using port_of_name[of S a "fst e" "snd e" b] port_of_name[of S a "fst f" "snd e" b] e[OF that(1)]
        e[OF that(2)] that(3) by metis
    then have "inj_on snd (set m)" by (intro inj_onI prod_eqI) blast+
    with d show "distinct (map snd m)" unfolding distinct_map by blast
  qed
  from assms have i: "named_ports_ok S a True (m_inputPorts x) (m_orderedInputPorts x)"
    and out: "named_ports_ok S a False (m_outputPorts x) (m_orderedOutputPorts x)"
    by (simp_all add: accessor_ok_def)
  have "set (map snd (m_outputPorts x)) \<inter> set (map snd (m_inputPorts x)) = {}"
    using one(2)[OF i] one(2)[OF out] by (fastforce simp: port_of_def)
  moreover have "S p \<noteq> None" if "p \<in> set (map snd (m_outputPorts x) @ map snd (m_inputPorts x))" for p
    using that one(2)[OF i, of p] one(2)[OF out, of p] by (auto simp: port_of_def)
  ultimately show ?thesis using one(1)[OF i] one(1)[OF out] by auto
qed

text \<open>An atomic accessor is destroyed with its callbacks and its ports.\<close>

lemma destroy_base_ok:
  assumes w: "connections_ok (ports w)" and y: "accessors w b = Some y" "accessor_ok (ports w) b y"
    and dir: "m_callbackIds y = [] \<or> GetDirector w b = Some (Inr True)"
  shows "\<exists>S. destroy_base b w = Ret () ((fold ClearScheduledCallback (m_callbackIds y) w)
      \<lparr>ports := S, accessors := (accessors w)(b := None)\<rparr>) \<and> connections_ok S \<and> wiped (ports w) S (own_ports y)"
proof -
  let ?v = "fold ClearScheduledCallback (m_callbackIds y) w"
  let ?f = "\<lambda>x. x\<lparr>m_callbackIds := filter (\<lambda>i. i \<notin> set (m_callbackIds y)) (m_callbackIds x)\<rparr>"
  have clear: "ClearAllScheduledCallbacks b w = Ret () (modify_accessor b ?f ?v)"
  proof (cases "m_callbackIds y = []")
    case True
    then show ?thesis
      using y(1) by (simp add: ClearAllScheduledCallbacks_def with_accessor_def modify_accessor_def fun_upd_idem)
  next
    case False
    then show ?thesis
      using clear_callbacks_fold[OF y(1)] dir y(1) by (simp add: ClearAllScheduledCallbacks_def with_accessor_def)
  qed
  let ?ps = "map snd (m_outputPorts y) @ map snd (m_inputPorts y)"
  from accessor_ports_distinct[OF y(2)] have ps: "distinct ?ps" "\<forall>p \<in> set ?ps. ports w p \<noteq> None" by auto
  from destroy_ports_ok[of "modify_accessor b ?f ?v" ?ps] ps w obtain S where
    S: "destroy_ports ?ps (modify_accessor b ?f ?v) = Ret () ((modify_accessor b ?f ?v)\<lparr>ports := S\<rparr>)"
      "connections_ok S" "\<forall>p. S p = None \<longleftrightarrow> p \<in> set ?ps \<or> ports w p = None" by auto
  have "destroy_base b w = Ret () (?v\<lparr>ports := S, accessors := (accessors w)(b := None)\<rparr>)"
    using clear S(1) y(1)
    by (simp add: destroy_base_def with_accessor_def noexcept_run_def modify_accessor_def)
  moreover have "wiped (ports w) S (own_ports y)"
  proof -
    obtain S' where S': "(modify_accessor b ?f ?v)\<lparr>ports := S\<rparr> = (modify_accessor b ?f ?v)\<lparr>ports := S'\<rparr>"
        "wiped (ports w) S' (set ?ps)" using destroy_ports_places[OF S(1)] by auto
    from arg_cong[OF S'(1), of ports] S'(2) show ?thesis by (simp add: own_ports_def)
  qed
  ultimately show ?thesis using S(2) by blast
qed

lemma children_okD:
  "children_ok w a c \<Longrightarrow> map_of (m_children c) n = Some b \<Longrightarrow>
   \<exists>y. accessors w b = Some y \<and> m_name y = n \<and> m_parent y = Some a"
  unfolding children_ok_def by blast

lemma find_only:
  "b \<in> set xs \<Longrightarrow> P b \<Longrightarrow> (\<And>k. k \<in> set xs \<Longrightarrow> P k \<Longrightarrow> k = b) \<Longrightarrow> List.find P xs = Some b"
proof (induction xs)
  case (Cons x xs)
  show ?case
  proof (cases "P x")
    case True
    with Cons.prems(3)[of x] show ?thesis by simp
  next
    case False
    with Cons.prems(1,2) have "b \<in> set xs" by auto
    then have "List.find P xs = Some b"
      by (rule Cons.IH) (use Cons.prems in \<open>meson list.set_intros(2)\<close>)+
    with False show ?thesis by simp
  qed
qed simp

lemma first_named_child:
  assumes "children_ok w a c" and "map_of (m_children c) n = Some b"
  shows "first_named w n (m_orderedChildren c) = Some b"
proof -
  have b: "b \<in> set (m_orderedChildren c)"
    using assms(1) ranI[of "map_of (m_children c)" n b] assms(2) unfolding children_ok_def by simp
  have bn: "map_option m_name (accessors w b) = Some n" using children_okD[OF assms] by auto
  have same: "k = b" if "k \<in> set (m_orderedChildren c)" "map_option m_name (accessors w k) = Some n" for k
  proof -
    from that(1) assms(1) obtain m where m: "map_of (m_children c) m = Some k"
      by (auto simp: children_ok_def ran_def)
    with children_okD[OF assms(1)] have "map_option m_name (accessors w k) = Some m" by auto
    with that(2) m assms(2) show ?thesis by simp
  qed
  show ?thesis
    unfolding first_named_def by (rule find_only) (use b bn same in blast)+
qed

lemma ran_delete:
  assumes "m n = Some b" and "\<And>k. m k = Some b \<Longrightarrow> k = n"
  shows "ran (m(n := None)) = ran m - {b}"
proof (intro set_eqI iffI)
  fix v assume "v \<in> ran (m(n := None))"
  then obtain k where "k \<noteq> n" "m k = Some v" by (auto simp: ran_def split: if_splits)
  then show "v \<in> ran m - {b}" using assms(2) by (blast intro: ranI)
next
  fix v assume "v \<in> ran m - {b}"
  then obtain k where k: "m k = Some v" "v \<noteq> b" by (auto simp: ran_def)
  then have "k \<noteq> n" using assms(1) by auto
  then show "v \<in> ran (m(n := None))" using k(1) by (auto simp: ran_def)
qed

lemma children_ok_remove:
  assumes ok: "children_ok w a c" and n: "map_of (m_children c) n = Some b" and "a \<noteq> b"
    and keep: "\<And>k. k \<in> set (m_orderedChildren c) \<Longrightarrow> k \<noteq> b \<Longrightarrow> k \<noteq> a \<Longrightarrow> accessors w' k = accessors w k"
    and acc: "accessors w a = Some x" "accessors w' a = Some (x\<lparr>a_kind := k\<rparr>)"
  shows "children_ok w' a (c\<lparr>m_orderedChildren := remove1 b (m_orderedChildren c),
    m_children := smap_erase n (m_children c)\<rparr>)"
proof -
  have other: "m = n" if "map_of (m_children c) m = Some b" for m
    using children_okD[OF ok that] children_okD[OF ok n] by auto
  have "\<exists>z. accessors w' j = Some z \<and> m_name z = m \<and> m_parent z = Some a"
    if j: "map_of (m_children c) m = Some j" "m \<noteq> n" for m j
  proof -
    from j ok obtain z where "accessors w j = Some z" "m_name z = m" "m_parent z = Some a"
      unfolding children_ok_def by blast
    moreover from j other have "j \<noteq> b" by blast
    moreover have "j \<in> set (m_orderedChildren c)" using ok j(1) by (auto simp: children_ok_def intro: ranI)
    ultimately show ?thesis using keep[of j] acc by (cases "j = a") auto
  qed
  moreover have "ran ((map_of (m_children c))(n := None)) = ran (map_of (m_children c)) - {b}"
    by (rule ran_delete[where m = "map_of (m_children c)", OF n other])
  ultimately show ?thesis
    using ok unfolding children_ok_def
    by (intro conjI allI impI) (simp_all add: distinct_remove1 smap_wf_erase split: if_splits)
qed

text \<open>
  An accessor with all that is below it, in the order of destruction. Such a family is whole if
  every composite in it knows its children and none of its members has a callback of its own (as
  long as none of them was below a host).
\<close>

definition kids :: "('e, 'u) world \<Rightarrow> nat \<Rightarrow> nat list" where
  "kids w b = (case accessors w b of
     None \<Rightarrow> []
   | Some y \<Rightarrow> (case a_kind y of Atomic _ \<Rightarrow> [] | Composite c \<Rightarrow> GetChildren c))"

fun kin :: "('e, 'u) world \<Rightarrow> nat \<Rightarrow> nat \<Rightarrow> nat list" where
  "kin w 0 b = [b]"
| "kin w (Suc k) b = concat (map (kin w k) (kids w b)) @ [b]"

fun kin_ok :: "('e, 'u) world \<Rightarrow> nat \<Rightarrow> nat \<Rightarrow> bool" where
  "kin_ok w 0 b \<longleftrightarrow> False"
| "kin_ok w (Suc k) b \<longleftrightarrow> (case accessors w b of
     None \<Rightarrow> False
   | Some y \<Rightarrow> m_callbackIds y = [] \<and> (case a_kind y of
       Atomic _ \<Rightarrow> True
     | Composite c \<Rightarrow> children_ok w b c \<and> (\<forall>d \<in> set (GetChildren c). kin_ok w k d)))"

lemma kin_self: "b \<in> set (kin w k b)"
  by (cases k) simp_all

lemma kin_cong:
  "kin_ok w k b \<Longrightarrow> (\<And>j. j \<in> set (kin w k b) \<Longrightarrow> accessors w' j = accessors w j) \<Longrightarrow>
   kin w' k b = kin w k b \<and> kin_ok w' k b"
proof (induction k arbitrary: b)
  case (Suc k)
  obtain y where y: "accessors w b = Some y" "m_callbackIds y = []"
    using Suc.prems(1) by (auto split: option.splits)
  then have y': "accessors w' b = Some y" using Suc.prems(2)[of b] by simp
  show ?case
  proof (cases "a_kind y")
    case (Atomic d)
    then show ?thesis using y y' by (simp add: kids_def)
  next
    case (Composite c)
    have c: "children_ok w b c" "\<And>d. d \<in> set (GetChildren c) \<Longrightarrow> kin_ok w k d"
      using Suc.prems(1) y Composite by auto
    have below: "j \<in> set (kin w (Suc k) b)" if "d \<in> set (GetChildren c)" "j \<in> set (kin w k d)" for d j
      using that y Composite by (auto simp: kids_def)
    have ih: "kin w' k d = kin w k d \<and> kin_ok w' k d" if "d \<in> set (GetChildren c)" for d
      by (rule Suc.IH[OF c(2)[OF that]]) (use below[OF that] Suc.prems(2) in blast)
    have same: "accessors w' d = accessors w d" if "map_of (m_children c) n = Some d" for n d
    proof -
      have "d \<in> set (GetChildren c)" using c(1) that by (auto simp: children_ok_def GetChildren_def intro: ranI)
      from below[OF this kin_self] show ?thesis by (rule Suc.prems(2))
    qed
    have "children_ok w' b c"
      using c(1) same unfolding children_ok_def by metis
    moreover have "concat (map (kin w' k) (GetChildren c)) = concat (map (kin w k) (GetChildren c))"
      by (rule arg_cong[where f = concat], rule map_cong) (use ih in auto)
    ultimately show ?thesis using y y' Composite ih by (simp add: kids_def)
  qed
qed simp

lemma kin_ports_cong: "(\<And>j. j \<in> B \<Longrightarrow> accessors w' j = accessors w j) \<Longrightarrow> kin_ports w' B = kin_ports w B"
  by (auto simp: kin_ports_def)

lemma kin_ports_Un: "kin_ports w (A \<union> B) = kin_ports w A \<union> kin_ports w B"
  by (auto simp: kin_ports_def)

text \<open>What is left when the accessors \<open>B\<close> are destroyed.\<close>

definition without :: "nat set \<Rightarrow> ('e, 'u) world \<Rightarrow> 'e port_store \<Rightarrow> ('e, 'u) world" where
  "without B w S = w\<lparr>ports := S, accessors := (\<lambda>j. if j \<in> B then None else accessors w j)\<rparr>"

definition gone :: "nat set \<Rightarrow> ('e, 'u) world \<Rightarrow> 'e port_store \<Rightarrow> bool" where
  "gone B w S \<longleftrightarrow> connections_ok S \<and> wiped (ports w) S (kin_ports w B)"

lemma without_ok: "world_ok w \<Longrightarrow> gone B w S \<Longrightarrow> world_ok (without B w S)"
  by (rule world_ok_wiped[of w _ B]) (auto simp: without_def gone_def split: if_splits)

lemma same_rest:
  "w' = w\<lparr>ports := S, accessors := A\<rparr> \<Longrightarrow> w'\<lparr>ports := S', accessors := A'\<rparr> = w\<lparr>ports := S', accessors := A'\<rparr>"
  by simp

lemma modify_composite_at:
  "accessors v a = Some x \<Longrightarrow> a_kind x = Composite c \<Longrightarrow>
   modify_composite a f v = v\<lparr>accessors := (accessors v)(a \<mapsto> x\<lparr>a_kind := Composite (f c)\<rparr>)\<rparr>"
  by (simp add: modify_composite_def modify_accessor_def)

text \<open>All children of a composite are destroyed, if each of them is.\<close>

lemma RemoveAllChildren_ok:
  fixes w :: "('e, 'u) world"
  assumes IH: "\<And>b n (w :: ('e, 'u) world). kin_ok w k b \<Longrightarrow> distinct (kin w k b) \<Longrightarrow> world_ok w \<Longrightarrow>
      connections_ok (ports w) \<Longrightarrow> 2 * length (kin w k b) \<le> n \<Longrightarrow>
      \<exists>S. destroy_accessor n b w = Ret () (without (set (kin w k b)) w S) \<and> gone (set (kin w k b)) w S"
  shows "accessors w a = Some x \<Longrightarrow> a_kind x = Composite c \<Longrightarrow> children_ok w a c \<Longrightarrow>
    (\<And>b. b \<in> set (m_orderedChildren c) \<Longrightarrow> kin_ok w k b) \<Longrightarrow>
    distinct (concat (map (kin w k) (m_orderedChildren c)) @ [a]) \<Longrightarrow> world_ok w \<Longrightarrow> connections_ok (ports w) \<Longrightarrow>
    2 * length (concat (map (kin w k) (m_orderedChildren c))) < n \<Longrightarrow>
    \<exists>S c'. RemoveAllChildren n a w = Ret () (modify_composite a (\<lambda>_. c')
        (without (set (concat (map (kin w k) (m_orderedChildren c)))) w S)) \<and>
      gone (set (concat (map (kin w k) (m_orderedChildren c)))) w S"
proof (induction "m_orderedChildren c" arbitrary: c w x n)
  case Nil
  then obtain m where n: "n = Suc m" by (cases n) simp_all
  have "modify_composite a (\<lambda>_. c) (without {} w (ports w)) = w"
    using Nil.prems(1,2) by (simp add: modify_composite_def modify_accessor_def without_def fun_upd_idem)
  moreover have "RemoveAllChildren n a w = Ret () w"
    using Nil by (simp add: n with_composite_def with_accessor_def Nil(1)[symmetric])
  moreover have "gone {} w (ports w)" using Nil.prems(7) by (simp add: gone_def kin_ports_def wiped_refl)
  ultimately show ?case by (intro exI[of _ "ports w"] exI[of _ c]) (simp add: Nil(1)[symmetric])
next
  case (Cons b cs)
  note cs = Cons(2)[symmetric]
  obtain m where n: "n = Suc m" using Cons.prems(8) by (cases n) simp_all
  let ?B = "set (kin w k b)" and ?C = "set (concat (map (kin w k) cs))"
  have b: "kin_ok w k b" "distinct (kin w k b)" "a \<notin> ?B" "?B \<inter> ?C = {}" "a \<notin> ?C"
    using Cons.prems(4)[of b] Cons.prems(5) by (auto simp: cs)
  have in_C: "set (kin w k d) \<subseteq> ?C" if "d \<in> set cs" for d using that by auto
  have ab: "a \<noteq> b" using b(3) kin_self by metis
  have "b \<in> ran (map_of (m_children c))" using Cons.prems(3) cs by (auto simp: children_ok_def)
  then obtain nm where nm: "map_of (m_children c) nm = Some b" by (auto simp: ran_def)
  obtain y where y: "accessors w b = Some y" "m_name y = nm" using children_okD[OF Cons.prems(3) nm] by blast
  let ?f = "\<lambda>c. c\<lparr>m_orderedChildren := remove1 b (m_orderedChildren c)\<rparr>"
    and ?g = "\<lambda>c. c\<lparr>m_children := smap_erase nm (m_children c)\<rparr>"
  define w1 where "w1 = modify_composite a ?f w"
  have acc1: "accessors w1 = (accessors w)(a \<mapsto> x\<lparr>a_kind := Composite (?f c)\<rparr>)"
    unfolding w1_def by (rule accessors_modify_composite[OF Cons.prems(1,2)])
  have k1: "kin w1 k b = kin w k b" "kin_ok w1 k b"
    using kin_cong[OF b(1), of w1] acc1 b(3) by (metis fun_upd_apply)+
  have "world_ok w1" "connections_ok (ports w1)" unfolding w1_def
    using world_ok_modify_composite[OF Cons.prems(6)] Cons.prems(7) by simp_all
  then obtain S where S: "destroy_accessor m b w1 = Ret () (without ?B w1 S)" "gone ?B w1 S"
    using IH[OF k1(2), of m] b(2) Cons.prems(8) unfolding k1(1) cs n by auto
  define w3 where "w3 = modify_composite a ?g (without ?B w1 S)"
  let ?c = "c\<lparr>m_orderedChildren := remove1 b (m_orderedChildren c), m_children := smap_erase nm (m_children c)\<rparr>"
  have acc2: "accessors (without ?B w1 S) = (\<lambda>j. if j \<in> ?B then None else accessors w1 j)"
    by (simp add: without_def)
  have "accessors (without ?B w1 S) a = Some (x\<lparr>a_kind := Composite (?f c)\<rparr>)" using acc1 acc2 b(3) by simp
  from accessors_modify_composite[OF this, of "?f c" ?g]
  have acc3: "accessors w3 = (\<lambda>j. if j \<in> ?B then None else accessors w j)(a \<mapsto> x\<lparr>a_kind := Composite ?c\<rparr>)"
    using acc1 acc2 unfolding w3_def by (auto simp: fun_eq_iff)
  have "remove_child_with (destroy_accessor m) a nm w = Ret () w3"
    using S(1) nm
    by (simp only: remove_child_with_def with_composite_def with_accessor_def Let_def w3_def w1_def Cons.prems(1,2)
        first_named_child[OF Cons.prems(3) nm] option.case accessor_kind.case run_bind.simps)
  then have step: "RemoveAllChildren n a w = RemoveAllChildren m a w3"
    using y Cons.prems(1,2) cs
    by (simp only: n RemoveAllChildren.simps with_composite_def with_accessor_def option.case accessor_kind.case
        list.case run_bind.simps)
  have acc3_C: "accessors w3 j = accessors w j" if "j \<in> ?C" for j using that acc3 b(4,5) by auto
  have oc: "cs = m_orderedChildren ?c" by (simp add: cs)
  have acc_a: "accessors w3 a = Some (x\<lparr>a_kind := Composite ?c\<rparr>)" "a_kind (x\<lparr>a_kind := Composite ?c\<rparr>) = Composite ?c"
    by (simp_all add: acc3)
  have ok3: "children_ok w3 a ?c"
  proof (rule children_ok_remove[OF Cons.prems(3) nm ab _ Cons.prems(1) acc_a(1)])
    show "accessors w3 d = accessors w d" if "d \<in> set (m_orderedChildren c)" "d \<noteq> b" for d
    proof -
      have "d \<in> ?C" using that in_C[of d] kin_self[of d w k] by (auto simp: cs)
      then show ?thesis by (rule acc3_C)
    qed
  qed
  have kin3: "kin w3 k d = kin w k d \<and> kin_ok w3 k d" if "d \<in> set cs" for d
    by (rule kin_cong) (use that Cons.prems(4)[of d] in_C[of d] acc3_C in \<open>auto simp: cs\<close>)
  have map3: "concat (map (kin w3 k) cs) = concat (map (kin w k) cs)"
    by (rule arg_cong[where f = concat], rule map_cong) (use kin3 in auto)
  have w3: "world_ok w3" unfolding w3_def
    by (rule world_ok_modify_composite[OF without_ok[OF \<open>world_ok w1\<close> S(2)]])
  have p3: "ports w3 = S" by (simp add: w3_def without_def)
  then have con: "connections_ok (ports w3)" using S(2) by (simp add: gone_def)
  have fuel: "2 * length (concat (map (kin w k) cs)) < m"
    using Cons.prems(8) kin_self[of b w k] by (cases "kin w k b") (simp_all add: cs n)
  have dis: "distinct (concat (map (kin w k) cs) @ [a])" using Cons.prems(5) by (simp add: cs)
  obtain S2 c2 where S2: "RemoveAllChildren m a w3 = Ret () (modify_composite a (\<lambda>_. c2) (without ?C w3 S2))"
      "gone ?C w3 S2"
    using Cons(1)[OF oc acc_a ok3 _ _ w3 con, of m] kin3 dis fuel unfolding oc[symmetric] map3 by blast
  have "modify_composite a (\<lambda>_. c2) (without ?C w3 S2) = modify_composite a (\<lambda>_. c2) (without (?B \<union> ?C) w S2)"
  proof -
    have rest: "w3 = w\<lparr>ports := S, accessors := accessors w3\<rparr>"
      by (simp add: w3_def w1_def modify_composite_def modify_accessor_def without_def)
    have "accessors (without ?C w3 S2) a = Some (x\<lparr>a_kind := Composite ?c\<rparr>)"
      using acc3 b(5) by (simp add: without_def)
    note left = modify_composite_at[OF this, of ?c "\<lambda>_. c2"]
    have "accessors (without (?B \<union> ?C) w S2) a = Some x" using b(3,5) Cons.prems(1) by (simp add: without_def)
    note right = modify_composite_at[OF this Cons.prems(2), of "\<lambda>_. c2"]
    have "(accessors (without ?C w3 S2))(a \<mapsto> x\<lparr>a_kind := Composite c2\<rparr>) =
        (accessors (without (?B \<union> ?C) w S2))(a \<mapsto> x\<lparr>a_kind := Composite c2\<rparr>)"
      using acc3 by (auto simp: without_def fun_eq_iff)
    then show ?thesis using left right same_rest[OF rest] by (simp add: without_def)
  qed
  moreover have "gone (?B \<union> ?C) w S2"
  proof -
    have "kin_ports w1 ?B = kin_ports w ?B" by (rule kin_ports_cong) (use acc1 b(3) in auto)
    then have "wiped (ports w) S (kin_ports w ?B)" using S(2) by (simp add: gone_def w1_def)
    moreover have "kin_ports w3 ?C = kin_ports w ?C" by (rule kin_ports_cong) (rule acc3_C)
    then have "wiped S S2 (kin_ports w ?C)" using S2(2) by (simp add: gone_def p3)
    ultimately show ?thesis using S2(2) wiped_trans by (auto simp: gone_def kin_ports_Un)
  qed
  ultimately show ?case using step S2(1) by (auto simp: cs)
qed

lemma destroy_accessor_ok:
  fixes w :: "('e, 'u) world"
  shows "kin_ok w k b \<Longrightarrow> distinct (kin w k b) \<Longrightarrow> world_ok w \<Longrightarrow> connections_ok (ports w) \<Longrightarrow>
    2 * length (kin w k b) \<le> n \<Longrightarrow>
    \<exists>S. destroy_accessor n b w = Ret () (without (set (kin w k b)) w S) \<and> gone (set (kin w k b)) w S"
proof (induction k arbitrary: b n w)
  case (Suc k)
  obtain y where y: "accessors w b = Some y" "m_callbackIds y = []"
    using Suc.prems(1) by (auto split: option.splits)
  obtain m where n: "n = Suc m" using Suc.prems(5) by (cases n) simp_all
  show ?case
  proof (cases "a_kind y")
    case (Atomic d)
    obtain S where S: "destroy_base b w = Ret () (w\<lparr>ports := S, accessors := (accessors w)(b := None)\<rparr>)"
        "connections_ok S" "wiped (ports w) S (own_ports y)"
      using destroy_base_ok[OF Suc.prems(4) y(1) world_ok_accessor[OF Suc.prems(3) y(1)]] y(2) by auto
    have "kin_ports w {b} = own_ports y" using y(1) by (auto simp: kin_ports_def)
    then have "gone {b} w S" using S by (simp add: gone_def)
    moreover have "(accessors w)(b := None) = (\<lambda>j. if j \<in> {b} then None else accessors w j)" by auto
    then have "w\<lparr>ports := S, accessors := (accessors w)(b := None)\<rparr> = without {b} w S" by (simp only: without_def)
    moreover have "destroy_accessor n b w = destroy_base b w"
      using y(1) Atomic by (simp only: n destroy_accessor.simps with_accessor_def) simp
    ultimately show ?thesis using S(1) y(1) Atomic by (auto simp: kids_def)
  next
    case (Composite c)
    let ?C = "set (concat (map (kin w k) (m_orderedChildren c)))"
    have kids: "kids w b = m_orderedChildren c" using y(1) Composite by (simp add: kids_def GetChildren_def)
    have c: "children_ok w b c" "\<And>d. d \<in> set (m_orderedChildren c) \<Longrightarrow> kin_ok w k d"
      using Suc.prems(1) y(1) Composite by (auto simp: GetChildren_def)
    have dis: "distinct (concat (map (kin w k) (m_orderedChildren c)) @ [b])" using Suc.prems(2) kids by simp
    have fuel: "2 * length (concat (map (kin w k) (m_orderedChildren c))) < m" using Suc.prems(5) kids by (simp add: n)
    obtain S c' where S: "RemoveAllChildren m b w = Ret () (modify_composite b (\<lambda>_. c') (without ?C w S))" "gone ?C w S"
      using RemoveAllChildren_ok[OF Suc.IH y(1) Composite c dis Suc.prems(3,4) fuel] by blast
    define w' where "w' = modify_composite b (\<lambda>_. c') (without ?C w S)"
    have acc: "accessors w' = (\<lambda>j. if j \<in> ?C then None else accessors w j)(b \<mapsto> y\<lparr>a_kind := Composite c'\<rparr>)"
      unfolding w'_def
      by (subst accessors_modify_composite[of _ b y c]) (use y(1) dis Composite in \<open>auto simp: without_def\<close>)
    have ok: "world_ok w'" unfolding w'_def by (rule world_ok_modify_composite[OF without_ok[OF Suc.prems(3) S(2)]])
    have p: "ports w' = S" "connections_ok S" using S(2) by (simp_all add: w'_def without_def gone_def)
    let ?y = "y\<lparr>a_kind := Composite c'\<rparr>"
    have y': "accessors w' b = Some ?y" by (simp add: acc)
    obtain S2 where S2: "destroy_base b w' = Ret () (w'\<lparr>ports := S2, accessors := (accessors w')(b := None)\<rparr>)"
        "connections_ok S2" "wiped S S2 (own_ports y)"
      using destroy_base_ok[OF _ y' world_ok_accessor[OF ok y']] y(2) p by (auto simp: own_ports_def)
    have "kin_ports w {b} = own_ports y" using y(1) by (auto simp: kin_ports_def)
    then have gone: "gone (?C \<union> {b}) w S2"
      using S(2) S2(2,3) wiped_trans[of "ports w" S "kin_ports w ?C" S2 "own_ports y"]
      unfolding gone_def kin_ports_Un by metis
    have "w'\<lparr>ports := S2, accessors := (accessors w')(b := None)\<rparr> = without (?C \<union> {b}) w S2"
    proof -
      have "w' = w\<lparr>ports := S, accessors := accessors w'\<rparr>"
        by (simp add: w'_def modify_composite_def modify_accessor_def without_def)
      moreover have "(accessors w')(b := None) = (\<lambda>j. if j \<in> ?C \<union> {b} then None else accessors w j)"
        using acc by (auto simp: fun_eq_iff)
      ultimately show ?thesis unfolding without_def by (simp only: same_rest)
    qed
    moreover have "destroy_accessor n b w = destroy_base b w'"
      using y(1) Composite S(1) by (simp add: n with_accessor_def w'_def)
    moreover have "set (kin w (Suc k) b) = ?C \<union> {b}" by (simp add: kids)
    ultimately show ?thesis using S2(1) gone by metis
  qed
qed simp


text \<open>
  C25. A child other than the composite itself is added exactly when its name is valid, is not
  the composite's own and is not taken, and it has no parent yet; it is then found under its name,
  comes last in the order, and has the composite as parent. Otherwise the call throws, and the
  child that was handed over is destroyed with everything below it: those accessors and their
  ports are gone, no port that is left is connected to one of them, and all other accessors and
  ports are still there. For the refusal the family of the child is whole, with no member in it
  twice, and no member has scheduled a callback.
\<close>

theorem AddChild_spec:
  assumes x: "accessors w a = Some x" "a_kind x = Composite c" and ok: "children_ok w a c"
    and y: "accessors w b = Some y" and ab: "a \<noteq> b" and w: "world_ok w" "connections_ok (ports w)"
    and kin: "\<not> (NewChildNameIsValid (m_name y) x c \<and> m_parent y = None) \<Longrightarrow>
      kin_ok w k b \<and> distinct (kin w k b) \<and> 2 * length (kin w k b) \<le> n"
  shows "if NewChildNameIsValid (m_name y) x c \<and> m_parent y = None
    then \<exists>w' c'. AddChild n a b w = Ret () w' \<and>
      accessors w' a = Some (x\<lparr>a_kind := Composite c'\<rparr>) \<and> children_ok w' a c' \<and>
      GetChild (m_name y) c' = Inr b \<and> GetChildren c' = GetChildren c @ [b] \<and>
      accessors w' b = Some (y\<lparr>m_parent := Some a\<rparr>)
    else \<exists>w'. AddChild n a b w =
      Throw (if NewChildNameIsValid (m_name y) x c then AlreadyHasParent else ChildNameInvalid) w' \<and>
      accessors w' = (\<lambda>j. if j \<in> set (kin w k b) then None else accessors w j) \<and> connections_ok (ports w') \<and>
      (\<forall>p. ports w' p = None \<longleftrightarrow> p \<in> kin_ports w (set (kin w k b)) \<or> ports w p = None)"
proof -
  note added = add_child_ok[OF x ok y(1) ab]
  show ?thesis
  proof (cases "NewChildNameIsValid (m_name y) x c \<and> m_parent y = None")
    case True
    then show ?thesis using added by (auto simp: AddChild_def)
  next
    case False
    let ?e = "if NewChildNameIsValid (m_name y) x c then AlreadyHasParent else ChildNameInvalid"
    obtain S where S: "destroy_accessor n b w = Ret () (without (set (kin w k b)) w S)" "gone (set (kin w k b)) w S"
      using destroy_accessor_ok[OF _ _ w, of k b n] kin[OF False] by blast
    have "add_child a b w = Throw ?e w" using added False by auto
    then have "AddChild n a b w = Throw ?e (without (set (kin w k b)) w S)"
      using S(1) by (simp add: AddChild_def del: destroy_accessor.simps)
    moreover have "connections_ok S" "\<And>p. S p = None \<longleftrightarrow> p \<in> kin_ports w (set (kin w k b)) \<or> ports w p = None"
      using S(2) wiped_None[of "ports w" S "kin_ports w (set (kin w k b))"] by (simp_all add: gone_def)
    ultimately show ?thesis using False by (auto simp: without_def)
  qed
qed

text \<open>An accessor that may become a child of the host, and a composite with a child of its own that may not.\<close>

definition family :: "(nat, unit) world" where
  "family = one_world\<lparr>accessors := [7 \<mapsto> Accessor_new ''Sum'' (Atomic no_atomic),
     8 \<mapsto> Accessor_new ''Host'' (Composite (plain_composite True [])),
     9 \<mapsto> Accessor_new ''Host'' (Composite ((plain_composite False [6])\<lparr>m_children := [(''Sum'', 6)]\<rparr>)),
     6 \<mapsto> (Accessor_new ''Sum'' (Atomic no_atomic))\<lparr>m_parent := Some 9\<rparr>]\<rparr>"

lemma AddChild_spec_witness:
  "(\<exists>w' c'. AddChild 0 8 7 family = Ret () w' \<and> GetChild ''Sum'' c' = Inr 7 \<and>
     accessors w' 8 = Some ((Accessor_new ''Host'' (Composite (plain_composite True [])))\<lparr>a_kind := Composite c'\<rparr>)) \<and>
   (\<exists>w'. AddChild 4 8 9 family = Throw ChildNameInvalid w' \<and> accessors w' 9 = None \<and> accessors w' 6 = None \<and>
     accessors w' 7 = accessors family 7)"
proof -
  let ?x = "Accessor_new ''Host'' (Composite (plain_composite True []))"
  let ?y = "Accessor_new ''Sum'' (Atomic no_atomic)"
  let ?z = "Accessor_new ''Host'' (Composite ((plain_composite False [6])\<lparr>m_children := [(''Sum'', 6)]\<rparr>))"
  have x: "accessors family 8 = Some ?x" "accessors family 7 = Some ?y" "accessors family 9 = Some ?z"
    "accessors family 6 = Some (?y\<lparr>m_parent := Some 9\<rparr>)" by (simp_all add: family_def)
  have k: "a_kind ?x = Composite (plain_composite True [])" "m_name ?y = ''Sum''" "m_parent ?y = None" "m_name ?z = ''Host''"
    by (simp_all add: Accessor_new_def)
  have c: "children_ok family 8 (plain_composite True [])"
    by (simp add: children_ok_def plain_composite_def)
  have w: "world_ok family" "connections_ok (ports family)"
    by (auto simp: world_ok_def connections_ok_def family_def one_world_def empty_world_def dstate.extend_def
        no_atomic_def pruned_def accessor_ok_def Accessor_new_def named_ports_ok_def smap_wf_def intro!: accessor_ok_new)
  have valid: "NewChildNameIsValid ''Sum'' ?x (plain_composite True [])"
    "\<not> NewChildNameIsValid ''Host'' ?x (plain_composite True [])"
    by (simp_all add: NewChildNameIsValid_def NameIsValid_def forbidden_chars_def Accessor_new_def
        HasChildWithName_def plain_composite_def)
  have kids: "kids family 9 = [6]" "kids family 6 = []"
    by (simp_all add: kids_def x Accessor_new_def GetChildren_def plain_composite_def)
  have kin: "kin family 2 9 = [6, 9]" by (simp add: numeral_2_eq_2 kids)
  have "children_ok family 9 ((plain_composite False [6])\<lparr>m_children := [(''Sum'', 6)]\<rparr>)"
    by (simp add: children_ok_def plain_composite_def x smap_wf_def Accessor_new_def)
  then have whole: "kin_ok family 2 9"
    by (simp add: numeral_2_eq_2 x Accessor_new_def GetChildren_def plain_composite_def)
  show ?thesis
  proof
    show "\<exists>w' c'. AddChild 0 8 7 family = Ret () w' \<and> GetChild ''Sum'' c' = Inr 7 \<and>
       accessors w' 8 = Some (?x\<lparr>a_kind := Composite c'\<rparr>)"
      using AddChild_spec[OF x(1) k(1) c x(2) _ w, of 0 0] valid(1) k by auto
    show "\<exists>w'. AddChild 4 8 9 family = Throw ChildNameInvalid w' \<and> accessors w' 9 = None \<and> accessors w' 6 = None \<and>
       accessors w' 7 = accessors family 7"
      using AddChild_spec[OF x(1) k(1) c x(3) _ w, of 2 4] valid(2) k whole by (auto simp: kin)
  qed
qed

text \<open>
  C16. Removing an atomic child destroys it completely: it is gone from its parent's map and
  list, the object and all its ports are gone, no remaining port is connected to one of them,
  and none of its callbacks is registered with the director any more. Other children stay. The
  parent's reaction queue is not touched.
\<close>

theorem RemoveChild_spec:
  assumes x: "accessors w a = Some x" "a_kind x = Composite c" and ok: "children_ok w a c"
    and n: "GetChild n c = Inr b" and y: "accessors w b = Some y" "a_kind y = Atomic d"
    and w: "world_ok w" "connections_ok (ports w)" and dir: "GetDirector w a = Some (Inr True)"
  shows "\<exists>w' c'. RemoveChild (Suc fuel) a n w = Ret () w' \<and>
    accessors w' a = Some (x\<lparr>a_kind := Composite c'\<rparr>) \<and> accessors w' b = None \<and>
    children_ok w' a c' \<and> \<not> HasChildWithName n c' \<and> GetChildren c' = remove1 b (GetChildren c) \<and>
    m_childEventQueue c' = m_childEventQueue c \<and> connections_ok (ports w') \<and>
    (\<forall>p \<in> set (GetInputPorts y) \<union> set (GetOutputPorts y). ports w' p = None) \<and>
    (\<forall>i \<in> set (m_callbackIds y). map_of (m_scheduledCallbacks w') i = None)"
proof -
  have n': "map_of (m_children c) n = Some b" using n by (simp add: GetChild_def split: option.splits)
  have par: "m_parent y = Some a" using children_okD[OF ok n'] y(1) by auto
  have ab: "a \<noteq> b" using x y by auto
  let ?f = "\<lambda>c. c\<lparr>m_orderedChildren := remove1 b (m_orderedChildren c)\<rparr>"
  let ?w1 = "modify_composite a ?f w"
  have acc1: "accessors ?w1 = (accessors w)(a \<mapsto> x\<lparr>a_kind := Composite (?f c)\<rparr>)"
    by (rule accessors_modify_composite[OF x])
  have y1: "accessors ?w1 b = Some y" using acc1 y(1) ab by simp
  have shape: "same_shape w ?w1" using acc1 x by (auto simp: same_shape_def)
  have "GetDirector w b = Some (Inr True)"
    using dir y par by (subst GetDirector.simps) simp
  then have dir1: "GetDirector ?w1 b = Some (Inr True)" using GetDirector_shape[OF shape] by simp
  have ay: "accessor_ok (ports ?w1) b y" using world_ok_accessor[OF w(1) y(1)] by simp
  let ?v = "fold ClearScheduledCallback (m_callbackIds y) ?w1"
  obtain S where S: "destroy_base b ?w1 = Ret () (?v\<lparr>ports := S, accessors := (accessors ?w1)(b := None)\<rparr>)"
      "connections_ok S" "wiped (ports w) S (own_ports y)"
    using destroy_base_ok[OF _ y1 ay] dir1 w(2) by auto
  let ?w2 = "?v\<lparr>ports := S, accessors := (accessors ?w1)(b := None)\<rparr>"
  let ?c = "c\<lparr>m_orderedChildren := remove1 b (m_orderedChildren c), m_children := smap_erase n (m_children c)\<rparr>"
  let ?w3 = "modify_composite a (\<lambda>c. c\<lparr>m_children := smap_erase n (m_children c)\<rparr>) ?w2"
  have acc2: "accessors ?w2 a = Some (x\<lparr>a_kind := Composite (?f c)\<rparr>)" using acc1 ab by simp
  have acc3: "accessors ?w3 = (accessors ?w2)(a \<mapsto> x\<lparr>a_kind := Composite ?c\<rparr>)"
    using accessors_modify_composite[OF acc2] by simp
  have "destroy_accessor (Suc fuel) b ?w1 = Ret () ?w2"
    using y1 y(2) S(1) by (simp only: destroy_accessor.simps with_accessor_def) simp
  then have run: "RemoveChild (Suc fuel) a n w = Ret () ?w3"
    using x first_named_child[OF ok n'] n'
    by (simp only: RemoveChild_def remove_child_with_def with_composite_def with_accessor_def Let_def
        option.case accessor_kind.case run_bind.simps)
  define w3 where "w3 = ?w3"
  have "children_ok w3 a ?c"
    by (rule children_ok_remove[OF ok n' ab _ x(1)]) (use acc1 acc3 in \<open>auto simp: w3_def\<close>)
  moreover have "ports w3 p = None" if "p \<in> set (GetInputPorts y) \<union> set (GetOutputPorts y)" for p
  proof -
    from ay have "set (m_orderedInputPorts y) = snd ` set (m_inputPorts y)"
        "set (m_orderedOutputPorts y) = snd ` set (m_outputPorts y)"
      unfolding accessor_ok_def by (blast dest: named_ports_ok_snd)+
    with that have "p \<in> snd ` set (m_inputPorts y) \<union> snd ` set (m_outputPorts y)"
      by (auto simp only: GetInputPorts_def GetOutputPorts_def)
    with wiped_None[OF S(3)] show ?thesis by (auto simp: w3_def own_ports_def)
  qed
  moreover have "map_of (m_scheduledCallbacks w3) i = None" if "i \<in> set (m_callbackIds y)" for i
    using registry.clears_gone[OF that, of ?w1] by (simp add: w3_def modify_composite_def modify_accessor_def)
  moreover have "connections_ok (ports w3)" "accessors w3 b = None" "\<not> HasChildWithName n ?c"
      "GetChildren ?c = remove1 b (GetChildren c)"
    using S(2) acc3 ab by (simp_all add: w3_def HasChildWithName_def GetChildren_def)
  moreover have "RemoveChild (Suc fuel) a n w = Ret () w3" using run by (simp only: w3_def)
  moreover have "accessors w3 a = Some (x\<lparr>a_kind := Composite ?c\<rparr>)" using acc3 by (simp add: w3_def)
  moreover have "m_childEventQueue ?c = m_childEventQueue c" by simp
  ultimately show ?thesis by blast
qed

definition parent_and_child :: "(nat, unit) world" where
  "parent_and_child = one_world\<lparr>ports := [0 \<mapsto> Port_new ''In'' 7 InputPort], nextPort := 1,
     accessors := [7 \<mapsto> (Accessor_new ''Sum'' (Atomic no_atomic))\<lparr>m_parent := Some 8,
         m_inputPorts := [(''In'', 0)], m_orderedInputPorts := [0]\<rparr>,
       8 \<mapsto> Accessor_new ''Host'' (Composite ((plain_composite True [7])\<lparr>m_children := [(''Sum'', 7)]\<rparr>))]\<rparr>"

lemma RemoveChild_spec_witness:
  "\<exists>w'. RemoveChild 1 8 ''Sum'' parent_and_child = Ret () w' \<and> accessors w' 7 = None \<and> ports w' 0 = None"
proof -
  let ?x = "Accessor_new ''Host'' (Composite ((plain_composite True [7])\<lparr>m_children := [(''Sum'', 7)]\<rparr>))"
  let ?y = "(Accessor_new ''Sum'' (Atomic no_atomic))\<lparr>m_parent := Some 8,
         m_inputPorts := [(''In'', 0)], m_orderedInputPorts := [0]\<rparr>"
  have x: "accessors parent_and_child 8 = Some ?x" and y: "accessors parent_and_child 7 = Some ?y"
    by (simp_all add: parent_and_child_def)
  have kx: "a_kind ?x = Composite ((plain_composite True [7])\<lparr>m_children := [(''Sum'', 7)]\<rparr>)"
    and ky: "a_kind ?y = Atomic no_atomic" by (simp_all add: Accessor_new_def)
  have c: "children_ok parent_and_child 8 ((plain_composite True [7])\<lparr>m_children := [(''Sum'', 7)]\<rparr>)"
    by (simp add: children_ok_def plain_composite_def parent_and_child_def Accessor_new_def smap_wf_def)
  have "accessor_ok (ports parent_and_child) 7 ?y" "accessor_ok (ports parent_and_child) 8 ?x"
    by (auto simp: accessor_ok_def parent_and_child_def Accessor_new_def no_atomic_def pruned_def port_of_def
        Port_new_def NameIsValid_def forbidden_chars_def smap_wf_def intro!: named_ports_ok_list)
  then have w: "world_ok parent_and_child"
    by (auto simp: world_ok_def parent_and_child_def split: if_splits)
  have p: "connections_ok (ports parent_and_child)"
    by (auto simp: connections_ok_def parent_and_child_def Port_new_def)
  have d: "GetDirector parent_and_child 8 = Some (Inr True)"
    using x by (subst GetDirector.simps) (simp add: Accessor_new_def plain_composite_def)
  have g: "GetChild ''Sum'' ((plain_composite True [7])\<lparr>m_children := [(''Sum'', 7)]\<rparr>) = Inr 7"
    by (simp add: GetChild_def)
  from RemoveChild_spec[OF x kx c g y ky w p d, of 0] show ?thesis by (auto simp: GetInputPorts_def)
qed

end
