(* ===== verification/HostDepths.thy ===== *)
theory HostDepths
  imports CompositeAccessor
begin

text \<open>
  The depth computation of \<open>src/src/HostImpl.cpp\<close> (lines 267 to 380, 432 to 446): the depth of
  every port of an atomic accessor from the connections and the dependencies, and the detection
  of causality loops. The two mutually recursive functions ask the model for equivalent ports,
  sources and dependencies; they are written over those three questions, and their correctness
  is proved in a locale over any model that answers them sensibly. A depth is at most the
  number of output ports, so it stays far inside an \<open>int\<close>.
\<close>

section \<open>The recursion\<close>

text \<open>An answer to a question: it may be undefined (the search hangs) or throw.\<close>

type_synonym 'a answer = "(exn + 'a) option"

fun ask :: "'a answer \<Rightarrow> 's \<Rightarrow> ('a, 's) run" where
  "ask None s = Diverge"
| "ask (Some (Inl e)) s = Throw e s"
| "ask (Some (Inr x)) s = Ret x s"

text \<open>
  \<open>q_source\<close> is \<open>None\<close> for a port without source, and for one whose chain of composite ports
  ends without an output of an atomic accessor.
\<close>

record queries =
  q_equivalent :: "nat \<Rightarrow> nat list answer"
  q_source :: "nat \<Rightarrow> nat option answer"
  q_dependencies :: "nat \<Rightarrow> nat list answer"

record depth_state =
  portDepths :: "nat \<Rightarrow> int option"
  visitedInputPorts :: "nat set"
  visitedOutputPorts :: "nat set"

text \<open>The loop over the equivalent ports, with the recursive call as a parameter.\<close>

fun sources_loop ::
  "queries \<Rightarrow> (nat \<Rightarrow> depth_state \<Rightarrow> (unit, depth_state) run) \<Rightarrow> nat list \<Rightarrow> int \<Rightarrow> depth_state
     \<Rightarrow> (int, depth_state) run" where
  "sources_loop q visit [] depth s = Ret depth s"
| "sources_loop q visit (p # ps) depth s =
     run_bind (ask (q_source q p) (s\<lparr>visitedInputPorts := insert p (visitedInputPorts s)\<rparr>))
       (\<lambda>src s. case src of
          None \<Rightarrow> sources_loop q visit ps depth s
        | Some out \<Rightarrow>
            run_bind
              (if portDepths s out = None
               then if out \<in> visitedOutputPorts s then Throw (CausalityLoop out) s else visit out s
               else Ret () s)
              (\<lambda>_ s. case portDepths s out of
                 None \<Rightarrow> Throw OutOfRange s
               | Some d \<Rightarrow> sources_loop q visit ps (if depth < d + 1 then d + 1 else depth) s))"

text \<open>The loop over the input ports an output port depends on.\<close>

fun inputs_loop ::
  "(nat \<Rightarrow> depth_state \<Rightarrow> (unit, depth_state) run) \<Rightarrow> nat list \<Rightarrow> int \<Rightarrow> depth_state
     \<Rightarrow> (int, depth_state) run" where
  "inputs_loop visit [] depth s = Ret depth s"
| "inputs_loop visit (i # is) depth s =
     run_bind
       (if portDepths s i = None
        then if i \<in> visitedInputPorts s then Throw (CausalityLoop i) s else visit i s
        else Ret () s)
       (\<lambda>_ s. case portDepths s i of
          None \<Rightarrow> Throw OutOfRange s
        | Some d \<Rightarrow> inputs_loop visit is (if depth < d then d else depth) s)"

fun ComputeAtomicAccessorInputPortDepth :: "queries \<Rightarrow> nat \<Rightarrow> nat \<Rightarrow> depth_state \<Rightarrow> (unit, depth_state) run"
  and ComputeAtomicAccessorOutputPortDepth :: "queries \<Rightarrow> nat \<Rightarrow> nat \<Rightarrow> depth_state \<Rightarrow> (unit, depth_state) run" where
  "ComputeAtomicAccessorInputPortDepth q 0 i s = Diverge"
| "ComputeAtomicAccessorInputPortDepth q (Suc n) i s =
     run_bind (ask (q_equivalent q i) s) (\<lambda>ps s.
       run_bind (sources_loop q (ComputeAtomicAccessorOutputPortDepth q n) ps 0 s) (\<lambda>depth s.
         Ret () (s\<lparr>portDepths := fold (\<lambda>p m. m(p \<mapsto> depth)) ps (portDepths s)\<rparr>)))"
| "ComputeAtomicAccessorOutputPortDepth q 0 out s = Diverge"
| "ComputeAtomicAccessorOutputPortDepth q (Suc n) out s =
     run_bind (ask (q_dependencies q out) (s\<lparr>visitedOutputPorts := insert out (visitedOutputPorts s)\<rparr>))
       (\<lambda>is s. run_bind (inputs_loop (ComputeAtomicAccessorInputPortDepth q n) is 0 s) (\<lambda>depth s.
         Ret () (s\<lparr>portDepths := (portDepths s)(out \<mapsto> depth)\<rparr>)))"

text \<open>A call from outside: nothing is visited.\<close>

definition fresh :: "(nat \<Rightarrow> int option) \<Rightarrow> depth_state" where
  "fresh m = \<lparr>portDepths = m, visitedInputPorts = {}, visitedOutputPorts = {}\<rparr>"

section \<open>The causality graph\<close>

text \<open>
  What the recursion relies on. The input ports fall into classes, an output port depends on
  input ports, and the source of an input port is an output port. An output port needs another
  if it depends on an input port in whose class some port has the other as its source.
\<close>

locale causality =
  fixes queries_of :: "'w \<Rightarrow> queries"
    and ins :: "'w \<Rightarrow> nat set" and outs :: "'w \<Rightarrow> nat set"
    and eqv :: "'w \<Rightarrow> nat \<Rightarrow> nat list"
    and src :: "'w \<Rightarrow> nat \<Rightarrow> nat option"
    and deps :: "'w \<Rightarrow> nat \<Rightarrow> nat list"
    and ok :: "'w \<Rightarrow> bool"
  assumes ask_eqv: "ok w \<Longrightarrow> i \<in> ins w \<Longrightarrow> q_equivalent (queries_of w) i = Some (Inr (eqv w i))"
    and ask_src: "ok w \<Longrightarrow> i \<in> ins w \<Longrightarrow> q_source (queries_of w) i = Some (Inr (src w i))"
    and ask_deps: "ok w \<Longrightarrow> out \<in> outs w \<Longrightarrow> q_dependencies (queries_of w) out = Some (Inr (deps w out))"
    and eqv_refl: "ok w \<Longrightarrow> i \<in> ins w \<Longrightarrow> i \<in> set (eqv w i)"
    and eqv_ins: "ok w \<Longrightarrow> i \<in> ins w \<Longrightarrow> set (eqv w i) \<subseteq> ins w"
    and eqv_class: "ok w \<Longrightarrow> i \<in> ins w \<Longrightarrow> j \<in> set (eqv w i) \<Longrightarrow> eqv w j = eqv w i"
    and src_outs: "ok w \<Longrightarrow> i \<in> ins w \<Longrightarrow> src w i = Some out \<Longrightarrow> out \<in> outs w"
    and deps_ins: "ok w \<Longrightarrow> out \<in> outs w \<Longrightarrow> set (deps w out) \<subseteq> ins w"
    and disjoint: "ok w \<Longrightarrow> ins w \<inter> outs w = {}"
    and finite_outs: "ok w \<Longrightarrow> finite (outs w)"
begin

definition needs :: "'w \<Rightarrow> (nat \<times> nat) set" where
  "needs w = {(out, out'). out \<in> outs w \<and>
     (\<exists>i \<in> set (deps w out). \<exists>j \<in> set (eqv w i). src w j = Some out')}"

text \<open>
  The specification of the depths: an input port's depth is the largest of one more than the
  depth of the source of a port of its class, an output port's the largest depth of an input
  port it depends on; a maximum of nothing is 0. Known depths rest on known depths.
\<close>

definition source_rank :: "'w \<Rightarrow> (nat \<Rightarrow> int option) \<Rightarrow> nat \<Rightarrow> int" where
  "source_rank w m j = (case src w j of None \<Rightarrow> 0 | Some out \<Rightarrow> the (m out) + 1)"

definition input_depth_ok :: "'w \<Rightarrow> (nat \<Rightarrow> int option) \<Rightarrow> nat \<Rightarrow> int \<Rightarrow> bool" where
  "input_depth_ok w m i d \<longleftrightarrow>
     (\<forall>j \<in> set (eqv w i). m j = Some d \<and> (\<forall>out. src w j = Some out \<longrightarrow> m out \<noteq> None)) \<and>
     d = Max (insert 0 (source_rank w m ` set (eqv w i)))"

definition output_depth_ok :: "'w \<Rightarrow> (nat \<Rightarrow> int option) \<Rightarrow> nat \<Rightarrow> int \<Rightarrow> bool" where
  "output_depth_ok w m out d \<longleftrightarrow>
     (\<forall>i \<in> set (deps w out). m i \<noteq> None) \<and>
     d = Max (insert 0 ((\<lambda>i. the (m i)) ` set (deps w out)))"

definition depths_ok :: "'w \<Rightarrow> (nat \<Rightarrow> int option) \<Rightarrow> bool" where
  "depths_ok w m \<longleftrightarrow> dom m \<subseteq> ins w \<union> outs w \<and>
     (\<forall>i \<in> ins w. \<forall>d. m i = Some d \<longrightarrow> input_depth_ok w m i d) \<and>
     (\<forall>out \<in> outs w. \<forall>d. m out = Some d \<longrightarrow> output_depth_ok w m out d)"

definition pendingO :: "depth_state \<Rightarrow> nat set" where
  "pendingO s = visitedOutputPorts s - dom (portDepths s)"

definition pendingI :: "depth_state \<Rightarrow> nat set" where
  "pendingI s = visitedInputPorts s - dom (portDepths s)"

text \<open>
  The state of the recursion. A pending port is visited and has no depth yet, so its call is
  still running. \<open>entry_in\<close> and \<open>entry_out\<close> say how the pending ports lead to the one a call
  is for; they are what makes a visited port without depth a causality loop.
\<close>

definition entry_in :: "'w \<Rightarrow> nat \<Rightarrow> depth_state \<Rightarrow> bool" where
  "entry_in w i s \<longleftrightarrow> i \<in> ins w \<and> portDepths s i = None \<and> depths_ok w (portDepths s) \<and>
     (\<forall>out \<in> pendingO s. \<exists>out1 \<in> outs w. (out, out1) \<in> (needs w)\<^sup>* \<and> (\<exists>k \<in> set (deps w out1). i \<in> set (eqv w k))) \<and>
     (\<forall>k \<in> pendingI s. k \<in> ins w \<and> (\<exists>j \<in> set (eqv w k). \<exists>out \<in> pendingO s. src w j = Some out))"

definition entry_out :: "'w \<Rightarrow> nat \<Rightarrow> depth_state \<Rightarrow> bool" where
  "entry_out w out s \<longleftrightarrow> out \<in> outs w \<and> portDepths s out = None \<and> out \<notin> visitedOutputPorts s \<and>
     depths_ok w (portDepths s) \<and> (\<forall>out1 \<in> pendingO s. (out1, out) \<in> (needs w)\<^sup>+) \<and>
     (\<forall>k \<in> pendingI s. k \<in> ins w \<and> (\<exists>j \<in> set (eqv w k). \<exists>out1 \<in> insert out (pendingO s). src w j = Some out1))"

text \<open>A port that a causality loop runs through: an output that needs itself, or an input of one.\<close>

definition on_loop :: "'w \<Rightarrow> nat \<Rightarrow> bool" where
  "on_loop w p \<longleftrightarrow> (p, p) \<in> (needs w)\<^sup>+ \<or> (\<exists>out. p \<in> set (deps w out) \<and> (out, out) \<in> (needs w)\<^sup>+)"

definition advances :: "'w \<Rightarrow> depth_state \<Rightarrow> depth_state \<Rightarrow> bool" where
  "advances w s s' \<longleftrightarrow> depths_ok w (portDepths s') \<and> portDepths s \<subseteq>\<^sub>m portDepths s' \<and>
     pendingO s' = pendingO s \<and> visitedOutputPorts s \<subseteq> visitedOutputPorts s'"

fun outcome :: "'w \<Rightarrow> ('a \<Rightarrow> 's \<Rightarrow> bool) \<Rightarrow> ('a, 's) run \<Rightarrow> bool" where
  "outcome w P (Ret x s) = P x s"
| "outcome w P (Throw e s) = (\<exists>p. e = CausalityLoop p \<and> on_loop w p)"
| "outcome w P Diverge = False"

lemma outcome_bind:
  "outcome w P r \<Longrightarrow> (\<And>x s. P x s \<Longrightarrow> outcome w Q (f x s)) \<Longrightarrow> outcome w Q (run_bind r f)"
  by (cases r) auto

lemma outcome_mono: "outcome w P r \<Longrightarrow> (\<And>x s. P x s \<Longrightarrow> Q x s) \<Longrightarrow> outcome w Q r"
  by (cases r) auto

lemma advances_refl: "depths_ok w (portDepths s) \<Longrightarrow> advances w s s"
  by (simp add: advances_def)

lemma advances_trans: "advances w s t \<Longrightarrow> advances w t u \<Longrightarrow> advances w s u"
  unfolding advances_def by (auto intro: map_le_trans)

lemma map_le_Some: "m \<subseteq>\<^sub>m m' \<Longrightarrow> m k = Some v \<Longrightarrow> m' k = Some v"
  by (metis domI map_le_def)

lemma source_rank_mono:
  "m \<subseteq>\<^sub>m m' \<Longrightarrow> (\<And>out. src w j = Some out \<Longrightarrow> m out \<noteq> None) \<Longrightarrow> source_rank w m' j = source_rank w m j"
  by (cases "src w j") (auto simp: source_rank_def dest: map_le_Some[of m m'])

lemma input_depth_ok_mono:
  assumes "input_depth_ok w m i d" and "m \<subseteq>\<^sub>m m'"
  shows "input_depth_ok w m' i d"
proof -
  have "source_rank w m' ` set (eqv w i) = source_rank w m ` set (eqv w i)"
    using assms source_rank_mono[OF assms(2)] unfolding input_depth_ok_def by (intro image_cong) auto
  then show ?thesis using assms map_le_Some[OF assms(2)] unfolding input_depth_ok_def by fastforce
qed

lemma output_depth_ok_mono:
  assumes "output_depth_ok w m out d" and "m \<subseteq>\<^sub>m m'"
  shows "output_depth_ok w m' out d"
proof -
  have "(\<lambda>i. the (m' i)) ` set (deps w out) = (\<lambda>i. the (m i)) ` set (deps w out)"
    using assms map_le_Some[OF assms(2)] unfolding output_depth_ok_def by (intro image_cong) fastforce+
  then show ?thesis using assms map_le_Some[OF assms(2)] unfolding output_depth_ok_def by fastforce
qed

text \<open>The depths of a class are known together.\<close>

lemma class_undefined:
  assumes "ok w" and "depths_ok w m" and "i \<in> ins w" and "m i = None" and "j \<in> set (eqv w i)"
  shows "m j = None"
proof (rule ccontr)
  assume "m j \<noteq> None"
  then obtain d where "m j = Some d" by auto
  moreover have "j \<in> ins w" using eqv_ins assms by blast
  ultimately have "input_depth_ok w m j d" using assms(2) by (simp add: depths_ok_def)
  moreover have "i \<in> set (eqv w j)" using eqv_class eqv_refl assms by metis
  ultimately show False using assms(4) by (auto simp: input_depth_ok_def)
qed

lemma depths_ok_extend:
  assumes "depths_ok w m" and le: "m \<subseteq>\<^sub>m m'" and "dom m' \<subseteq> ins w \<union> outs w"
    and "\<And>i d. i \<in> ins w \<Longrightarrow> m i = None \<Longrightarrow> m' i = Some d \<Longrightarrow> input_depth_ok w m' i d"
    and "\<And>out d. out \<in> outs w \<Longrightarrow> m out = None \<Longrightarrow> m' out = Some d \<Longrightarrow> output_depth_ok w m' out d"
  shows "depths_ok w m'"
  unfolding depths_ok_def
proof (intro conjI ballI allI impI)
  fix i d assume i: "i \<in> ins w" "m' i = Some d"
  show "input_depth_ok w m' i d"
  proof (cases "m i")
    case (Some e)
    then have "m i = Some d" using map_le_Some[OF le Some] i by simp
    with assms(1) i(1) input_depth_ok_mono le show ?thesis unfolding depths_ok_def by blast
  qed (use assms(4) i in blast)
next
  fix out d assume i: "out \<in> outs w" "m' out = Some d"
  show "output_depth_ok w m' out d"
  proof (cases "m out")
    case (Some e)
    then have "m out = Some d" using map_le_Some[OF le Some] i by simp
    with assms(1) i(1) output_depth_ok_mono le show ?thesis unfolding depths_ok_def by blast
  qed (use assms(5) i in blast)
qed (use assms(3) in blast)

definition unvisited :: "'w \<Rightarrow> depth_state \<Rightarrow> nat" where
  "unvisited w s = card (outs w - visitedOutputPorts s)"

text \<open>What a call leaves behind when it returns: nothing new is pending.\<close>

definition completes :: "'w \<Rightarrow> depth_state \<Rightarrow> nat \<Rightarrow> depth_state \<Rightarrow> bool" where
  "completes w s p t \<longleftrightarrow> advances w s t \<and> pendingI t = pendingI s \<and> portDepths t p \<noteq> None"

lemma unvisited_mono: "ok w \<Longrightarrow> advances w s t \<Longrightarrow> unvisited w t \<le> unvisited w s"
  unfolding unvisited_def advances_def using finite_outs by (intro card_mono) auto

definition class_inv :: "'w \<Rightarrow> nat \<Rightarrow> depth_state \<Rightarrow> bool" where
  "class_inv w i s \<longleftrightarrow> depths_ok w (portDepths s) \<and> portDepths s i = None \<and>
     (\<forall>out \<in> pendingO s. \<exists>out1 \<in> outs w. (out, out1) \<in> (needs w)\<^sup>* \<and> (\<exists>k \<in> set (deps w out1). i \<in> set (eqv w k))) \<and>
     (\<forall>k \<in> pendingI s. k \<in> ins w \<and>
        (k \<in> set (eqv w i) \<or> (\<exists>j \<in> set (eqv w k). \<exists>out \<in> pendingO s. src w j = Some out)))"

lemma class_source_needed:
  assumes "ok w" "class_inv w i s" "out \<in> pendingO s" "p \<in> set (eqv w i)" "src w p = Some out'"
  shows "(out, out') \<in> (needs w)\<^sup>+"
proof -
  obtain out1 k where o: "out1 \<in> outs w" "(out, out1) \<in> (needs w)\<^sup>*" "k \<in> set (deps w out1)" "i \<in> set (eqv w k)"
    using assms(2,3) unfolding class_inv_def by blast
  have "k \<in> ins w" using deps_ins[OF assms(1) o(1)] o(3) by blast
  then have "eqv w i = eqv w k" using eqv_class[OF assms(1)] o(4) by blast
  then have "(out1, out') \<in> needs w" using o assms(4,5) by (auto simp: needs_def)
  with o(2) show ?thesis by (rule rtrancl_into_trancl1)
qed

lemma source_visit_ok:
  assumes w: "ok w" "i \<in> ins w" and inv: "class_inv w i s" and p: "p \<in> set (eqv w i)" "p \<in> pendingI s"
    and out: "src w p = Some out" and fuel: "2 * unvisited w s \<le> n"
    and visit: "\<And>out s. entry_out w out s \<Longrightarrow> 2 * unvisited w s \<le> n \<Longrightarrow>
      outcome w (\<lambda>_ t. completes w s out t) (visit out s)"
  shows "outcome w (\<lambda>_ t. completes w s out t \<and> out \<notin> pendingO s \<and> class_inv w i t)
    (if portDepths s out = None
     then if out \<in> visitedOutputPorts s then Throw (CausalityLoop out) s else visit out s
     else Ret () s)"
proof (cases "portDepths s out")
  case (Some d)
  have "advances w s s" using inv by (intro advances_refl) (simp add: class_inv_def)
  then show ?thesis using Some inv by (simp add: completes_def pendingO_def domIff)
next
  case None
  have outs: "out \<in> outs w" using src_outs[OF w(1) _ out] eqv_ins[OF w] p(1) by blast
  show ?thesis
  proof (cases "out \<in> visitedOutputPorts s")
    case True
    then have "out \<in> pendingO s" using None by (auto simp: pendingO_def)
    from class_source_needed[OF w(1) inv this p(1) out] True None show ?thesis by (auto simp: on_loop_def)
  next
    case False
    have "(k \<in> set (eqv w i) \<longrightarrow> p \<in> set (eqv w k))" for k using eqv_class[OF w] p(1) by metis
    then have "entry_out w out s"
      using inv outs None False out class_source_needed[OF w(1) inv _ p(1) out]
      unfolding entry_out_def class_inv_def by blast
    note run = visit[OF this fuel]
    have keep: "class_inv w i t" if t: "completes w s out t" for t
    proof -
      have same: "pendingI t = pendingI s" "pendingO t = pendingO s" "depths_ok w (portDepths t)"
        using t by (simp_all add: completes_def advances_def)
      have "portDepths t p = None" using p(2) same(1) by (auto simp: pendingI_def)
      moreover have "p \<in> ins w" "i \<in> set (eqv w p)"
        using p(1) eqv_ins[OF w] eqv_class[OF w p(1)] eqv_refl[OF w] by auto
      ultimately have "portDepths t i = None" using class_undefined[OF w(1) same(3)] by blast
      then show ?thesis using inv same unfolding class_inv_def by simp
    qed
    have "outcome w (\<lambda>_ t. completes w s out t \<and> out \<notin> pendingO s \<and> class_inv w i t) (visit out s)"
      using run by (rule outcome_mono) (use keep False in \<open>auto simp: pendingO_def\<close>)
    with None False show ?thesis by simp
  qed
qed

lemma Max_fold: "finite A \<Longrightarrow> Max (insert (max (a :: int) b) A) = Max (insert a (insert b A))"
  by (cases "A = {}") (auto simp: max.assoc)

text \<open>The loop over a class: when it returns, every source of the class has its depth.\<close>

definition class_done :: "'w \<Rightarrow> nat \<Rightarrow> depth_state \<Rightarrow> nat list \<Rightarrow> int \<Rightarrow> int \<Rightarrow> depth_state \<Rightarrow> bool" where
  "class_done w i s ps depth d t \<longleftrightarrow>
     advances w s t \<and> pendingI t = pendingI s \<union> set ps \<and> portDepths t i = None \<and>
     (\<forall>j \<in> set ps. \<forall>out. src w j = Some out \<longrightarrow> portDepths t out \<noteq> None \<and> out \<notin> pendingO s) \<and>
     d = Max (insert depth (source_rank w (portDepths t) ` set ps))"

lemma class_done_skip:
  assumes "class_done w i u ps depth d t" and "src w p = None" and "0 \<le> depth"
    and "advances w s u" and "pendingI u = insert p (pendingI s)"
  shows "class_done w i s (p # ps) depth d t"
proof -
  have "pendingO u = pendingO s" using assms(4) by (simp add: advances_def)
  moreover have "source_rank w (portDepths t) p = 0" using assms(2) by (simp add: source_rank_def)
  moreover have "max depth 0 = depth" using assms(3) by simp
  ultimately show ?thesis
    using assms(1,2,5) advances_trans[OF assms(4)] Max_fold[of "source_rank w (portDepths t) ` set ps" depth 0]
    by (simp add: class_done_def del: Max_insert)
qed

lemma class_done_step:
  assumes "class_done w i u ps (max depth (e + 1)) d t" and "src w p = Some out"
    and "portDepths u out = Some e" and "out \<notin> pendingO s"
    and "advances w s u" and "pendingI u = insert p (pendingI s)"
  shows "class_done w i s (p # ps) depth d t"
proof -
  have "pendingO u = pendingO s" using assms(5) by (simp add: advances_def)
  moreover have "portDepths u \<subseteq>\<^sub>m portDepths t" using assms(1) unfolding class_done_def advances_def by blast
  then have o: "portDepths t out = Some e" using assms(3) by (rule map_le_Some)
  moreover have "source_rank w (portDepths t) p = e + 1" using assms(2) o by (simp add: source_rank_def)
  moreover have "advances w s t" using assms(1) advances_trans[OF assms(5)] unfolding class_done_def by blast
  moreover have "pendingI t = pendingI s \<union> set (p # ps)" using assms(1,6) unfolding class_done_def by auto
  moreover have "d = Max (insert depth (insert (e + 1) (source_rank w (portDepths t) ` set ps)))"
    using assms(1) Max_fold[of "source_rank w (portDepths t) ` set ps" depth "e + 1"] unfolding class_done_def by simp
  ultimately show ?thesis
    using assms(1,2,4) unfolding class_done_def by (auto simp del: Max_insert)
qed

lemma sources_loop_ok:
  assumes w: "ok w" "i \<in> ins w"
    and visit: "\<And>out s. entry_out w out s \<Longrightarrow> 2 * unvisited w s \<le> n \<Longrightarrow>
      outcome w (\<lambda>_ t. completes w s out t) (visit out s)"
  shows "set ps \<subseteq> set (eqv w i) \<Longrightarrow> class_inv w i s \<Longrightarrow> 0 \<le> depth \<Longrightarrow> 2 * unvisited w s \<le> n \<Longrightarrow>
    outcome w (class_done w i s ps depth) (sources_loop (queries_of w) visit ps depth s)"
proof (induction ps arbitrary: s depth)
  case Nil
  then show ?case by (auto simp: class_inv_def class_done_def intro: advances_refl)
next
  case (Cons p ps)
  let ?s = "s\<lparr>visitedInputPorts := insert p (visitedInputPorts s)\<rparr>"
  have p: "p \<in> set (eqv w i)" "p \<in> ins w" using Cons.prems(1) eqv_ins[OF w] by auto
  have np: "portDepths s p = None"
    using class_undefined[OF w(1) _ w(2) _ p(1)] Cons.prems(2) by (simp add: class_inv_def)
  have pend: "pendingO ?s = pendingO s" "pendingI ?s = insert p (pendingI s)"
    using np by (auto simp: pendingO_def pendingI_def)
  have adv: "advances w s ?s" using Cons.prems(2) pend by (auto simp: advances_def class_inv_def)
  have inv: "class_inv w i ?s" using Cons.prems(2) p pend by (simp add: class_inv_def)
  have fuel: "2 * unvisited w ?s \<le> n" using Cons.prems(4) by (simp add: unvisited_def)
  have ask: "ask (q_source (queries_of w) p) ?s = Ret (src w p) ?s" by (simp add: ask_src[OF w(1) p(2)])
  show ?case
  proof (cases "src w p")
    case None
    have "outcome w (class_done w i ?s ps depth) (sources_loop (queries_of w) visit ps depth ?s)"
      using Cons.IH[of ?s depth] Cons.prems inv fuel by simp
    then have "outcome w (class_done w i s (p # ps) depth) (sources_loop (queries_of w) visit ps depth ?s)"
      by (rule outcome_mono) (rule class_done_skip[OF _ None Cons.prems(3) adv pend(2)])
    then show ?thesis using None ask by simp
  next
    case (Some out)
    have step: "outcome w (\<lambda>_ t. completes w ?s out t \<and> out \<notin> pendingO ?s \<and> class_inv w i t)
      (if portDepths ?s out = None
       then if out \<in> visitedOutputPorts ?s then Throw (CausalityLoop out) ?s else visit out ?s
       else Ret () ?s)"
      by (rule source_visit_ok[OF w inv p(1) _ Some fuel visit]) (simp_all add: pend)
    have rest: "outcome w (class_done w i s (p # ps) depth)
      (case portDepths u out of None \<Rightarrow> Throw OutOfRange u
        | Some d \<Rightarrow> sources_loop (queries_of w) visit ps (if depth < d + 1 then d + 1 else depth) u)"
      if u: "completes w ?s out u \<and> out \<notin> pendingO ?s \<and> class_inv w i u" for u
    proof -
      obtain d where d: "portDepths u out = Some d" using u by (auto simp: completes_def)
      have au: "advances w s u" using u advances_trans[OF adv] by (simp add: completes_def)
      have e: "(if depth < d + 1 then d + 1 else depth) = max depth (d + 1)" by simp
      have "outcome w (class_done w i u ps (max depth (d + 1))) (sources_loop (queries_of w) visit ps (max depth (d + 1)) u)"
        using Cons.IH[of u "max depth (d + 1)"] Cons.prems unvisited_mono[OF w(1) au] u by auto
      then have "outcome w (class_done w i s (p # ps) depth) (sources_loop (queries_of w) visit ps (max depth (d + 1)) u)"
        by (rule outcome_mono) (rule class_done_step[OF _ Some d _ au], use u pend in \<open>auto simp: completes_def\<close>)
      then show ?thesis using d e by simp
    qed
    show ?thesis
      unfolding sources_loop.simps ask Some run_bind.simps option.case
      by (rule outcome_bind[OF step]) (rule rest)
  qed
qed

text \<open>The loop over the inputs of an output port that is being computed.\<close>

definition output_inv :: "'w \<Rightarrow> nat \<Rightarrow> depth_state \<Rightarrow> bool" where
  "output_inv w out s \<longleftrightarrow> depths_ok w (portDepths s) \<and> out \<in> pendingO s \<and>
     (\<forall>out1 \<in> pendingO s. (out1, out) \<in> (needs w)\<^sup>*) \<and>
     (\<forall>k \<in> pendingI s. k \<in> ins w \<and> (\<exists>j \<in> set (eqv w k). \<exists>out1 \<in> pendingO s. src w j = Some out1))"

definition inputs_done :: "'w \<Rightarrow> depth_state \<Rightarrow> nat list \<Rightarrow> int \<Rightarrow> int \<Rightarrow> depth_state \<Rightarrow> bool" where
  "inputs_done w s is depth d t \<longleftrightarrow>
     advances w s t \<and> pendingI t = pendingI s \<and> (\<forall>i \<in> set is. portDepths t i \<noteq> None) \<and>
     d = Max (insert depth ((\<lambda>i. the (portDepths t i)) ` set is))"

lemma input_visit_ok:
  assumes w: "ok w" "out \<in> outs w" and inv: "output_inv w out s" and i: "i \<in> set (deps w out)"
    and fuel: "2 * unvisited w s + 1 \<le> n"
    and visit: "\<And>i s. entry_in w i s \<Longrightarrow> 2 * unvisited w s + 1 \<le> n \<Longrightarrow>
      outcome w (\<lambda>_ t. completes w s i t) (visit i s)"
  shows "outcome w (\<lambda>_ t. completes w s i t \<and> output_inv w out t)
    (if portDepths s i = None
     then if i \<in> visitedInputPorts s then Throw (CausalityLoop i) s else visit i s
     else Ret () s)"
proof -
  have ii: "i \<in> ins w" using deps_ins[OF w] i by blast
  have keep: "output_inv w out t" if "completes w s i t" for t
    using that inv unfolding completes_def advances_def output_inv_def by simp
  show ?thesis
  proof (cases "portDepths s i")
    case (Some d)
    have "completes w s i s" using inv Some by (simp add: output_inv_def completes_def advances_refl)
    with Some keep show ?thesis by simp
  next
    case None
    show ?thesis
    proof (cases "i \<in> visitedInputPorts s")
      case True
      then have "i \<in> pendingI s" using None by (auto simp: pendingI_def)
      then obtain j out1 where "j \<in> set (eqv w i)" "out1 \<in> pendingO s" "src w j = Some out1"
        using inv unfolding output_inv_def by blast
      then have "(out, out1) \<in> needs w" "(out1, out) \<in> (needs w)\<^sup>*"
        using i w(2) inv by (auto simp: needs_def output_inv_def)
      then have "(out, out) \<in> (needs w)\<^sup>+" by (rule rtrancl_into_trancl2)
      then show ?thesis using True None i by (auto simp: on_loop_def)
    next
      case False
      have "entry_in w i s"
        using inv None ii i w(2) eqv_refl[OF w(1) ii] unfolding entry_in_def output_inv_def by blast
      from visit[OF this fuel] have "outcome w (\<lambda>_ t. completes w s i t \<and> output_inv w out t) (visit i s)"
        by (rule outcome_mono) (simp add: keep)
      with None False show ?thesis by simp
    qed
  qed
qed

lemma inputs_loop_ok:
  assumes w: "ok w" "out \<in> outs w"
    and visit: "\<And>i s. entry_in w i s \<Longrightarrow> 2 * unvisited w s + 1 \<le> n \<Longrightarrow>
      outcome w (\<lambda>_ t. completes w s i t) (visit i s)"
  shows "set is \<subseteq> set (deps w out) \<Longrightarrow> output_inv w out s \<Longrightarrow> 2 * unvisited w s + 1 \<le> n \<Longrightarrow>
    outcome w (inputs_done w s is depth) (inputs_loop visit is depth s)"
proof (induction "is" arbitrary: s depth)
  case Nil
  then show ?case by (auto simp: output_inv_def inputs_done_def intro: advances_refl)
next
  case (Cons i ks)
  have i: "i \<in> set (deps w out)" using Cons.prems(1) by simp
  have step: "outcome w (\<lambda>_ t. completes w s i t \<and> output_inv w out t)
    (if portDepths s i = None
     then if i \<in> visitedInputPorts s then Throw (CausalityLoop i) s else visit i s
     else Ret () s)"
    by (rule input_visit_ok[OF w Cons.prems(2) i Cons.prems(3) visit])
  have rest: "outcome w (inputs_done w s (i # ks) depth)
    (case portDepths u i of None \<Rightarrow> Throw OutOfRange u
      | Some d \<Rightarrow> inputs_loop visit ks (if depth < d then d else depth) u)"
    if u: "completes w s i u \<and> output_inv w out u" for u
  proof -
    obtain d where d: "portDepths u i = Some d" using u by (auto simp: completes_def)
    have au: "advances w s u" "pendingI u = pendingI s" using u by (simp_all add: completes_def)
    have e: "(if depth < d then d else depth) = max depth d" by simp
    have run: "outcome w (inputs_done w u ks (max depth d)) (inputs_loop visit ks (max depth d) u)"
      using Cons.IH[of u "max depth d"] Cons.prems unvisited_mono[OF w(1) au(1)] u by auto
    have "inputs_done w s (i # ks) depth d' t" if t: "inputs_done w u ks (max depth d) d' t" for d' t
    proof -
      have "portDepths u \<subseteq>\<^sub>m portDepths t" using t unfolding inputs_done_def advances_def by blast
      then have o: "portDepths t i = Some d" using d by (rule map_le_Some)
      have "advances w s t" using t advances_trans[OF au(1)] unfolding inputs_done_def by blast
      moreover have "d' = Max (insert depth (insert d ((\<lambda>i. the (portDepths t i)) ` set ks)))"
        using t Max_fold[of "(\<lambda>i. the (portDepths t i)) ` set ks" depth d] unfolding inputs_done_def by simp
      ultimately show ?thesis using t o au(2) unfolding inputs_done_def by (simp del: Max_insert)
    qed
    with run have "outcome w (inputs_done w s (i # ks) depth) (inputs_loop visit ks (max depth d) u)"
      by (rule outcome_mono)
    then show ?thesis using d e by simp
  qed
  show ?case unfolding inputs_loop.simps by (rule outcome_bind[OF step]) (rule rest)
qed

section \<open>Correctness of the recursion\<close>

lemma fold_upd: "fold (\<lambda>p m. m(p \<mapsto> d)) ps m k = (if k \<in> set ps then Some d else m k)"
  by (induction ps arbitrary: m) auto

lemma depth_assign:
  "portDepths (t\<lparr>portDepths := m\<rparr>) = m"
  "visitedInputPorts (t\<lparr>portDepths := m\<rparr>) = visitedInputPorts t"
  "visitedOutputPorts (t\<lparr>portDepths := m\<rparr>) = visitedOutputPorts t"
  by simp_all

lemma pending_assign:
  assumes "dom m = dom (portDepths t) \<union> X"
  shows "pendingO (t\<lparr>portDepths := m\<rparr>) = pendingO t - X" "pendingI (t\<lparr>portDepths := m\<rparr>) = pendingI t - X"
  unfolding pendingO_def pendingI_def depth_assign assms by blast+

lemma pending_outs: "entry_in w i s \<Longrightarrow> pendingO s \<subseteq> outs w"
  unfolding entry_in_def needs_def by (auto elim: converse_rtranclE)

lemma input_call_ok:
  assumes w: "ok w" and e: "entry_in w i s" and fuel: "2 * unvisited w s \<le> n"
    and visit: "\<And>out s. entry_out w out s \<Longrightarrow> 2 * unvisited w s \<le> n \<Longrightarrow>
      outcome w (\<lambda>_ t. completes w s out t) (ComputeAtomicAccessorOutputPortDepth (queries_of w) n out s)"
  shows "outcome w (\<lambda>_ t. completes w s i t) (ComputeAtomicAccessorInputPortDepth (queries_of w) (Suc n) i s)"
proof -
  have i: "i \<in> ins w" using e by (simp add: entry_in_def)
  have inv: "class_inv w i s" using e unfolding entry_in_def class_inv_def by blast
  have loop: "outcome w (class_done w i s (eqv w i) 0)
      (sources_loop (queries_of w) (ComputeAtomicAccessorOutputPortDepth (queries_of w) n) (eqv w i) 0 s)"
    by (rule sources_loop_ok[OF w i visit _ inv _ fuel]) simp_all
  have fin: "completes w s i (t\<lparr>portDepths := fold (\<lambda>p m. m(p \<mapsto> d)) (eqv w i) (portDepths t)\<rparr>)"
    if t: "class_done w i s (eqv w i) 0 d t" for d t
  proof -
    let ?m = "fold (\<lambda>p m. m(p \<mapsto> d)) (eqv w i) (portDepths t)"
    have adv: "advances w s t" and ti: "portDepths t i = None" and pi: "pendingI t = pendingI s \<union> set (eqv w i)"
      and so: "\<forall>j \<in> set (eqv w i). \<forall>out. src w j = Some out \<longrightarrow> portDepths t out \<noteq> None \<and> out \<notin> pendingO s"
      and d: "d = Max (insert 0 (source_rank w (portDepths t) ` set (eqv w i)))"
      using t unfolding class_done_def by blast+
    have ok': "depths_ok w (portDepths t)" using adv by (simp add: advances_def)
    have new: "portDepths t j = None" if "j \<in> set (eqv w i)" for j
      using class_undefined[OF w ok' i ti that] .
    then have le: "portDepths t \<subseteq>\<^sub>m ?m" by (auto simp: map_le_def fold_upd)
    have rank: "source_rank w ?m j = source_rank w (portDepths t) j" if "j \<in> set (eqv w i)" for j
      using source_rank_mono[OF le] so that by blast
    have "input_depth_ok w ?m j d" if j: "j \<in> set (eqv w i)" for j
    proof -
      have "source_rank w ?m ` set (eqv w i) = source_rank w (portDepths t) ` set (eqv w i)"
        by (rule image_cong) (simp_all add: rank)
      then show ?thesis
        using so d map_le_Some[OF le] eqv_class[OF w i j] unfolding input_depth_ok_def by (fastforce simp: fold_upd)
    qed
    note fresh = this
    have domm: "dom ?m = dom (portDepths t) \<union> set (eqv w i)" by (auto simp: fold_upd split: if_splits)
    have "dom ?m \<subseteq> ins w \<union> outs w" using ok' eqv_ins[OF w i] unfolding domm depths_ok_def by blast
    then have "depths_ok w ?m"
      by (rule depths_ok_extend[OF ok' le])
        (use fresh eqv_ins[OF w i] disjoint[OF w] in \<open>auto simp: fold_upd split: if_splits\<close>)
    moreover have "pendingO s \<inter> set (eqv w i) = {}"
      using pending_outs[OF e] eqv_ins[OF w i] disjoint[OF w] by blast
    moreover have "pendingI s \<inter> set (eqv w i) = {}"
    proof (rule ccontr)
      assume "pendingI s \<inter> set (eqv w i) \<noteq> {}"
      then obtain k where k: "k \<in> pendingI s" "k \<in> set (eqv w i)" by blast
      then obtain j out where "j \<in> set (eqv w k)" "out \<in> pendingO s" "src w j = Some out"
        using e unfolding entry_in_def by blast
      with so eqv_class[OF w i k(2)] show False by auto
    qed
    moreover have "portDepths s \<subseteq>\<^sub>m ?m" using adv le map_le_trans unfolding advances_def by blast
    moreover note pending_assign[OF domm]
    moreover have "?m i \<noteq> None" using eqv_refl[OF w i] by (simp add: fold_upd)
    ultimately show ?thesis using adv pi unfolding completes_def advances_def depth_assign by blast
  qed
  show ?thesis
    unfolding ComputeAtomicAccessorInputPortDepth.simps ask_eqv[OF w i] ask.simps run_bind.simps
    by (rule outcome_bind[OF loop]) (simp add: fin)
qed

lemma output_call_ok:
  assumes w: "ok w" and e: "entry_out w out s" and fuel: "2 * unvisited w s \<le> Suc n"
    and visit: "\<And>i s. entry_in w i s \<Longrightarrow> 2 * unvisited w s + 1 \<le> n \<Longrightarrow>
      outcome w (\<lambda>_ t. completes w s i t) (ComputeAtomicAccessorInputPortDepth (queries_of w) n i s)"
  shows "outcome w (\<lambda>_ t. completes w s out t) (ComputeAtomicAccessorOutputPortDepth (queries_of w) (Suc n) out s)"
proof -
  let ?s = "s\<lparr>visitedOutputPorts := insert out (visitedOutputPorts s)\<rparr>"
  have out: "out \<in> outs w" "portDepths s out = None" "out \<notin> visitedOutputPorts s"
    using e by (simp_all add: entry_out_def)
  have pend: "pendingO ?s = insert out (pendingO s)" "pendingI ?s = pendingI s"
    using out by (auto simp: pendingO_def pendingI_def)
  have inv: "output_inv w out ?s"
    using e pend unfolding entry_out_def output_inv_def by (auto intro: trancl_into_rtrancl)
  have "outs w - visitedOutputPorts ?s = (outs w - visitedOutputPorts s) - {out}" by auto
  then have "unvisited w ?s + 1 \<le> unvisited w s"
    using out finite_outs[OF w] unfolding unvisited_def
    by (metis DiffI Suc_eq_plus1 card_Suc_Diff1 finite_Diff order_refl)
  then have fuel': "2 * unvisited w ?s + 1 \<le> n" using fuel by simp
  have loop: "outcome w (inputs_done w ?s (deps w out) 0)
      (inputs_loop (ComputeAtomicAccessorInputPortDepth (queries_of w) n) (deps w out) 0 ?s)"
    by (rule inputs_loop_ok[OF w out(1) visit _ inv fuel']) simp_all
  have fin: "completes w s out (t\<lparr>portDepths := (portDepths t)(out \<mapsto> d)\<rparr>)"
    if t: "inputs_done w ?s (deps w out) 0 d t" for d t
  proof -
    let ?m = "(portDepths t)(out \<mapsto> d)"
    have adv: "advances w ?s t" and pi: "pendingI t = pendingI s"
      and so: "\<forall>i \<in> set (deps w out). portDepths t i \<noteq> None"
      and d: "d = Max (insert 0 ((\<lambda>i. the (portDepths t i)) ` set (deps w out)))"
      using t pend unfolding inputs_done_def by blast+
    have ok': "depths_ok w (portDepths t)" and po: "pendingO t = insert out (pendingO s)"
      using adv pend by (simp_all add: advances_def)
    have "out \<in> pendingO t" using po by simp
    then have new: "portDepths t out = None" by (auto simp: pendingO_def)
    then have le: "portDepths t \<subseteq>\<^sub>m ?m" by (auto simp: map_le_def)
    have no: "out \<notin> set (deps w out)" using deps_ins[OF w out(1)] disjoint[OF w] out(1) by blast
    have "(\<lambda>i. the (?m i)) ` set (deps w out) = (\<lambda>i. the (portDepths t i)) ` set (deps w out)"
      using no by (intro image_cong) auto
    then have od: "output_depth_ok w ?m out d" using so d unfolding output_depth_ok_def by (simp del: Max_insert)
    have domm: "dom ?m = dom (portDepths t) \<union> {out}" by simp
    have "dom ?m \<subseteq> ins w \<union> outs w" using ok' out(1) unfolding domm depths_ok_def by blast
    then have "depths_ok w ?m"
      by (rule depths_ok_extend[OF ok' le]) (use od out(1) disjoint[OF w] in \<open>auto split: if_splits\<close>)
    moreover note pending_assign[OF domm]
    moreover have "out \<notin> pendingO s" "out \<notin> pendingI s"
      using out e disjoint[OF w] unfolding pendingO_def entry_out_def by blast+
    moreover have "portDepths s \<subseteq>\<^sub>m ?m" using adv le map_le_trans unfolding advances_def by fastforce
    moreover have "visitedOutputPorts s \<subseteq> visitedOutputPorts t" using adv unfolding advances_def by auto
    ultimately show ?thesis using po pi unfolding completes_def advances_def depth_assign by simp
  qed
  show ?thesis
    unfolding ComputeAtomicAccessorOutputPortDepth.simps ask_deps[OF w out(1)] ask.simps run_bind.simps
    by (rule outcome_bind[OF loop]) (simp add: fin)
qed

lemma depth_calls_ok:
  assumes w: "ok w"
  shows "(\<forall>i s. entry_in w i s \<longrightarrow> 2 * unvisited w s + 1 \<le> n \<longrightarrow>
      outcome w (\<lambda>_ t. completes w s i t) (ComputeAtomicAccessorInputPortDepth (queries_of w) n i s)) \<and>
    (\<forall>out s. entry_out w out s \<longrightarrow> 2 * unvisited w s \<le> n \<longrightarrow>
      outcome w (\<lambda>_ t. completes w s out t) (ComputeAtomicAccessorOutputPortDepth (queries_of w) n out s))"
proof (induction n)
  case 0
  have "0 < unvisited w s" if "entry_out w out s" for out s
    using that finite_outs[OF w] unfolding unvisited_def entry_out_def by (auto simp: card_gt_0_iff)
  then show ?case by (metis mult_is_0 le_zero_eq not_gr_zero zero_neq_numeral add_is_0 zero_neq_one)
next
  case (Suc n)
  then show ?case using input_call_ok[OF w] output_call_ok[OF w] by simp
qed

lemma input_depth_correct:
  assumes "ok w" and "depths_ok w m" and "i \<in> ins w" and "m i = None" and "2 * card (outs w) + 1 \<le> n"
  shows "outcome w (\<lambda>_ t. depths_ok w (portDepths t) \<and> m \<subseteq>\<^sub>m portDepths t \<and> portDepths t i \<noteq> None)
    (ComputeAtomicAccessorInputPortDepth (queries_of w) n i (fresh m))"
proof -
  have "entry_in w i (fresh m)" using assms by (simp add: entry_in_def fresh_def pendingO_def pendingI_def)
  moreover have "2 * unvisited w (fresh m) + 1 \<le> n" using assms(5) by (simp add: unvisited_def fresh_def)
  ultimately have "outcome w (\<lambda>_ t. completes w (fresh m) i t)
      (ComputeAtomicAccessorInputPortDepth (queries_of w) n i (fresh m))"
    using depth_calls_ok[OF assms(1), of n] by blast
  then show ?thesis
    by (rule outcome_mono) (simp add: completes_def advances_def fresh_def)
qed

lemma output_depth_correct:
  assumes "ok w" and "depths_ok w m" and "out \<in> outs w" and "m out = None" and "2 * card (outs w) + 1 \<le> n"
  shows "outcome w (\<lambda>_ t. depths_ok w (portDepths t) \<and> m \<subseteq>\<^sub>m portDepths t \<and> portDepths t out \<noteq> None)
    (ComputeAtomicAccessorOutputPortDepth (queries_of w) n out (fresh m))"
proof -
  have "entry_out w out (fresh m)" using assms by (simp add: entry_out_def fresh_def pendingO_def pendingI_def)
  moreover have "2 * unvisited w (fresh m) \<le> n" using assms(5) by (simp add: unvisited_def fresh_def)
  ultimately have "outcome w (\<lambda>_ t. completes w (fresh m) out t)
      (ComputeAtomicAccessorOutputPortDepth (queries_of w) n out (fresh m))"
    using depth_calls_ok[OF assms(1), of n] by blast
  then show ?thesis
    by (rule outcome_mono) (simp add: completes_def advances_def fresh_def)
qed

text \<open>Depths go up along what an output needs, so a loop can have no depths.\<close>

lemma needs_deeper:
  assumes "ok w" and m: "depths_ok w m" and "(out, out') \<in> needs w" and "m out = Some d"
  shows "\<exists>d'. m out' = Some d' \<and> d' < d"
proof -
  obtain i j where n: "out \<in> outs w" "i \<in> set (deps w out)" "j \<in> set (eqv w i)" "src w j = Some out'"
    using assms(3) by (auto simp: needs_def)
  have od: "output_depth_ok w m out d" using m n(1) assms(4) by (simp add: depths_ok_def)
  then obtain e where e: "m i = Some e" using n(2) unfolding output_depth_ok_def by blast
  have "i \<in> ins w" using deps_ins[OF assms(1) n(1)] n(2) by blast
  then have id: "input_depth_ok w m i e" using m e by (simp add: depths_ok_def)
  then obtain d' where d': "m out' = Some d'" using n(3,4) unfolding input_depth_ok_def by blast
  have "source_rank w m j \<le> e" using id n(3) unfolding input_depth_ok_def by (simp add: Max_ge)
  moreover have "the (m i) \<le> d" using od n(2) unfolding output_depth_ok_def by (simp add: Max_ge)
  ultimately show ?thesis using d' e n(4) by (simp add: source_rank_def)
qed

lemma no_loop_with_depth:
  assumes "ok w" and "depths_ok w m" and "(out, out') \<in> (needs w)\<^sup>+" and "m out = Some d"
  shows "\<exists>d'. m out' = Some d' \<and> d' < d"
  using assms(3,4)
proof (induction rule: trancl_induct)
  case (base y)
  then show ?case using needs_deeper[OF assms(1,2)] by blast
next
  case (step y z)
  then show ?case using needs_deeper[OF assms(1,2)] by (meson less_trans)
qed

end

end
