(* ===== verification/HostPriorities.thy ===== *)
theory HostPriorities
  imports HostDepths
begin

text \<open>
  The rest of the priority computation of \<open>src/src/HostImpl.cpp\<close> (lines 221 to 304, 432 to
  446): where an input port's data comes from, the depth of an accessor, and the priorities
  that follow. The questions of the depth recursion are answered from the model here, which
  interprets the causality locale.
\<close>

section \<open>The questions, answered from the model\<close>

text \<open>
  The loop of \<open>GetSourceOutputPort\<close>: from the source up or down through ports of composites.
  It does not end (\<^const>\<open>None\<close>) when composites are connected in a circle. The result is the port
  of an atomic accessor, or no port (a null pointer) when the chain stops at a composite.
\<close>

partial_function (option) source_walk :: "('e, 'u) world \<Rightarrow> nat \<Rightarrow> nat option answer" where
  "source_walk w p =
     (case ports w p of
        None \<Rightarrow> Some (Inl (Fatal DanglingPointer))
      | Some pt \<Rightarrow>
          (case accessors w (p_owner pt) of
             None \<Rightarrow> Some (Inl (Fatal DanglingPointer))
           | Some x \<Rightarrow>
               if \<not> IsComposite x then Some (Inr (Some p))
               else (case m_source pt of None \<Rightarrow> Some (Inr None) | Some s \<Rightarrow> source_walk w s)))"

declare source_walk.simps [code]

definition GetSourceOutputPort :: "('e, 'u) world \<Rightarrow> 'e port \<Rightarrow> nat option answer" where
  "GetSourceOutputPort w pt =
     (case m_source pt of None \<Rightarrow> Some (Inl (Fatal NullDereference)) | Some s \<Rightarrow> source_walk w s)"

definition ask_source :: "('e, 'u) world \<Rightarrow> nat \<Rightarrow> nat option answer" where
  "ask_source w i =
     (case ports w i of
        None \<Rightarrow> Some (Inl (Fatal DanglingPointer))
      | Some pt \<Rightarrow> if IsConnectedToSource pt then GetSourceOutputPort w pt else Some (Inr None))"

text \<open>The owner of a port, cast to an atomic accessor.\<close>

definition ask_owner :: "(accessor \<Rightarrow> atomic_part \<Rightarrow> 'a answer) \<Rightarrow> ('e, 'u) world \<Rightarrow> nat \<Rightarrow> 'a answer" where
  "ask_owner f w p =
     (case ports w p of
        None \<Rightarrow> Some (Inl (Fatal DanglingPointer))
      | Some pt \<Rightarrow>
          (case accessors w (p_owner pt) of
             None \<Rightarrow> Some (Inl (Fatal DanglingPointer))
           | Some x \<Rightarrow>
               (case a_kind x of
                  Composite _ \<Rightarrow> Some (Inl (Fatal DanglingPointer))
                | Atomic d \<Rightarrow> f x d)))"

definition model_queries :: "('e, 'u) world \<Rightarrow> queries" where
  "model_queries w =
     \<lparr>q_equivalent = (\<lambda>i. ask_owner (\<lambda>x d. map_option Inr (GetEquivalentPorts x d i)) w i),
      q_source = ask_source w,
      q_dependencies = (\<lambda>out. ask_owner (\<lambda>x d. Some (Inr (GetInputPortDependencies x d out))) w out)\<rparr>"

section \<open>Depths of accessors\<close>

record priority_state =
  ps_portDepths :: "nat \<Rightarrow> int option"
  ps_accessorDepths :: "(int, nat list) smap"

text \<open>
  The two loops over an accessor's ports: a port without depth starts the recursion with fresh
  sets of visited ports.
\<close>

fun ports_loop ::
  "(nat \<Rightarrow> depth_state \<Rightarrow> (unit, depth_state) run) \<Rightarrow> (int \<Rightarrow> int \<Rightarrow> int) \<Rightarrow> nat list \<Rightarrow> int
     \<Rightarrow> (nat \<Rightarrow> int option) \<Rightarrow> (int, nat \<Rightarrow> int option) run" where
  "ports_loop visit pick [] depth m = Ret depth m"
| "ports_loop visit pick (p # ps) depth m =
     run_bind
       (if m p = None
        then (case visit p (fresh m) of
                Ret _ t \<Rightarrow> Ret () (portDepths t) | Throw e t \<Rightarrow> Throw e (portDepths t) | Diverge \<Rightarrow> Diverge)
        else Ret () m)
       (\<lambda>_ m. case m p of None \<Rightarrow> Throw OutOfRange m | Some d \<Rightarrow> ports_loop visit pick ps (pick depth d) m)"

definition depths_at :: "int \<Rightarrow> (int, nat list) smap \<Rightarrow> nat list" where
  "depths_at d m = (case map_of m d of None \<Rightarrow> [] | Some as \<Rightarrow> as)"

definition ComputeAtomicAccessorDepth ::
  "('e, 'u) world \<Rightarrow> nat \<Rightarrow> nat \<Rightarrow> accessor \<Rightarrow> priority_state \<Rightarrow> (int, priority_state) run" where
  "ComputeAtomicAccessorDepth w n a x s =
     (let q = model_queries w;
          r = run_bind
            (ports_loop (ComputeAtomicAccessorInputPortDepth q n) (\<lambda>d e. if e > d then e else d)
               (GetInputPorts x) 0 (ps_portDepths s))
            (\<lambda>maximumInputDepth m. run_bind
               (ports_loop (ComputeAtomicAccessorOutputPortDepth q n) (\<lambda>d e. if e < d then e else d)
                  (GetOutputPorts x) INT_MAX m)
               (\<lambda>minimumOutputDepth. Ret (if HasOutputPorts x then minimumOutputDepth else maximumInputDepth)))
      in case r of
           Diverge \<Rightarrow> Diverge
         | Throw e m \<Rightarrow> Throw e (s\<lparr>ps_portDepths := m\<rparr>)
         | Ret depth m \<Rightarrow> Ret depth (s\<lparr>ps_portDepths := m,
             ps_accessorDepths := smap_put depth (depths_at depth (ps_accessorDepths s) @ [a]) (ps_accessorDepths s)\<rparr>))"

text \<open>The loop over the children, with the computation for one child as a parameter.\<close>

fun children_loop ::
  "(nat \<Rightarrow> priority_state \<Rightarrow> (int, priority_state) run) \<Rightarrow> nat list \<Rightarrow> int \<Rightarrow> priority_state
     \<Rightarrow> (int, priority_state) run" where
  "children_loop f [] minChildDepth s = Ret minChildDepth s"
| "children_loop f (b # bs) minChildDepth s =
     run_bind (f b s) (\<lambda>childDepth s. children_loop f bs (min minChildDepth childDepth) s)"

text \<open>The first bound is the depth of the tree of accessors, the second that of the port recursion.\<close>

fun ComputeAccessorDepth :: "('e, 'u) world \<Rightarrow> nat \<Rightarrow> nat \<Rightarrow> nat \<Rightarrow> priority_state \<Rightarrow> (int, priority_state) run" where
  "ComputeAccessorDepth w n 0 a s = Diverge"
| "ComputeAccessorDepth w n (Suc k) a s =
     (case accessors w a of
        None \<Rightarrow> Throw (Fatal DanglingPointer) s
      | Some x \<Rightarrow>
          (case a_kind x of
             Atomic _ \<Rightarrow> ComputeAtomicAccessorDepth w n a x s
           | Composite c \<Rightarrow>
               run_bind (children_loop (ComputeAccessorDepth w n k) (GetChildren c) INT_MAX s)
                 (\<lambda>depth s. Ret depth (s\<lparr>ps_accessorDepths :=
                    smap_put depth (a # depths_at depth (ps_accessorDepths s)) (ps_accessorDepths s)\<rparr>))))"

section \<open>Priorities\<close>

definition UpdateModelPriority :: int where
  "UpdateModelPriority = 0"

definition HostPriority :: int where
  "HostPriority = UpdateModelPriority + 1"

fun assign_accessors :: "bool \<Rightarrow> nat list \<Rightarrow> int \<Rightarrow> (int, 'e, 'u) op" where
  "assign_accessors updateCallbacks [] priority w = Ret priority w"
| "assign_accessors updateCallbacks (a # as) priority w =
     with_accessor a (\<lambda>x w.
       run_bind (if updateCallbacks then HandlePriorityUpdate (GetPriority x) priority w else Ret () w)
         (\<lambda>_ w. if fits_int (priority + 1)
            then assign_accessors updateCallbacks as (priority + 1) (SetPriority a priority w)
            else Throw (Fatal SignedOverflow) (SetPriority a priority w))) w"

fun assign_depths :: "bool \<Rightarrow> (int, nat list) smap \<Rightarrow> int \<Rightarrow> (unit, 'e, 'u) op" where
  "assign_depths updateCallbacks [] priority w = Ret () w"
| "assign_depths updateCallbacks ((depth, as) # es) priority w =
     run_bind (assign_accessors updateCallbacks as (max priority depth) w)
       (\<lambda>priority. assign_depths updateCallbacks es priority)"

definition port_fuel :: "('e, 'u) world \<Rightarrow> nat" where
  "port_fuel w = 2 * nextPort w + 1"

definition ComputeAccessorPriorities :: "nat \<Rightarrow> nat \<Rightarrow> bool \<Rightarrow> (unit, 'e, 'u) op" where
  "ComputeAccessorPriorities fuel host updateCallbacks w =
     (case ComputeAccessorDepth w (port_fuel w) fuel host
             \<lparr>ps_portDepths = (\<lambda>_. None), ps_accessorDepths = []\<rparr> of
        Diverge \<Rightarrow> Diverge
      | Throw e _ \<Rightarrow> Throw e w
      | Ret _ s \<Rightarrow> assign_depths updateCallbacks (ps_accessorDepths s) HostPriority w)"

section \<open>The model answers the causality questions\<close>

definition input_ports :: "('e, 'u) world \<Rightarrow> nat set" where
  "input_ports w = {i. \<exists>a x d. accessors w a = Some x \<and> a_kind x = Atomic d \<and> i \<in> set (GetInputPorts x)}"

definition output_ports :: "('e, 'u) world \<Rightarrow> nat set" where
  "output_ports w = {p. \<exists>a x d. accessors w a = Some x \<and> a_kind x = Atomic d \<and> p \<in> set (GetOutputPorts x)}"

fun answer_or :: "'a \<Rightarrow> 'a answer \<Rightarrow> 'a" where
  "answer_or y (Some (Inr x)) = x"
| "answer_or y _ = y"

text \<open>
  A model is sound for the computation when its ports are well formed and every chain of
  sources from an atomic input ends, at an output of an atomic accessor if it reaches one.
\<close>

definition causal_ok :: "('e, 'u) world \<Rightarrow> bool" where
  "causal_ok w \<longleftrightarrow> world_ok w \<and>
     (\<forall>i \<in> input_ports w. \<exists>s. ask_source w i = Some (Inr s) \<and> (\<forall>p. s = Some p \<longrightarrow> p \<in> output_ports w))"

lemma port_owner:
  assumes "world_ok w" and "accessors w a = Some x"
  shows "i \<in> set (GetInputPorts x) \<Longrightarrow> \<exists>pt. ports w i = Some pt \<and> p_owner pt = a \<and> p_kind pt = InputPort"
    and "i \<in> set (GetOutputPorts x) \<Longrightarrow> \<exists>pt. ports w i = Some pt \<and> p_owner pt = a \<and> p_kind pt \<noteq> InputPort"
proof -
  have "named_ports_ok (ports w) a True (m_inputPorts x) (m_orderedInputPorts x)"
      "named_ports_ok (ports w) a False (m_outputPorts x) (m_orderedOutputPorts x)"
    using world_ok_accessor[OF assms] unfolding accessor_ok_def by blast+
  then show "i \<in> set (GetInputPorts x) \<Longrightarrow> \<exists>pt. ports w i = Some pt \<and> p_owner pt = a \<and> p_kind pt = InputPort"
    "i \<in> set (GetOutputPorts x) \<Longrightarrow> \<exists>pt. ports w i = Some pt \<and> p_owner pt = a \<and> p_kind pt \<noteq> InputPort"
    unfolding named_ports_ok_def GetInputPorts_def GetOutputPorts_def port_of_def ran_def by blast+
qed

lemma ask_owner_eq:
  assumes "world_ok w" and "accessors w a = Some x" and "a_kind x = Atomic d"
    and "p \<in> set (GetInputPorts x) \<union> set (GetOutputPorts x)"
  shows "ask_owner f w p = f x d"
  using port_owner[OF assms(1,2), of p] assms(2,3,4) by (auto simp: ask_owner_def)

definition model_eqv :: "('e, 'u) world \<Rightarrow> nat \<Rightarrow> nat list" where
  "model_eqv w i = answer_or [] (q_equivalent (model_queries w) i)"

definition model_src :: "('e, 'u) world \<Rightarrow> nat \<Rightarrow> nat option" where
  "model_src w i = answer_or None (ask_source w i)"

definition model_deps :: "('e, 'u) world \<Rightarrow> nat \<Rightarrow> nat list" where
  "model_deps w out = answer_or [] (q_dependencies (model_queries w) out)"

lemma model_eqv_eq:
  assumes "world_ok w" and x: "accessors w a = Some x" "a_kind x = Atomic d" and i: "i \<in> set (GetInputPorts x)"
  shows "\<exists>ps. q_equivalent (model_queries w) i = Some (Inr ps) \<and> model_eqv w i = ps \<and>
    GetEquivalentPorts x d i = Some ps \<and> i \<in> set ps \<and> set ps \<subseteq> set (GetInputPorts x)"
proof -
  have ok: "kind_ok (Atomic d)"
    using world_ok_accessor[OF assms(1) x(1)] x(2) unfolding accessor_ok_def by metis
  obtain ps where ps: "GetEquivalentPorts x d i = Some ps"
      "set ps = (if GetOutputPorts x = [] then set (GetInputPorts x) else (port_links x d)\<^sup>* `` {i})"
    using GetEquivalentPorts_set[OF ok i] by blast
  have "i \<in> set ps" "set ps \<subseteq> set (GetInputPorts x)"
    using ps(2) i port_links_star[OF ok i] by (auto split: if_splits)
  moreover have "q_equivalent (model_queries w) i = Some (Inr ps)"
    using ask_owner_eq[OF assms(1) x, of i "\<lambda>x d. map_option Inr (GetEquivalentPorts x d i)"] i ps(1)
    by (simp add: model_queries_def)
  ultimately show ?thesis using ps(1) by (simp add: model_eqv_def)
qed

lemma model_deps_eq:
  assumes "world_ok w" and x: "accessors w a = Some x" "a_kind x = Atomic d" and p: "out \<in> set (GetOutputPorts x)"
  shows "q_dependencies (model_queries w) out = Some (Inr (GetInputPortDependencies x d out)) \<and>
    model_deps w out = GetInputPortDependencies x d out"
  using ask_owner_eq[OF assms(1) x, of out "\<lambda>x d. Some (Inr (GetInputPortDependencies x d out))"] p
  by (simp add: model_queries_def model_deps_def)

interpretation causal: causality model_queries input_ports output_ports model_eqv model_src model_deps causal_ok
proof unfold_locales
  fix w :: "('a, 'b) world" and i
  assume ok: "causal_ok w"
  then have wok: "world_ok w" by (simp add: causal_ok_def)
  show "finite (output_ports w)"
  proof (rule finite_subset)
    show "output_ports w \<subseteq> {..< nextPort w}"
    proof
      fix p assume "p \<in> output_ports w"
      then obtain a x where "accessors w a = Some x" "p \<in> set (GetOutputPorts x)" by (auto simp: output_ports_def)
      from port_owner(2)[OF wok this] have "ports w p \<noteq> None" by auto
      then show "p \<in> {..< nextPort w}" using wok unfolding world_ok_def by (meson lessThan_iff not_le)
    qed
  qed simp
  show "input_ports w \<inter> output_ports w = {}"
    using port_owner[OF wok] unfolding input_ports_def output_ports_def by fastforce
  {
    fix out assume "out \<in> output_ports w"
    then obtain a x d where x: "accessors w a = Some x" "a_kind x = Atomic d" "out \<in> set (GetOutputPorts x)"
      by (auto simp: output_ports_def)
    from model_deps_eq[OF wok this]
    show "q_dependencies (model_queries w) out = Some (Inr (model_deps w out))" by simp
    have "set (GetInputPortDependencies x d out) \<subseteq> set (GetInputPorts x)"
      by (auto simp: set_GetInputPortDependencies)
    then show "set (model_deps w out) \<subseteq> input_ports w"
      using model_deps_eq[OF wok x] x(1,2) unfolding input_ports_def by auto
  }
  assume i: "i \<in> input_ports w"
  then obtain s where s: "ask_source w i = Some (Inr s)" "\<And>p. s = Some p \<Longrightarrow> p \<in> output_ports w"
    using ok unfolding causal_ok_def by blast
  then show "q_source (model_queries w) i = Some (Inr (model_src w i))"
    by (simp add: model_queries_def model_src_def)
  show "model_src w i = Some out \<Longrightarrow> out \<in> output_ports w" for out
    using s by (simp add: model_src_def)
  from i obtain a x d where x: "accessors w a = Some x" "a_kind x = Atomic d" and p: "i \<in> set (GetInputPorts x)"
    by (auto simp: input_ports_def)
  obtain ps where ps: "q_equivalent (model_queries w) i = Some (Inr ps)" "model_eqv w i = ps"
      "GetEquivalentPorts x d i = Some ps" "i \<in> set ps" "set ps \<subseteq> set (GetInputPorts x)"
    using model_eqv_eq[OF wok x p] by blast
  show "q_equivalent (model_queries w) i = Some (Inr (model_eqv w i))" using ps by simp
  show "i \<in> set (model_eqv w i)" using ps by simp
  show "set (model_eqv w i) \<subseteq> input_ports w" using ps x unfolding input_ports_def by blast
  fix j assume j: "j \<in> set (model_eqv w i)"
  have "kind_ok (Atomic d)"
    using world_ok_accessor[OF wok x(1)] x(2) unfolding accessor_ok_def by metis
  then have "GetEquivalentPorts x d j = Some ps"
    using GetEquivalentPorts_same[OF _ p ps(3)] j ps(2) by simp
  moreover have "j \<in> set (GetInputPorts x)" using j ps by blast
  ultimately show "model_eqv w j = model_eqv w i"
    using model_eqv_eq[OF wok x, of j] ps(2) by auto
qed

section \<open>The depth of an accessor\<close>

text \<open>
  The specification: the depth of an atomic accessor is the least depth of its outputs, or,
  without outputs, the largest depth of its inputs; that of a composite is the least depth of
  its children. The numbers are the bound on the depth of the tree.
\<close>

definition atomic_depth :: "(nat \<Rightarrow> int option) \<Rightarrow> accessor \<Rightarrow> int" where
  "atomic_depth m x =
     (if HasOutputPorts x then fold (\<lambda>p d. min d (the (m p))) (GetOutputPorts x) INT_MAX
      else fold (\<lambda>p d. max d (the (m p))) (GetInputPorts x) 0)"

fun accessor_depth :: "('e, 'u) world \<Rightarrow> (nat \<Rightarrow> int option) \<Rightarrow> nat \<Rightarrow> nat \<Rightarrow> int" where
  "accessor_depth w m 0 a = INT_MAX"
| "accessor_depth w m (Suc k) a =
     (case accessors w a of
        None \<Rightarrow> INT_MAX
      | Some x \<Rightarrow>
          (case a_kind x of
             Atomic _ \<Rightarrow> atomic_depth m x
           | Composite c \<Rightarrow> fold (\<lambda>b d. min d (accessor_depth w m k b)) (GetChildren c) INT_MAX))"

fun tree_ok :: "('e, 'u) world \<Rightarrow> nat \<Rightarrow> nat \<Rightarrow> bool" where
  "tree_ok w 0 a = False"
| "tree_ok w (Suc k) a =
     (case accessors w a of
        None \<Rightarrow> False
      | Some x \<Rightarrow>
          (case a_kind x of Atomic _ \<Rightarrow> True | Composite c \<Rightarrow> \<forall>b \<in> set (GetChildren c). tree_ok w k b))"

fun below :: "('e, 'u) world \<Rightarrow> nat \<Rightarrow> nat \<Rightarrow> nat list" where
  "below w 0 a = []"
| "below w (Suc k) a =
     (case accessors w a of
        None \<Rightarrow> []
      | Some x \<Rightarrow>
          (case a_kind x of Atomic _ \<Rightarrow> [a] | Composite c \<Rightarrow> a # concat (map (below w k) (GetChildren c))))"

lemma ports_loop_ok:
  assumes visit: "\<And>p m. p \<in> P \<Longrightarrow> causal.depths_ok w m \<Longrightarrow> m p = None \<Longrightarrow>
      causal.outcome w (\<lambda>_ t. causal.depths_ok w (portDepths t) \<and> m \<subseteq>\<^sub>m portDepths t \<and> portDepths t p \<noteq> None)
        (visit p (fresh m))"
  shows "set ps \<subseteq> P \<Longrightarrow> causal.depths_ok w m \<Longrightarrow>
    causal.outcome w (\<lambda>d m'. causal.depths_ok w m' \<and> m \<subseteq>\<^sub>m m' \<and> (\<forall>p \<in> set ps. m' p \<noteq> None) \<and>
        d = fold (\<lambda>p d. pick d (the (m' p))) ps depth)
      (ports_loop visit pick ps depth m)"
proof (induction ps arbitrary: m depth)
  case (Cons p ps)
  let ?r = "if m p = None
    then (case visit p (fresh m) of
            Ret _ t \<Rightarrow> Ret () (portDepths t) | Throw e t \<Rightarrow> Throw e (portDepths t) | Diverge \<Rightarrow> Diverge)
    else Ret () m"
  have step: "causal.outcome w (\<lambda>_ m1. causal.depths_ok w m1 \<and> m \<subseteq>\<^sub>m m1 \<and> m1 p \<noteq> None) ?r"
    using visit[of p m] Cons.prems by (cases "visit p (fresh m)") auto
  have rest: "causal.outcome w (\<lambda>d m'. causal.depths_ok w m' \<and> m \<subseteq>\<^sub>m m' \<and> (\<forall>p \<in> set (p # ps). m' p \<noteq> None) \<and>
        d = fold (\<lambda>p d. pick d (the (m' p))) (p # ps) depth)
      (case m1 p of None \<Rightarrow> Throw OutOfRange m1 | Some d \<Rightarrow> ports_loop visit pick ps (pick depth d) m1)"
    if m1: "causal.depths_ok w m1 \<and> m \<subseteq>\<^sub>m m1 \<and> m1 p \<noteq> None" for m1
  proof -
    obtain d where d: "m1 p = Some d" using m1 by auto
    have "causal.outcome w (\<lambda>d' m'. causal.depths_ok w m' \<and> m1 \<subseteq>\<^sub>m m' \<and> (\<forall>p \<in> set ps. m' p \<noteq> None) \<and>
        d' = fold (\<lambda>p d. pick d (the (m' p))) ps (pick depth d)) (ports_loop visit pick ps (pick depth d) m1)"
      using Cons.IH[of m1 "pick depth d"] Cons.prems m1 by simp
    then have "causal.outcome w (\<lambda>d' m'. causal.depths_ok w m' \<and> m \<subseteq>\<^sub>m m' \<and> (\<forall>p \<in> set (p # ps). m' p \<noteq> None) \<and>
        d' = fold (\<lambda>p d. pick d (the (m' p))) (p # ps) depth) (ports_loop visit pick ps (pick depth d) m1)"
    proof (rule causal.outcome_mono)
      fix d' m'
      assume m': "causal.depths_ok w m' \<and> m1 \<subseteq>\<^sub>m m' \<and> (\<forall>p \<in> set ps. m' p \<noteq> None) \<and>
        d' = fold (\<lambda>p d. pick d (the (m' p))) ps (pick depth d)"
      then have le: "m1 \<subseteq>\<^sub>m m'" by simp
      then have "m' p = Some d" using d by (rule causal.map_le_Some)
      moreover have "m \<subseteq>\<^sub>m m'" by (rule map_le_trans[OF _ le]) (simp add: m1)
      ultimately show "causal.depths_ok w m' \<and> m \<subseteq>\<^sub>m m' \<and> (\<forall>p \<in> set (p # ps). m' p \<noteq> None) \<and>
        d' = fold (\<lambda>p d. pick d (the (m' p))) (p # ps) depth" using m' by simp
    qed
    then show ?thesis using d by simp
  qed
  show ?case unfolding ports_loop.simps by (rule causal.outcome_bind[OF step]) (rule rest)
qed simp

text \<open>What a depth computation leaves behind: correct port depths, and more of them.\<close>

definition ports_known :: "('e, 'u) world \<Rightarrow> (nat \<Rightarrow> int option) \<Rightarrow> nat \<Rightarrow> bool" where
  "ports_known w m a \<longleftrightarrow> (\<forall>x d. accessors w a = Some x \<and> a_kind x = Atomic d \<longrightarrow>
     (\<forall>p \<in> set (GetInputPorts x) \<union> set (GetOutputPorts x). m p \<noteq> None))"

lemma map_le_known: "m \<subseteq>\<^sub>m m' \<Longrightarrow> m p \<noteq> None \<Longrightarrow> m' p \<noteq> None"
  by (metis domIff map_le_def)

lemma ports_known_mono: "ports_known w m a \<Longrightarrow> m \<subseteq>\<^sub>m m' \<Longrightarrow> ports_known w m' a"
  unfolding ports_known_def by (meson map_le_known)

lemma card_output_ports: "world_ok w \<Longrightarrow> 2 * card (output_ports w) + 1 \<le> port_fuel w"
proof -
  assume wok: "world_ok w"
  have "output_ports w \<subseteq> {..< nextPort w}"
  proof
    fix p assume "p \<in> output_ports w"
    then obtain a x where "accessors w a = Some x" "p \<in> set (GetOutputPorts x)" by (auto simp: output_ports_def)
    from port_owner(2)[OF wok this] have "ports w p \<noteq> None" by auto
    then show "p \<in> {..< nextPort w}" using wok unfolding world_ok_def by (meson lessThan_iff not_le)
  qed
  then have "card (output_ports w) \<le> nextPort w" using card_mono[of "{..< nextPort w}"] by fastforce
  then show ?thesis by (simp add: port_fuel_def)
qed

end
