(* ===== verification/HostOrder.thy ===== *)
theory HostOrder
  imports HostPriorities
begin

text \<open>
  What the priorities of \<open>src/src/HostImpl.cpp\<close> (lines 221 to 304) mean: how deep a port can
  be, which accessors end up in which bucket of \<open>accessorDepths\<close> and in which order, and the
  order of the priorities that the walk over the buckets hands out.
\<close>

section \<open>How deep a port can be\<close>

context causality
begin

lemma max_zero: "finite A \<Longrightarrow> 0 \<le> Max (insert (0::int) A)" "finite A \<Longrightarrow> Max (insert (0::int) A) \<in> insert 0 A"
  using Max_ge[of "insert 0 A" 0] Max_in[of "insert (0::int) A"] by simp_all

lemma output_depth_source:
  assumes "ok w" and m: "depths_ok w m" and "out \<in> outs w" and "m out = Some d" and "0 < d"
  shows "\<exists>out' \<in> outs w. m out' = Some (d - 1)"
proof -
  have od: "output_depth_ok w m out d" using m assms(3,4) by (simp add: depths_ok_def)
  have "d \<in> insert 0 ((\<lambda>i. the (m i)) ` set (deps w out))"
    using od max_zero(2)[of "(\<lambda>i. the (m i)) ` set (deps w out)"] unfolding output_depth_ok_def by simp
  then obtain i where i: "i \<in> set (deps w out)" "the (m i) = d" using assms(5) by auto
  then have mi: "m i = Some d" using od unfolding output_depth_ok_def by auto
  have ii: "i \<in> ins w" using deps_ins[OF assms(1,3)] i(1) by blast
  then have id: "input_depth_ok w m i d" using m mi by (simp add: depths_ok_def)
  have "d \<in> insert 0 (source_rank w m ` set (eqv w i))"
    using id max_zero(2)[of "source_rank w m ` set (eqv w i)"] unfolding input_depth_ok_def by simp
  then obtain j where j: "j \<in> set (eqv w i)" "source_rank w m j = d" using assms(5) by auto
  then obtain out' where out': "src w j = Some out'" "the (m out') + 1 = d"
    using assms(5) by (cases "src w j") (auto simp: source_rank_def)
  moreover have "m out' \<noteq> None" using id j(1) out'(1) unfolding input_depth_ok_def by blast
  moreover have "out' \<in> outs w" using src_outs[OF assms(1) _ out'(1)] eqv_ins[OF assms(1) ii] j(1) by blast
  ultimately show ?thesis by force
qed

lemma output_depth_nonneg:
  assumes "depths_ok w m" and "out \<in> outs w" and "m out = Some d"
  shows "0 \<le> d"
proof -
  have "d = Max (insert 0 ((\<lambda>i. the (m i)) ` set (deps w out)))"
    using assms unfolding depths_ok_def output_depth_ok_def by blast
  then show ?thesis using max_zero(1) by (metis finite_imageI finite_set)
qed

lemma input_depth_nonneg:
  assumes "depths_ok w m" and "i \<in> ins w" and "m i = Some d"
  shows "0 \<le> d"
proof -
  have "d = Max (insert 0 (source_rank w m ` set (eqv w i)))"
    using assms unfolding depths_ok_def input_depth_ok_def by blast
  then show ?thesis using max_zero(1) by (metis finite_imageI finite_set)
qed

lemma depth_levels:
  assumes "ok w" and "depths_ok w m"
  shows "out \<in> outs w \<Longrightarrow> m out = Some (int n) \<Longrightarrow> e \<le> n \<Longrightarrow> \<exists>out' \<in> outs w. m out' = Some (int e)"
proof (induction n arbitrary: out)
  case (Suc n)
  show ?case
  proof (cases "e = Suc n")
    case False
    obtain out' where "out' \<in> outs w" "m out' = Some (int (Suc n) - 1)"
      using output_depth_source[OF assms Suc.prems(1,2)] by auto
    with Suc.IH[of out'] False Suc.prems(3) show ?thesis by simp
  qed (use Suc.prems in blast)
qed auto

lemma output_depth_bound:
  assumes "ok w" and "depths_ok w m" and "out \<in> outs w" and "m out = Some d"
  shows "d < int (card (outs w))"
proof -
  have "0 \<le> d" using output_depth_nonneg assms by blast
  then obtain n where n: "d = int n" using nonneg_int_cases by blast
  have "{..n} \<subseteq> (\<lambda>p. nat (the (m p))) ` outs w"
  proof
    fix e assume "e \<in> {..n}"
    then obtain p where "p \<in> outs w" "m p = Some (int e)"
      using depth_levels[OF assms(1,2,3), of n e] assms(4) n by auto
    then show "e \<in> (\<lambda>p. nat (the (m p))) ` outs w" by (metis imageI nat_int option.sel)
  qed
  then have "card {..n} \<le> card (outs w)" using finite_outs[OF assms(1)] by (rule surj_card_le[rotated])
  then show ?thesis using n by simp
qed

lemma input_depth_bound:
  assumes "ok w" and m: "depths_ok w m" and i: "i \<in> ins w" and "m i = Some d"
  shows "d \<le> int (card (outs w))"
proof -
  have id: "input_depth_ok w m i d" using m i assms(4) by (simp add: depths_ok_def)
  have "r \<le> int (card (outs w))" if "r \<in> insert 0 (source_rank w m ` set (eqv w i))" for r
  proof (cases "r = 0")
    case False
    with that obtain j where j: "j \<in> set (eqv w i)" "r = source_rank w m j" by blast
    with False obtain out where out: "src w j = Some out" by (cases "src w j") (auto simp: source_rank_def)
    then have "m out \<noteq> None" using id j(1) unfolding input_depth_ok_def by blast
    then obtain e where e: "m out = Some e" by blast
    moreover have "out \<in> outs w" using src_outs[OF assms(1) _ out] eqv_ins[OF assms(1) i] j(1) by blast
    ultimately have "e < int (card (outs w))" using output_depth_bound[OF assms(1) m] by blast
    then show ?thesis using j(2) out e by (simp add: source_rank_def)
  qed simp
  then show ?thesis using id unfolding input_depth_ok_def by (simp add: Max_le_iff)
qed

end

section \<open>Depths do not change once they are known\<close>

text \<open>
  The accessors of a tree with their depths, and the pairs of a composite and one of its children.
\<close>

fun placements :: "('e, 'u) world \<Rightarrow> (nat \<Rightarrow> int option) \<Rightarrow> nat \<Rightarrow> nat \<Rightarrow> (nat \<times> int) list" where
  "placements w m 0 a = []"
| "placements w m (Suc k) a =
     (case accessors w a of
        None \<Rightarrow> []
      | Some x \<Rightarrow>
          (case a_kind x of
             Atomic _ \<Rightarrow> [(a, atomic_depth m x)]
           | Composite c \<Rightarrow>
               (a, accessor_depth w m (Suc k) a) # concat (map (placements w m k) (GetChildren c))))"

fun parentage :: "('e, 'u) world \<Rightarrow> nat \<Rightarrow> nat \<Rightarrow> (nat \<times> nat) list" where
  "parentage w 0 a = []"
| "parentage w (Suc k) a =
     (case accessors w a of
        None \<Rightarrow> []
      | Some x \<Rightarrow>
          (case a_kind x of
             Atomic _ \<Rightarrow> []
           | Composite c \<Rightarrow>
               map (Pair a) (GetChildren c) @ concat (map (parentage w k) (GetChildren c))))"

definition known :: "('e, 'u) world \<Rightarrow> (nat \<Rightarrow> int option) \<Rightarrow> nat \<Rightarrow> nat \<Rightarrow> bool" where
  "known w m k a \<longleftrightarrow> (\<forall>b \<in> set (below w k a). ports_known w m b)"

lemma known_mono: "known w m k a \<Longrightarrow> m \<subseteq>\<^sub>m m' \<Longrightarrow> known w m' k a"
  unfolding known_def using ports_known_mono by blast

lemma map_le_the: "m \<subseteq>\<^sub>m m' \<Longrightarrow> m p \<noteq> None \<Longrightarrow> m' p = m p"
  unfolding map_le_def by (metis domIff)

lemma atomic_depth_mono:
  assumes "ports_known w m a" and "accessors w a = Some x" and "a_kind x = Atomic d" and "m \<subseteq>\<^sub>m m'"
  shows "atomic_depth m' x = atomic_depth m x"
proof -
  have "m' p = m p" if "p \<in> set (GetInputPorts x) \<union> set (GetOutputPorts x)" for p
  proof (rule map_le_the[OF assms(4)])
    show "m p \<noteq> None" using assms(1,2,3) that unfolding ports_known_def by simp
  qed
  then show ?thesis unfolding atomic_depth_def by (auto intro: fold_cong)
qed

lemma accessor_depth_mono:
  "known w m k a \<Longrightarrow> m \<subseteq>\<^sub>m m' \<Longrightarrow> accessor_depth w m' k a = accessor_depth w m k a"
proof (induction k arbitrary: a)
  case (Suc k)
  show ?case
  proof (cases "accessors w a")
    case (Some x)
    show ?thesis
    proof (cases "a_kind x")
      case (Atomic d)
      then have "ports_known w m a" using Suc.prems(1) Some by (simp add: known_def)
      then show ?thesis using Some Atomic atomic_depth_mono[OF _ Some Atomic Suc.prems(2)] by simp
    next
      case (Composite c)
      then have "known w m k b" if "b \<in> set (GetChildren c)" for b
        using Suc.prems(1) Some that by (auto simp: known_def)
      then have "accessor_depth w m' k b = accessor_depth w m k b" if "b \<in> set (GetChildren c)" for b
        using Suc.IH that Suc.prems(2) by blast
      then show ?thesis using Some Composite by (auto intro: fold_cong)
    qed
  qed simp
qed simp

lemma placements_mono:
  "known w m k a \<Longrightarrow> m \<subseteq>\<^sub>m m' \<Longrightarrow> placements w m' k a = placements w m k a"
proof (induction k arbitrary: a)
  case (Suc k)
  show ?case
  proof (cases "accessors w a")
    case (Some x)
    show ?thesis
    proof (cases "a_kind x")
      case (Atomic d)
      then have "ports_known w m a" using Suc.prems(1) Some by (simp add: known_def)
      then show ?thesis using Some Atomic atomic_depth_mono[OF _ Some Atomic Suc.prems(2)] by simp
    next
      case (Composite c)
      then have "known w m k b" if "b \<in> set (GetChildren c)" for b
        using Suc.prems(1) Some that by (auto simp: known_def)
      then have "map (placements w m' k) (GetChildren c) = map (placements w m k) (GetChildren c)"
        using Suc.IH Suc.prems(2) by simp
      from arg_cong[OF this, of concat] show ?thesis
        unfolding placements.simps Some Composite option.case accessor_kind.case
          accessor_depth_mono[OF Suc.prems] by (rule arg_cong)
    qed
  qed simp
qed simp

lemma placements_below: "map fst (placements w m k a) = below w k a"
proof (induction k arbitrary: a)
  case (Suc k)
  then show ?case
    by (auto simp: map_concat comp_def simp del: accessor_depth.simps
        split: option.splits accessor_kind.splits)
qed simp

section \<open>Buckets\<close>

text \<open>
  A bucket only deepens, at its two ends, so what is in it stays in it and the order of two
  accessors in the buckets never changes.
\<close>

type_synonym buckets = "(int, nat list) smap"

definition deepens :: "buckets \<Rightarrow> buckets \<Rightarrow> bool" where
  "deepens acc acc' \<longleftrightarrow> (\<forall>d. \<exists>xs ys. depths_at d acc' = xs @ depths_at d acc @ ys)"

definition ahead :: "buckets \<Rightarrow> nat \<Rightarrow> nat \<Rightarrow> bool" where
  "ahead acc c b \<longleftrightarrow> (\<exists>d e. c \<in> set (depths_at d acc) \<and> b \<in> set (depths_at e acc) \<and>
     (d < e \<or> d = e \<and> (\<exists>xs ys. depths_at d acc = xs @ ys \<and> c \<in> set xs \<and> b \<in> set ys)))"

lemma deepens_refl: "deepens acc acc"
  unfolding deepens_def by (metis append_Nil append_Nil2)

lemma deepens_trans: "deepens a b \<Longrightarrow> deepens b c \<Longrightarrow> deepens a c"
  unfolding deepens_def by (metis append.assoc)

lemma deepens_in: "deepens acc acc' \<Longrightarrow> b \<in> set (depths_at d acc) \<Longrightarrow> b \<in> set (depths_at d acc')"
  unfolding deepens_def by (metis Un_iff set_append)

lemma deepens_ahead:
  assumes "deepens acc acc'" and "ahead acc c b"
  shows "ahead acc' c b"
proof -
  obtain d e where de: "c \<in> set (depths_at d acc)" "b \<in> set (depths_at e acc)"
      "d < e \<or> d = e \<and> (\<exists>xs ys. depths_at d acc = xs @ ys \<and> c \<in> set xs \<and> b \<in> set ys)"
    using assms(2) unfolding ahead_def by blast
  have "\<exists>xs ys. depths_at d acc' = xs @ ys \<and> c \<in> set xs \<and> b \<in> set ys"
    if split: "depths_at d acc = xs @ ys" "c \<in> set xs" "b \<in> set ys" for xs ys
  proof -
    obtain us vs where "depths_at d acc' = us @ depths_at d acc @ vs" using assms(1) unfolding deepens_def by blast
    then have "depths_at d acc' = (us @ xs) @ (ys @ vs)" using split(1) by simp
    then show ?thesis using split(2,3) by (intro exI[of _ "us @ xs"] exI[of _ "ys @ vs"]) simp
  qed
  with de deepens_in[OF assms(1)] show ?thesis unfolding ahead_def by blast
qed

lemma depths_at_put: "depths_at e (smap_put d as acc) = (if e = d then as else depths_at e acc)"
  by (simp add: depths_at_def)

lemma deepens_put:
  "deepens acc (smap_put d (depths_at d acc @ [a]) acc)" "deepens acc (smap_put d (a # depths_at d acc) acc)"
  unfolding deepens_def depths_at_put by (metis append_Nil append_Nil2 append_Cons)+

lemma mset_put:
  "smap_wf acc \<Longrightarrow> mset (concat (map snd (smap_put d as acc))) + mset (depths_at d acc) =
     mset (concat (map snd acc)) + mset as"
proof (induction acc)
  case (Cons e acc)
  obtain k v where e: "e = (k, v)" by (cases e)
  have "map_of acc d = None" if "d \<le> k"
    using Cons.prems that e by (force simp: smap_wf_def dest: map_of_SomeD intro: ccontr)
  with Cons e show ?case by (auto simp: depths_at_def smap_wf_def split: option.splits)
qed (simp add: depths_at_def)

section \<open>The depth of every accessor\<close>

text \<open>
  What a call for a tree leaves behind: every port of the tree has its correct depth, every
  accessor of the tree is once in the bucket of its depth, and a composite is ahead of its
  children.
\<close>

definition settled ::
  "('e, 'u) world \<Rightarrow> priority_state \<Rightarrow> nat list \<Rightarrow> (nat \<times> int) list \<Rightarrow> (nat \<times> nat) list
     \<Rightarrow> priority_state \<Rightarrow> bool" where
  "settled w s nodes places links t \<longleftrightarrow>
     causal.depths_ok w (ps_portDepths t) \<and> ps_portDepths s \<subseteq>\<^sub>m ps_portDepths t \<and>
     smap_wf (ps_accessorDepths t) \<and> deepens (ps_accessorDepths s) (ps_accessorDepths t) \<and>
     mset (concat (map snd (ps_accessorDepths t))) =
       mset (concat (map snd (ps_accessorDepths s))) + mset nodes \<and>
     fst ` set (ps_accessorDepths t) \<subseteq> fst ` set (ps_accessorDepths s) \<union> snd ` set places \<and>
     (\<forall>b \<in> set nodes. ports_known w (ps_portDepths t) b) \<and>
     (\<forall>(b, d) \<in> set places. b \<in> set (depths_at d (ps_accessorDepths t))) \<and>
     (\<forall>(c, b) \<in> set links. ahead (ps_accessorDepths t) c b)"

lemma settled_refl:
  "causal.depths_ok w (ps_portDepths s) \<Longrightarrow> smap_wf (ps_accessorDepths s) \<Longrightarrow> settled w s [] [] [] s"
  by (simp add: settled_def deepens_refl)

lemma settled_trans:
  assumes "settled w s ns ps ls t" and "settled w t ns' ps' ls' u"
  shows "settled w s (ns @ ns') (ps @ ps') (ls @ ls') u"
proof -
  have g: "deepens (ps_accessorDepths t) (ps_accessorDepths u)" "ps_portDepths t \<subseteq>\<^sub>m ps_portDepths u"
    using assms(2) by (simp_all add: settled_def)
  have "ports_known w (ps_portDepths u) b" if "b \<in> set ns" for b
    using assms(1) that ports_known_mono[OF _ g(2)] unfolding settled_def by blast
  moreover have "b \<in> set (depths_at d (ps_accessorDepths u))" if "(b, d) \<in> set ps" for b d
    using assms(1) that deepens_in[OF g(1)] by (fastforce simp: settled_def)
  moreover have "ahead (ps_accessorDepths u) c b" if "(c, b) \<in> set ls" for c b
    using assms(1) that deepens_ahead[OF g(1)] by (fastforce simp: settled_def)
  moreover have "ps_portDepths s \<subseteq>\<^sub>m ps_portDepths u"
    using assms(1) g(2) map_le_trans by (auto simp: settled_def)
  moreover have "deepens (ps_accessorDepths s) (ps_accessorDepths u)"
    using assms(1) g(1) deepens_trans by (auto simp: settled_def)
  moreover have "fst ` set (ps_accessorDepths u) \<subseteq> fst ` set (ps_accessorDepths s) \<union> snd ` set (ps @ ps')"
    using assms unfolding settled_def set_append image_Un by blast
  ultimately show ?thesis
    using assms unfolding settled_def by (auto simp: ac_simps)
qed

text \<open>Placing one accessor whose ports are known.\<close>

lemma settled_place:
  assumes "causal.depths_ok w m" and "ps_portDepths s \<subseteq>\<^sub>m m" and "smap_wf (ps_accessorDepths s)"
    and "ports_known w m a" and bucket: "as = depths_at d (ps_accessorDepths s) @ [a] \<or>
      as = a # depths_at d (ps_accessorDepths s)"
  shows "settled w s [a] [(a, d)] []
    (s\<lparr>ps_portDepths := m, ps_accessorDepths := smap_put d as (ps_accessorDepths s)\<rparr>)"
proof -
  have "mset as = mset (depths_at d (ps_accessorDepths s)) + {#a#}" using bucket by auto
  with mset_put[OF assms(3), of d as]
  have "mset (concat (map snd (smap_put d as (ps_accessorDepths s)))) =
      mset (concat (map snd (ps_accessorDepths s))) + {#a#}" by simp
  moreover have "deepens (ps_accessorDepths s) (smap_put d as (ps_accessorDepths s))"
    using bucket deepens_put by metis
  moreover have "a \<in> set as" using bucket by auto
  ultimately show ?thesis
    using assms(1-4) unfolding settled_def by (simp add: depths_at_put smap_wf_put set_keys_smap_put insert_commute subset_insertI)
qed

lemma min_max_picks:
  "(\<lambda>d e. if e > d then e else d) = (max :: int \<Rightarrow> int \<Rightarrow> int)"
  "(\<lambda>d e. if e < d then e else d) = (min :: int \<Rightarrow> int \<Rightarrow> int)"
  by (auto simp: fun_eq_iff max_def min_def)

lemma fold_the_mono:
  assumes "\<forall>p \<in> set ps. m p \<noteq> None" and "m \<subseteq>\<^sub>m m'"
  shows "fold (\<lambda>p d. f d (the (m' p))) ps = fold (\<lambda>p d. f d (the (m p))) ps"
proof (rule ext, rule fold_cong)
  fix p assume "p \<in> set ps"
  then have "m' p = m p" using assms map_le_the[OF assms(2)] by blast
  then show "(\<lambda>d. f d (the (m' p))) = (\<lambda>d. f d (the (m p)))" by simp
qed simp_all

lemma atomic_ok:
  assumes ok: "causal_ok w" and x: "accessors w a = Some x" "a_kind x = Atomic d" and fuel: "port_fuel w \<le> n"
    and s: "causal.depths_ok w (ps_portDepths s)" "smap_wf (ps_accessorDepths s)"
  shows "causal.outcome w (\<lambda>depth t. depth = atomic_depth (ps_portDepths t) x \<and>
      settled w s [a] [(a, depth)] [] t)
    (ComputeAtomicAccessorDepth w n a x s)"
proof -
  let ?q = "model_queries w" and ?m = "ps_portDepths s"
  have wok: "world_ok w" using ok by (simp add: causal_ok_def)
  have n: "2 * card (output_ports w) + 1 \<le> n" using card_output_ports[OF wok] fuel by simp
  have ports: "set (GetInputPorts x) \<subseteq> input_ports w" "set (GetOutputPorts x) \<subseteq> output_ports w"
    using x by (auto simp: input_ports_def output_ports_def)
  let ?in = "ports_loop (ComputeAtomicAccessorInputPortDepth ?q n) (\<lambda>d e. if e > d then e else d) (GetInputPorts x) 0 ?m"
  let ?out = "\<lambda>m. ports_loop (ComputeAtomicAccessorOutputPortDepth ?q n) (\<lambda>d e. if e < d then e else d) (GetOutputPorts x) INT_MAX m"
  define r where "r = run_bind ?in (\<lambda>maximumInputDepth m. run_bind (?out m)
      (\<lambda>minimumOutputDepth. Ret (if HasOutputPorts x then minimumOutputDepth else maximumInputDepth)))"
  have ins: "causal.outcome w (\<lambda>d m. causal.depths_ok w m \<and> ?m \<subseteq>\<^sub>m m \<and> (\<forall>p \<in> set (GetInputPorts x). m p \<noteq> None) \<and>
      d = fold (\<lambda>p d. max d (the (m p))) (GetInputPorts x) 0) ?in"
    unfolding min_max_picks
    by (rule ports_loop_ok[OF causal.input_depth_correct[OF ok] ports(1) s(1)]) (use n in simp_all)
  have outs: "causal.outcome w (\<lambda>d m'. causal.depths_ok w m' \<and> m \<subseteq>\<^sub>m m' \<and> (\<forall>p \<in> set (GetOutputPorts x). m' p \<noteq> None) \<and>
      d = fold (\<lambda>p d. min d (the (m' p))) (GetOutputPorts x) INT_MAX) (?out m)"
    if "causal.depths_ok w m" for m
    unfolding min_max_picks
    by (rule ports_loop_ok[OF causal.output_depth_correct[OF ok] ports(2) that]) (use n in simp_all)
  have run: "causal.outcome w (\<lambda>depth m. causal.depths_ok w m \<and> ?m \<subseteq>\<^sub>m m \<and> ports_known w m a \<and>
      depth = atomic_depth m x) r"
    unfolding r_def
  proof (rule causal.outcome_bind[OF ins])
    fix e m
    assume m: "causal.depths_ok w m \<and> ?m \<subseteq>\<^sub>m m \<and> (\<forall>p \<in> set (GetInputPorts x). m p \<noteq> None) \<and>
      e = fold (\<lambda>p d. max d (the (m p))) (GetInputPorts x) 0"
    then have mok: "causal.depths_ok w m" by simp
    show "causal.outcome w (\<lambda>depth m. causal.depths_ok w m \<and> ?m \<subseteq>\<^sub>m m \<and> ports_known w m a \<and>
        depth = atomic_depth m x)
      (run_bind (?out m) (\<lambda>minimumOutputDepth. Ret (if HasOutputPorts x then minimumOutputDepth else e)))"
    proof (rule causal.outcome_bind[OF outs[OF mok]])
      fix f m'
      assume m': "causal.depths_ok w m' \<and> m \<subseteq>\<^sub>m m' \<and> (\<forall>p \<in> set (GetOutputPorts x). m' p \<noteq> None) \<and>
        f = fold (\<lambda>p d. min d (the (m' p))) (GetOutputPorts x) INT_MAX"
      then have le: "m \<subseteq>\<^sub>m m'" by simp
      have "\<forall>p \<in> set (GetInputPorts x). m' p \<noteq> None" using m map_le_known[OF le] by simp
      then have kn: "ports_known w m' a" using m' x by (simp add: ports_known_def ball_Un)
      have "?m \<subseteq>\<^sub>m m'" using m le map_le_trans by blast
      moreover have "e = fold (\<lambda>p d. max d (the (m' p))) (GetInputPorts x) 0"
        using fold_the_mono[of "GetInputPorts x" m m' max] m le by simp
      ultimately show "causal.outcome w (\<lambda>depth m. causal.depths_ok w m \<and> ?m \<subseteq>\<^sub>m m \<and> ports_known w m a \<and>
        depth = atomic_depth m x) (Ret (if HasOutputPorts x then f else e) m')"
        using m' kn by (simp add: atomic_depth_def)
    qed
  qed
  show ?thesis
  proof (cases r)
    case (Ret depth m)
    have m: "causal.depths_ok w m" "?m \<subseteq>\<^sub>m m" "ports_known w m a" "depth = atomic_depth m x"
      using run Ret by simp_all
    from settled_place[OF m(1,2) s(2) m(3)] m(4) Ret show ?thesis
      unfolding ComputeAtomicAccessorDepth_def Let_def r_def[symmetric] by simp
  next
    case (Throw e m)
    with run show ?thesis unfolding ComputeAtomicAccessorDepth_def Let_def r_def[symmetric] by simp
  next
    case Diverge
    with run show ?thesis by simp
  qed
qed

text \<open>The depth of a composite is at most that of a child, and it is placed after it, in front.\<close>

lemma fold_min_le:
  "fold (\<lambda>b d. min d (f b)) bs (d::int) \<le> d"
  "b \<in> set bs \<Longrightarrow> fold (\<lambda>b d. min d (f b)) bs (d::int) \<le> f b"
proof (induction bs arbitrary: d)
  case (Cons c bs)
  { case 1 show ?case using Cons.IH(1)[of "min d (f c)"] by simp }
  { case 2 then show ?case using Cons.IH(1)[of "min d (f c)"] Cons.IH(2)[of "min d (f c)"] by auto }
qed simp_all

lemma ahead_front:
  assumes "smap_wf acc" and b: "b \<in> set (depths_at e acc)" and "d \<le> e"
  shows "ahead (smap_put d (a # depths_at d acc) acc) a b"
proof (cases "d = e")
  case True
  then have "depths_at d (smap_put d (a # depths_at d acc) acc) = [a] @ depths_at d acc"
    by (simp add: depths_at_put)
  then show ?thesis
    unfolding ahead_def by (intro exI[of _ d] conjI disjI2 exI[of _ "[a]"] exI[of _ "depths_at d acc"])
      (use b True in simp_all)
next
  case False
  then have "a \<in> set (depths_at d (smap_put d (a # depths_at d acc) acc))"
    "b \<in> set (depths_at e (smap_put d (a # depths_at d acc) acc))" "d < e"
    using b assms(3) by (simp_all add: depths_at_put)
  then show ?thesis unfolding ahead_def by blast
qed

lemma children_ok:
  assumes IH: "\<And>b s. b \<in> set bs \<Longrightarrow> causal.depths_ok w (ps_portDepths s) \<Longrightarrow> smap_wf (ps_accessorDepths s) \<Longrightarrow>
      causal.outcome w (\<lambda>depth t. depth = accessor_depth w (ps_portDepths t) k b \<and>
        settled w s (below w k b) (placements w (ps_portDepths t) k b) (parentage w k b) t) (f b s)"
  shows "causal.depths_ok w (ps_portDepths s) \<Longrightarrow> smap_wf (ps_accessorDepths s) \<Longrightarrow>
    causal.outcome w (\<lambda>depth t.
        depth = fold (\<lambda>b d. min d (accessor_depth w (ps_portDepths t) k b)) bs d \<and>
        settled w s (concat (map (below w k) bs)) (concat (map (placements w (ps_portDepths t) k) bs))
          (concat (map (parentage w k) bs)) t)
      (children_loop f bs d s)"
  using IH
proof (induction bs arbitrary: s d)
  case Nil
  then show ?case using settled_refl by simp
next
  case (Cons b bs)
  note first = Cons.prems(3)[of b s, OF _ Cons.prems(1,2)]
  have rest: "causal.outcome w (\<lambda>depth t.
        depth = fold (\<lambda>b d. min d (accessor_depth w (ps_portDepths t) k b)) (b # bs) d \<and>
        settled w s (concat (map (below w k) (b # bs))) (concat (map (placements w (ps_portDepths t) k) (b # bs)))
          (concat (map (parentage w k) (b # bs))) t)
      (children_loop f bs (min d e) t)"
    if t: "e = accessor_depth w (ps_portDepths t) k b \<and>
        settled w s (below w k b) (placements w (ps_portDepths t) k b) (parentage w k b) t" for e t
  proof -
    have tok: "causal.depths_ok w (ps_portDepths t)" "smap_wf (ps_accessorDepths t)" "known w (ps_portDepths t) k b"
      using t by (simp_all add: settled_def known_def)
    have "causal.outcome w (\<lambda>depth u.
        depth = fold (\<lambda>b d. min d (accessor_depth w (ps_portDepths u) k b)) bs (min d e) \<and>
        settled w t (concat (map (below w k) bs)) (concat (map (placements w (ps_portDepths u) k) bs))
          (concat (map (parentage w k) bs)) u)
      (children_loop f bs (min d e) t)"
      by (rule Cons.IH[OF tok(1,2)]) (use Cons.prems(3) in simp)
    then show ?thesis
    proof (rule causal.outcome_mono)
      fix depth u
      assume u: "depth = fold (\<lambda>b d. min d (accessor_depth w (ps_portDepths u) k b)) bs (min d e) \<and>
        settled w t (concat (map (below w k) bs)) (concat (map (placements w (ps_portDepths u) k) bs))
          (concat (map (parentage w k) bs)) u"
      then have le: "ps_portDepths t \<subseteq>\<^sub>m ps_portDepths u" by (simp add: settled_def)
      have same: "accessor_depth w (ps_portDepths u) k b = e"
          "placements w (ps_portDepths u) k b = placements w (ps_portDepths t) k b"
        using accessor_depth_mono[OF tok(3) le] placements_mono[OF tok(3) le] t by simp_all
      have "settled w s (below w k b @ concat (map (below w k) bs))
          (placements w (ps_portDepths t) k b @ concat (map (placements w (ps_portDepths u) k) bs))
          (parentage w k b @ concat (map (parentage w k) bs)) u"
        by (rule settled_trans) (use t u in auto)
      then show "depth = fold (\<lambda>b d. min d (accessor_depth w (ps_portDepths u) k b)) (b # bs) d \<and>
        settled w s (concat (map (below w k) (b # bs))) (concat (map (placements w (ps_portDepths u) k) (b # bs)))
          (concat (map (parentage w k) (b # bs))) u"
        using u same by simp
    qed
  qed
  show ?case unfolding children_loop.simps
    by (rule causal.outcome_bind[OF first]) (simp, rule rest)
qed

lemma placements_root: "tree_ok w k b \<Longrightarrow> (b, accessor_depth w m k b) \<in> set (placements w m k b)"
  by (cases k) (auto split: option.splits accessor_kind.splits)

lemma settled_mono:
  assumes "settled w s ns ps ls t" and "mset ns = mset ns'" and "set ps = set ps'"
    and "\<And>c b. (c, b) \<in> set ls' \<Longrightarrow> (c, b) \<in> set ls \<or> ahead (ps_accessorDepths t) c b"
  shows "settled w s ns' ps' ls' t"
proof -
  have "ahead (ps_accessorDepths t) c b" if "(c, b) \<in> set ls'" for c b
    using assms(1) assms(4)[OF that] unfolding settled_def by blast
  then have "\<forall>(c, b) \<in> set ls'. ahead (ps_accessorDepths t) c b" by blast
  then show ?thesis
    using assms(1) unfolding settled_def assms(2,3) mset_eq_setD[OF assms(2)] by simp
qed

lemma composite_ok:
  assumes x: "accessors w a = Some x" "a_kind x = Composite c"
    and trees: "\<forall>b \<in> set (GetChildren c). tree_ok w k b"
    and t: "depth = fold (\<lambda>b d. min d (accessor_depth w (ps_portDepths t) k b)) (GetChildren c) INT_MAX"
      "settled w s (concat (map (below w k) (GetChildren c)))
         (concat (map (placements w (ps_portDepths t) k) (GetChildren c)))
         (concat (map (parentage w k) (GetChildren c))) t"
    and t': "t' = t\<lparr>ps_accessorDepths :=
      smap_put depth (a # depths_at depth (ps_accessorDepths t)) (ps_accessorDepths t)\<rparr>"
  shows "depth = accessor_depth w (ps_portDepths t') (Suc k) a"
    and "settled w s (below w (Suc k) a) (placements w (ps_portDepths t') (Suc k) a) (parentage w (Suc k) a) t'"
proof -
  let ?acc = "ps_accessorDepths t" and ?m = "ps_portDepths t"
  have m: "ps_portDepths t' = ?m" using t' by simp
  show d: "depth = accessor_depth w (ps_portDepths t') (Suc k) a" using t(1) x by (simp add: m)
  have ok: "causal.depths_ok w ?m" "smap_wf ?acc" using t(2) by (simp_all add: settled_def)
  have "settled w t [a] [(a, depth)] [] (t\<lparr>ps_portDepths := ?m, ps_accessorDepths :=
      smap_put depth (a # depths_at depth ?acc) ?acc\<rparr>)"
    by (rule settled_place[OF ok(1) _ ok(2)]) (use x in \<open>simp_all add: ports_known_def\<close>)
  moreover have "t\<lparr>ps_portDepths := ?m, ps_accessorDepths := smap_put depth (a # depths_at depth ?acc) ?acc\<rparr> = t'"
    using t' by simp
  ultimately have "settled w t [a] [(a, depth)] [] t'" by simp
  from settled_trans[OF t(2) this]
  show "settled w s (below w (Suc k) a) (placements w (ps_portDepths t') (Suc k) a) (parentage w (Suc k) a) t'"
  proof (rule settled_mono)
    fix c' b assume "(c', b) \<in> set (parentage w (Suc k) a)"
    then consider "c' = a" "b \<in> set (GetChildren c)" | "(c', b) \<in> set (concat (map (parentage w k) (GetChildren c)))"
      using x by auto
    then show "(c', b) \<in> set (concat (map (parentage w k) (GetChildren c)) @ []) \<or> ahead (ps_accessorDepths t') c' b"
    proof cases
      case 1
      then have "(b, accessor_depth w ?m k b) \<in> set (concat (map (placements w ?m k) (GetChildren c)))"
        using placements_root trees by fastforce
      then have "b \<in> set (depths_at (accessor_depth w ?m k b) ?acc)" using t(2) unfolding settled_def by blast
      moreover have "depth \<le> accessor_depth w ?m k b" using t(1) fold_min_le(2) 1(2) by simp
      ultimately show ?thesis using ahead_front[OF ok(2)] 1(1) t' by simp
    qed simp
  qed (use x d m in \<open>simp_all del: accessor_depth.simps\<close>)
qed

lemma accessor_depth_ok:
  assumes ok: "causal_ok w" and fuel: "port_fuel w \<le> n"
  shows "tree_ok w k a \<Longrightarrow> causal.depths_ok w (ps_portDepths s) \<Longrightarrow> smap_wf (ps_accessorDepths s) \<Longrightarrow>
    causal.outcome w (\<lambda>depth t. depth = accessor_depth w (ps_portDepths t) k a \<and>
        settled w s (below w k a) (placements w (ps_portDepths t) k a) (parentage w k a) t)
      (ComputeAccessorDepth w n k a s)"
proof (induction k arbitrary: a s)
  case (Suc k)
  then obtain x where x: "accessors w a = Some x" by (auto split: option.splits)
  show ?case
  proof (cases "a_kind x")
    case (Atomic d)
    have "causal.outcome w (\<lambda>depth t. depth = accessor_depth w (ps_portDepths t) (Suc k) a \<and>
        settled w s (below w (Suc k) a) (placements w (ps_portDepths t) (Suc k) a) (parentage w (Suc k) a) t)
      (ComputeAtomicAccessorDepth w n a x s)"
      by (rule causal.outcome_mono[OF atomic_ok[OF ok x Atomic fuel Suc.prems(2,3)]]) (use x Atomic in simp)
    then show ?thesis using x Atomic by simp
  next
    case (Composite c)
    have trees: "\<forall>b \<in> set (GetChildren c). tree_ok w k b" using Suc.prems(1) x Composite by simp
    have kids: "causal.outcome w (\<lambda>depth t.
        depth = fold (\<lambda>b d. min d (accessor_depth w (ps_portDepths t) k b)) (GetChildren c) INT_MAX \<and>
        settled w s (concat (map (below w k) (GetChildren c))) (concat (map (placements w (ps_portDepths t) k) (GetChildren c)))
          (concat (map (parentage w k) (GetChildren c))) t)
      (children_loop (ComputeAccessorDepth w n k) (GetChildren c) INT_MAX s)"
      using Suc.IH trees by (intro children_ok[OF _ Suc.prems(2,3)]) simp
    have "causal.outcome w (\<lambda>depth t. depth = accessor_depth w (ps_portDepths t) (Suc k) a \<and>
        settled w s (below w (Suc k) a) (placements w (ps_portDepths t) (Suc k) a) (parentage w (Suc k) a) t)
      (run_bind (children_loop (ComputeAccessorDepth w n k) (GetChildren c) INT_MAX s)
        (\<lambda>depth s. Ret depth (s\<lparr>ps_accessorDepths :=
           smap_put depth (a # depths_at depth (ps_accessorDepths s)) (ps_accessorDepths s)\<rparr>)))"
    proof (rule causal.outcome_bind[OF kids])
      fix depth t
      assume t: "depth = fold (\<lambda>b d. min d (accessor_depth w (ps_portDepths t) k b)) (GetChildren c) INT_MAX \<and>
        settled w s (concat (map (below w k) (GetChildren c))) (concat (map (placements w (ps_portDepths t) k) (GetChildren c)))
          (concat (map (parentage w k) (GetChildren c))) t"
      note place = composite_ok[OF x Composite trees conjunct1[OF t] conjunct2[OF t] refl]
      show "causal.outcome w (\<lambda>depth t. depth = accessor_depth w (ps_portDepths t) (Suc k) a \<and>
          settled w s (below w (Suc k) a) (placements w (ps_portDepths t) (Suc k) a) (parentage w (Suc k) a) t)
        (Ret depth (t\<lparr>ps_accessorDepths :=
           smap_put depth (a # depths_at depth (ps_accessorDepths t)) (ps_accessorDepths t)\<rparr>))"
        unfolding causal.outcome.simps by (intro conjI place)
    qed
    then show ?thesis using x Composite by simp
  qed
qed simp

section \<open>Numbering\<close>

text \<open>The priorities that the two loops over the buckets hand out.\<close>

fun numbered :: "int \<Rightarrow> nat list \<Rightarrow> (nat \<times> int) list" where
  "numbered p [] = []"
| "numbered p (a # as) = (a, p) # numbered (p + 1) as"

fun numbering :: "int \<Rightarrow> buckets \<Rightarrow> (nat \<times> int) list" where
  "numbering p [] = []"
| "numbering p ((d, as) # es) = numbered (max p d) as @ numbering (max p d + int (length as)) es"

lemma numbered_keys [simp]: "map fst (numbered p as) = as"
  by (induction as arbitrary: p) auto

lemma numbering_keys [simp]: "map fst (numbering p es) = concat (map snd es)"
  by (induction p es rule: numbering.induct) auto

lemma numbered_range: "q \<in> snd ` set (numbered p as) \<Longrightarrow> p \<le> q \<and> q < p + int (length as)"
  by (induction as arbitrary: p) force+

lemma numbered_sorted: "sorted_wrt (<) (map snd (numbered p as))"
proof (induction as arbitrary: p)
  case (Cons a as)
  have "p < q" if "q \<in> snd ` set (numbered (p + 1) as)" for q
    using numbered_range[OF that] by simp
  with Cons show ?case by simp
qed simp

lemma numbering_range: "q \<in> snd ` set (numbering p es) \<Longrightarrow> p \<le> q"
proof (induction p es rule: numbering.induct)
  case (2 p d as es)
  then consider "q \<in> snd ` set (numbered (max p d) as)" | "q \<in> snd ` set (numbering (max p d + int (length as)) es)"
    by auto
  then show ?case
  proof cases
    case 1
    then show ?thesis using numbered_range[of q "max p d" as] by simp
  next
    case 2
    with "2.IH" show ?thesis by simp
  qed
qed simp

lemma numbering_sorted: "sorted_wrt (<) (map snd (numbering p es))"
proof (induction p es rule: numbering.induct)
  case (2 p d as es)
  have less: "q < r" if "q \<in> set (map snd (numbered (max p d) as))"
    and "r \<in> set (map snd (numbering (max p d + int (length as)) es))" for q r
  proof -
    have "q < max p d + int (length as)" using numbered_range[of q "max p d" as] that(1) by simp
    moreover have "max p d + int (length as) \<le> r" using numbering_range that(2) by simp
    ultimately show ?thesis by (rule less_le_trans)
  qed
  show ?case unfolding numbering.simps map_append sorted_wrt_append
  proof (intro conjI ballI)
    show "sorted_wrt (<) (map snd (numbered (max p d) as))" by (rule numbered_sorted)
    show "sorted_wrt (<) (map snd (numbering (max p d + int (length as)) es))" by (rule "2.IH")
  qed (rule less)
qed simp

lemma position_less:
  assumes "map fst ns = us @ vs" and "distinct (us @ vs)" and "sorted_wrt (<) (map snd ns)"
    and "c \<in> set us" and "b \<in> set vs"
  shows "\<exists>p q. map_of ns c = Some p \<and> map_of ns b = Some (q::int) \<and> p < q"
proof -
  obtain ms ls where ns: "ns = ms @ ls" "map fst ms = us" "map fst ls = vs"
    using assms(1) by (metis map_eq_append_conv)
  obtain p where p: "(c, p) \<in> set ms" using assms(4) ns(2) by auto
  obtain q where q: "(b, q) \<in> set ls" using assms(5) ns(3) by auto
  have d: "distinct (map fst ns)" using assms(1,2) by simp
  have "map_of ns c = Some p" "map_of ns b = Some q"
    using map_of_is_SomeI[OF d] p q ns(1) by simp_all
  moreover have "p < q"
  proof -
    have "\<forall>x \<in> set (map snd ms). \<forall>y \<in> set (map snd ls). x < y"
      using assms(3) unfolding ns(1) map_append sorted_wrt_append by blast
    moreover have "p \<in> set (map snd ms)" "q \<in> set (map snd ls)" using p q by force+
    ultimately show ?thesis by blast
  qed
  ultimately show ?thesis by blast
qed

lemma ahead_position:
  assumes "smap_wf acc" and "ahead acc c b"
  shows "\<exists>us vs. concat (map snd acc) = us @ vs \<and> c \<in> set us \<and> b \<in> set vs"
  using assms
proof (induction acc)
  case Nil
  then show ?case by (simp add: ahead_def depths_at_def)
next
  case (Cons entry acc)
  obtain k as where e: "entry = (k, as)" by (cases entry)
  obtain d e' where de: "c \<in> set (depths_at d (entry # acc))" "b \<in> set (depths_at e' (entry # acc))"
      "d < e' \<or> d = e' \<and> (\<exists>xs ys. depths_at d (entry # acc) = xs @ ys \<and> c \<in> set xs \<and> b \<in> set ys)"
    using Cons.prems(2) unfolding ahead_def by blast
  have at: "depths_at f (entry # acc) = (if f = k then as else depths_at f acc)" for f
    by (simp add: depths_at_def e)
  have low: "k < f" if "x \<in> set (depths_at f acc)" for f x
  proof -
    have "f \<in> fst ` set acc" using that map_of_eq_None_iff[of acc f] by (auto simp: depths_at_def split: option.splits)
    then show ?thesis using Cons.prems(1) e by (auto simp: smap_wf_def)
  qed
  have in_rest: "x \<in> set (concat (map snd acc))" if x: "x \<in> set (depths_at f acc)" for f x
  proof -
    obtain bs where "map_of acc f = Some bs" "x \<in> set bs" using x by (cases "map_of acc f") (simp_all add: depths_at_def)
    then have "(f, bs) \<in> set acc" "x \<in> set bs" using map_of_SomeD[of acc f] by blast+
    then show ?thesis by force
  qed
  consider "d = k" "e' = k" | "d = k" "e' \<noteq> k" | "d \<noteq> k" "e' \<noteq> k"
    using de low at by (metis order.strict_trans less_irrefl)
  then show ?case
  proof cases
    case 1
    then obtain xs ys where "as = xs @ ys" "c \<in> set xs" "b \<in> set ys" using de(3) at by auto
    then show ?thesis
      by (intro exI[of _ xs] exI[of _ "ys @ concat (map snd acc)"]) (simp add: e)
  next
    case 2
    then show ?thesis using de(1,2) at in_rest
      by (intro exI[of _ as] exI[of _ "concat (map snd acc)"]) (simp add: e)
  next
    case 3
    then have "ahead acc c b" using de at unfolding ahead_def by metis
    moreover have "smap_wf acc" using Cons.prems(1) by (simp add: smap_wf_def)
    ultimately obtain us vs where "concat (map snd acc) = us @ vs" "c \<in> set us" "b \<in> set vs"
      using Cons.IH by blast
    then show ?thesis by (intro exI[of _ "as @ us"] exI[of _ vs]) (simp add: e)
  qed
qed

section \<open>Assigning the priorities\<close>

text \<open>The accessors after an assignment of priorities: nothing else about them changes.\<close>

definition reprioritise :: "(nat \<times> int) list \<Rightarrow> (nat \<Rightarrow> accessor option) \<Rightarrow> nat \<Rightarrow> accessor option" where
  "reprioritise ns A a =
     (case map_of ns a of None \<Rightarrow> A a | Some q \<Rightarrow> map_option (\<lambda>x. x\<lparr>m_priority := q\<rparr>) (A a))"

lemma reprioritise_Cons:
  "a \<notin> fst ` set ns \<Longrightarrow> reprioritise ((a, q) # ns) A =
     reprioritise ns (A(a := map_option (\<lambda>x. x\<lparr>m_priority := q\<rparr>) (A a)))"
proof (rule ext)
  fix b assume "a \<notin> fst ` set ns"
  then have "map_of ns a = None" by (simp add: map_of_eq_None_iff)
  then show "reprioritise ((a, q) # ns) A b = reprioritise ns (A(a := map_option (\<lambda>x. x\<lparr>m_priority := q\<rparr>) (A a))) b"
    by (cases "b = a"; cases "map_of ns b"; simp add: reprioritise_def)
qed

lemma reprioritise_append:
  "fst ` set ns \<inter> fst ` set ms = {} \<Longrightarrow> reprioritise (ns @ ms) A = reprioritise ms (reprioritise ns A)"
proof (rule ext)
  fix b assume disjoint: "fst ` set ns \<inter> fst ` set ms = {}"
  show "reprioritise (ns @ ms) A b = reprioritise ms (reprioritise ns A) b"
  proof (cases "map_of ns b")
    case (Some q)
    then have "map_of ms b = None" using disjoint map_of_SomeD[OF Some] by (force simp: map_of_eq_None_iff)
    then show ?thesis using Some by (simp add: reprioritise_def map_add_def)
  qed (cases "map_of ms b"; simp add: reprioritise_def map_add_def)
qed

lemma update_priorities_more:
  "run_prop (\<lambda>d'. dstate.more d' = dstate.more d) (update_priorities old new ids d)"
proof (induction ids arbitrary: d)
  case (Cons i ids)
  have queue: "run_prop (\<lambda>e'. dstate.more e' = dstate.more e) (QueueScheduledCallback j e)" for j and e :: "('a, 'b) dstate_scheme"
    by (auto simp: QueueScheduledCallback_def split: sum.splits)
  show ?case
  proof (cases "map_of (m_scheduledCallbacks d) i")
    case None
    then show ?thesis using Cons by simp
  next
    case (Some c)
    let ?d1 = "d\<lparr>m_scheduledCallbacks := smap_put i (c\<lparr>cb_priority := new\<rparr>) (m_scheduledCallbacks d)\<rparr>"
    let ?d2 = "?d1\<lparr>m_callbackQueue := remove1 i (m_callbackQueue ?d1)\<rparr>"
    have "run_prop (\<lambda>d'. dstate.more d' = dstate.more d) (update_priorities old new ids ?d1)"
      using Cons[of ?d1] by simp
    moreover have "run_prop (\<lambda>d'. dstate.more d' = dstate.more d)
        (run_bind (QueueScheduledCallback i ?d2) (\<lambda>_. update_priorities old new ids))"
    proof (rule run_prop_bind)
      show "run_prop (\<lambda>e. dstate.more e = dstate.more d) (QueueScheduledCallback i ?d2)"
        using queue[of ?d2 i] by simp
    qed (metis Cons)
    ultimately show ?thesis using Some Cons[of d] by (simp add: Let_def)
  qed
qed simp

lemma HandlePriorityUpdate_world:
  fixes w :: "('e, 'u) world"
  assumes "director_ok w"
  shows "\<exists>w'. HandlePriorityUpdate old new w = Ret () w' \<and> director_ok w' \<and>
    accessors w' = accessors w \<and> ports w' = ports w \<and> nextPort w' = nextPort w \<and>
    (\<forall>i. map_of (m_scheduledCallbacks w') i =
       map_option (reprioritised old new) (map_of (m_scheduledCallbacks w) i))"
proof -
  obtain w' where w': "HandlePriorityUpdate old new w = Ret () w'" "director_ok w'"
      "\<forall>i. map_of (m_scheduledCallbacks w') i =
       map_option (reprioritised old new) (map_of (m_scheduledCallbacks w) i)"
    using HandlePriorityUpdate_total[OF assms, of old new] by blast
  have "dstate.more w' = dstate.more w"
    using update_priorities_more[of w old new "map fst (m_scheduledCallbacks w)"] w'(1)
    by (simp add: HandlePriorityUpdate_def)
  then have "accessors w' = accessors w" "ports w' = ports w" "nextPort w' = nextPort w"
    by (cases w; cases w'; simp)+
  with w' show ?thesis by blast
qed

lemma assign_accessors_ok:
  fixes w :: "('e, 'u) world"
  assumes "updateCallbacks \<longrightarrow> director_ok w" and "\<forall>a \<in> set as. accessors w a \<noteq> None" and "distinct as"
    and "INT_MIN \<le> p" and "p + int (length as) \<le> INT_MAX"
  shows "\<exists>w'. assign_accessors updateCallbacks as p w = Ret (p + int (length as)) w' \<and>
    (updateCallbacks \<longrightarrow> director_ok w') \<and>
    accessors w' = reprioritise (numbered p as) (accessors w) \<and> ports w' = ports w"
  using assms
proof (induction as arbitrary: p w)
  case Nil
  then show ?case by (simp add: reprioritise_def fun_eq_iff)
next
  case (Cons a as)
  obtain x where x: "accessors w a = Some x" using Cons.prems(2) by auto
  obtain w1 where w1: "(if updateCallbacks then HandlePriorityUpdate (GetPriority x) p w else Ret () w) = Ret () w1"
      "updateCallbacks \<longrightarrow> director_ok w1" "accessors w1 = accessors w" "ports w1 = ports w"
  proof (cases updateCallbacks)
    case True
    then show ?thesis using HandlePriorityUpdate_world[of w "GetPriority x" p] Cons.prems(1) that by auto
  next
    case False
    then show ?thesis using that[of w] by simp
  qed
  let ?w2 = "SetPriority a p w1"
  have acc2: "accessors ?w2 = (accessors w)(a := map_option (\<lambda>x. x\<lparr>m_priority := p\<rparr>) (accessors w a))"
    using w1(3) by (simp add: SetPriority_def modify_accessor_def)
  have "updateCallbacks \<longrightarrow> director_ok ?w2"
    using w1(2) by (simp add: SetPriority_def modify_accessor_def director_ok_def)
  moreover have "\<forall>b \<in> set as. accessors ?w2 b \<noteq> None" using Cons.prems(2) by (simp add: acc2)
  ultimately obtain w' where w': "assign_accessors updateCallbacks as (p + 1) ?w2 = Ret (p + 1 + int (length as)) w'"
      "updateCallbacks \<longrightarrow> director_ok w'"
      "accessors w' = reprioritise (numbered (p + 1) as) (accessors ?w2)" "ports w' = ports ?w2"
    using Cons.IH[of ?w2 "p + 1"] Cons.prems(3,4,5) by auto
  have fits: "fits_int (p + 1)" using Cons.prems(4,5) by (simp add: fits_int_def)
  have run: "assign_accessors updateCallbacks (a # as) p w = Ret (p + int (length (a # as))) w'"
    using w1(1) w'(1) fits x by (simp add: with_accessor_def add.assoc)
  have "a \<notin> fst ` set (numbered (p + 1) as)"
    using Cons.prems(3) numbered_keys[of "p + 1" as] by (metis distinct.simps(2) set_map)
  then have "accessors w' = reprioritise (numbered p (a # as)) (accessors w)"
    using w'(3) acc2 by (simp add: reprioritise_Cons)
  moreover have "ports w' = ports w" using w'(4) w1(4) by (simp add: SetPriority_def modify_accessor_def)
  ultimately show ?case using run w'(2) by blast
qed

lemma assign_depths_ok:
  fixes w :: "('e, 'u) world"
  assumes "updateCallbacks \<longrightarrow> director_ok w" and "\<forall>a \<in> set (concat (map snd es)). accessors w a \<noteq> None"
    and "distinct (concat (map snd es))" and "INT_MIN \<le> p"
    and "\<forall>d \<in> fst ` set es. d \<le> B" and "p \<le> B + int n"
    and "B + int n + int (length (concat (map snd es))) \<le> INT_MAX"
  shows "\<exists>w'. assign_depths updateCallbacks es p w = Ret () w' \<and>
    (updateCallbacks \<longrightarrow> director_ok w') \<and>
    accessors w' = reprioritise (numbering p es) (accessors w) \<and> ports w' = ports w"
  using assms
proof (induction p es arbitrary: w n rule: numbering.induct)
  case (1 p)
  then show ?case by (simp add: reprioritise_def fun_eq_iff)
next
  case (2 p d as es)
  let ?p = "max p d"
  have "INT_MIN \<le> ?p" "?p + int (length as) \<le> INT_MAX" "\<forall>a \<in> set as. accessors w a \<noteq> None" "distinct as"
    using "2.prems"(2-7) by auto
  then obtain w1 where w1: "assign_accessors updateCallbacks as ?p w = Ret (?p + int (length as)) w1"
      "updateCallbacks \<longrightarrow> director_ok w1"
      "accessors w1 = reprioritise (numbered ?p as) (accessors w)" "ports w1 = ports w"
    using assign_accessors_ok[OF "2.prems"(1), of as ?p] by blast
  have "accessors w1 a \<noteq> None \<longleftrightarrow> accessors w a \<noteq> None" for a
    by (simp add: w1(3) reprioritise_def split: option.split)
  then have "\<forall>a \<in> set (concat (map snd es)). accessors w1 a \<noteq> None" using "2.prems"(2) by auto
  moreover have "distinct (concat (map snd es))" "INT_MIN \<le> ?p + int (length as)"
      "\<forall>d \<in> fst ` set es. d \<le> B" "?p + int (length as) \<le> B + int (n + length as)"
      "B + int (n + length as) + int (length (concat (map snd es))) \<le> INT_MAX"
    using "2.prems"(3-7) by auto
  ultimately obtain w' where w': "assign_depths updateCallbacks es (?p + int (length as)) w1 = Ret () w'"
      "updateCallbacks \<longrightarrow> director_ok w'"
      "accessors w' = reprioritise (numbering (?p + int (length as)) es) (accessors w1)" "ports w' = ports w1"
    using "2.IH"[OF w1(2)] by blast
  have "fst ` set (numbered ?p as) \<inter> fst ` set (numbering (?p + int (length as)) es) = {}"
    using "2.prems"(3) numbered_keys[of ?p as] numbering_keys[of "?p + int (length as)" es]
    by (simp add: set_map[symmetric] del: set_map)
  then have "accessors w' = reprioritise (numbering p ((d, as) # es)) (accessors w)"
    unfolding w'(3) w1(3) numbering.simps by (rule reprioritise_append[symmetric])
  then show ?case using w1 w' by simp
qed

section \<open>The order of the priorities\<close>

text \<open>Every composite has children, so every depth is the depth of a port.\<close>

fun inhabited :: "('e, 'u) world \<Rightarrow> nat \<Rightarrow> nat \<Rightarrow> bool" where
  "inhabited w 0 a = False"
| "inhabited w (Suc k) a =
     (case accessors w a of
        None \<Rightarrow> False
      | Some x \<Rightarrow>
          (case a_kind x of
             Atomic _ \<Rightarrow> True
           | Composite c \<Rightarrow> GetChildren c \<noteq> [] \<and> (\<forall>b \<in> set (GetChildren c). inhabited w k b)))"

lemma fold_max_le: "d \<le> B \<Longrightarrow> (\<And>b. b \<in> set bs \<Longrightarrow> f b \<le> B) \<Longrightarrow> fold (\<lambda>b d. max d (f b)) bs (d::int) \<le> B"
  by (induction bs arbitrary: d) auto

lemma port_names: 
  assumes "world_ok w" and "accessors w a = Some x"
  shows "HasOutputPorts x \<longleftrightarrow> GetOutputPorts x \<noteq> []"
proof -
  have "named_ports_ok (ports w) a False (m_outputPorts x) (m_orderedOutputPorts x)"
    using world_ok_accessor[OF assms] by (simp add: accessor_ok_def)
  then have "set (m_orderedOutputPorts x) = ran (map_of (m_outputPorts x))" by (simp add: named_ports_ok_def)
  then show ?thesis
    by (cases "m_outputPorts x") (auto simp: HasOutputPorts_def GetOutputPorts_def ran_def split: if_splits)
qed

lemma atomic_depth_bound:
  assumes ok: "causal_ok w" and x: "accessors w a = Some x" "a_kind x = Atomic d"
    and m: "causal.depths_ok w m" "ports_known w m a"
  shows "atomic_depth m x \<le> int (card (output_ports w))"
proof -
  have wok: "world_ok w" using ok by (simp add: causal_ok_def)
  have known: "m p \<noteq> None" if "p \<in> set (GetInputPorts x) \<union> set (GetOutputPorts x)" for p
    using m(2) x that unfolding ports_known_def by blast
  have out: "the (m p) < int (card (output_ports w))" if p: "p \<in> set (GetOutputPorts x)" for p
  proof -
    obtain e where "m p = Some e" using known[of p] p by blast
    moreover have "p \<in> output_ports w" using x p by (auto simp: output_ports_def)
    ultimately show ?thesis using causal.output_depth_bound[OF ok m(1)] by simp
  qed
  have "in": "the (m p) \<le> int (card (output_ports w))" if p: "p \<in> set (GetInputPorts x)" for p
  proof -
    obtain e where "m p = Some e" using known[of p] p by blast
    moreover have "p \<in> input_ports w" using x p by (auto simp: input_ports_def)
    ultimately show ?thesis using causal.input_depth_bound[OF ok m(1)] by simp
  qed
  show ?thesis
  proof (cases "HasOutputPorts x")
    case True
    then obtain p where p: "p \<in> set (GetOutputPorts x)" using port_names[OF wok x(1)] by fastforce
    have "fold (\<lambda>p d. min d (the (m p))) (GetOutputPorts x) INT_MAX \<le> the (m p)" by (rule fold_min_le(2)[OF p])
    with out[OF p] True show ?thesis by (simp add: atomic_depth_def)
  next
    case False
    have "fold (\<lambda>p d. max d (the (m p))) (GetInputPorts x) 0 \<le> int (card (output_ports w))"
      by (rule fold_max_le) (use "in" in simp_all)
    with False show ?thesis by (simp add: atomic_depth_def)
  qed
qed

lemma placements_bound:
  assumes ok: "causal_ok w" and m: "causal.depths_ok w m"
  shows "known w m k a \<Longrightarrow> inhabited w k a \<Longrightarrow> (b, d) \<in> set (placements w m k a) \<Longrightarrow>
    d \<le> int (card (output_ports w))"
proof (induction k arbitrary: a b d)
  case (Suc k)
  from Suc.prems(2) obtain x where x: "accessors w a = Some x" by (auto split: option.splits)
  show ?case
  proof (cases "a_kind x")
    case (Atomic c)
    then have "ports_known w m a" using Suc.prems(1) x by (simp add: known_def)
    then show ?thesis using atomic_depth_bound[OF ok x Atomic m] Suc.prems(3) x Atomic by simp
  next
    case (Composite c)
    have kids: "known w m k b'" "inhabited w k b'" if "b' \<in> set (GetChildren c)" for b'
      using Suc.prems(1,2) x Composite that by (auto simp: known_def)
    have "GetChildren c \<noteq> []" using Suc.prems(2) x Composite by simp
    then have "hd (GetChildren c) \<in> set (GetChildren c)" by simp
    then obtain b' where b': "b' \<in> set (GetChildren c)" by blast
    have "tree_ok w k b'" using kids(2)[OF b']
    proof (induction k arbitrary: b')
      case (Suc k)
      then show ?case by (auto split: option.splits accessor_kind.splits)
    qed simp
    then have "accessor_depth w m k b' \<le> int (card (output_ports w))"
      using Suc.IH[OF kids[OF b'] placements_root] by simp
    moreover have "accessor_depth w m (Suc k) a \<le> accessor_depth w m k b'"
      using x Composite fold_min_le(2)[OF b', of "accessor_depth w m k" INT_MAX] by simp
    ultimately have "accessor_depth w m (Suc k) a \<le> int (card (output_ports w))" by simp
    moreover consider "d = accessor_depth w m (Suc k) a"
      | b' where "b' \<in> set (GetChildren c)" "(b, d) \<in> set (placements w m k b')"
      using Suc.prems(3) x Composite by auto
    ultimately show ?thesis using Suc.IH kids by metis
  qed
qed simp

text \<open>
  One accessor feeds another when every output of the other needs one of its outputs, or, if the
  other has no outputs, when it is the source of a port in the class of one of its inputs.
\<close>

definition feeds :: "('e, 'u) world \<Rightarrow> nat \<Rightarrow> nat \<Rightarrow> bool" where
  "feeds w a b \<longleftrightarrow> (\<exists>x d y e. accessors w a = Some x \<and> a_kind x = Atomic d \<and>
     accessors w b = Some y \<and> a_kind y = Atomic e \<and>
     (if GetOutputPorts y = []
      then \<exists>i \<in> set (GetInputPorts y). \<exists>j \<in> set (model_eqv w i). \<exists>out \<in> set (GetOutputPorts x). model_src w j = Some out
      else \<forall>out' \<in> set (GetOutputPorts y). \<exists>out \<in> set (GetOutputPorts x). (out', out) \<in> causal.needs w))"

definition prio :: "('e, 'u) world \<Rightarrow> nat \<Rightarrow> int" where
  "prio w a = (case accessors w a of None \<Rightarrow> 0 | Some x \<Rightarrow> GetPriority x)"

lemma fold_min_greater:
  "z < d \<Longrightarrow> (\<And>b. b \<in> set bs \<Longrightarrow> z < f b) \<Longrightarrow> z < fold (\<lambda>b d. min d (f b)) bs (d::int)"
  by (induction bs arbitrary: d) auto

lemma fold_max_ge:
  "(d::int) \<le> fold (\<lambda>b d. max d (f b)) bs d"
  "b \<in> set bs \<Longrightarrow> f b \<le> fold (\<lambda>b d. max d (f b)) bs (d::int)"
proof (induction bs arbitrary: d)
  case (Cons c bs)
  { case 1 show ?case using Cons.IH(1)[of "max d (f c)"] by simp }
  { case 2 then show ?case using Cons.IH(1)[of "max d (f c)"] Cons.IH(2)[of "max d (f c)"] by auto }
qed simp_all

lemma feeds_depth:
  assumes ok: "causal_ok w" and m: "causal.depths_ok w m" "ports_known w m a" "ports_known w m b"
    and feeds: "feeds w a b" and x: "accessors w a = Some x" and y: "accessors w b = Some y"
    and size: "int (card (output_ports w)) \<le> INT_MAX"
  shows "atomic_depth m x < atomic_depth m y"
proof -
  have wok: "world_ok w" using ok by (simp add: causal_ok_def)
  obtain d e where kinds: "a_kind x = Atomic d" "a_kind y = Atomic e"
    and link: "if GetOutputPorts y = []
      then \<exists>i \<in> set (GetInputPorts y). \<exists>j \<in> set (model_eqv w i). \<exists>out \<in> set (GetOutputPorts x). model_src w j = Some out
      else \<forall>out' \<in> set (GetOutputPorts y). \<exists>out \<in> set (GetOutputPorts x). (out', out) \<in> causal.needs w"
    using feeds x y unfolding feeds_def by auto
  have shallow: "atomic_depth m x \<le> the (m out)" if "out \<in> set (GetOutputPorts x)" for out
  proof -
    have "HasOutputPorts x" using port_names[OF wok x] that by auto
    then show ?thesis using fold_min_le(2)[OF that, of "\<lambda>p. the (m p)" INT_MAX] by (simp add: atomic_depth_def)
  qed
  have small: "the (m out) < INT_MAX" if "out \<in> set (GetOutputPorts x)" for out
  proof -
    have "m out \<noteq> None" using m(2) x kinds(1) that unfolding ports_known_def by blast
    then have "m out = Some (the (m out))" by simp
    moreover have "out \<in> output_ports w" using x kinds(1) that by (auto simp: output_ports_def)
    ultimately have "the (m out) < int (card (output_ports w))" using causal.output_depth_bound[OF ok m(1)] by blast
    then show ?thesis using size by simp
  qed
  show ?thesis
  proof (cases "GetOutputPorts y = []")
    case True
    then obtain i j out where l: "i \<in> set (GetInputPorts y)" "j \<in> set (model_eqv w i)"
        "out \<in> set (GetOutputPorts x)" "model_src w j = Some out" using link by auto
    have "m i \<noteq> None" using m(3) y kinds(2) l(1) unfolding ports_known_def by blast
    then have mi: "m i = Some (the (m i))" by simp
    have ins: "i \<in> input_ports w" using y kinds(2) l(1) by (auto simp: input_ports_def)
    have "causal.input_depth_ok w m i (the (m i))" using m(1) ins mi unfolding causal.depths_ok_def by blast
    then have "the (m i) = Max (insert 0 (causal.source_rank w m ` set (model_eqv w i)))"
      unfolding causal.input_depth_ok_def by blast
    moreover have "causal.source_rank w m j \<in> insert 0 (causal.source_rank w m ` set (model_eqv w i))" using l(2) by simp
    ultimately have "causal.source_rank w m j \<le> the (m i)" using Max_ge by (metis finite.insertI finite_imageI finite_set)
    then have "the (m out) < the (m i)" using l(4) by (simp add: causal.source_rank_def)
    also have "the (m i) \<le> atomic_depth m y"
      using True port_names[OF wok y] fold_max_ge(2)[OF l(1), of "\<lambda>p. the (m p)" 0] by (simp add: atomic_depth_def)
    finally show ?thesis using shallow[OF l(3)] by simp
  next
    case False
    have less: "atomic_depth m x < the (m out')" if out': "out' \<in> set (GetOutputPorts y)" for out'
    proof -
      obtain out where out: "out \<in> set (GetOutputPorts x)" "(out', out) \<in> causal.needs w" using link False out' by auto
      have "m out' \<noteq> None" using m(3) y kinds(2) out' unfolding ports_known_def by blast
      then obtain f where f: "m out' = Some f" by blast
      obtain g where "m out = Some g" "g < f" using causal.needs_deeper[OF ok m(1) out(2) f] by blast
      then show ?thesis using shallow[OF out(1)] f by simp
    qed
    have "hd (GetOutputPorts y) \<in> set (GetOutputPorts y)" using False by simp
    then have "\<exists>out. out \<in> set (GetOutputPorts x)" using link False by (meson)
    then obtain out where "out \<in> set (GetOutputPorts x)" by blast
    then have "atomic_depth m x < INT_MAX" using shallow small by fastforce
    then show ?thesis
      using False port_names[OF wok y] less by (simp add: atomic_depth_def fold_min_greater)
  qed
qed

lemma inhabited_tree: "inhabited w k a \<Longrightarrow> tree_ok w k a"
  by (induction k arbitrary: a) (auto split: option.splits accessor_kind.splits)

lemma below_exist: "b \<in> set (below w k a) \<Longrightarrow> accessors w b \<noteq> None"
proof (induction k arbitrary: a)
  case (Suc k)
  show ?case
  proof (cases "accessors w a")
    case (Some x)
    then show ?thesis using Suc by (cases "a_kind x") auto
  qed (use Suc in simp)
qed simp

lemma placements_atomic:
  "tree_ok w k a \<Longrightarrow> b \<in> set (below w k a) \<Longrightarrow> accessors w b = Some y \<Longrightarrow> a_kind y = Atomic e \<Longrightarrow>
   (b, atomic_depth m y) \<in> set (placements w m k a)"
proof (induction k arbitrary: a)
  case (Suc k)
  then show ?case by (auto split: option.splits accessor_kind.splits)
qed simp

lemma reprioritised_prio:
  assumes "accessors w' = reprioritise ns (accessors w)" and "accessors w a \<noteq> None" and "map_of ns a = Some q"
  shows "prio w' a = q"
  using assms by (auto simp: prio_def reprioritise_def GetPriority_def)

text \<open>What a settled state of the whole tree gives for the numbering.\<close>

lemma numbering_orders:
  assumes ok: "causal_ok w" "inhabited w k h" "distinct (below w k h)"
    and size: "int (card (output_ports w)) \<le> INT_MAX"
    and t: "settled w s0 (below w k h) (placements w (ps_portDepths t) k h) (parentage w k h) t"
      "ps_accessorDepths s0 = []"
    and w': "accessors w' = reprioritise (numbering p (ps_accessorDepths t)) (accessors w)"
  shows "inj_on (prio w') (set (below w k h))" and "\<forall>a \<in> set (below w k h). p \<le> prio w' a"
    and "\<forall>(c, b) \<in> set (parentage w k h). prio w' c < prio w' b"
    and "\<forall>a \<in> set (below w k h). \<forall>b \<in> set (below w k h). feeds w a b \<longrightarrow> prio w' a < prio w' b"
    and "accessors w' a = (if a \<in> set (below w k h)
      then map_option (\<lambda>x. x\<lparr>m_priority := prio w' a\<rparr>) (accessors w a) else accessors w a)"
proof -
  let ?ns = "numbering p (ps_accessorDepths t)" and ?m = "ps_portDepths t" and ?acc = "ps_accessorDepths t"
  have wf: "smap_wf ?acc" and m: "causal.depths_ok w ?m" using t(1) by (simp_all add: settled_def)
  have "mset (concat (map snd ?acc)) = mset (below w k h)" using t by (simp add: settled_def)
  then have same: "set (concat (map snd ?acc)) = set (below w k h)" and dist: "distinct (concat (map snd ?acc))"
    using ok(3) by (metis mset_eq_setD, metis mset_eq_imp_distinct_iff)
  have keys: "fst ` set ?ns = set (below w k h)" using numbering_keys[of p ?acc] same by (metis set_map)
  have d: "distinct (map fst ?ns)" using dist by simp
  have at: "prio w' a = q" if "map_of ?ns a = Some q" "a \<in> set (below w k h)" for a q
    using reprioritised_prio[OF w' below_exist[OF that(2)] that(1)] .
  have num: "\<exists>q. map_of ?ns a = Some q \<and> (a, q) \<in> set ?ns" if "a \<in> set (below w k h)" for a
    using that keys map_of_is_SomeI[OF d] by force
  have less: "prio w' c < prio w' b" if a: "ahead ?acc c b" for c b
  proof -
    obtain us vs where uv: "concat (map snd ?acc) = us @ vs" "c \<in> set us" "b \<in> set vs"
      using ahead_position[OF wf a] by blast
    then obtain q r where "map_of ?ns c = Some q" "map_of ?ns b = Some r" "q < r"
      using position_less[OF _ _ numbering_sorted[of p ?acc], of us vs c b] dist by auto
    moreover have "c \<in> set (below w k h)" "b \<in> set (below w k h)" using uv same by auto
    ultimately show ?thesis using at by simp
  qed
  show "\<forall>a \<in> set (below w k h). p \<le> prio w' a"
    using num at numbering_range[of _ p ?acc] by force
  show "inj_on (prio w') (set (below w k h))"
  proof (rule inj_onI)
    fix a b assume ab: "a \<in> set (below w k h)" "b \<in> set (below w k h)" "prio w' a = prio w' b"
    then obtain q where q: "(a, q) \<in> set ?ns" "(b, q) \<in> set ?ns" using num at by metis
    have "distinct (map snd ?ns)" using numbering_sorted[of p ?acc] strict_sorted_iff by blast
    then have "(a, q) = (b, q)" using q by (metis distinct_map inj_onD snd_conv)
    then show "a = b" by simp
  qed
  show "\<forall>(c, b) \<in> set (parentage w k h). prio w' c < prio w' b"
    using t(1) less unfolding settled_def by blast
  show "\<forall>a \<in> set (below w k h). \<forall>b \<in> set (below w k h). feeds w a b \<longrightarrow> prio w' a < prio w' b"
  proof (intro ballI impI)
    fix a b assume ab: "a \<in> set (below w k h)" "b \<in> set (below w k h)" and f: "feeds w a b"
    obtain x d y e where xy: "accessors w a = Some x" "a_kind x = Atomic d" "accessors w b = Some y" "a_kind y = Atomic e"
      using f unfolding feeds_def by blast
    have "ports_known w ?m a" "ports_known w ?m b" using t(1) ab unfolding settled_def by blast+
    then have deeper: "atomic_depth ?m x < atomic_depth ?m y" using feeds_depth[OF ok(1) m _ _ f xy(1,3) size] by blast
    have tree: "tree_ok w k h" using ok(2) by (rule inhabited_tree)
    have "a \<in> set (depths_at (atomic_depth ?m x) ?acc)" "b \<in> set (depths_at (atomic_depth ?m y) ?acc)"
      using t(1) placements_atomic[OF tree ab(1) xy(1,2)] placements_atomic[OF tree ab(2) xy(3,4)]
      unfolding settled_def by blast+
    with deeper have "ahead ?acc a b" unfolding ahead_def by blast
    then show "prio w' a < prio w' b" by (rule less)
  qed
  show "accessors w' a = (if a \<in> set (below w k h)
      then map_option (\<lambda>x. x\<lparr>m_priority := prio w' a\<rparr>) (accessors w a) else accessors w a)"
  proof (cases "a \<in> set (below w k h)")
    case True
    then obtain q where "map_of ?ns a = Some q" using num by blast
    with True at[OF this True] show ?thesis by (simp add: w' reprioritise_def)
  next
    case False
    then have "map_of ?ns a = None" using keys by (simp add: map_of_eq_None_iff)
    with False show ?thesis by (simp add: w' reprioritise_def)
  qed
qed

text \<open>What the depth computation for the host does.\<close>

lemma host_depths:
  assumes "causal_ok w" and "tree_ok w k h"
  defines "s0 \<equiv> \<lparr>ps_portDepths = (\<lambda>_. None), ps_accessorDepths = []\<rparr>"
  shows "causal.outcome w (\<lambda>_ t. settled w s0 (below w k h) (placements w (ps_portDepths t) k h) (parentage w k h) t)
    (ComputeAccessorDepth w (port_fuel w) k h s0)"
proof -
  have "causal.depths_ok w (ps_portDepths s0)" "smap_wf (ps_accessorDepths s0)"
    by (simp_all add: s0_def causal.depths_ok_def)
  from accessor_depth_ok[OF assms(1) order_refl assms(2) this] show ?thesis
    by (rule causal.outcome_mono) simp
qed

text \<open>
  C1. The priorities of a model. The computation always ends. It throws only for a causality
  loop, on a port that is on one, and has changed nothing then. Otherwise it changes nothing but
  the priorities of the accessors under the host: they are distinct and at least the host's
  first priority, a composite comes before its children, and an atomic accessor comes before every other
  all of whose outputs need one of its outputs, or which has no outputs and has an input in whose
  class it is a source. It need not come before one that has another output besides, for instance a
  spontaneous one: an accessor has the least of the depths of its outputs (theory \<open>ReactionOrder\<close>,
  lemma \<open>ticking_receiver_first\<close>). The ports are well formed, the walk from an input to its source ends,
  every composite under the host has children, and no priority exceeds the largest \<open>int\<close>. (With
  callbacks to update, the director has to be well formed.)
\<close>

theorem ComputeAccessorPriorities_order:
  fixes w :: "('e, 'u) world"
  assumes "causal_ok w" and "inhabited w k h" and "distinct (below w k h)"
    and "int (card (output_ports w)) + 1 + int (length (below w k h)) \<le> INT_MAX"
    and "updateCallbacks \<longrightarrow> director_ok w"
  shows "case ComputeAccessorPriorities k h updateCallbacks w of
      Ret _ w' \<Rightarrow>
        (\<forall>a. accessors w' a = (if a \<in> set (below w k h)
           then map_option (\<lambda>x. x\<lparr>m_priority := prio w' a\<rparr>) (accessors w a) else accessors w a)) \<and>
        ports w' = ports w \<and> inj_on (prio w') (set (below w k h)) \<and>
        (\<forall>a \<in> set (below w k h). HostPriority \<le> prio w' a) \<and>
        (\<forall>(c, b) \<in> set (parentage w k h). prio w' c < prio w' b) \<and>
        (\<forall>a \<in> set (below w k h). \<forall>b \<in> set (below w k h). feeds w a b \<longrightarrow> prio w' a < prio w' b)
    | Throw e w' \<Rightarrow> w' = w \<and> (\<exists>p. e = CausalityLoop p \<and> causal.on_loop w p)
    | Diverge \<Rightarrow> False"
proof -
  let ?s0 = "\<lparr>ps_portDepths = (\<lambda>_. None), ps_accessorDepths = []\<rparr>"
  have tree: "tree_ok w k h" using assms(2) by (rule inhabited_tree)
  note run = host_depths[OF assms(1) tree]
  show ?thesis
  proof (cases "ComputeAccessorDepth w (port_fuel w) k h ?s0")
    case (Ret d t)
    let ?acc = "ps_accessorDepths t"
    have t: "settled w ?s0 (below w k h) (placements w (ps_portDepths t) k h) (parentage w k h) t" using run Ret by simp
    then have nodes: "mset (concat (map snd ?acc)) = mset (below w k h)" by (simp add: settled_def)
    have kn: "known w (ps_portDepths t) k h" using t unfolding known_def settled_def by blast
    have m: "causal.depths_ok w (ps_portDepths t)"
      and keys: "fst ` set ?acc \<subseteq> snd ` set (placements w (ps_portDepths t) k h)"
      using t by (simp_all add: settled_def)
    have bound: "\<forall>d \<in> fst ` set ?acc. d \<le> int (card (output_ports w))"
    proof
      fix d assume "d \<in> fst ` set ?acc"
      then have "d \<in> snd ` set (placements w (ps_portDepths t) k h)" using keys by (rule rev_subsetD)
      then obtain b where "(b, d) \<in> set (placements w (ps_portDepths t) k h)" by auto
      then show "d \<le> int (card (output_ports w))" by (rule placements_bound[OF assms(1) m kn assms(2)])
    qed
    have size: "set (concat (map snd ?acc)) = set (below w k h)" "distinct (concat (map snd ?acc))"
        "length (concat (map snd ?acc)) = length (below w k h)"
      using nodes assms(3) by (metis mset_eq_setD, metis mset_eq_imp_distinct_iff, metis size_mset)
    obtain w' where w': "assign_depths updateCallbacks ?acc HostPriority w = Ret () w'"
        "accessors w' = reprioritise (numbering HostPriority ?acc) (accessors w)" "ports w' = ports w"
    proof -
      have "\<forall>a \<in> set (concat (map snd ?acc)). accessors w a \<noteq> None" using size(1) below_exist by blast
      moreover have "INT_MIN \<le> HostPriority" "HostPriority \<le> int (card (output_ports w)) + int 1"
        by (simp_all add: HostPriority_def UpdateModelPriority_def)
      moreover have "int (card (output_ports w)) + int 1 + int (length (concat (map snd ?acc))) \<le> INT_MAX"
        using assms(4) unfolding size(3) by simp
      ultimately show ?thesis using assign_depths_ok[OF assms(5) _ size(2) _ bound] that by blast
    qed
    have "int (card (output_ports w)) \<le> INT_MAX" using assms(4) by simp
    note order = numbering_orders[OF assms(1-3) this t _ w'(2)]
    have "ComputeAccessorPriorities k h updateCallbacks w = Ret () w'"
      by (simp add: ComputeAccessorPriorities_def Ret w'(1))
    then show ?thesis using order w'(3) by simp
  next
    case (Throw e t)
    with run show ?thesis by (simp add: ComputeAccessorPriorities_def)
  next
    case Diverge
    with run show ?thesis by simp
  qed
qed

text \<open>
  C14. A causality loop is always found: if an output port of an accessor under the host needs
  itself, the computation throws, and the port it names is on a loop.
\<close>

theorem ComputeAccessorPriorities_loop:
  fixes w :: "('e, 'u) world"
  assumes "causal_ok w" and "tree_ok w k h"
    and "b \<in> set (below w k h)" and "accessors w b = Some y" and "a_kind y = Atomic e"
    and "out \<in> set (GetOutputPorts y)" and "(out, out) \<in> (causal.needs w)\<^sup>+"
  shows "\<exists>p. ComputeAccessorPriorities k h updateCallbacks w = Throw (CausalityLoop p) w \<and> causal.on_loop w p"
proof -
  let ?s0 = "\<lparr>ps_portDepths = (\<lambda>_. None), ps_accessorDepths = []\<rparr>"
  note run = host_depths[OF assms(1,2)]
  show ?thesis
  proof (cases "ComputeAccessorDepth w (port_fuel w) k h ?s0")
    case (Ret d t)
    then have t: "settled w ?s0 (below w k h) (placements w (ps_portDepths t) k h) (parentage w k h) t" using run by simp
    then have "ports_known w (ps_portDepths t) b" and m: "causal.depths_ok w (ps_portDepths t)"
      using assms(3) unfolding settled_def by blast+
    then have "ps_portDepths t out \<noteq> None" using assms(4-6) unfolding ports_known_def by blast
    then obtain d where d: "ps_portDepths t out = Some d" by blast
    from causal.no_loop_with_depth[OF assms(1) m assms(7) d] d show ?thesis by simp
  next
    case (Throw e t)
    with run show ?thesis by (auto simp: ComputeAccessorPriorities_def)
  next
    case Diverge
    with run show ?thesis by simp
  qed
qed

section \<open>Two accessors in a row, or in a circle\<close>

definition stage :: "string \<Rightarrow> nat \<Rightarrow> nat \<Rightarrow> accessor" where
  "stage n inPort outPort = (Accessor_new n (Atomic no_atomic))\<lparr>m_parent := Some 8,
     m_inputPorts := [(''In'', inPort)], m_orderedInputPorts := [inPort],
     m_outputPorts := [(''Out'', outPort)], m_orderedOutputPorts := [outPort]\<rparr>"

definition pipeline :: "bool \<Rightarrow> (nat, unit) world" where
  "pipeline circle = empty_world\<lparr>nextPort := 4,
     ports := [0 \<mapsto> (Port_new ''In'' 1 InputPort)\<lparr>m_source := if circle then Some 3 else None\<rparr>,
       1 \<mapsto> (Port_new ''Out'' 1 (OutputPort False))\<lparr>m_destinations := [2]\<rparr>,
       2 \<mapsto> (Port_new ''In'' 2 InputPort)\<lparr>m_source := Some 1\<rparr>,
       3 \<mapsto> (Port_new ''Out'' 2 (OutputPort False))\<lparr>m_destinations := if circle then [0] else []\<rparr>],
     accessors := [1 \<mapsto> stage ''First'' 0 1, 2 \<mapsto> stage ''Second'' 2 3,
       8 \<mapsto> Accessor_new ''Host'' (Composite (plain_composite True [1, 2]))]\<rparr>"

lemma pipeline_accessors:
  "accessors (pipeline circle) a = (if a = 1 then Some (stage ''First'' 0 1) else if a = 2 then Some (stage ''Second'' 2 3)
     else if a = 8 then Some (Accessor_new ''Host'' (Composite (plain_composite True [1, 2]))) else None)"
  by (simp add: pipeline_def)

lemma stage_parts:
  "a_kind (stage n i out) = Atomic no_atomic" "GetInputPorts (stage n i out) = [i]" "GetOutputPorts (stage n i out) = [out]"
  by (simp_all add: stage_def Accessor_new_def GetInputPorts_def GetOutputPorts_def)

lemma pipeline_ports:
  "input_ports (pipeline circle) = {0, 2}" "output_ports (pipeline circle) = {1, 3}"
  by (auto simp: input_ports_def output_ports_def pipeline_accessors stage_parts Accessor_new_def plain_composite_def
      split: if_splits)
    ((rule exI[of _ "Suc 0"], simp, rule exI[of _ 2], simp)+)

lemma pipeline_world_ok: "world_ok (pipeline circle)"
proof -
  have "accessor_ok (ports (pipeline circle)) 1 (stage ''First'' 0 1)"
      "accessor_ok (ports (pipeline circle)) 2 (stage ''Second'' 2 3)"
      "accessor_ok (ports (pipeline circle)) 8 (Accessor_new ''Host'' (Composite (plain_composite True [1, 2])))"
    by (auto simp: accessor_ok_def pipeline_def stage_def Accessor_new_def no_atomic_def pruned_def port_of_def
        Port_new_def NameIsValid_def forbidden_chars_def smap_wf_def intro!: named_ports_ok_list)
  moreover have "ports (pipeline circle) p = None" if "4 \<le> p" for p using that by (simp add: pipeline_def)
  moreover have "nextPort (pipeline circle) = 4" by (simp add: pipeline_def)
  ultimately show ?thesis unfolding world_ok_def by (auto simp: pipeline_accessors split: if_splits)
qed

lemma pipeline_source:
  "ask_source (pipeline circle) 0 = Some (Inr (if circle then Some 3 else None))"
  "ask_source (pipeline circle) 2 = Some (Inr (Some 1))"
  by (auto simp: ask_source_def pipeline_def Port_new_def IsConnectedToSource_def GetSourceOutputPort_def
      source_walk.simps stage_parts)

lemma pipeline_causal_ok: "causal_ok (pipeline circle)"
  using pipeline_world_ok pipeline_source by (auto simp: causal_ok_def pipeline_ports)

lemma pipeline_needs: "causal.needs (pipeline circle) = (if circle then {(3, 1), (1, 3)} else {(3, 1)})"
proof -
  have x: "accessors (pipeline circle) 1 = Some (stage ''First'' 0 1)" "accessors (pipeline circle) 2 = Some (stage ''Second'' 2 3)"
    by (simp_all add: pipeline_accessors)
  have "set (model_eqv (pipeline circle) i) = {i}" if "i = 0 \<or> i = 2" for i
    using that model_eqv_eq[OF pipeline_world_ok x(1) stage_parts(1), of 0]
      model_eqv_eq[OF pipeline_world_ok x(2) stage_parts(1), of 2] by (auto simp: stage_parts)
  moreover have "set (model_deps (pipeline circle) 1) = {0}" "set (model_deps (pipeline circle) 3) = {2}"
    using model_deps_eq[OF pipeline_world_ok x(1) stage_parts(1), of 1]
      model_deps_eq[OF pipeline_world_ok x(2) stage_parts(1), of 3]
    by (simp_all add: stage_parts set_GetInputPortDependencies no_atomic_def pruned_def)
  moreover have "model_src (pipeline circle) 0 = (if circle then Some 3 else None)" "model_src (pipeline circle) 2 = Some 1"
    by (simp_all add: model_src_def pipeline_source)
  ultimately show ?thesis by (auto simp: causal.needs_def pipeline_ports)
qed

lemma pipeline_tree:
  "inhabited (pipeline circle) 2 8" "below (pipeline circle) 2 8 = [8, 1, 2]" "parentage (pipeline circle) 2 8 = [(8, 1), (8, 2)]"
  by (simp_all add: pipeline_accessors numeral_2_eq_2 stage_parts Accessor_new_def plain_composite_def GetChildren_def)

lemma ComputeAccessorPriorities_order_witness:
  "\<exists>w'. ComputeAccessorPriorities 2 8 False (pipeline False) = Ret () w' \<and>
     HostPriority \<le> prio w' 8 \<and> prio w' 8 < prio w' 1 \<and> prio w' 1 < prio w' 2"
proof -
  let ?w = "pipeline False"
  have "(a, b) \<in> (causal.needs ?w)\<^sup>+ \<Longrightarrow> a = 3 \<and> b = 1" for a b
    by (induction rule: trancl_induct) (auto simp: pipeline_needs)
  then have no: "\<not> causal.on_loop ?w p" for p by (fastforce simp: causal.on_loop_def)
  have f: "feeds ?w 1 2"
    by (simp add: feeds_def pipeline_accessors stage_parts pipeline_needs)
  have size: "int (card (output_ports ?w)) + 1 + int (length (below ?w 2 8)) \<le> INT_MAX"
    by (simp add: pipeline_ports pipeline_tree)
  have "distinct (below ?w 2 8)" by (simp add: pipeline_tree)
  from ComputeAccessorPriorities_order[OF pipeline_causal_ok pipeline_tree(1) this size, of False]
  show ?thesis
    using f no by (auto simp: pipeline_tree split: run.splits)
qed

lemma ComputeAccessorPriorities_loop_witness:
  "\<exists>p. ComputeAccessorPriorities 2 8 True (pipeline True) = Throw (CausalityLoop p) (pipeline True)"
proof -
  let ?w = "pipeline True"
  have "(1, 3) \<in> causal.needs ?w" "(3, 1) \<in> causal.needs ?w" by (simp_all add: pipeline_needs)
  then have l: "(1, 1) \<in> (causal.needs ?w)\<^sup>+" by (meson r_into_trancl' trancl_into_trancl)
  have y: "accessors ?w 1 = Some (stage ''First'' 0 1)" by (simp add: pipeline_accessors)
  have "1 \<in> set (below ?w 2 8)" "1 \<in> set (GetOutputPorts (stage ''First'' 0 1))" by (simp_all add: pipeline_tree stage_parts)
  from ComputeAccessorPriorities_loop[OF pipeline_causal_ok inhabited_tree[OF pipeline_tree(1)] this(1) y stage_parts(1) this(2) l]
  show ?thesis by blast
qed

end
