(* ===== verification/HostHazards.thy ===== *)
theory HostHazards
  imports HostOrder
begin

text \<open>
  What the priority computation of \<open>src/src/HostImpl.cpp\<close> does outside the conditions under
  which it is correct: a host without accessors, composites connected in a circle, and an
  update of the priorities while callbacks are scheduled or events are queued.
\<close>

section \<open>A host without accessors\<close>

text \<open>
  C39. Computing the priorities of a host (or of any composite) without children, as \<open>Setup\<close> does
  it, with no callbacks to update: its depth is the largest \<open>int\<close>, so it gets the largest
  \<open>int\<close> as its priority, and the increment that follows overflows.
\<close>

theorem empty_host_overflows:
  fixes w :: "('e, 'u) world"
  assumes "accessors w h = Some x" and "a_kind x = Composite c" and "GetChildren c = []"
  shows "ComputeAccessorPriorities (Suc k) h False w = Throw (Fatal SignedOverflow) (SetPriority h INT_MAX w)"
  using assms
  by (simp add: ComputeAccessorPriorities_def depths_at_def HostPriority_def UpdateModelPriority_def
      with_accessor_def fits_int_def)

lemma empty_host_overflows_witness:
  "\<exists>w'. ComputeAccessorPriorities 1 8 False
     (one_world\<lparr>accessors := [8 \<mapsto> Accessor_new ''Host'' (Composite (plain_composite True []))]\<rparr>)
   = Throw (Fatal SignedOverflow) w'"
proof -
  let ?w = "one_world\<lparr>accessors := [8 \<mapsto> Accessor_new ''Host'' (Composite (plain_composite True []))]\<rparr>"
  have "accessors ?w 8 = Some (Accessor_new ''Host'' (Composite (plain_composite True [])))" by simp
  moreover have "a_kind (Accessor_new ''Host'' (Composite (plain_composite True []))) = Composite (plain_composite True [])"
    "GetChildren (plain_composite True []) = []"
    by (simp_all add: Accessor_new_def GetChildren_def plain_composite_def)
  ultimately show ?thesis using empty_host_overflows[of ?w 8 _ _ 0] by auto
qed

section \<open>Composites in a circle\<close>

text \<open>Ports of composites whose sources are again among them.\<close>

definition composite_circle :: "('e, 'u) world \<Rightarrow> nat set \<Rightarrow> bool" where
  "composite_circle w C \<longleftrightarrow> (\<forall>p \<in> C. \<exists>pt x s. ports w p = Some pt \<and>
     accessors w (p_owner pt) = Some x \<and> IsComposite x \<and> m_source pt = Some s \<and> s \<in> C)"

lemma source_walk_circle: "source_walk w p = Some r \<Longrightarrow> composite_circle w C \<Longrightarrow> p \<notin> C"
proof (induction rule: source_walk.raw_induct[rotated, consumes 1])
  case (1 walk w p r)
  show ?case
  proof
    assume "p \<in> C"
    then obtain pt x s where "ports w p = Some pt" "accessors w (p_owner pt) = Some x" "IsComposite x"
        "m_source pt = Some s" "s \<in> C"
      using 1(3) unfolding composite_circle_def by blast
    with 1 show False by (simp del: IsComposite.simps)
  qed
qed

text \<open>
  The search for the source of a port does not return when it enters composites that are
  connected in a circle: a composite's output port can be connected to its own input port, and
  that to the output port, and no check refuses it.
\<close>

theorem composite_circle_never_returns:
  fixes w :: "('e, 'u) world"
  assumes "composite_circle w C" and "ports w i = Some pt" and "m_source pt = Some s" and "s \<in> C"
  shows "ask_source w i = None"
proof -
  have "source_walk w s = None" using source_walk_circle[OF _ assms(1)] assms(4) by (cases "source_walk w s") auto
  then show ?thesis using assms(2,3) by (simp add: ask_source_def GetSourceOutputPort_def IsConnectedToSource_def)
qed

text \<open>The composite 7 is connected to itself, and the input of its child 1 to its input.\<close>

definition round_trip :: "(nat, unit) world" where
  "round_trip = empty_world\<lparr>nextPort := 3,
     ports := [0 \<mapsto> (Port_new ''In'' 7 InputPort)\<lparr>m_source := Some 1, m_destinations := [1, 2]\<rparr>,
       1 \<mapsto> (Port_new ''Out'' 7 (OutputPort False))\<lparr>m_source := Some 0, m_destinations := [0]\<rparr>,
       2 \<mapsto> (Port_new ''In'' 1 InputPort)\<lparr>m_source := Some 0\<rparr>],
     accessors := [1 \<mapsto> Accessor_new ''Child'' (Atomic no_atomic),
       7 \<mapsto> Accessor_new ''Box'' (Composite (plain_composite False [1]))]\<rparr>"

lemma composite_circle_never_returns_witness: "ask_source round_trip 2 = None"
proof -
  have "composite_circle round_trip {0, 1}"
    by (simp add: composite_circle_def round_trip_def Port_new_def Accessor_new_def)
  then show ?thesis
    by (rule composite_circle_never_returns[where pt = "(Port_new ''In'' 1 InputPort)\<lparr>m_source := Some 0\<rparr>" and s = 0])
      (simp_all add: round_trip_def)
qed

section \<open>Updating priorities while callbacks are scheduled\<close>

text \<open>
  C38. \<open>ComputeAccessorPriorities\<close> moves an accessor's callbacks by their priority, not by their
  owner. When the next accessor still has as its old priority the one that was just given out,
  the callbacks of the accessor before it move along with its own: they end up with the
  priority of the next accessor, although their accessor has another one.
\<close>

theorem priority_update_drags_callbacks:
  fixes w :: "('e, 'u) world"
  assumes "director_ok w" and "accessors w a = Some x" and "accessors w b = Some y" and "a \<noteq> b"
    and "m_priority y = p" and "map_of (m_scheduledCallbacks w) i = Some c" and "cb_priority c = m_priority x"
    and "0 < p" and "p + 2 \<le> INT_MAX"
  shows "\<exists>w'. assign_accessors True [a, b] p w = Ret (p + 2) w' \<and> prio w' a = p \<and> prio w' b = p + 1 \<and>
    map_of (m_scheduledCallbacks w') i = Some (c\<lparr>cb_priority := p + 1\<rparr>)"
proof -
  obtain w1 where w1: "HandlePriorityUpdate (m_priority x) p w = Ret () w1" "director_ok w1"
      "accessors w1 = accessors w"
      "\<forall>i. map_of (m_scheduledCallbacks w1) i =
        map_option (reprioritised (m_priority x) p) (map_of (m_scheduledCallbacks w) i)"
    using HandlePriorityUpdate_world[OF assms(1), of "m_priority x" p] by blast
  let ?w2 = "SetPriority a p w1"
  have w2: "director_ok ?w2" "accessors ?w2 = (accessors w)(a := Some (x\<lparr>m_priority := p\<rparr>))"
      "m_scheduledCallbacks ?w2 = m_scheduledCallbacks w1"
    using w1(2,3) assms(2) by (simp_all add: SetPriority_def modify_accessor_def director_ok_def)
  obtain w3 where w3: "HandlePriorityUpdate p (p + 1) ?w2 = Ret () w3" "accessors w3 = accessors ?w2"
      "\<forall>i. map_of (m_scheduledCallbacks w3) i =
        map_option (reprioritised p (p + 1)) (map_of (m_scheduledCallbacks ?w2) i)"
    using HandlePriorityUpdate_world[OF w2(1), of p "p + 1"] by blast
  let ?w4 = "SetPriority b (p + 1) w3"
  have fits: "fits_int (p + 1)" "fits_int (p + 1 + 1)" using assms(8,9) by (simp_all add: fits_int_def)
  have "assign_accessors True [a, b] p w = Ret (p + 2) ?w4"
    using w1(1) w2(2) w3(1) assms(2-5) fits by (simp add: with_accessor_def GetPriority_def)
  moreover have "accessors ?w4 = (accessors w)(a := Some (x\<lparr>m_priority := p\<rparr>), b := Some (y\<lparr>m_priority := p + 1\<rparr>))"
    using w2(2) w3(2) assms(3,4) by (simp add: SetPriority_def modify_accessor_def)
  then have "prio ?w4 a = p" "prio ?w4 b = p + 1" using assms(4) by (simp_all add: prio_def GetPriority_def)
  moreover have "m_scheduledCallbacks ?w4 = m_scheduledCallbacks w3" by (simp add: SetPriority_def modify_accessor_def)
  then have "map_of (m_scheduledCallbacks ?w4) i = Some (c\<lparr>cb_priority := p + 1\<rparr>)"
    using w1(4) w2(3) w3(3) assms(6,7) by (simp add: reprioritised_def)
  ultimately show ?thesis by blast
qed

text \<open>A new accessor with a callback comes before one that had its place.\<close>

definition insertion :: "(nat, unit) world" where
  "insertion = empty_world\<lparr>m_nextCallbackId := 1, m_callbackQueue := [0],
     m_scheduledCallbacks := [(0, new_callback (UserCallback 1) 500 True INT_MAX 1000500)],
     accessors := [1 \<mapsto> Accessor_new ''New'' (Atomic no_atomic),
       2 \<mapsto> (Accessor_new ''Old'' (Atomic no_atomic))\<lparr>m_priority := 2\<rparr>]\<rparr>"

lemma priority_update_drags_callbacks_witness:
  "\<exists>w'. assign_accessors True [1, 2] 2 insertion = Ret 4 w' \<and> prio w' 1 = 2 \<and>
     map_of (m_scheduledCallbacks w') 0 = Some (new_callback (UserCallback 1) 500 True 3 1000500)"
proof -
  have d: "director_ok insertion"
    by (simp add: insertion_def director_ok_def queue_wf_def smap_wf_def sched_key_def new_callback_def)
  have f: "accessors insertion 1 = Some (Accessor_new ''New'' (Atomic no_atomic))"
      "accessors insertion 2 = Some ((Accessor_new ''Old'' (Atomic no_atomic))\<lparr>m_priority := 2\<rparr>)"
      "map_of (m_scheduledCallbacks insertion) 0 = Some (new_callback (UserCallback 1) 500 True INT_MAX 1000500)"
    by (simp_all add: insertion_def)
  have "\<exists>w'. assign_accessors True [1, 2] 2 insertion = Ret (2 + 2) w' \<and> prio w' 1 = 2 \<and> prio w' 2 = 2 + 1 \<and>
     map_of (m_scheduledCallbacks w') 0 = Some ((new_callback (UserCallback 1) 500 True INT_MAX 1000500)\<lparr>cb_priority := 2 + 1\<rparr>)"
    by (rule priority_update_drags_callbacks[OF d f(1,2) _ _ f(3)])
      (simp_all add: new_callback_def Accessor_new_def DefaultAccessorPriority_def)
  then show ?thesis by (auto simp: new_callback_def simp del: assign_accessors.simps)
qed

section \<open>Updating priorities while events are queued\<close>

text \<open>
  An update of the priorities does not sort the event queues again, which are heaps by priority.
  Two accessors that are queued in the order of their old priorities stay in that order when the
  update exchanges their order: the one that now comes second still reacts first.
\<close>

lemma heap_ok_two: "heap_ok rank [b, a] \<Longrightarrow> rank b \<le> rank a"
  unfolding heap_ok_def by (drule spec[of _ 1]) simp

lemma update_leaves_stale_queue:
  fixes w :: "('e, 'u) world"
  assumes ok: "director_ok w" and a: "accessors w a = Some x" and b: "accessors w b = Some y" and "a \<noteq> b"
    and h: "accessors w h = Some z" "a_kind z = Composite c" "h \<noteq> a" "h \<noteq> b"
    and q: "m_queue (m_childEventQueue c) = [b, a]" and p: "0 < p" "p + 2 \<le> INT_MAX"
  shows "\<exists>w'. assign_accessors True [a, b] p w = Ret (p + 2) w' \<and> prio w' a < prio w' b \<and>
    accessors w' h = Some z \<and> upq_top (m_childEventQueue c) = Inr b \<and> \<not> upq_ok (accessor_priority w') (m_childEventQueue c)"
proof -
  obtain w1 where w1: "HandlePriorityUpdate (m_priority x) p w = Ret () w1" "director_ok w1" "accessors w1 = accessors w"
    using HandlePriorityUpdate_world[OF ok, of "m_priority x" p] by blast
  let ?w2 = "SetPriority a p w1"
  have w2: "director_ok ?w2" "accessors ?w2 = (accessors w)(a := Some (x\<lparr>m_priority := p\<rparr>))"
    using w1(2,3) a by (simp_all add: SetPriority_def modify_accessor_def director_ok_def)
  obtain w3 where w3: "HandlePriorityUpdate (m_priority y) (p + 1) ?w2 = Ret () w3" "accessors w3 = accessors ?w2"
    using HandlePriorityUpdate_world[OF w2(1), of "m_priority y" "p + 1"] by blast
  let ?w4 = "SetPriority b (p + 1) w3"
  have fits: "fits_int (p + 1)" "fits_int (p + 1 + 1)" using p by (simp_all add: fits_int_def)
  have "assign_accessors True [a, b] p w = Ret (p + 2) ?w4"
    using w1(1) w2(2) w3(1) assms(2-4) fits by (simp add: with_accessor_def GetPriority_def)
  moreover have acc: "accessors ?w4 = (accessors w)(a := Some (x\<lparr>m_priority := p\<rparr>), b := Some (y\<lparr>m_priority := p + 1\<rparr>))"
    using w2(2) w3(2) b assms(4) by (simp add: SetPriority_def modify_accessor_def)
  then have "prio ?w4 a < prio ?w4 b" using assms(4) by (simp add: prio_def GetPriority_def)
  moreover have "\<not> upq_ok (accessor_priority ?w4) (m_childEventQueue c)"
    using acc assms(4) q heap_ok_two[of "accessor_priority ?w4" b a] by (auto simp: upq_ok_def accessor_priority_def)
  ultimately show ?thesis using acc h q by (auto simp: upq_top_def)
qed

end
