(* ===== verification/HostReset.thy ===== *)
theory HostReset
  imports HostPriorities
begin

text \<open>
  \<open>ResetPriority\<close>: the virtual function of \<open>src/src/AccessorImpl.cpp\<close> and its overrides in
  \<open>CompositeAccessorImpl.cpp\<close> and \<open>HostImpl.cpp\<close>, which give a whole subtree the priorities it had
  when it was built. It leaves the callbacks and the event queues alone.
\<close>

text \<open>The loop over the children, with the virtual call as a parameter.\<close>

definition ResetChildrenPriorities :: "(nat \<Rightarrow> (unit, 'e, 'u) op) \<Rightarrow> composite_part \<Rightarrow> (unit, 'e, 'u) op" where
  "ResetChildrenPriorities reset c = run_each reset (m_orderedChildren c)"

definition Host_ResetPriority :: "(nat \<Rightarrow> (unit, 'e, 'u) op) \<Rightarrow> nat \<Rightarrow> composite_part \<Rightarrow> (unit, 'e, 'u) op" where
  "Host_ResetPriority reset a c w = ResetChildrenPriorities reset c (SetPriority a HostPriority w)"

definition Accessor_ResetPriority :: "nat \<Rightarrow> ('e, 'u) world \<Rightarrow> ('e, 'u) world" where
  "Accessor_ResetPriority a = SetPriority a DefaultAccessorPriority"

definition Composite_ResetPriority :: "(nat \<Rightarrow> (unit, 'e, 'u) op) \<Rightarrow> nat \<Rightarrow> composite_part \<Rightarrow> (unit, 'e, 'u) op" where
  "Composite_ResetPriority reset a c w = ResetChildrenPriorities reset c (Accessor_ResetPriority a w)"

text \<open>The dispatch on the kind of the accessor; the bound is on the depth of the tree.\<close>

fun ResetPriority :: "nat \<Rightarrow> nat \<Rightarrow> (unit, 'e, 'u) op" where
  "ResetPriority 0 a w = Diverge"
| "ResetPriority (Suc k) a w = with_accessor a (\<lambda>x w.
     case a_kind x of
       Atomic _ \<Rightarrow> Ret () (Accessor_ResetPriority a w)
     | Composite c \<Rightarrow>
         if c_isHost c then Host_ResetPriority (ResetPriority k) a c w
         else Composite_ResetPriority (ResetPriority k) a c w) w"

section \<open>The whole subtree is reset\<close>

definition first_priority :: "accessor \<Rightarrow> int" where
  "first_priority x = (if is_host x then HostPriority else DefaultAccessorPriority)"

definition with_first_priorities :: "nat set \<Rightarrow> ('e, 'u) world \<Rightarrow> ('e, 'u) world" where
  "with_first_priorities B w = w\<lparr>accessors := (\<lambda>b. if b \<in> B
     then map_option (\<lambda>x. x\<lparr>m_priority := first_priority x\<rparr>) (accessors w b) else accessors w b)\<rparr>"

lemma with_first_twice:
  "with_first_priorities B' (with_first_priorities B w) = with_first_priorities (B \<union> B') w"
proof -
  have "first_priority (x\<lparr>m_priority := p\<rparr>) = first_priority x" for x p by (simp add: first_priority_def)
  then show ?thesis
    by (auto simp: with_first_priorities_def fun_eq_iff option.map_comp o_def cong: option.map_cong)
qed

lemma tree_with_first: "tree_ok (with_first_priorities B w) k a = tree_ok w k a"
proof (induction k arbitrary: a)
  case (Suc k)
  then show ?case
    by (cases "accessors w a") (auto simp: with_first_priorities_def split: accessor_kind.splits)
qed simp

lemma below_with_first: "below (with_first_priorities B w) k a = below w k a"
proof (induction k arbitrary: a)
  case (Suc k)
  then have "below (with_first_priorities B w) k = below w k" by (rule ext)
  then show ?case
    by (cases "accessors w a"; cases "a_kind (the (accessors w a))") (simp_all add: with_first_priorities_def)
qed simp

lemma reset_children:
  assumes "\<And>b w :: ('e, 'u) world. tree_ok w k b \<Longrightarrow> ResetPriority k b w = Ret () (with_first_priorities (set (below w k b)) w)"
  shows "\<forall>b \<in> set bs. tree_ok w k b \<Longrightarrow>
    run_each (ResetPriority k) bs w = Ret () (with_first_priorities (set (concat (map (below w k) bs))) (w :: ('e, 'u) world))"
proof (induction bs arbitrary: w)
  case Nil
  then show ?case by (simp add: with_first_priorities_def)
next
  case (Cons b bs)
  then show ?case
    using assms[of w b] by (simp add: tree_with_first below_with_first with_first_twice)
qed

text \<open>
  Resetting the priorities of an accessor gives the priorities of new accessors to it and to all
  accessors below it, and changes nothing else; the depth of the tree is enough as the bound.
\<close>

theorem ResetPriority_spec:
  fixes w :: "('e, 'u) world"
  shows "tree_ok w k a \<Longrightarrow> ResetPriority k a w = Ret () (with_first_priorities (set (below w k a)) w)"
proof (induction k arbitrary: a w)
  case (Suc k)
  then obtain x where x: "accessors w a = Some x" by (cases "accessors w a") simp_all
  have own: "SetPriority a (first_priority x) w = with_first_priorities {a} w"
    using x by (simp add: SetPriority_def modify_accessor_def with_first_priorities_def fun_eq_iff)
  show ?case
  proof (cases "a_kind x")
    case (Atomic d)
    then show ?thesis using x own by (simp add: with_accessor_def Accessor_ResetPriority_def first_priority_def)
  next
    case (Composite c)
    let ?w = "with_first_priorities {a} w"
    have "run_each (ResetPriority k) (m_orderedChildren c) ?w =
        Ret () (with_first_priorities (set (concat (map (below ?w k) (m_orderedChildren c)))) ?w)"
      by (rule reset_children[OF Suc.IH]) (use Suc.prems x Composite in \<open>simp_all add: tree_with_first GetChildren_def\<close>)
    then have "run_each (ResetPriority k) (m_orderedChildren c) (SetPriority a (first_priority x) w) =
        Ret () (with_first_priorities (set (below w (Suc k) a)) w)"
      unfolding own using x Composite by (simp add: below_with_first with_first_twice GetChildren_def)
    then show ?thesis
      using x Composite
      by (cases "c_isHost c") (simp_all add: with_accessor_def Host_ResetPriority_def Composite_ResetPriority_def ResetChildrenPriorities_def
          Accessor_ResetPriority_def first_priority_def)
  qed
qed simp

end
