(* ===== verification/Messages.thy ===== *)
theory Messages
  imports CompositeAccessor
begin

text \<open>
  How data travels: \<open>SendData\<close> and \<open>ReceiveData\<close> of \<open>src/src/Port.cpp\<close> and \<open>AlertNewInput\<close> of
  \<open>AccessorImpl.cpp\<close>. A port hands an event to its destinations; a port of a composite passes
  it on, an input port of an atomic accessor queues it and, if it now waits for its handlers,
  asks the accessor's ancestors for a reaction. The invariant \<open>messages_ok\<close> says that no waiting
  input is forgotten: its accessor is in the queue of its parent, the
  parent in the queue of its own, up to a host with a callback in the director's queue.
\<close>

section \<open>Sending and receiving\<close>

definition AlertNewInput :: "nat \<Rightarrow> nat \<Rightarrow> (unit, 'e, 'u) op" where
  "AlertNewInput levels a = with_accessor a (\<lambda>x w.
     case m_parent x of None \<Rightarrow> Ret () w | Some p \<Rightarrow> ScheduleReaction levels p a (m_priority x) w)"

text \<open>\<open>ReceiveData\<close> of both kinds of ports, with the port's \<open>SendData\<close> as a parameter.\<close>

definition receive_data ::
  "nat \<Rightarrow> (nat \<Rightarrow> 'e option \<Rightarrow> (unit, 'e, 'u) op) \<Rightarrow> nat \<Rightarrow> 'e option \<Rightarrow> (unit, 'e, 'u) op" where
  "receive_data levels send q input w =
     (case ports w q of
        None \<Rightarrow> Throw (Fatal DanglingPointer) w
      | Some qt \<Rightarrow> with_accessor (p_owner qt) (\<lambda>myParent w.
          if \<not> IsInitialized myParent then Ret () w
          else case p_kind qt of
            OutputPort _ \<Rightarrow> send q input w
          | InputPort \<Rightarrow>
              if IsComposite myParent then send q input w
              else
                let wasWaitingForInputHandler = m_waitingForInputHandler qt;
                    w1 = w\<lparr>ports := modify_port q (QueueInput input) (ports w)\<rparr>
                in if \<not> wasWaitingForInputHandler \<and> m_waitingForInputHandler (QueueInput input qt)
                   then run_bind (AlertNewInput levels (p_owner qt) w1) (\<lambda>_. send q input)
                   else Ret () w1) w)"

text \<open>The bound is on the length of a chain of connected ports.\<close>

fun SendData :: "nat \<Rightarrow> nat \<Rightarrow> nat \<Rightarrow> 'e option \<Rightarrow> (unit, 'e, 'u) op" where
  "SendData levels 0 p data w = Diverge"
| "SendData levels (Suc n) p data w =
     (case ports w p of
        None \<Rightarrow> Throw (Fatal DanglingPointer) w
      | Some pt \<Rightarrow> run_each (\<lambda>q. receive_data levels (SendData levels n) q data) (m_destinations pt) w)"

definition ReceiveData :: "nat \<Rightarrow> nat \<Rightarrow> nat \<Rightarrow> 'e option \<Rightarrow> (unit, 'e, 'u) op" where
  "ReceiveData levels n = receive_data levels (SendData levels n)"

section \<open>What a request for a reaction leaves alone\<close>

text \<open>An accessor without its event queue, its request and the identifiers of its callbacks.\<close>

fun idle_kind :: "accessor_kind \<Rightarrow> accessor_kind" where
  "idle_kind (Atomic d) = Atomic d"
| "idle_kind (Composite c) = Composite (c\<lparr>m_reactionRequested := False, m_childEventQueue := upq_new\<rparr>)"

definition idle :: "accessor \<Rightarrow> accessor" where
  "idle x = x\<lparr>a_kind := idle_kind (a_kind x), m_callbackIds := []\<rparr>"

definition queue_of :: "('e, 'u) world \<Rightarrow> nat \<Rightarrow> nat set" where
  "queue_of w a = (case accessors w a of
     None \<Rightarrow> {}
   | Some x \<Rightarrow> (case a_kind x of Atomic _ \<Rightarrow> {} | Composite c \<Rightarrow> set (m_elementsInQueue (m_childEventQueue c))))"

definition requested :: "('e, 'u) world \<Rightarrow> nat \<Rightarrow> bool" where
  "requested w a \<longleftrightarrow> (\<exists>x c. accessors w a = Some x \<and> a_kind x = Composite c \<and> m_reactionRequested c)"

definition reaction_scheduled :: "('e, 'u) world \<Rightarrow> nat \<Rightarrow> bool" where
  "reaction_scheduled w a \<longleftrightarrow> (\<exists>i c. i \<in> set (m_callbackQueue w) \<and>
     map_of (m_scheduledCallbacks w) i = Some c \<and> callbackFunction c = ProcessQueueOf a)"

text \<open>The queued callbacks that process the event queue of a composite.\<close>

definition reaction_ids :: "('e, 'u) world \<Rightarrow> int set" where
  "reaction_ids w = {i \<in> set (m_callbackQueue w). \<exists>c a. map_of (m_scheduledCallbacks w) i = Some c \<and>
     callbackFunction c = ProcessQueueOf a}"

lemma finite_reaction_ids [simp]: "finite (reaction_ids w)"
  by (simp add: reaction_ids_def)

lemma reaction_ids_outside [simp]:
  "reaction_ids (modify_composite a f w) = reaction_ids w" "reaction_ids (w\<lparr>ports := S\<rparr>) = reaction_ids w"
  by (simp_all add: reaction_ids_def modify_composite_def modify_accessor_def)

definition same_shells :: "('e, 'u) world \<Rightarrow> ('e, 'u) world \<Rightarrow> bool" where
  "same_shells w w' \<longleftrightarrow> (\<forall>a. map_option idle (accessors w' a) = map_option idle (accessors w a))"

definition wakes :: "('e, 'u) world \<Rightarrow> ('e, 'u) world \<Rightarrow> bool" where
  "wakes w w' \<longleftrightarrow> same_shells w w' \<and> (\<forall>a. queue_of w a \<subseteq> queue_of w' a) \<and>
     (\<forall>a. requested w a \<longrightarrow> requested w' a) \<and> (\<forall>a. reaction_scheduled w a \<longrightarrow> reaction_scheduled w' a) \<and> userState w' = userState w"

lemma same_shells_refl: "same_shells w w"
  by (simp add: same_shells_def)

lemma same_shells_trans: "same_shells w w' \<Longrightarrow> same_shells w' w'' \<Longrightarrow> same_shells w w''"
  by (simp add: same_shells_def)

lemma wakes_refl: "wakes w w"
  by (simp add: wakes_def same_shells_def)

lemma wakes_trans: "wakes w w' \<Longrightarrow> wakes w' w'' \<Longrightarrow> wakes w w''"
  unfolding wakes_def using same_shells_trans by (metis subset_trans)

lemma same_shells_Some:
  assumes "same_shells w w'" and "accessors w a = Some x"
  shows "\<exists>x'. accessors w' a = Some x' \<and> idle x' = idle x"
proof -
  have "map_option idle (accessors w' a) = Some (idle x)" using assms by (simp add: same_shells_def)
  then show ?thesis by (cases "accessors w' a") auto
qed

lemma same_shells_None: "same_shells w w' \<Longrightarrow> accessors w' a = None \<longleftrightarrow> accessors w a = None"
  by (metis map_option_is_None same_shells_def)

lemma idle_parts:
  assumes "idle x' = idle x"
  shows "m_parent x' = m_parent x" "m_priority x' = m_priority x" "m_initialized x' = m_initialized x"
    "m_name x' = m_name x" "m_orderedInputPorts x' = m_orderedInputPorts x"
    "IsComposite x' = IsComposite x" "is_host x' = is_host x"
proof -
  show "m_parent x' = m_parent x" "m_priority x' = m_priority x" "m_initialized x' = m_initialized x"
    "m_name x' = m_name x" "m_orderedInputPorts x' = m_orderedInputPorts x"
    using assms unfolding idle_def by (cases x; cases x'; simp)+
  have k: "idle_kind (a_kind x') = idle_kind (a_kind x)" using assms unfolding idle_def by (cases x; cases x'; simp)
  then show "IsComposite x' = IsComposite x" by (cases "a_kind x'"; cases "a_kind x"; simp)
  show "is_host x' = is_host x"
  proof (cases "a_kind x")
    case (Atomic d)
    with k show ?thesis by (cases "a_kind x'") simp_all
  next
    case (Composite c)
    with k obtain c' where c': "a_kind x' = Composite c'" by (cases "a_kind x'") simp_all
    with k Composite have "c_isHost c' = c_isHost c" by (cases c; cases c'; simp)
    with c' Composite show ?thesis by simp
  qed
qed

lemma same_shells_parent:
  assumes "same_shells w w'" and "accessors w a = Some x" and "accessors w' a = Some x'"
  shows "m_parent x' = m_parent x"
proof -
  obtain z where z: "accessors w' a = Some z" "idle z = idle x" using same_shells_Some[OF assms(1,2)] by blast
  then show ?thesis using idle_parts(1)[OF z(2)] assms(3) by simp
qed

lemma same_shells_priority: "same_shells w w' \<Longrightarrow> accessor_priority w' = accessor_priority w"
proof (rule ext)
  fix b assume s: "same_shells w w'"
  show "accessor_priority w' b = accessor_priority w b"
  proof (cases "accessors w b")
    case None
    then have "accessors w' b = None" using same_shells_None[OF s] by blast
    with None show ?thesis by (simp add: accessor_priority_def)
  next
    case (Some y)
    then obtain y' where y': "accessors w' b = Some y'" "idle y' = idle y" using same_shells_Some[OF s] by blast
    then show ?thesis using Some idle_parts(2)[OF y'(2)] by (simp add: accessor_priority_def)
  qed
qed

section \<open>No request is lost\<close>

text \<open>
  The invariant of the event queues, but for the accessors in \<open>X\<close> (those a running call has yet
  to announce) and in \<open>R\<close> (those it has yet to schedule): every queue is a proper queue of children, a composite whose queue is
  not empty is in the queue of its parent, and without a parent it has requested a reaction,
  which is in the director's queue.
\<close>

definition queues_ok :: "('e, 'u) world \<Rightarrow> bool" where
  "queues_ok w \<longleftrightarrow> (\<forall>a x c. accessors w a = Some x \<and> a_kind x = Composite c \<longrightarrow>
     upq_ok (accessor_priority w) (m_childEventQueue c) \<and>
     (\<forall>b \<in> queue_of w a. \<exists>y. accessors w b = Some y \<and> m_parent y = Some a))"

definition announced :: "('e, 'u) world \<Rightarrow> nat \<Rightarrow> bool" where
  "announced w a \<longleftrightarrow> (queue_of w a \<noteq> {} \<longrightarrow> (\<forall>x. accessors w a = Some x \<longrightarrow>
     (case m_parent x of None \<Rightarrow> requested w a | Some p \<Rightarrow> a \<in> queue_of w p)))"

definition request_answered :: "('e, 'u) world \<Rightarrow> nat \<Rightarrow> bool" where
  "request_answered w a \<longleftrightarrow> (\<forall>x. accessors w a = Some x \<and> m_parent x = None \<and> requested w a \<longrightarrow> reaction_scheduled w a)"

definition reactions_ok_but :: "nat set \<Rightarrow> nat set \<Rightarrow> ('e, 'u) world \<Rightarrow> bool" where
  "reactions_ok_but X R w \<longleftrightarrow> director_ok w \<and> queues_ok w \<and> (\<forall>a. a \<notin> X \<longrightarrow> announced w a) \<and>
     (\<forall>a. a \<notin> R \<longrightarrow> request_answered w a)"

text \<open>A composite whose ancestors are composites, up to a host within the given number of levels.\<close>

fun hosted :: "('e, 'u) world \<Rightarrow> nat \<Rightarrow> nat \<Rightarrow> bool" where
  "hosted w 0 a = False"
| "hosted w (Suc n) a =
     (case accessors w a of
        None \<Rightarrow> False
      | Some x \<Rightarrow> IsComposite x \<and> (case m_parent x of None \<Rightarrow> is_host x | Some p \<Rightarrow> hosted w n p))"

lemma hosted_cong: "same_shells w w' \<Longrightarrow> hosted w' n a = hosted w n a"
proof (induction n arbitrary: a)
  case (Suc n)
  show ?case
  proof (cases "accessors w a")
    case None
    then have "accessors w' a = None" using same_shells_None[OF Suc.prems] by blast
    with None show ?thesis by simp
  next
    case (Some x)
    then obtain x' where x': "accessors w' a = Some x'" "idle x' = idle x" using same_shells_Some Suc.prems by blast
    show ?thesis using Some x'(1) idle_parts[OF x'(2)] Suc by (simp del: IsComposite.simps is_host.simps split: option.split)
  qed
qed simp

definition own_failure :: "exn \<Rightarrow> bool" where
  "own_failure e \<longleftrightarrow> e = Fatal SignedOverflow \<or> e = SystemError"

fun ends :: "(exn \<Rightarrow> bool) \<Rightarrow> ('a \<Rightarrow> 's \<Rightarrow> bool) \<Rightarrow> ('a, 's) run \<Rightarrow> bool" where
  "ends E P (Ret x s) = P x s"
| "ends E P (Throw e s) = E e"
| "ends E P Diverge = False"

lemma ends_bind: "ends E P r \<Longrightarrow> (\<And>x s. P x s \<Longrightarrow> ends E Q (f x s)) \<Longrightarrow> ends E Q (run_bind r f)"
  by (cases r) auto

lemma ends_mono: "ends E P r \<Longrightarrow> (\<And>x s. P x s \<Longrightarrow> Q x s) \<Longrightarrow> ends E Q r"
  by (cases r) auto

text \<open>How many requests are queued at a set of composites, and callbacks for them at the director.\<close>

definition entries :: "nat set \<Rightarrow> ('e, 'u) world \<Rightarrow> nat" where
  "entries A w = (\<Sum>a \<in> A. card (queue_of w a)) + card (reaction_ids w)"

lemma entries_same: "queue_of w' = queue_of w \<Longrightarrow> reaction_ids w' = reaction_ids w \<Longrightarrow> entries A w' = entries A w"
  by (simp add: entries_def)

lemma finite_queue_of [simp]: "finite (queue_of w a)"
  by (simp add: queue_of_def split: option.split accessor_kind.split)

lemma entries_push:
  assumes q: "queue_of w' = (queue_of w)(a := insert b (queue_of w a))" and r: "reaction_ids w' = reaction_ids w"
  shows "entries A w' \<le> entries A w + 1"
proof (cases "finite A \<and> a \<in> A")
  case True
  have "card (insert b (queue_of w a)) \<le> card (queue_of w a) + 1" by (simp add: card_insert_if)
  moreover have "entries A w' = card (insert b (queue_of w a)) + (\<Sum>d \<in> A - {a}. card (queue_of w d)) + card (reaction_ids w)"
      "entries A w = card (queue_of w a) + (\<Sum>d \<in> A - {a}. card (queue_of w d)) + card (reaction_ids w)"
    using True by (simp_all add: entries_def assms sum.remove[of A a])
  ultimately show ?thesis by simp
next
  case False
  then have "entries A w' = entries A w"
    unfolding entries_def assms by (cases "finite A") (auto intro: sum.cong)
  then show ?thesis by simp
qed

text \<open>Scheduling the callback of a reaction.\<close>

lemma world_of_more:
  fixes w :: "('e, 'u) world"
  assumes "dstate.more w' = dstate.more w"
  shows "accessors w' = accessors w" "ports w' = ports w" "nextPort w' = nextPort w" "userState w' = userState w"
  using assms by (cases w; cases w'; simp)+

lemma ScheduleCallback_reaction:
  fixes w :: "('e, 'u) world"
  assumes "director_ok w"
  shows "ends own_failure
    (\<lambda>_ w'. director_ok w' \<and> accessors w' = accessors w \<and> ports w' = ports w \<and> userState w' = userState w \<and>
       (\<forall>b. reaction_scheduled w b \<longrightarrow> reaction_scheduled w' b) \<and> (f = ProcessQueueOf a \<longrightarrow> reaction_scheduled w' a) \<and>
       card (reaction_ids w') \<le> Suc (card (reaction_ids w)))
    (ScheduleCallback f delay p prio w)"
proof (cases "ScheduleCallback f delay p prio w")
  case (Ret i w')
  note ok = ScheduleCallback_ok[OF assms Ret]
  have q: "set (m_callbackQueue w') = insert i (set (m_callbackQueue w))"
    using ok by (metis set_insort_key)
  have "dstate.more w' = dstate.more w" using ScheduleCallback_more[of w f delay p prio] Ret by simp
  note same = world_of_more[OF this]
  have "reaction_scheduled w' b" if b: "reaction_scheduled w b" for b
  proof -
    obtain j c where j: "j \<in> set (m_callbackQueue w)" "map_of (m_scheduledCallbacks w) j = Some c"
        "callbackFunction c = ProcessQueueOf b" using b unfolding reaction_scheduled_def by blast
    then have "j \<noteq> i" using ok by auto
    then have "map_of (m_scheduledCallbacks w') j = Some c" using ok j(2) by simp
    with j(1,3) q show ?thesis unfolding reaction_scheduled_def by blast
  qed
  moreover have "reaction_scheduled w' a" if "f = ProcessQueueOf a"
  proof -
    have "map_of (m_scheduledCallbacks w') i = Some (new_callback f delay p prio (m_currentLogicalTime w + delay))"
      using ok by simp
    moreover have "callbackFunction (new_callback f delay p prio (m_currentLogicalTime w + delay)) = ProcessQueueOf a"
      using that by (simp add: new_callback_def)
    moreover have "i \<in> set (m_callbackQueue w')" using q by simp
    ultimately show ?thesis unfolding reaction_scheduled_def by blast
  qed
  moreover have "reaction_ids w' \<subseteq> insert i (reaction_ids w)"
    using q ok by (auto simp: reaction_ids_def split: if_splits)
  then have "card (reaction_ids w') \<le> card (insert i (reaction_ids w))" by (intro card_mono) simp_all
  then have "card (reaction_ids w') \<le> Suc (card (reaction_ids w))" by (simp add: card_insert_if split: if_splits)
  ultimately show ?thesis using Ret ok same by simp
next
  case (Throw e w')
  with ScheduleCallback_throws[OF assms Throw] show ?thesis by (simp add: own_failure_def)
next
  case Diverge
  then show ?thesis using ScheduleCallback_no_diverge[of f delay p prio w] by simp
qed

text \<open>Queueing a child: the queue gains it, and the composite is the one yet to announce.\<close>

lemma queue_child_ok:
  fixes w :: "('e, 'u) world"
  assumes x: "accessors w a = Some x" "a_kind x = Composite c"
    and y: "accessors w b = Some y" "m_parent y = Some a" and q: "queues_ok w"
  defines "w1 \<equiv> modify_composite a (\<lambda>c. c\<lparr>m_childEventQueue := upq_push (GreaterAccessorImplPtrs w) b (m_childEventQueue c)\<rparr>) w"
  shows "queue_child a b w = Ret () w1" and "wakes w w1" and "b \<in> queue_of w1 a" and "queues_ok w1"
    and "queue_of w1 = (queue_of w)(a := insert b (queue_of w a))"
    and "\<forall>d. requested w1 d = requested w d" and "\<forall>d. reaction_scheduled w1 d = reaction_scheduled w d"
    and "director_ok w1 = director_ok w" and "ports w1 = ports w" and "userState w1 = userState w"
proof -
  let ?c = "c\<lparr>m_childEventQueue := upq_push (GreaterAccessorImplPtrs w) b (m_childEventQueue c)\<rparr>"
  have acc: "accessors w1 = (accessors w)(a \<mapsto> x\<lparr>a_kind := Composite ?c\<rparr>)"
    unfolding w1_def by (rule accessors_modify_composite[OF x])
  have uq: "upq_ok (accessor_priority w) (m_childEventQueue c)" and ex: "\<forall>d \<in> queue_of w a. \<exists>y. accessors w d = Some y \<and> m_parent y = Some a"
    using q x unfolding queues_ok_def by blast+
  have els: "set (m_elementsInQueue (upq_push (GreaterAccessorImplPtrs w) b (m_childEventQueue c))) =
      insert b (set (m_elementsInQueue (m_childEventQueue c)))"
    unfolding GreaterAccessorImplPtrs_def using uq by (rule upq.elems_push)
  have qa: "queue_of w a = set (m_elementsInQueue (m_childEventQueue c))" using x by (simp add: queue_of_def)
  show qs: "queue_of w1 = (queue_of w)(a := insert b (queue_of w a))"
    by (rule ext) (simp add: queue_of_def acc x els)
  show "b \<in> queue_of w1 a" by (simp add: qs)
  have "set (m_queue (m_childEventQueue c)) = queue_of w a" using uq qa by (simp add: upq_ok_def)
  then have "\<not> (\<exists>d \<in> set (m_queue (m_childEventQueue c)). accessors w d = None)" using ex by fastforce
  then show "queue_child a b w = Ret () w1"
    unfolding w1_def queue_child_def with_composite_def with_accessor_def by (simp add: x)
  have shells: "same_shells w w1"
    by (auto simp: same_shells_def acc x idle_def fun_eq_iff)
  show req: "\<forall>d. requested w1 d = requested w d" using x by (auto simp: requested_def acc)
  show sch: "\<forall>d. reaction_scheduled w1 d = reaction_scheduled w d"
    by (simp add: reaction_scheduled_def w1_def modify_composite_def modify_accessor_def)
  show "director_ok w1 = director_ok w"
    by (simp add: director_ok_def w1_def modify_composite_def modify_accessor_def)
  show "ports w1 = ports w" by (simp add: w1_def)
  show us: "userState w1 = userState w" by (simp add: w1_def modify_composite_def modify_accessor_def)
  show "wakes w w1" using shells req sch qs us by (auto simp: wakes_def)
  show "queues_ok w1"
    unfolding queues_ok_def
  proof (intro allI impI conjI ballI)
    fix d z e assume z: "accessors w1 d = Some z \<and> a_kind z = Composite e"
    have pr: "accessor_priority w1 = accessor_priority w" using shells by (rule same_shells_priority)
    show "upq_ok (accessor_priority w1) (m_childEventQueue e)"
    proof (cases "d = a")
      case True
      then have "e = ?c" using z acc by auto
      then show ?thesis unfolding pr GreaterAccessorImplPtrs_def using upq.ok_push[OF uq, of b] by simp
    next
      case False
      then show ?thesis unfolding pr using z acc q unfolding queues_ok_def by (metis fun_upd_other)
    qed
    fix k assume k: "k \<in> queue_of w1 d"
    have "\<exists>y. accessors w k = Some y \<and> m_parent y = Some d"
    proof (cases "d = a")
      case True
      then show ?thesis using k ex y by (auto simp: qs)
    next
      case False
      then have "accessors w d = Some z" "k \<in> queue_of w d" using z acc k by (simp_all add: qs)
      then show ?thesis using z q unfolding queues_ok_def by blast
    qed
    then show "\<exists>y. accessors w1 k = Some y \<and> m_parent y = Some d" using x(1) by (auto simp: acc)
  qed
qed

text \<open>Setting the request of a composite.\<close>

lemma request_ok:
  fixes w :: "('e, 'u) world"
  assumes x: "accessors w a = Some x" "a_kind x = Composite c" and q: "queues_ok w"
  defines "w0 \<equiv> modify_composite a (\<lambda>c. c\<lparr>m_reactionRequested := True\<rparr>) w"
  shows "accessors w0 = (accessors w)(a \<mapsto> x\<lparr>a_kind := Composite (c\<lparr>m_reactionRequested := True\<rparr>)\<rparr>)"
    and "same_shells w w0" and "queue_of w0 = queue_of w" and "queues_ok w0"
    and "\<forall>d. requested w0 d = (requested w d \<or> d = a)" and "\<forall>d. reaction_scheduled w0 d = reaction_scheduled w d"
    and "director_ok w0 = director_ok w" and "ports w0 = ports w" and "userState w0 = userState w"
proof -
  show acc: "accessors w0 = (accessors w)(a \<mapsto> x\<lparr>a_kind := Composite (c\<lparr>m_reactionRequested := True\<rparr>)\<rparr>)"
    unfolding w0_def by (rule accessors_modify_composite[OF x])
  show shells: "same_shells w w0" by (auto simp: same_shells_def acc x idle_def fun_eq_iff)
  show qs: "queue_of w0 = queue_of w" by (rule ext) (simp add: queue_of_def acc x)
  show "\<forall>d. requested w0 d = (requested w d \<or> d = a)" using x by (auto simp: requested_def acc)
  show "\<forall>d. reaction_scheduled w0 d = reaction_scheduled w d"
    by (simp add: reaction_scheduled_def w0_def modify_composite_def modify_accessor_def)
  show "director_ok w0 = director_ok w"
    by (simp add: director_ok_def w0_def modify_composite_def modify_accessor_def)
  show "ports w0 = ports w" by (simp add: w0_def)
  show "userState w0 = userState w" by (simp add: w0_def modify_composite_def modify_accessor_def)
  show "queues_ok w0"
    unfolding queues_ok_def qs same_shells_priority[OF shells]
  proof (intro allI impI conjI ballI)
    fix d z e assume z: "accessors w0 d = Some z \<and> a_kind z = Composite e"
    obtain z1 e1 where z1: "accessors w d = Some z1" "a_kind z1 = Composite e1" "m_childEventQueue e1 = m_childEventQueue e"
      using z x acc by (cases "d = a") auto
    then show "upq_ok (accessor_priority w) (m_childEventQueue e)" using q unfolding queues_ok_def by metis
    fix k assume "k \<in> queue_of w d"
    then have "\<exists>y. accessors w k = Some y \<and> m_parent y = Some d" using q z1 unfolding queues_ok_def by blast
    then show "\<exists>y. accessors w0 k = Some y \<and> m_parent y = Some d" using x(1) by (auto simp: acc)
  qed
qed

text \<open>What keeps an accessor announced and a request answered.\<close>

lemma announced_mono:
  assumes "announced w d" and s: "same_shells w w'" and "queue_of w' d \<noteq> {} \<Longrightarrow> queue_of w d \<noteq> {}"
    and "\<And>p. queue_of w p \<subseteq> queue_of w' p" and "requested w d \<Longrightarrow> requested w' d"
  shows "announced w' d"
  unfolding announced_def
proof (intro impI allI)
  fix z assume ne: "queue_of w' d \<noteq> {}" and z: "accessors w' d = Some z"
  then have "accessors w d \<noteq> None" using same_shells_None[OF s, of d] by simp
  then obtain z0 where z0: "accessors w d = Some z0" by blast
  then have par: "m_parent z = m_parent z0" using same_shells_parent[OF s z0 z] by simp
  have "case m_parent z0 of None \<Rightarrow> requested w d | Some p \<Rightarrow> d \<in> queue_of w p"
    using assms(1,3) ne z0 unfolding announced_def by blast
  then show "case m_parent z of None \<Rightarrow> requested w' d | Some p \<Rightarrow> d \<in> queue_of w' p"
    unfolding par using assms(4,5) by (cases "m_parent z0") auto
qed

lemma request_answered_mono:
  assumes "request_answered w d" and s: "same_shells w w'" and "requested w' d \<Longrightarrow> requested w d"
    and "reaction_scheduled w d \<Longrightarrow> reaction_scheduled w' d"
  shows "request_answered w' d"
  unfolding request_answered_def
proof (intro allI impI)
  fix z assume z: "accessors w' d = Some z \<and> m_parent z = None \<and> requested w' d"
  then have "accessors w d \<noteq> None" using same_shells_None[OF s, of d] by simp
  then obtain z0 where z0: "accessors w d = Some z0" by blast
  then have "m_parent z0 = None" using same_shells_parent[OF s z0] z by simp
  then show "reaction_scheduled w' d" using assms(1,3,4) z0 z unfolding request_answered_def by blast
qed

lemma push_keeps:
  fixes w :: "('e, 'u) world"
  assumes x: "accessors w a = Some x" "a_kind x = Composite c"
    and y: "accessors w b = Some y" "m_parent y = Some a" and ok: "reactions_ok_but (insert b X) R w"
  shows "\<exists>w1. queue_child a b w = Ret () w1 \<and> wakes w w1 \<and> b \<in> queue_of w1 a \<and> ports w1 = ports w \<and>
    reactions_ok_but (insert a X) R w1 \<and> entries A w1 \<le> entries A w + 1"
proof -
  have inv: "director_ok w" "queues_ok w" "\<And>d. d \<noteq> b \<Longrightarrow> d \<notin> X \<Longrightarrow> announced w d" "\<And>d. d \<notin> R \<Longrightarrow> request_answered w d"
    using ok by (simp_all add: reactions_ok_but_def)
  note qc = queue_child_ok[OF x y inv(2)]
  define w1 where "w1 = modify_composite a (\<lambda>c. c\<lparr>m_childEventQueue := upq_push (GreaterAccessorImplPtrs w) b (m_childEventQueue c)\<rparr>) w"
  note qc = qc[folded w1_def]
  have shells: "same_shells w w1" using qc(2) by (simp add: wakes_def)
  have "announced w1 d" if "d \<noteq> a" "d \<notin> X" for d
  proof (cases "d = b")
    case True
    then show ?thesis using qc(3) same_shells_parent[OF shells y(1)] y(2) by (simp add: announced_def)
  next
    case False
    show ?thesis
      by (rule announced_mono[OF inv(3)[OF False that(2)] shells]) (use that qc(5,6) in \<open>auto split: if_splits\<close>)
  qed
  moreover have "request_answered w1 d" if "d \<notin> R" for d
    by (rule request_answered_mono[OF inv(4)[OF that] shells]) (use qc(6,7) in simp_all)
  ultimately show ?thesis
    using qc inv(1) entries_push[OF qc(5), of A] by (intro exI[of _ w1]) (simp add: reactions_ok_but_def w1_def)
qed

lemma request_keeps:
  fixes w :: "('e, 'u) world"
  assumes x: "accessors w a = Some x" "a_kind x = Composite c" and ok: "reactions_ok_but X R w"
  defines "w0 \<equiv> modify_composite a (\<lambda>c. c\<lparr>m_reactionRequested := True\<rparr>) w"
  shows "reactions_ok_but X (insert a R) w0" and "wakes w w0" and "ports w0 = ports w" and "requested w0 a"
    and "queue_of w0 = queue_of w"
    and "accessors w0 = (accessors w)(a \<mapsto> x\<lparr>a_kind := Composite (c\<lparr>m_reactionRequested := True\<rparr>)\<rparr>)"
proof -
  have inv: "director_ok w" "queues_ok w" "\<And>d. d \<notin> X \<Longrightarrow> announced w d" "\<And>d. d \<notin> R \<Longrightarrow> request_answered w d"
    using ok by (simp_all add: reactions_ok_but_def)
  note rq = request_ok[OF x inv(2), folded w0_def]
  have "announced w0 d" if "d \<notin> X" for d
    by (rule announced_mono[OF inv(3)[OF that] rq(2)]) (use rq(3,5) in simp_all)
  moreover have "request_answered w0 d" if "d \<notin> insert a R" for d
    by (rule request_answered_mono[OF _ rq(2)]) (use inv(4) that rq(5,6) in simp_all)
  ultimately show "reactions_ok_but X (insert a R) w0"
    using rq(4,7) inv(1) by (simp add: reactions_ok_but_def)
  show "wakes w w0" using rq(2,3,5,6,9) by (simp add: wakes_def)
  show "ports w0 = ports w" "requested w0 a" "queue_of w0 = queue_of w" using rq(3,5,8) by simp_all
  show "accessors w0 = (accessors w)(a \<mapsto> x\<lparr>a_kind := Composite (c\<lparr>m_reactionRequested := True\<rparr>)\<rparr>)" by (rule rq(1))
qed

lemma reactions_ok_close: "reactions_ok_but (insert a X) R w \<Longrightarrow> announced w a \<Longrightarrow> reactions_ok_but X R w"
  unfolding reactions_ok_but_def by (metis insert_iff)

lemma schedule_keeps:
  fixes w :: "('e, 'u) world"
  assumes ok: "reactions_ok_but X (insert a R) w"
  shows "ends own_failure (\<lambda>_ w'. reactions_ok_but X R w' \<and> wakes w w' \<and> ports w' = ports w \<and>
      queue_of w' = queue_of w \<and> card (reaction_ids w') \<le> Suc (card (reaction_ids w)))
    (ScheduleCallback (ProcessQueueOf a) delay p prio w)"
proof (rule ends_mono[OF ScheduleCallback_reaction[of w "ProcessQueueOf a" a]])
  show "director_ok w" using ok by (simp add: reactions_ok_but_def)
  fix i and w' :: "('e, 'u) world"
  assume w': "director_ok w' \<and> accessors w' = accessors w \<and> ports w' = ports w \<and> userState w' = userState w \<and>
    (\<forall>b. reaction_scheduled w b \<longrightarrow> reaction_scheduled w' b) \<and>
    (ProcessQueueOf a = ProcessQueueOf a \<longrightarrow> reaction_scheduled w' a) \<and> card (reaction_ids w') \<le> Suc (card (reaction_ids w))"
  then have acc: "accessors w' = accessors w" by simp
  then have same: "queue_of w' = queue_of w" "requested w' = requested w" "same_shells w w'"
      "accessor_priority w' = accessor_priority w"
    by (simp_all add: queue_of_def requested_def same_shells_def accessor_priority_def fun_eq_iff)
  have "announced w' d" if "d \<notin> X" for d
    by (rule announced_mono[of w d w']) (use ok that same in \<open>simp_all add: reactions_ok_but_def\<close>)
  moreover have "request_answered w' d" if "d \<notin> R" for d
    using ok w' that by (cases "d = a") (auto simp: reactions_ok_but_def request_answered_def acc same)
  moreover have "queues_ok w'" using ok unfolding reactions_ok_but_def queues_ok_def acc same by blast
  ultimately show "reactions_ok_but X R w' \<and> wakes w w' \<and> ports w' = ports w \<and> queue_of w' = queue_of w \<and>
      card (reaction_ids w') \<le> Suc (card (reaction_ids w))"
    using w' same by (simp add: reactions_ok_but_def wakes_def)
qed

text \<open>
  The request of a reaction restores the invariant: the child that asked is in its parent's
  queue, and so are the ancestors, up to the host, which has a callback scheduled.
\<close>

lemma ScheduleReaction_wakes:
  fixes w :: "('e, 'u) world"
  assumes "hosted w n a" and "accessors w b = Some y" and "m_parent y = Some a" and "reactions_ok_but (insert b X) R w"
  shows "ends own_failure (\<lambda>_ w'. reactions_ok_but X R w' \<and> wakes w w' \<and> ports w' = ports w \<and> b \<in> queue_of w' a \<and>
      entries A w' \<le> entries A w + Suc n)
    (ScheduleReaction n a b priority w)"
  using assms
proof (induction n arbitrary: a b y w X priority)
  case (Suc n)
  let ?done = "\<lambda>w'. reactions_ok_but X R w' \<and> wakes w w' \<and> ports w' = ports w \<and> b \<in> queue_of w' a \<and>
      entries A w' \<le> entries A w + Suc (Suc n)"
  from Suc.prems(1) obtain x where x: "accessors w a = Some x" "IsComposite x"
    by (auto simp del: IsComposite.simps is_host.simps split: option.splits)
  then obtain c where c: "a_kind x = Composite c" by (cases "a_kind x") auto
  define prio where "prio = (if priority = INT_MAX then GetPriority x else priority)"
  show ?case
  proof (cases "m_parent x")
    case (Some p)
    obtain w1 where w1: "queue_child a b w = Ret () w1" "wakes w w1" "b \<in> queue_of w1 a" "ports w1 = ports w"
        "reactions_ok_but (insert a X) R w1" "entries A w1 \<le> entries A w + 1"
      using push_keeps[OF x(1) c Suc.prems(2-4)] by blast
    have shells: "same_shells w w1" using w1(2) by (simp add: wakes_def)
    obtain x1 where x1: "accessors w1 a = Some x1" "idle x1 = idle x" using same_shells_Some[OF shells x(1)] by blast
    have "hosted w1 n p" using Suc.prems(1) x(1) Some hosted_cong[OF shells, of n p]
      by (simp del: IsComposite.simps is_host.simps)
    then have "ends own_failure (\<lambda>_ w'. reactions_ok_but X R w' \<and> wakes w1 w' \<and> ports w' = ports w1 \<and> a \<in> queue_of w' p \<and>
          entries A w' \<le> entries A w1 + Suc n)
        (ScheduleReaction n p a prio w1)"
      using Suc.IH[OF _ x1(1) _ w1(5)] idle_parts(1)[OF x1(2)] Some by simp
    then have "ends own_failure (\<lambda>_. ?done) (ScheduleReaction n p a prio w1)"
    proof (rule ends_mono)
      fix u :: unit and w' :: "('e, 'u) world"
      assume w': "reactions_ok_but X R w' \<and> wakes w1 w' \<and> ports w' = ports w1 \<and> a \<in> queue_of w' p \<and>
        entries A w' \<le> entries A w1 + Suc n"
      then have "wakes w w'" using wakes_trans[OF w1(2)] by blast
      moreover have "b \<in> queue_of w' a" using w' w1(3) unfolding wakes_def by blast
      ultimately show "?done w'" using w' w1(4,6) by simp
    qed
    then show ?thesis
      using w1(1) Some x(1) c by (simp add: with_composite_def with_accessor_def prio_def Let_def)
  next
    case None
    show ?thesis
    proof (cases "m_reactionRequested c")
      case True
      obtain w1 where w1: "queue_child a b w = Ret () w1" "wakes w w1" "b \<in> queue_of w1 a" "ports w1 = ports w"
          "reactions_ok_but (insert a X) R w1" "entries A w1 \<le> entries A w + 1"
        using push_keeps[OF x(1) c Suc.prems(2-4)] by blast
      have "same_shells w w1" "requested w1 a"
        using w1(2) True x(1) c unfolding wakes_def by (auto simp: requested_def)
      then have "announced w1 a" using same_shells_parent[OF _ x(1)] None by (simp add: announced_def)
      then have "reactions_ok_but X R w1" by (rule reactions_ok_close[OF w1(5)])
      then show ?thesis
        using w1 None x(1) c True by (simp add: with_composite_def with_accessor_def Let_def)
    next
      case False
      define w0 where "w0 = modify_composite a (\<lambda>c. c\<lparr>m_reactionRequested := True\<rparr>) w"
      note rq = request_keeps[OF x(1) c Suc.prems(4), folded w0_def]
      have ba: "b \<noteq> a" using Suc.prems(2,3) x(1) None by auto
      obtain w1 where w1: "queue_child a b w0 = Ret () w1" "wakes w0 w1" "b \<in> queue_of w1 a" "ports w1 = ports w0"
          "reactions_ok_but (insert a X) (insert a R) w1" "entries A w1 \<le> entries A w0 + 1"
      proof -
        let ?x0 = "x\<lparr>a_kind := Composite (c\<lparr>m_reactionRequested := True\<rparr>)\<rparr>"
        have "accessors w0 a = Some ?x0" "accessors w0 b = Some y" "a_kind ?x0 = Composite (c\<lparr>m_reactionRequested := True\<rparr>)"
          using rq(6) ba Suc.prems(2) by simp_all
        from push_keeps[OF this(1,3,2) Suc.prems(3) rq(1), where A = A] that show ?thesis by blast
      qed
      have e0: "entries A w0 = entries A w" by (rule entries_same[OF rq(5)]) (simp add: w0_def)
      have wk: "wakes w w1" using wakes_trans[OF rq(2) w1(2)] .
      then have shells: "same_shells w w1" by (simp add: wakes_def)
      obtain x1 where x1: "accessors w1 a = Some x1" "idle x1 = idle x" using same_shells_Some[OF shells x(1)] by blast
      have "is_host x1" using Suc.prems(1) x(1) None idle_parts(7)[OF x1(2)]
        by (simp del: IsComposite.simps is_host.simps)
      then have dir: "GetDirector w1 a = Some (Inr True)" using x1(1) by (subst GetDirector.simps) (simp del: is_host.simps)
      have "requested w1 a" using w1(2) rq(4) unfolding wakes_def by blast
      have "ends own_failure (\<lambda>_. ?done) (run_bind (ScheduleCallback (ProcessQueueOf a) 0 False prio w1) (\<lambda>_. Ret ()))"
      proof (rule ends_bind[OF schedule_keeps[OF w1(5)]])
        fix i and w' :: "('e, 'u) world"
        assume w': "reactions_ok_but (insert a X) R w' \<and> wakes w1 w' \<and> ports w' = ports w1 \<and> queue_of w' = queue_of w1 \<and>
          card (reaction_ids w') \<le> Suc (card (reaction_ids w1))"
        then have "wakes w w'" using wakes_trans[OF wk] by blast
        moreover have "requested w' a" "b \<in> queue_of w' a"
          using w' \<open>requested w1 a\<close> w1(3) unfolding wakes_def by blast+
        moreover have "announced w' a"
          using \<open>wakes w w'\<close> \<open>requested w' a\<close> same_shells_parent[of w w' a x] x(1) None
          by (simp add: announced_def wakes_def)
        then have "reactions_ok_but X R w'" using w' reactions_ok_close by blast
        moreover have "entries A w' \<le> Suc (entries A w1)" using w' by (simp add: entries_def)
        ultimately show "ends own_failure (\<lambda>_. ?done) (Ret () w')" using w' w1(4,6) rq(3) e0 by simp
      qed
      then show ?thesis
        using w1(1) dir None x(1) c False
        by (simp add: with_composite_def with_accessor_def with_director_def prio_def w0_def Let_def)
    qed
  qed
qed simp

lemma ScheduleReaction_ok:
  fixes w :: "('e, 'u) world"
  assumes "hosted w n a" and "accessors w b = Some y" and "m_parent y = Some a" and "reactions_ok_but {b} {} w"
  shows "ends own_failure (\<lambda>_ w'. reactions_ok_but {} {} w' \<and> wakes w w' \<and> ports w' = ports w \<and> b \<in> queue_of w' a \<and>
      entries A w' \<le> entries A w + Suc n)
    (ScheduleReaction n a b priority w)"
  using assms by (rule ScheduleReaction_wakes)

section \<open>Where an event arrives\<close>

text \<open>
  \<open>takes\<close>: the port queues what it receives. \<open>passes\<close>: it then waits for its handlers and did
  not before, so its accessor is alerted and the event goes on to the port's destinations.
\<close>

definition takes :: "'e port \<Rightarrow> accessor \<Rightarrow> bool" where
  "takes qt x \<longleftrightarrow> p_kind qt = InputPort \<and> \<not> IsComposite x"

definition passes :: "'e option \<Rightarrow> 'e port \<Rightarrow> bool" where
  "passes data qt \<longleftrightarrow> \<not> m_waitingForInputHandler qt \<and> m_waitingForInputHandler (QueueInput data qt)"

definition arrivals :: "('e, 'u) world \<Rightarrow> 'e option \<Rightarrow> (nat \<Rightarrow> nat list) \<Rightarrow> nat \<Rightarrow> nat list" where
  "arrivals w data onward q =
     (case ports w q of
        None \<Rightarrow> []
      | Some qt \<Rightarrow>
          (case accessors w (p_owner qt) of
             None \<Rightarrow> []
           | Some x \<Rightarrow>
               if \<not> IsInitialized x then []
               else if takes qt x then q # (if passes data qt then onward q else []) else onward q))"

text \<open>The ports that queue an event that a port sends, in the order in which they get it.\<close>

fun receivers :: "('e, 'u) world \<Rightarrow> 'e option \<Rightarrow> nat \<Rightarrow> nat \<Rightarrow> nat list" where
  "receivers w data 0 p = []"
| "receivers w data (Suc n) p =
     (case ports w p of
        None \<Rightarrow> []
      | Some pt \<Rightarrow> concat (map (arrivals w data (receivers w data n)) (m_destinations pt)))"

text \<open>
  A port from which every chain of connections ends after fewer than the given number of ports,
  and only leads to accessors whose ancestors are in place.
\<close>

fun routed :: "('e, 'u) world \<Rightarrow> nat \<Rightarrow> nat \<Rightarrow> nat \<Rightarrow> bool" where
  "routed w levels 0 p = False"
| "routed w levels (Suc n) p =
     (case ports w p of
        None \<Rightarrow> False
      | Some pt \<Rightarrow> \<forall>q \<in> set (m_destinations pt). routed w levels n q \<and>
          (\<exists>qt x. ports w q = Some qt \<and> accessors w (p_owner qt) = Some x \<and>
             (\<forall>g. m_parent x = Some g \<longrightarrow> hosted w levels g)))"

definition deliver :: "'e option \<Rightarrow> nat list \<Rightarrow> 'e port_store \<Rightarrow> 'e port_store" where
  "deliver data qs S = (\<lambda>q. if q \<in> set qs then map_option (QueueInput data) (S q) else S q)"

definition wiring :: "'e port \<Rightarrow> 'e port" where
  "wiring pt = pt\<lparr>m_waitingForInputHandler := False, m_inputQueue := []\<rparr>"

definition same_wiring :: "('e, 'u) world \<Rightarrow> ('e, 'u) world \<Rightarrow> bool" where
  "same_wiring w w' \<longleftrightarrow> same_shells w w' \<and>
     (\<forall>q. map_option wiring (ports w' q) = map_option wiring (ports w q))"

lemma wiring_Queue [simp]: "wiring (QueueInput data pt) = wiring pt"
  by (simp add: wiring_def QueueInput_def Let_def)

lemma wiring_parts:
  assumes "wiring qt' = wiring qt"
  shows "m_destinations qt' = m_destinations qt" "p_owner qt' = p_owner qt" "p_kind qt' = p_kind qt"
  using assms unfolding wiring_def by (cases qt; cases qt'; simp)+

lemma same_wiring_trans: "same_wiring w w' \<Longrightarrow> same_wiring w' w'' \<Longrightarrow> same_wiring w w''"
  unfolding same_wiring_def using same_shells_trans by auto

lemma same_wiring_deliver:
  "same_shells w w' \<Longrightarrow> ports w' = deliver data qs (ports w) \<Longrightarrow> same_wiring w w'"
  by (auto simp: same_wiring_def deliver_def option.map_comp comp_def)

lemma same_wiring_Some:
  assumes "same_wiring w w'" and "ports w q = Some qt"
  shows "\<exists>qt'. ports w' q = Some qt' \<and> wiring qt' = wiring qt"
proof -
  have "map_option wiring (ports w' q) = Some (wiring qt)" using assms by (simp add: same_wiring_def)
  then show ?thesis by (cases "ports w' q") auto
qed

lemma same_wiring_None: "same_wiring w w' \<Longrightarrow> ports w' q = None \<longleftrightarrow> ports w q = None"
  unfolding same_wiring_def by (metis map_option_is_None)

lemma deliver_append: "set qs \<inter> set rs = {} \<Longrightarrow> deliver data rs (deliver data qs S) = deliver data (qs @ rs) S"
  by (auto simp: deliver_def fun_eq_iff)

lemma deliver_Nil [simp]: "deliver data [] S = S"
  by (simp add: deliver_def)

lemma routed_cong: "same_wiring w w' \<Longrightarrow> routed w levels n p \<Longrightarrow> routed w' levels n p"
proof (induction n arbitrary: p)
  case (Suc n)
  from Suc.prems(2) obtain pt where pt: "ports w p = Some pt"
      "\<forall>q \<in> set (m_destinations pt). routed w levels n q \<and>
          (\<exists>qt x. ports w q = Some qt \<and> accessors w (p_owner qt) = Some x \<and>
             (\<forall>g. m_parent x = Some g \<longrightarrow> hosted w levels g))" by (auto split: option.splits)
  have shells: "same_shells w w'" using Suc.prems(1) by (simp add: same_wiring_def)
  obtain pt' where pt': "ports w' p = Some pt'" "wiring pt' = wiring pt" using same_wiring_Some[OF Suc.prems(1) pt(1)] by blast
  have "routed w' levels n q \<and> (\<exists>qt x. ports w' q = Some qt \<and> accessors w' (p_owner qt) = Some x \<and>
      (\<forall>g. m_parent x = Some g \<longrightarrow> hosted w' levels g))" if q: "q \<in> set (m_destinations pt)" for q
  proof -
    obtain qt x where r: "routed w levels n q" "ports w q = Some qt" "accessors w (p_owner qt) = Some x"
        "\<And>g. m_parent x = Some g \<Longrightarrow> hosted w levels g" using pt(2) q by blast
    obtain qt' where qt': "ports w' q = Some qt'" "wiring qt' = wiring qt" using same_wiring_Some[OF Suc.prems(1) r(2)] by blast
    obtain x' where x': "accessors w' (p_owner qt) = Some x'" "idle x' = idle x" using same_shells_Some[OF shells r(3)] by blast
    have "m_parent x' = Some g \<Longrightarrow> hosted w' levels g" for g
      using r(4) hosted_cong[OF shells] same_shells_parent[OF shells r(3) x'(1)] by simp
    then show ?thesis using Suc.IH[OF Suc.prems(1) r(1)] qt' x'(1) wiring_parts(2)[OF qt'(2)] by auto
  qed
  then show ?case using pt'(1) wiring_parts(1)[OF pt'(2)] by simp
qed simp

text \<open>Where an event arrives does not depend on the ports it does not reach.\<close>

lemma arrivals_cong:
  assumes s: "same_wiring w w'" and f: "set (f q) \<subseteq> set (arrivals w data f q) \<Longrightarrow> f' q = f q"
    and same: "\<And>r. r \<in> set (arrivals w data f q) \<Longrightarrow> ports w' r = ports w r"
  shows "arrivals w' data f' q = arrivals w data f q"
proof (cases "ports w q")
  case None
  then have "ports w' q = None" using same_wiring_None[OF s] by blast
  with None show ?thesis by (simp add: arrivals_def)
next
  case (Some qt)
  then obtain qt' where qt': "ports w' q = Some qt'" "wiring qt' = wiring qt" using same_wiring_Some[OF s] by blast
  have shells: "same_shells w w'" using s by (simp add: same_wiring_def)
  show ?thesis
  proof (cases "accessors w (p_owner qt)")
    case None
    then have "accessors w' (p_owner qt) = None" using same_shells_None[OF shells] by blast
    with None Some qt' show ?thesis by (simp add: arrivals_def wiring_parts(2)[OF qt'(2)])
  next
    case (Some x)
    then obtain x' where x': "accessors w' (p_owner qt) = Some x'" "idle x' = idle x" using same_shells_Some[OF shells] by blast
    have t: "takes qt' x' = takes qt x"
      unfolding takes_def wiring_parts(3)[OF qt'(2)] idle_parts(6)[OF x'(2)] by simp
    have i: "IsInitialized x' = IsInitialized x" by (simp add: IsInitialized_def idle_parts(3)[OF x'(2)])
    have p: "qt' = qt" if "takes qt x" "IsInitialized x"
      using same[of q] that \<open>ports w q = Some qt\<close> Some qt'(1) by (simp add: arrivals_def)
    show ?thesis
      using \<open>ports w q = Some qt\<close> Some qt'(1) x'(1) t i p f
      by (auto simp: arrivals_def wiring_parts(2)[OF qt'(2)] subset_insertI)
  qed
qed

lemma receivers_cong:
  "same_wiring w w' \<Longrightarrow> (\<And>q. q \<in> set (receivers w data n p) \<Longrightarrow> ports w' q = ports w q) \<Longrightarrow>
   receivers w' data n p = receivers w data n p"
proof (induction n arbitrary: p)
  case (Suc n)
  show ?case
  proof (cases "ports w p")
    case None
    then have "ports w' p = None" using same_wiring_None[OF Suc.prems(1)] by blast
    with None show ?thesis by simp
  next
    case (Some pt)
    then obtain pt' where pt': "ports w' p = Some pt'" "wiring pt' = wiring pt" using same_wiring_Some[OF Suc.prems(1)] by blast
    have "arrivals w' data (receivers w' data n) q = arrivals w data (receivers w data n) q"
      if q: "q \<in> set (m_destinations pt)" for q
    proof (rule arrivals_cong[OF Suc.prems(1)])
      have sub: "set (arrivals w data (receivers w data n) q) \<subseteq> set (receivers w data (Suc n) p)"
        using q Some by auto
      show "ports w' r = ports w r" if "r \<in> set (arrivals w data (receivers w data n) q)" for r
        using Suc.prems(2) sub that by blast
      show "receivers w' data n q = receivers w data n q"
        if "set (receivers w data n q) \<subseteq> set (arrivals w data (receivers w data n) q)"
        using Suc.IH[OF Suc.prems(1)] Suc.prems(2) sub that by blast
    qed
    then have "map (arrivals w' data (receivers w' data n)) (m_destinations pt) =
        map (arrivals w data (receivers w data n)) (m_destinations pt)" by simp
    from arg_cong[OF this, of concat] show ?thesis
      using Some pt'(1) wiring_parts(1)[OF pt'(2)] by simp
  qed
qed simp

section \<open>Delivery\<close>

text \<open>The invariant of the inputs: an input port that waits has its accessor queued at the parent.\<close>

definition inputs_alert_but :: "nat set \<Rightarrow> ('e, 'u) world \<Rightarrow> bool" where
  "inputs_alert_but Y w \<longleftrightarrow> (\<forall>q qt x g. q \<notin> Y \<and> ports w q = Some qt \<and> accessors w (p_owner qt) = Some x \<and>
     takes qt x \<and> m_waitingForInputHandler qt \<and> m_parent x = Some g \<longrightarrow> p_owner qt \<in> queue_of w g)"

definition messages_ok :: "('e, 'u) world \<Rightarrow> bool" where
  "messages_ok w \<longleftrightarrow> reactions_ok_but {} {} w \<and> inputs_alert_but {} w"

lemma reactions_ok_ports [simp]: "reactions_ok_but X R (w\<lparr>ports := S\<rparr>) = reactions_ok_but X R w"
proof -
  have "queue_of (w\<lparr>ports := S\<rparr>) = queue_of w" "requested (w\<lparr>ports := S\<rparr>) = requested w"
      "reaction_scheduled (w\<lparr>ports := S\<rparr>) = reaction_scheduled w" "accessor_priority (w\<lparr>ports := S\<rparr>) = accessor_priority w"
    by (simp_all add: fun_eq_iff queue_of_def requested_def reaction_scheduled_def accessor_priority_def)
  then show ?thesis
    by (simp add: reactions_ok_but_def director_ok_def queues_ok_def announced_def[abs_def] request_answered_def[abs_def]
        cong: option.case_cong)
qed

lemma wakes_ports: "wakes w (w\<lparr>ports := S\<rparr>)"
  by (simp add: wakes_def same_shells_def queue_of_def requested_def reaction_scheduled_def)

lemma inputs_alert_wakes:
  assumes "inputs_alert_but Y w" and "wakes w w'" and "ports w' = ports w"
  shows "inputs_alert_but Y w'"
  unfolding inputs_alert_but_def
proof (intro allI impI)
  fix q qt x' g
  assume h: "q \<notin> Y \<and> ports w' q = Some qt \<and> accessors w' (p_owner qt) = Some x' \<and>
     takes qt x' \<and> m_waitingForInputHandler qt \<and> m_parent x' = Some g"
  have shells: "same_shells w w'" using assms(2) by (simp add: wakes_def)
  then have "accessors w (p_owner qt) \<noteq> None" using h same_shells_None[OF shells, of "p_owner qt"] by simp
  then obtain x where x: "accessors w (p_owner qt) = Some x" by blast
  then obtain z where z: "accessors w' (p_owner qt) = Some z" "idle z = idle x" using same_shells_Some[OF shells] by blast
  then have "takes qt x" "m_parent x = Some g"
    using h idle_parts(1,6)[OF z(2)] by (simp_all add: takes_def del: IsComposite.simps)
  then have "p_owner qt \<in> queue_of w g" using assms(1,3) h x unfolding inputs_alert_but_def by metis
  then show "p_owner qt \<in> queue_of w' g" using assms(2) unfolding wakes_def by blast
qed

lemma reactions_ok_weaken: "reactions_ok_but {} {} w \<Longrightarrow> reactions_ok_but X R w"
  unfolding reactions_ok_but_def by blast

lemma AlertNewInput_ok:
  fixes w :: "('e, 'u) world"
  assumes "reactions_ok_but {} {} w" and x: "accessors w a = Some x" and "\<And>g. m_parent x = Some g \<Longrightarrow> hosted w levels g"
  shows "ends own_failure (\<lambda>_ w'. reactions_ok_but {} {} w' \<and> wakes w w' \<and> ports w' = ports w \<and>
      (\<forall>g. m_parent x = Some g \<longrightarrow> a \<in> queue_of w' g) \<and> entries A w' \<le> entries A w + Suc levels)
    (AlertNewInput levels a w)"
proof (cases "m_parent x")
  case None
  then show ?thesis using assms(1) x by (simp add: AlertNewInput_def with_accessor_def wakes_refl)
next
  case (Some g)
  have "ends own_failure (\<lambda>_ w'. reactions_ok_but {} {} w' \<and> wakes w w' \<and> ports w' = ports w \<and> a \<in> queue_of w' g \<and>
        entries A w' \<le> entries A w + Suc levels)
      (ScheduleReaction levels g a (m_priority x) w)"
    by (rule ScheduleReaction_ok[OF assms(3)[OF Some] x Some reactions_ok_weaken[OF assms(1)]])
  then show ?thesis
    using x Some by (simp add: AlertNewInput_def with_accessor_def)
qed

lemma receive_ok:
  fixes w :: "('e, 'u) world"
  assumes ok: "messages_ok w" and qt: "ports w q = Some qt" and x: "accessors w (p_owner qt) = Some x"
    and up: "\<And>g. m_parent x = Some g \<Longrightarrow> hosted w levels g"
    and dist: "distinct (arrivals w data onward q)"
    and send: "\<And>w1 :: ('e, 'u) world. same_wiring w w1 \<Longrightarrow> messages_ok w1 \<Longrightarrow> distinct (onward q) \<Longrightarrow>
      (\<And>r. r \<in> set (onward q) \<Longrightarrow> ports w1 r = ports w r) \<Longrightarrow>
      ends own_failure (\<lambda>_ w'. messages_ok w' \<and> wakes w1 w' \<and> ports w' = deliver data (onward q) (ports w1) \<and>
        entries A w' \<le> entries A w1 + Suc levels * length (onward q)) (send q data w1)"
  shows "ends own_failure (\<lambda>_ w'. messages_ok w' \<and> wakes w w' \<and> ports w' = deliver data (arrivals w data onward q) (ports w) \<and>
      entries A w' \<le> entries A w + Suc levels * length (arrivals w data onward q))
    (receive_data levels send q data w)"
proof -
  have self: "same_wiring w w" by (simp add: same_wiring_def same_shells_refl)
  consider "\<not> IsInitialized x" | "IsInitialized x" "\<not> takes qt x" | "IsInitialized x" "takes qt x" by blast
  then show ?thesis
  proof cases
    case 1
    then show ?thesis using ok qt x by (simp add: receive_data_def with_accessor_def arrivals_def wakes_refl)
  next
    case 2
    then have a: "arrivals w data onward q = onward q" using qt x by (simp add: arrivals_def)
    have "receive_data levels send q data w = send q data w"
      using 2 qt x by (simp add: receive_data_def with_accessor_def takes_def del: IsComposite.simps split: port_kind.split)
    then show ?thesis using send[OF self ok] dist a by simp
  next
    case 3
    define w1 where "w1 = w\<lparr>ports := modify_port q (QueueInput data) (ports w)\<rparr>"
    have p1: "ports w1 = deliver data [q] (ports w)"
      by (rule ext) (simp add: w1_def deliver_def modify_port_apply)
    have acc1: "accessors w1 = accessors w" by (simp add: w1_def)
    have wk1: "wakes w w1" unfolding w1_def by (rule wakes_ports)
    have r1: "reactions_ok_but {} {} w1" using ok by (simp add: w1_def messages_ok_def)
    have same_q: "queue_of w1 = queue_of w" by (simp add: fun_eq_iff queue_of_def acc1)
    then have e1: "entries A w1 = entries A w" by (rule entries_same) (simp add: w1_def)
    have i1: "inputs_alert_but {q} w1"
      using ok unfolding messages_ok_def inputs_alert_but_def same_q acc1 p1 by (simp add: deliver_def) blast
    have kind: "p_kind qt = InputPort" "\<not> IsComposite x" using 3(2) by (simp_all add: takes_def del: IsComposite.simps)
    show ?thesis
    proof (cases "passes data qt")
      case True
      have arr: "arrivals w data onward q = q # onward q" using 3 True qt x by (simp add: arrivals_def)
      let ?done = "\<lambda>w'. messages_ok w' \<and> wakes w w' \<and> ports w' = deliver data (q # onward q) (ports w) \<and>
          entries A w' \<le> entries A w + Suc levels * length (q # onward q)"
      have "ends own_failure (\<lambda>_. ?done) (run_bind (AlertNewInput levels (p_owner qt) w1) (\<lambda>_. send q data))"
      proof (rule ends_bind[OF AlertNewInput_ok[OF r1, where A = A]])
        show "accessors w1 (p_owner qt) = Some x" by (simp add: acc1 x)
        show "m_parent x = Some g \<Longrightarrow> hosted w1 levels g" for g
          using up hosted_cong[of w w1] wk1 by (simp add: wakes_def)
        fix u :: unit and w2 :: "('e, 'u) world"
        assume w2: "reactions_ok_but {} {} w2 \<and> wakes w1 w2 \<and> ports w2 = ports w1 \<and>
          (\<forall>g. m_parent x = Some g \<longrightarrow> p_owner qt \<in> queue_of w2 g) \<and> entries A w2 \<le> entries A w1 + Suc levels"
        then have p2: "ports w2 = deliver data [q] (ports w)" and wk2: "wakes w w2"
          using p1 wakes_trans[OF wk1] by simp_all
        have wire2: "same_wiring w w2" using same_wiring_deliver[OF _ p2] wk2 by (simp add: wakes_def)
        have i2: "inputs_alert_but {q} w2" using inputs_alert_wakes[OF i1] w2 by blast
        have "inputs_alert_but {} w2"
          unfolding inputs_alert_but_def
        proof (intro allI impI)
          fix r rt z g
          assume h: "r \<notin> {} \<and> ports w2 r = Some rt \<and> accessors w2 (p_owner rt) = Some z \<and> takes rt z \<and>
            m_waitingForInputHandler rt \<and> m_parent z = Some g"
          show "p_owner rt \<in> queue_of w2 g"
          proof (cases "r = q")
            case True
            have "rt = QueueInput data qt" using h True p2 qt by (simp add: deliver_def)
            then have own: "p_owner rt = p_owner qt" using wiring_parts(2)[OF wiring_Queue] by simp
            have "m_parent z = m_parent x"
              using same_shells_parent[of w w2 "p_owner qt" x z] wk2 x h own by (simp add: wakes_def)
            then show ?thesis using w2 h own by simp
          next
            case False
            then show ?thesis using i2 h unfolding inputs_alert_but_def by blast
          qed
        qed
        then have ok2: "messages_ok w2" using w2 by (simp add: messages_ok_def)
        have q: "q \<notin> set (onward q)" and d: "distinct (onward q)" using dist arr by simp_all
        have "ends own_failure (\<lambda>_ w'. messages_ok w' \<and> wakes w2 w' \<and> ports w' = deliver data (onward q) (ports w2) \<and>
            entries A w' \<le> entries A w2 + Suc levels * length (onward q)) (send q data w2)"
          by (rule send[OF wire2 ok2 d]) (use q in \<open>auto simp: p2 deliver_def\<close>)
        then show "ends own_failure (\<lambda>_. ?done) (send q data w2)"
        proof (rule ends_mono)
          fix v :: unit and w' :: "('e, 'u) world"
          assume w': "messages_ok w' \<and> wakes w2 w' \<and> ports w' = deliver data (onward q) (ports w2) \<and>
            entries A w' \<le> entries A w2 + Suc levels * length (onward q)"
          have "deliver data (onward q) (deliver data [q] (ports w)) = deliver data ([q] @ onward q) (ports w)"
            by (rule deliver_append) (use q in simp)
          then show "?done w'" using w' p2 wakes_trans[OF wk2] w2 e1 by simp
        qed
      qed
      then show ?thesis
        using qt x 3(1) True arr kind
        by (simp add: receive_data_def with_accessor_def passes_def w1_def Let_def del: IsComposite.simps)
    next
      case False
      have arr: "arrivals w data onward q = [q]" using 3 False qt x by (simp add: arrivals_def)
      have "inputs_alert_but {} w1"
        unfolding inputs_alert_but_def
      proof (intro allI impI)
        fix r rt z g
        assume h: "r \<notin> {} \<and> ports w1 r = Some rt \<and> accessors w1 (p_owner rt) = Some z \<and> takes rt z \<and>
          m_waitingForInputHandler rt \<and> m_parent z = Some g"
        show "p_owner rt \<in> queue_of w1 g"
        proof (cases "r = q")
          case True
          have rt: "rt = QueueInput data qt" using h True p1 qt by (simp add: deliver_def)
          then have own: "p_owner rt = p_owner qt" using wiring_parts(2)[OF wiring_Queue] by simp
          have "m_waitingForInputHandler qt" using False h rt by (simp add: passes_def)
          then show ?thesis
            using ok qt x 3(2) h own unfolding messages_ok_def inputs_alert_but_def same_q acc1 by fastforce
        next
          case False
          then show ?thesis using i1 h unfolding inputs_alert_but_def by blast
        qed
      qed
      then have "messages_ok w1" using r1 by (simp add: messages_ok_def)
      then show ?thesis
        using qt x 3(1) False arr kind wk1 p1 e1
        by (auto simp: receive_data_def with_accessor_def passes_def w1_def Let_def del: IsComposite.simps)
    qed
  qed
qed

lemma distinct_concat_Cons:
  "distinct (concat (map f (q # qs))) \<Longrightarrow> distinct (f q) \<and> distinct (concat (map f qs)) \<and> set (f q) \<inter> set (concat (map f qs)) = {}"
  by simp

lemma receive_each_ok:
  fixes w :: "('e, 'u) world"
  assumes send: "\<And>q (w :: ('e, 'u) world). routed w levels n q \<Longrightarrow> messages_ok w \<Longrightarrow> distinct (receivers w data n q) \<Longrightarrow>
      ends own_failure (\<lambda>_ w'. messages_ok w' \<and> wakes w w' \<and> ports w' = deliver data (receivers w data n q) (ports w) \<and>
          entries A w' \<le> entries A w + Suc levels * length (receivers w data n q))
        (SendData levels n q data w)"
  shows "messages_ok w \<Longrightarrow>
    (\<And>q. q \<in> set qs \<Longrightarrow> routed w levels n q \<and> (\<exists>qt x. ports w q = Some qt \<and> accessors w (p_owner qt) = Some x \<and>
      (\<forall>g. m_parent x = Some g \<longrightarrow> hosted w levels g))) \<Longrightarrow>
    distinct (concat (map (arrivals w data (receivers w data n)) qs)) \<Longrightarrow>
    ends own_failure (\<lambda>_ w'. messages_ok w' \<and> wakes w w' \<and>
        ports w' = deliver data (concat (map (arrivals w data (receivers w data n)) qs)) (ports w) \<and>
        entries A w' \<le> entries A w + Suc levels * length (concat (map (arrivals w data (receivers w data n)) qs)))
      (run_each (\<lambda>q. receive_data levels (SendData levels n) q data) qs w)"
proof (induction qs arbitrary: w)
  case Nil
  then show ?case by (simp add: wakes_refl)
next
  case (Cons q qs)
  let ?a = "\<lambda>w. arrivals w data (receivers w data n)"
  have q: "routed w levels n q" "\<exists>qt x. ports w q = Some qt \<and> accessors w (p_owner qt) = Some x \<and>
      (\<forall>g. m_parent x = Some g \<longrightarrow> hosted w levels g)" using Cons.prems(2)[of q] by simp_all
  then obtain qt x where qt: "ports w q = Some qt" "accessors w (p_owner qt) = Some x"
      "\<And>g. m_parent x = Some g \<Longrightarrow> hosted w levels g" by blast
  note d = distinct_concat_Cons[OF Cons.prems(3)]
  have first: "ends own_failure (\<lambda>_ w'. messages_ok w' \<and> wakes w w' \<and> ports w' = deliver data (?a w q) (ports w) \<and>
        entries A w' \<le> entries A w + Suc levels * length (?a w q))
      (receive_data levels (SendData levels n) q data w)"
  proof (rule receive_ok[OF Cons.prems(1) qt])
    show "distinct (?a w q)" using d by blast
    fix w1 :: "('e, 'u) world"
    assume w1: "same_wiring w w1" "messages_ok w1" "distinct (receivers w data n q)"
      "\<And>r. r \<in> set (receivers w data n q) \<Longrightarrow> ports w1 r = ports w r"
    have same: "receivers w1 data n q = receivers w data n q" using receivers_cong[OF w1(1)] w1(4) by blast
    have "distinct (receivers w1 data n q)" using w1(3) same by simp
    from send[OF routed_cong[OF w1(1) q(1)] w1(2) this] same
    show "ends own_failure (\<lambda>_ w'. messages_ok w' \<and> wakes w1 w' \<and> ports w' = deliver data (receivers w data n q) (ports w1) \<and>
          entries A w' \<le> entries A w1 + Suc levels * length (receivers w data n q))
        (SendData levels n q data w1)" by simp
  qed
  show ?case
    unfolding run_each.simps
  proof (rule ends_bind[OF first])
    fix u :: unit and w1 :: "('e, 'u) world"
    assume w1: "messages_ok w1 \<and> wakes w w1 \<and> ports w1 = deliver data (?a w q) (ports w) \<and>
      entries A w1 \<le> entries A w + Suc levels * length (?a w q)"
    have shells: "same_shells w w1" using w1 by (simp add: wakes_def)
    have wire: "same_wiring w w1" using same_wiring_deliver[OF shells] w1 by blast
    have same: "?a w1 r = ?a w r" if r: "r \<in> set qs" for r
    proof (rule arrivals_cong[OF wire])
      have sub: "set (?a w r) \<subseteq> set (concat (map (?a w) qs))" using r by fastforce
      have out: "s \<notin> set (?a w q)" if "s \<in> set (?a w r)" for s using d sub that by blast
      then show "ports w1 s = ports w s" if "s \<in> set (?a w r)" for s using w1 that by (simp add: deliver_def)
      show "receivers w1 data n r = receivers w data n r" if "set (receivers w data n r) \<subseteq> set (?a w r)"
        using receivers_cong[OF wire] out that w1 by (simp add: deliver_def subset_iff)
    qed
    then have "map (?a w1) qs = map (?a w) qs" by simp
    then have sames: "concat (map (?a w1) qs) = concat (map (?a w) qs)" by (rule arg_cong)
    have "ends own_failure (\<lambda>_ w'. messages_ok w' \<and> wakes w1 w' \<and> ports w' = deliver data (concat (map (?a w1) qs)) (ports w1) \<and>
          entries A w' \<le> entries A w1 + Suc levels * length (concat (map (?a w1) qs)))
        (run_each (\<lambda>q. receive_data levels (SendData levels n) q data) qs w1)"
    proof (rule Cons.IH)
      show "messages_ok w1" using w1 by simp
      show "distinct (concat (map (?a w1) qs))" using d sames by simp
      fix r assume "r \<in> set qs"
      then have "routed w levels n r" "\<exists>rt y. ports w r = Some rt \<and> accessors w (p_owner rt) = Some y \<and>
          (\<forall>g. m_parent y = Some g \<longrightarrow> hosted w levels g)" using Cons.prems(2)[of r] by simp_all
      then obtain rt y where rt: "ports w r = Some rt" "accessors w (p_owner rt) = Some y"
          "\<And>g. m_parent y = Some g \<Longrightarrow> hosted w levels g" by blast
      obtain rt' where rt': "ports w1 r = Some rt'" "wiring rt' = wiring rt" using same_wiring_Some[OF wire rt(1)] by blast
      obtain y' where y': "accessors w1 (p_owner rt) = Some y'" using same_shells_Some[OF shells rt(2)] by blast
      have "m_parent y' = Some g \<Longrightarrow> hosted w1 levels g" for g
        using rt(3) hosted_cong[OF shells] same_shells_parent[OF shells rt(2) y'] by simp
      then show "routed w1 levels n r \<and> (\<exists>qt x. ports w1 r = Some qt \<and> accessors w1 (p_owner qt) = Some x \<and>
          (\<forall>g. m_parent x = Some g \<longrightarrow> hosted w1 levels g))"
        using routed_cong[OF wire \<open>routed w levels n r\<close>] rt'(1) y' wiring_parts(2)[OF rt'(2)] by auto
    qed
    then show "ends own_failure (\<lambda>_ w'. messages_ok w' \<and> wakes w w' \<and>
        ports w' = deliver data (concat (map (?a w) (q # qs))) (ports w) \<and>
        entries A w' \<le> entries A w + Suc levels * length (concat (map (?a w) (q # qs))))
      (run_each (\<lambda>q. receive_data levels (SendData levels n) q data) qs w1)"
    proof (rule ends_mono)
      fix v :: unit and w' :: "('e, 'u) world"
      assume w': "messages_ok w' \<and> wakes w1 w' \<and> ports w' = deliver data (concat (map (?a w1) qs)) (ports w1) \<and>
        entries A w' \<le> entries A w1 + Suc levels * length (concat (map (?a w1) qs))"
      have "deliver data (concat (map (?a w) qs)) (deliver data (?a w q) (ports w)) =
          deliver data (?a w q @ concat (map (?a w) qs)) (ports w)"
        by (rule deliver_append) (use d in blast)
      moreover have "entries A w' \<le> entries A w + Suc levels * length (concat (map (?a w) (q # qs)))"
      proof -
        have "entries A w' \<le> (entries A w + Suc levels * length (?a w q)) + Suc levels * length (concat (map (?a w) qs))"
          using w' w1 sames by simp
        then show ?thesis by (simp only: list.map concat.simps length_append distrib_left add.assoc)
      qed
      ultimately show "messages_ok w' \<and> wakes w w' \<and> ports w' = deliver data (concat (map (?a w) (q # qs))) (ports w) \<and>
          entries A w' \<le> entries A w + Suc levels * length (concat (map (?a w) (q # qs)))"
        using w' w1 sames wakes_trans[of w w1 w'] by (simp del: mult_Suc)
    qed
  qed
qed

lemma SendData_ok:
  fixes w :: "('e, 'u) world"
  shows "routed w levels n p \<Longrightarrow> messages_ok w \<Longrightarrow> distinct (receivers w data n p) \<Longrightarrow>
    ends own_failure (\<lambda>_ w'. messages_ok w' \<and> wakes w w' \<and> ports w' = deliver data (receivers w data n p) (ports w) \<and>
        entries A w' \<le> entries A w + Suc levels * length (receivers w data n p))
      (SendData levels n p data w)"
proof (induction n arbitrary: p w)
  case (Suc n)
  from Suc.prems(1) obtain pt where pt: "ports w p = Some pt"
      "\<forall>q \<in> set (m_destinations pt). routed w levels n q \<and>
          (\<exists>qt x. ports w q = Some qt \<and> accessors w (p_owner qt) = Some x \<and>
             (\<forall>g. m_parent x = Some g \<longrightarrow> hosted w levels g))" by (auto split: option.splits)
  have "distinct (concat (map (arrivals w data (receivers w data n)) (m_destinations pt)))"
    using Suc.prems(3) pt(1) by simp
  from receive_each_ok[OF Suc.IH Suc.prems(2) _ this] pt show ?case by (simp del: mult_Suc)
qed simp

text \<open>
  A pending accessor will be run: it is in its parent's queue, the parent is pending in turn,
  and a host has the callback that processes its queue in the director's queue.
\<close>

fun pending :: "('e, 'u) world \<Rightarrow> nat \<Rightarrow> nat \<Rightarrow> bool" where
  "pending w 0 b = False"
| "pending w (Suc n) b =
     (case accessors w b of
        None \<Rightarrow> False
      | Some y \<Rightarrow>
          (case m_parent y of None \<Rightarrow> reaction_scheduled w b | Some p \<Rightarrow> b \<in> queue_of w p \<and> pending w n p))"

lemma queued_pending:
  assumes ok: "reactions_ok_but {} {} w"
  shows "hosted w n g \<Longrightarrow> accessors w b = Some y \<Longrightarrow> m_parent y = Some g \<Longrightarrow> b \<in> queue_of w g \<Longrightarrow> pending w (Suc n) b"
proof (induction n arbitrary: b y g)
  case (Suc n)
  from Suc.prems(1) obtain z where z: "accessors w g = Some z"
      "case m_parent z of None \<Rightarrow> is_host z | Some p \<Rightarrow> hosted w n p"
    by (auto simp del: IsComposite.simps is_host.simps split: option.splits)
  have "announced w g" using ok by (simp add: reactions_ok_but_def)
  then have a: "case m_parent z of None \<Rightarrow> requested w g | Some p \<Rightarrow> g \<in> queue_of w p"
    using Suc.prems(4) z(1) unfolding announced_def by blast
  have "pending w (Suc n) g"
  proof (cases "m_parent z")
    case None
    have "request_answered w g" using ok by (simp add: reactions_ok_but_def)
    then have "reaction_scheduled w g" using a None z(1) by (simp add: request_answered_def)
    then show ?thesis using None z(1) by simp
  next
    case (Some p)
    then show ?thesis using Suc.IH[of p g z] z a by simp
  qed
  then show ?case using Suc.prems by simp
qed simp

end
