(* ===== verification/Runtime.thy ===== *)
theory Runtime
  imports Messages HostPriorities
begin

text \<open>
  What runs user code: the reaction to inputs (\<open>ProcessInputs\<close>, \<open>InvokeInputHandlers\<close> of
  \<open>src/src/AtomicAccessorImpl.cpp\<close>, \<open>ProcessChildEventQueue\<close> of \<open>CompositeAccessorImpl.cpp\<close>),
  initialisation and the announcement of new children (\<open>AccessorImpl.cpp\<close>,
  \<open>CompositeAccessorImpl.cpp\<close>, \<open>HostImpl.cpp\<close>), and the meaning of the callbacks the framework
  schedules. User code is a parameter: handlers, callbacks, \<open>Fire\<close> and \<open>Initialize\<close> are
  operations on the whole state.
\<close>

section \<open>User code\<close>

record ('e, 'u) user_code =
  u_initialize :: "nat \<Rightarrow> (unit, 'e, 'u) op"
  u_fire :: "nat \<Rightarrow> (unit, 'e, 'u) op"
  u_handler :: "nat \<Rightarrow> 'e option \<Rightarrow> (unit, 'e, 'u) op"
  u_callback :: "nat \<Rightarrow> (unit, 'e, 'u) op"

section \<open>Reacting to inputs\<close>

definition handlers_now :: "('e, 'u) world \<Rightarrow> nat \<Rightarrow> string \<Rightarrow> nat list option" where
  "handlers_now w a name =
     (case accessors w a of
        None \<Rightarrow> None
      | Some x \<Rightarrow> (case a_kind x of Atomic d \<Rightarrow> map_of (m_inputHandlers d) name | Composite _ \<Rightarrow> None))"

definition erase_handler :: "nat \<Rightarrow> string \<Rightarrow> nat \<Rightarrow> nat list \<Rightarrow> ('e, 'u) world \<Rightarrow> ('e, 'u) world" where
  "erase_handler a name i hs = modify_atomic a
     (\<lambda>d. d\<lparr>m_inputHandlers := smap_put name (take i hs @ drop (Suc i) hs) (m_inputHandlers d)\<rparr>)"

text \<open>
  The loop over the vector of handlers. The vector is not copied: a handler that changes it (or
  destroys the accessor) leaves the loop with an invalid iterator. A handler that throws a
  \<open>std::exception\<close> is erased.
\<close>

fun handler_loop ::
  "('e, 'u) user_code \<Rightarrow> nat \<Rightarrow> string \<Rightarrow> nat list \<Rightarrow> 'e option \<Rightarrow> nat \<Rightarrow> nat list \<Rightarrow> (unit, 'e, 'u) op" where
  "handler_loop U a name inputHandlers latestInput i [] w = Ret () w"
| "handler_loop U a name inputHandlers latestInput i (h # hs) w =
     (case u_handler U h latestInput w of
        Diverge \<Rightarrow> Diverge
      | Ret _ w1 \<Rightarrow>
          if handlers_now w1 a name = Some inputHandlers
          then handler_loop U a name inputHandlers latestInput (Suc i) hs w1
          else Throw (Fatal DanglingPointer) w1
      | Throw e w1 \<Rightarrow>
          if \<not> is_std_exception e then Throw e w1
          else if handlers_now w1 a name = Some inputHandlers
          then Throw e (erase_handler a name i inputHandlers w1)
          else Throw (Fatal DanglingPointer) w1)"

definition InvokeInputHandlers :: "('e, 'u) user_code \<Rightarrow> nat \<Rightarrow> string \<Rightarrow> (unit, 'e, 'u) op" where
  "InvokeInputHandlers U a name w =
     run_bind (Accessor_GetLatestInput a name w) (\<lambda>latestInput w.
       case handlers_now w a name of
         None \<Rightarrow> Throw OutOfRange w
       | Some inputHandlers \<Rightarrow> handler_loop U a name inputHandlers latestInput 0 inputHandlers w)"

definition with_port :: "nat \<Rightarrow> ('e port \<Rightarrow> ('a, 'e, 'u) op) \<Rightarrow> ('a, 'e, 'u) op" where
  "with_port p f w = (case ports w p of None \<Rightarrow> Throw (Fatal DanglingPointer) w | Some pt \<Rightarrow> f pt w)"

text \<open>The step for one input port of the loop in \<open>ProcessInputs\<close>.\<close>

definition process_port :: "('e, 'u) user_code \<Rightarrow> nat \<Rightarrow> nat \<Rightarrow> nat \<Rightarrow> nat \<Rightarrow> (unit, 'e, 'u) op" where
  "process_port U levels n a p = with_port p (\<lambda>pt w.
     if \<not> IsWaitingForInputHandler pt then Ret () w
     else run_bind (InvokeInputHandlers U a (p_name pt) w) (\<lambda>_. with_port p (\<lambda>pt w.
       let pt1 = DequeueLatestInput pt;
           w1 = w\<lparr>ports := (ports w)(p \<mapsto> pt1)\<rparr>
       in if \<not> IsWaitingForInputHandler pt1 then Ret () w1
          else run_bind
            (with_accessor a (\<lambda>x w. case m_parent x of
               None \<Rightarrow> Ret () w
             | Some g \<Rightarrow> ScheduleReaction levels g a (GetPriority x) w) w1)
            (\<lambda>_. SendData levels n p (ShareLatestInput pt1)))))"

definition ProcessInputs :: "('e, 'u) user_code \<Rightarrow> nat \<Rightarrow> nat \<Rightarrow> nat \<Rightarrow> (unit, 'e, 'u) op" where
  "ProcessInputs U levels n a = with_atomic a (\<lambda>x d w.
     run_bind (run_each (process_port U levels n a) (GetInputPorts x) w) (\<lambda>_. with_atomic a (\<lambda>x d w.
       if m_hasFireFunction d then u_fire U a w else Ret () w)))"

text \<open>
  The while loop of \<open>ProcessChildEventQueue\<close>; the bound is on the steps of this loop and of those
  it nests. As for pushing, a comparison with an accessor that is gone is a dangling pointer.
\<close>

fun ProcessChildEventQueue ::
  "('e, 'u) user_code \<Rightarrow> nat \<Rightarrow> nat \<Rightarrow> nat \<Rightarrow> nat \<Rightarrow> (unit, 'e, 'u) op" where
  "ProcessChildEventQueue U levels n 0 a w = Diverge"
| "ProcessChildEventQueue U levels n (Suc k) a w = with_composite a (\<lambda>x c w.
     if upq_empty (m_childEventQueue c)
     then Ret () (modify_composite a (\<lambda>c. c\<lparr>m_reactionRequested := False\<rparr>) w)
     else (case upq_top (m_childEventQueue c) of
             Inl e \<Rightarrow> Throw e w
           | Inr child \<Rightarrow>
               if \<exists>b \<in> set (m_queue (m_childEventQueue c)). accessors w b = None
               then Throw (Fatal DanglingPointer) w
               else (case upq_pop (GreaterAccessorImplPtrs w) (m_childEventQueue c) of
                 Inl e \<Rightarrow> Throw e w
               | Inr q \<Rightarrow>
                   run_bind
                     (with_accessor child (\<lambda>y.
                        if IsComposite y then ProcessChildEventQueue U levels n k child
                        else ProcessInputs U levels n child)
                      (modify_composite a (\<lambda>c. c\<lparr>m_childEventQueue := q\<rparr>) w))
                     (\<lambda>_. ProcessChildEventQueue U levels n k a)))) w"

section \<open>Initialisation\<close>

text \<open>
  A loop over the vector of a composite's children, which is not copied: a change to it leaves
  the loop with an invalid iterator.
\<close>

definition children_now :: "('e, 'u) world \<Rightarrow> nat \<Rightarrow> nat list option" where
  "children_now w a =
     (case accessors w a of
        None \<Rightarrow> None
      | Some x \<Rightarrow> (case a_kind x of Composite c \<Rightarrow> Some (m_orderedChildren c) | Atomic _ \<Rightarrow> None))"

fun each_child :: "(nat \<Rightarrow> (unit, 'e, 'u) op) \<Rightarrow> nat \<Rightarrow> nat list \<Rightarrow> nat list \<Rightarrow> (unit, 'e, 'u) op" where
  "each_child f a children [] w = Ret () w"
| "each_child f a children (b # bs) w = run_bind (f b w) (\<lambda>_ w.
     if children_now w a = Some children then each_child f a children bs w
     else Throw (Fatal DanglingPointer) w)"

fun Initialize :: "('e, 'u) user_code \<Rightarrow> nat \<Rightarrow> nat \<Rightarrow> (unit, 'e, 'u) op" where
  "Initialize U 0 a w = Diverge"
| "Initialize U (Suc k) a w = with_accessor a (\<lambda>x w.
     run_bind (u_initialize U a w) (\<lambda>_. with_accessor a (\<lambda>x w.
       let w1 = modify_accessor a (\<lambda>x. x\<lparr>m_initialized := True\<rparr>) w in
       case a_kind x of
         Atomic _ \<Rightarrow> Ret () w1
       | Composite c \<Rightarrow> each_child (Initialize U k) a (m_orderedChildren c) (m_orderedChildren c) w1))) w"

definition initialize_new :: "('e, 'u) user_code \<Rightarrow> nat \<Rightarrow> nat \<Rightarrow> (unit, 'e, 'u) op" where
  "initialize_new U k b = with_accessor b (\<lambda>y w. if IsInitialized y then Ret () w else Initialize U k b w)"

text \<open>A host schedules an update of the model, at a priority before every accessor's.\<close>

definition Host_ChildrenChanged :: "nat \<Rightarrow> (unit, 'e, 'u) op" where
  "Host_ChildrenChanged a w =
     run_bind (Accessor_ScheduleCallback a (UpdateModel a) 0 False (SetPriority a UpdateModelPriority w))
       (\<lambda>_ w. Ret () (SetPriority a HostPriority w))"

fun ChildrenChanged :: "('e, 'u) user_code \<Rightarrow> nat \<Rightarrow> nat \<Rightarrow> (unit, 'e, 'u) op" where
  "ChildrenChanged U 0 a w = Diverge"
| "ChildrenChanged U (Suc k) a w = with_composite a (\<lambda>x c w.
     if c_isHost c then Host_ChildrenChanged a w
     else run_bind (case m_parent x of None \<Rightarrow> Ret () w | Some p \<Rightarrow> ChildrenChanged U k p w)
       (\<lambda>_. with_composite a (\<lambda>x c. each_child (initialize_new U k) a (m_orderedChildren c) (m_orderedChildren c)))) w"

text \<open>The lambda that a host schedules works on a copy of the list of children.\<close>

definition update_model :: "('e, 'u) user_code \<Rightarrow> nat \<Rightarrow> nat \<Rightarrow> (unit, 'e, 'u) op" where
  "update_model U k a w =
     run_bind (ComputeAccessorPriorities k a True w) (\<lambda>_. with_composite a (\<lambda>x c.
       run_each (initialize_new U k) (GetChildren c)))"

section \<open>The meaning of a callback\<close>

definition send_output :: "nat \<Rightarrow> nat \<Rightarrow> nat \<Rightarrow> string \<Rightarrow> 'e option \<Rightarrow> (unit, 'e, 'u) op" where
  "send_output levels n a name out = with_accessor a (\<lambda>x w.
     case GetOutputPort name x of Inl e \<Rightarrow> Throw e w | Inr p \<Rightarrow> SendData levels n p out w)"

text \<open>\<open>levels\<close>, \<open>n\<close> and \<open>k\<close> bound the depth of the tree, the chains of ports and the loops.\<close>

fun run_callback :: "('e, 'u) user_code \<Rightarrow> nat \<Rightarrow> nat \<Rightarrow> nat \<Rightarrow> 'e callback \<Rightarrow> (unit, 'e, 'u) op" where
  "run_callback U levels n k (SendOutputTo a name out) = send_output levels n a name out"
| "run_callback U levels n k (ProcessQueueOf a) = ProcessChildEventQueue U levels n k a"
| "run_callback U levels n k (UpdateModel a) = update_model U k a"
| "run_callback U levels n k (UserCallback f) = u_callback U f"

end
