(* ===== verification/Reactions.thy ===== *)
theory Reactions
  imports Runtime
begin

text \<open>
  What a reaction does when user code keeps to a contract: handlers may do what they like with
  their own state and may schedule callbacks (sending outputs included), but they do not change
  the structure of the model while it reacts. Then an atomic accessor hands the front event of
  every waiting input port to all its handlers, and the reaction of a host ends with no input
  waiting anywhere below it. The last section shows what an exception in a handler does.
\<close>

section \<open>The contract of user code\<close>

definition strip :: "accessor \<Rightarrow> accessor" where
  "strip x = x\<lparr>m_callbackIds := []\<rparr>"

text \<open>What a step of user code may change: the director and the identifiers of callbacks.\<close>

definition schedules :: "('e, 'u) world \<Rightarrow> ('e, 'u) world \<Rightarrow> bool" where
  "schedules w w' \<longleftrightarrow> ports w' = ports w \<and> director_ok w' \<and>
     (\<forall>a. map_option strip (accessors w' a) = map_option strip (accessors w a)) \<and>
     (\<forall>a. reaction_scheduled w a \<longrightarrow> reaction_scheduled w' a) \<and> reaction_ids w' \<subseteq> reaction_ids w"

text \<open>
  \<open>hu\<close> and \<open>fu\<close> say what a handler and \<open>Fire\<close> do to the user's state in any state of the model
  with the structure of \<open>w0\<close>. A handler may fail as \<open>SendOutput\<close> may, having done no more.
\<close>

fun ends_or :: "('s \<Rightarrow> bool) \<Rightarrow> ('a \<Rightarrow> 's \<Rightarrow> bool) \<Rightarrow> ('a, 's) run \<Rightarrow> bool" where
  "ends_or S P (Ret x s) = P x s"
| "ends_or S P (Throw e s) = (own_failure e \<and> S s)"
| "ends_or S P Diverge = False"

definition polite ::
  "('e, 'u) world \<Rightarrow> ('e, 'u) user_code \<Rightarrow> (nat \<Rightarrow> 'e option \<Rightarrow> 'u \<Rightarrow> 'u) \<Rightarrow> (nat \<Rightarrow> 'u \<Rightarrow> 'u) \<Rightarrow> bool" where
  "polite w0 U hu fu \<longleftrightarrow> (\<forall>w. same_shells w0 w \<and> director_ok w \<longrightarrow>
     (\<forall>h ev. ends_or (schedules w) (\<lambda>_ w'. schedules w w' \<and> userState w' = hu h ev (userState w)) (u_handler U h ev w)) \<and>
     (\<forall>a. ends_or (schedules w) (\<lambda>_ w'. schedules w w' \<and> userState w' = fu a (userState w)) (u_fire U a w)))"

lemma ends_or_ends: "ends_or S P r \<Longrightarrow> ends own_failure P r"
  by (cases r) simp_all

lemma schedules_Some:
  assumes "schedules w w'" and "accessors w a = Some x"
  shows "\<exists>x'. accessors w' a = Some x' \<and> strip x' = strip x"
proof -
  have "map_option strip (accessors w' a) = Some (strip x)" using assms by (simp add: schedules_def)
  then show ?thesis by (cases "accessors w' a") auto
qed

lemma schedules_None: "schedules w w' \<Longrightarrow> accessors w' a = None \<longleftrightarrow> accessors w a = None"
  unfolding schedules_def by (metis map_option_is_None)

lemma strip_parts:
  assumes "strip x' = strip x"
  shows "a_kind x' = a_kind x" "m_parent x' = m_parent x" "m_inputPorts x' = m_inputPorts x"
    "m_orderedInputPorts x' = m_orderedInputPorts x" "idle x' = idle x" "m_priority x' = m_priority x"
proof -
  show "a_kind x' = a_kind x" "m_parent x' = m_parent x" "m_inputPorts x' = m_inputPorts x"
    "m_orderedInputPorts x' = m_orderedInputPorts x" "m_priority x' = m_priority x"
    using assms unfolding strip_def by (cases x; cases x'; simp)+
  show "idle x' = idle x" using assms unfolding strip_def idle_def by (cases x; cases x'; simp)
qed

lemma schedules_same:
  assumes "schedules w w'"
  shows "queue_of w' = queue_of w" "requested w' = requested w" "same_shells w w'" "handlers_now w' = handlers_now w"
proof -
  have same: "queue_of w' a = queue_of w a \<and> requested w' a = requested w a \<and> handlers_now w' a = handlers_now w a \<and>
      map_option idle (accessors w' a) = map_option idle (accessors w a)" for a
  proof (cases "accessors w a")
    case None
    then have "accessors w' a = None" using schedules_None[OF assms] by blast
    with None show ?thesis by (simp add: queue_of_def requested_def handlers_now_def fun_eq_iff)
  next
    case (Some x)
    then obtain x' where x': "accessors w' a = Some x'" "strip x' = strip x" using schedules_Some[OF assms] by blast
    from strip_parts(1,5)[OF x'(2)] show ?thesis
      by (simp add: queue_of_def requested_def handlers_now_def fun_eq_iff Some x'(1))
  qed
  then show "queue_of w' = queue_of w" "requested w' = requested w" "same_shells w w'" "handlers_now w' = handlers_now w"
    by (simp_all add: fun_eq_iff same_shells_def)
qed

lemma schedules_refl: "director_ok w \<Longrightarrow> schedules w w"
  by (simp add: schedules_def)

lemma schedules_trans: "schedules w w' \<Longrightarrow> schedules w' w'' \<Longrightarrow> schedules w w''"
  unfolding schedules_def by (simp add: subset_iff)

lemma entries_schedules: "schedules w w' \<Longrightarrow> entries A w' \<le> entries A w"
  using schedules_same(1)[of w w'] card_mono[of "reaction_ids w" "reaction_ids w'"]
  by (simp add: entries_def schedules_def)

lemma reactions_ok_schedules:
  assumes ok: "reactions_ok_but X R w" and s: "schedules w w'"
  shows "reactions_ok_but X R w'"
proof -
  note same = schedules_same[OF s]
  have d: "director_ok w'" using s by (simp add: schedules_def)
  have "announced w' a" if "a \<notin> X" for a
    by (rule announced_mono[of w a w']) (use ok that same in \<open>simp_all add: reactions_ok_but_def\<close>)
  moreover have "request_answered w' a" if "a \<notin> R" for a
    by (rule request_answered_mono[of w a w']) (use ok s that same in \<open>simp_all add: reactions_ok_but_def schedules_def\<close>)
  moreover have "queues_ok w'"
    unfolding queues_ok_def same(1) same_shells_priority[OF same(3)]
  proof (intro allI impI)
    fix a x' c assume x': "accessors w' a = Some x' \<and> a_kind x' = Composite c"
    then have "accessors w a \<noteq> None" using schedules_None[OF s, of a] by simp
    then obtain x where x: "accessors w a = Some x" by blast
    obtain z where z: "accessors w' a = Some z" "strip z = strip x" using schedules_Some[OF s x] by blast
    have k: "a_kind x = Composite c" using strip_parts(1)[OF z(2)] z(1) x' by simp
    have q: "upq_ok (accessor_priority w) (m_childEventQueue c)"
        "\<And>b. b \<in> queue_of w a \<Longrightarrow> \<exists>y. accessors w b = Some y \<and> m_parent y = Some a"
      using ok x k unfolding reactions_ok_but_def queues_ok_def by blast+
    have "\<exists>y. accessors w' b = Some y \<and> m_parent y = Some a" if b: "b \<in> queue_of w a" for b
    proof -
      obtain y where y: "accessors w b = Some y" "m_parent y = Some a" using q(2)[OF b] by blast
      obtain y' where y': "accessors w' b = Some y'" "strip y' = strip y" using schedules_Some[OF s y(1)] by blast
      then show ?thesis using strip_parts(2)[OF y'(2)] y(2) by simp
    qed
    then show "upq_ok (accessor_priority w) (m_childEventQueue c) \<and>
        (\<forall>b\<in>queue_of w a. \<exists>y. accessors w' b = Some y \<and> m_parent y = Some a)" using q(1) by blast
  qed
  ultimately show ?thesis using d by (simp add: reactions_ok_but_def)
qed

section \<open>One input port\<close>

lemma handler_loop_ok:
  fixes w :: "('e, 'u) world"
  assumes U: "polite w0 U hu fu"
  shows "same_shells w0 w \<Longrightarrow> director_ok w \<Longrightarrow> handlers_now w a name = Some hs0 \<Longrightarrow>
    ends own_failure (\<lambda>_ w'. schedules w w' \<and> userState w' = fold (\<lambda>h. hu h ev) hs (userState w))
      (handler_loop U a name hs0 ev i hs w)"
proof (induction hs arbitrary: w i)
  case Nil
  then show ?case by (simp add: schedules_refl)
next
  case (Cons h hs)
  have first: "ends_or (schedules w) (\<lambda>_ w'. schedules w w' \<and> userState w' = hu h ev (userState w)) (u_handler U h ev w)"
    using U Cons.prems(1,2) unfolding polite_def by blast
  show ?case
  proof (cases "u_handler U h ev w")
    case (Ret u w1)
    then have w1: "schedules w w1" "userState w1 = hu h ev (userState w)" using first by simp_all
    note same = schedules_same[OF w1(1)]
    have "ends own_failure (\<lambda>_ w'. schedules w1 w' \<and> userState w' = fold (\<lambda>h. hu h ev) hs (userState w1))
        (handler_loop U a name hs0 ev (Suc i) hs w1)"
    proof (rule Cons.IH)
      show "same_shells w0 w1" using same_shells_trans[OF Cons.prems(1) same(3)] .
      show "director_ok w1" using w1(1) by (simp add: schedules_def)
      show "handlers_now w1 a name = Some hs0" using Cons.prems(3) same(4) by simp
    qed
    then have "ends own_failure (\<lambda>_ w'. schedules w w' \<and> userState w' = fold (\<lambda>h. hu h ev) (h # hs) (userState w))
        (handler_loop U a name hs0 ev (Suc i) hs w1)"
      by (rule ends_mono) (use w1 schedules_trans[OF w1(1)] in auto)
    then show ?thesis using Ret Cons.prems(3) same(4) by simp
  next
    case (Throw e w1)
    with first have e: "own_failure e" and w1: "schedules w w1" by simp_all
    have "handlers_now w1 a name = Some hs0" using Cons.prems(3) schedules_same(4)[OF w1] by simp
    with e Throw show ?thesis by simp
  next
    case Diverge
    with first show ?thesis by simp
  qed
qed

text \<open>
  An atomic accessor that is ready to react: its input ports are its own and have nobody to pass
  events on to, each has the handlers that \<open>hs\<close> says, and its parent is below a host.
\<close>

definition ready :: "nat \<Rightarrow> (nat \<Rightarrow> nat list) \<Rightarrow> ('e, 'u) world \<Rightarrow> nat \<Rightarrow> bool" where
  "ready levels hs w a \<longleftrightarrow> (\<exists>x d. accessors w a = Some x \<and> a_kind x = Atomic d \<and> distinct (GetInputPorts x) \<and>
     (\<forall>p \<in> set (GetInputPorts x). \<exists>pt. ports w p = Some pt \<and> p_owner pt = a \<and> p_kind pt = InputPort \<and>
        m_destinations pt = [] \<and> GetInputPort (p_name pt) x = Inr p \<and> map_of (m_inputHandlers d) (p_name pt) = Some (hs p)) \<and>
     (\<forall>q qt. ports w q = Some qt \<and> p_owner qt = a \<and> p_kind qt = InputPort \<longrightarrow> q \<in> set (GetInputPorts x)) \<and>
     (\<forall>g. m_parent x = Some g \<longrightarrow> hosted w levels g))"

lemma wiring_name: "wiring qt' = wiring qt \<Longrightarrow> p_name qt' = p_name qt"
  unfolding wiring_def by (cases qt; cases qt'; simp)

lemma idle_atomic:
  assumes "idle x' = idle x" and "a_kind x = Atomic d"
  shows "a_kind x' = Atomic d" "m_inputPorts x' = m_inputPorts x" "GetInputPorts x' = GetInputPorts x"
    "GetInputPort name x' = GetInputPort name x"
proof -
  have "idle_kind (a_kind x') = idle_kind (a_kind x)" "m_inputPorts x' = m_inputPorts x"
      "m_orderedInputPorts x' = m_orderedInputPorts x"
    using assms unfolding idle_def by (cases x; cases x'; simp)+
  then show "a_kind x' = Atomic d" "m_inputPorts x' = m_inputPorts x" "GetInputPorts x' = GetInputPorts x"
      "GetInputPort name x' = GetInputPort name x"
    using assms(2) by (cases "a_kind x'"; simp add: GetInputPorts_def GetInputPort_def)+
qed

lemma ready_cong:
  assumes s: "same_wiring w w'" and r: "ready levels hs w a"
  shows "ready levels hs w' a"
proof -
  have shells: "same_shells w w'" using s by (simp add: same_wiring_def)
  obtain x d where x: "accessors w a = Some x" "a_kind x = Atomic d" "distinct (GetInputPorts x)"
      "\<forall>p \<in> set (GetInputPorts x). \<exists>pt. ports w p = Some pt \<and> p_owner pt = a \<and> p_kind pt = InputPort \<and>
        m_destinations pt = [] \<and> GetInputPort (p_name pt) x = Inr p \<and> map_of (m_inputHandlers d) (p_name pt) = Some (hs p)"
      "\<forall>q qt. ports w q = Some qt \<and> p_owner qt = a \<and> p_kind qt = InputPort \<longrightarrow> q \<in> set (GetInputPorts x)"
      "\<forall>g. m_parent x = Some g \<longrightarrow> hosted w levels g" using r unfolding ready_def by blast
  obtain x' where x': "accessors w' a = Some x'" "idle x' = idle x" using same_shells_Some[OF shells x(1)] by blast
  note k = idle_atomic[OF x'(2) x(2)]
  have "\<exists>pt. ports w' p = Some pt \<and> p_owner pt = a \<and> p_kind pt = InputPort \<and> m_destinations pt = [] \<and>
      GetInputPort (p_name pt) x' = Inr p \<and> map_of (m_inputHandlers d) (p_name pt) = Some (hs p)"
    if p: "p \<in> set (GetInputPorts x)" for p
  proof -
    obtain pt where pt: "ports w p = Some pt" "p_owner pt = a" "p_kind pt = InputPort" "m_destinations pt = []"
        "GetInputPort (p_name pt) x = Inr p" "map_of (m_inputHandlers d) (p_name pt) = Some (hs p)" using x(4) p by blast
    obtain pt' where "ports w' p = Some pt'" "wiring pt' = wiring pt" using same_wiring_Some[OF s pt(1)] by blast
    then show ?thesis using pt wiring_parts[of pt' pt] wiring_name[of pt' pt] k(4) by simp
  qed
  moreover have "q \<in> set (GetInputPorts x)" if q: "ports w' q = Some qt'" "p_owner qt' = a" "p_kind qt' = InputPort" for q qt'
  proof -
    have "ports w q \<noteq> None" using q same_wiring_None[OF s, of q] by simp
    then obtain qt where qt: "ports w q = Some qt" by blast
    then have "wiring qt' = wiring qt" using same_wiring_Some[OF s qt] q(1) by auto
    from wiring_parts(2,3)[OF this] show ?thesis using x(5) qt q by simp
  qed
  moreover have "hosted w' levels g" if "m_parent x' = Some g" for g
    using x(6) that idle_parts(1)[OF x'(2)] hosted_cong[OF shells] by simp
  ultimately show ?thesis unfolding ready_def
    using x'(1) k(1) x(3) by (intro exI[of _ x'] exI[of _ d]) (simp add: k(3))
qed

definition handled :: "'e port \<Rightarrow> 'e port" where
  "handled pt = (if IsWaitingForInputHandler pt then DequeueLatestInput pt else pt)"

lemma wiring_handled [simp]: "wiring (handled pt) = wiring pt"
  by (simp add: handled_def wiring_def DequeueLatestInput_def Let_def)

text \<open>What the handlers of a port do to the user's state.\<close>

definition attend :: "(nat \<Rightarrow> 'e option \<Rightarrow> 'u \<Rightarrow> 'u) \<Rightarrow> (nat \<Rightarrow> nat list) \<Rightarrow> 'e port_store \<Rightarrow> nat \<Rightarrow> 'u \<Rightarrow> 'u" where
  "attend hu hs S p u = (case S p of
     None \<Rightarrow> u
   | Some pt \<Rightarrow> if IsWaitingForInputHandler pt then fold (\<lambda>h. hu h (GetLatestInput pt)) (hs p) u else u)"

lemma inputs_alert_schedules:
  assumes i: "inputs_alert_but Y w" and s: "schedules w w'"
  shows "inputs_alert_but Y w'"
  unfolding inputs_alert_but_def
proof (intro allI impI)
  fix q qt x' g
  assume h: "q \<notin> Y \<and> ports w' q = Some qt \<and> accessors w' (p_owner qt) = Some x' \<and> takes qt x' \<and>
    m_waitingForInputHandler qt \<and> m_parent x' = Some g"
  then have "accessors w (p_owner qt) \<noteq> None" using schedules_None[OF s, of "p_owner qt"] by simp
  then obtain x where x: "accessors w (p_owner qt) = Some x" by blast
  obtain z where z: "accessors w' (p_owner qt) = Some z" "strip z = strip x" using schedules_Some[OF s x] by blast
  then have "takes qt x" "m_parent x = Some g" using h strip_parts(1,2)[OF z(2)] by (simp_all add: takes_def)
  moreover have "ports w q = Some qt" using h s by (simp add: schedules_def)
  ultimately have "p_owner qt \<in> queue_of w g" using i h x unfolding inputs_alert_but_def by blast
  then show "p_owner qt \<in> queue_of w' g" using schedules_same(1)[OF s] by simp
qed

text \<open>What a reaction may change: input queues, and more accessors asking for a reaction.\<close>

definition carries :: "('e, 'u) world \<Rightarrow> ('e, 'u) world \<Rightarrow> bool" where
  "carries w w' \<longleftrightarrow> same_wiring w w' \<and> (\<forall>a. queue_of w a \<subseteq> queue_of w' a) \<and>
     (\<forall>a. requested w a \<longrightarrow> requested w' a) \<and> (\<forall>a. reaction_scheduled w a \<longrightarrow> reaction_scheduled w' a)"

lemma carries_refl: "carries w w"
  by (simp add: carries_def same_wiring_def same_shells_def)

lemma carries_trans: "carries w w' \<Longrightarrow> carries w' w'' \<Longrightarrow> carries w w''"
  unfolding carries_def by (meson order_trans same_wiring_trans)

lemma carries_schedules: "schedules w w' \<Longrightarrow> carries w w'"
  using schedules_same[of w w'] by (simp add: carries_def same_wiring_def schedules_def)

lemma carries_wakes: "wakes w w' \<Longrightarrow> ports w' = ports w \<Longrightarrow> carries w w'"
  by (simp add: carries_def same_wiring_def wakes_def)

lemma inputs_alert_carries:
  assumes i: "inputs_alert_but Y w" and s: "carries w w'"
    and kept: "\<And>q qt x g. q \<notin> Z \<Longrightarrow> ports w' q = Some qt \<Longrightarrow> accessors w (p_owner qt) = Some x \<Longrightarrow> takes qt x \<Longrightarrow>
      m_waitingForInputHandler qt \<Longrightarrow> m_parent x = Some g \<Longrightarrow>
      q \<notin> Y \<and> ports w q = Some qt \<or> p_owner qt \<in> queue_of w' g"
  shows "inputs_alert_but Z w'"
  unfolding inputs_alert_but_def
proof (intro allI impI)
  fix q qt x' g
  assume h: "q \<notin> Z \<and> ports w' q = Some qt \<and> accessors w' (p_owner qt) = Some x' \<and>
     takes qt x' \<and> m_waitingForInputHandler qt \<and> m_parent x' = Some g"
  have shells: "same_shells w w'" using s by (simp add: carries_def same_wiring_def)
  then have "accessors w (p_owner qt) \<noteq> None" using h same_shells_None[OF shells, of "p_owner qt"] by simp
  then obtain x where x: "accessors w (p_owner qt) = Some x" by blast
  then obtain z where z: "accessors w' (p_owner qt) = Some z" "idle z = idle x" using same_shells_Some[OF shells] by blast
  then have t: "takes qt x" "m_parent x = Some g"
    using h idle_parts(1,6)[OF z(2)] by (simp_all add: takes_def del: IsComposite.simps)
  from kept[OF _ _ x t(1) _ t(2)] h consider "q \<notin> Y" "ports w q = Some qt" | "p_owner qt \<in> queue_of w' g" by blast
  then show "p_owner qt \<in> queue_of w' g"
  proof cases
    case 1
    then have "p_owner qt \<in> queue_of w g" using i h x t unfolding inputs_alert_but_def by blast
    then show ?thesis using s unfolding carries_def by blast
  qed
qed

lemma reactions_ok_more: "reactions_ok_but X R w \<Longrightarrow> X \<subseteq> X' \<Longrightarrow> reactions_ok_but X' R w"
  unfolding reactions_ok_but_def by blast

text \<open>After its handlers an input is removed; if another waits, the accessor asks for a reaction.\<close>

lemma request_next:
  fixes w :: "('e, 'u) world"
  assumes x: "accessors w a = Some x" and h: "\<And>g. m_parent x = Some g \<Longrightarrow> hosted w levels g"
    and ok: "reactions_ok_but X R w" and pt: "ports w p = Some pt" "m_destinations pt = []" and n: "0 < n"
  shows "ends own_failure (\<lambda>_ w'. reactions_ok_but X R w' \<and> wakes w w' \<and> ports w' = ports w \<and>
      (\<forall>g. m_parent x = Some g \<longrightarrow> a \<in> queue_of w' g) \<and> entries A w' \<le> entries A w + Suc levels)
    (run_bind (with_accessor a (\<lambda>x w. case m_parent x of None \<Rightarrow> Ret () w
        | Some g \<Rightarrow> ScheduleReaction levels g a (GetPriority x) w) w) (\<lambda>_. SendData levels n p out))"
proof -
  have send: "SendData levels n p out w' = Ret () w'" if "ports w' = ports w" for w' :: "('e, 'u) world"
    using that pt n by (cases n) simp_all
  show ?thesis
  proof (cases "m_parent x")
    case None
    then show ?thesis using x ok send[of w] by (simp add: with_accessor_def wakes_refl)
  next
    case (Some g)
    have "reactions_ok_but (insert a X) R w" using reactions_ok_more[OF ok] by blast
    from ScheduleReaction_wakes[OF h[OF Some] x Some this, where priority = "GetPriority x" and A = A]
    have "ends own_failure (\<lambda>_ w'. reactions_ok_but X R w' \<and> wakes w w' \<and> ports w' = ports w \<and>
        (\<forall>g. m_parent x = Some g \<longrightarrow> a \<in> queue_of w' g) \<and> entries A w' \<le> entries A w + Suc levels)
      (run_bind (ScheduleReaction levels g a (GetPriority x) w) (\<lambda>_. SendData levels n p out))"
      by (rule ends_bind) (use send Some in auto)
    then show ?thesis using x Some by (simp add: with_accessor_def)
  qed
qed

lemma dequeue_carries:
  assumes "ports w p = Some pt"
  shows "carries w (w\<lparr>ports := (ports w)(p \<mapsto> DequeueLatestInput pt)\<rparr>)"
proof -
  have "wiring (DequeueLatestInput pt) = wiring pt" by (simp add: wiring_def DequeueLatestInput_def Let_def)
  then show ?thesis using assms wakes_ports[of w] by (simp add: carries_def same_wiring_def wakes_def)
qed

lemma ready_port:
  assumes "ready levels hs w a" and "accessors w a = Some x" and "p \<in> set (GetInputPorts x)"
  shows "\<exists>pt d. ports w p = Some pt \<and> p_owner pt = a \<and> p_kind pt = InputPort \<and> m_destinations pt = [] \<and>
    a_kind x = Atomic d \<and> GetInputPort (p_name pt) x = Inr p \<and> map_of (m_inputHandlers d) (p_name pt) = Some (hs p)"
proof -
  obtain y d where "accessors w a = Some y" "a_kind y = Atomic d"
      "\<forall>p \<in> set (GetInputPorts y). \<exists>pt. ports w p = Some pt \<and> p_owner pt = a \<and> p_kind pt = InputPort \<and>
        m_destinations pt = [] \<and> GetInputPort (p_name pt) y = Inr p \<and> map_of (m_inputHandlers d) (p_name pt) = Some (hs p)"
    using assms(1) unfolding ready_def by blast
  then show ?thesis using assms(2,3) by auto
qed

lemma ready_hosted: "ready levels hs w a \<Longrightarrow> accessors w a = Some x \<Longrightarrow> m_parent x = Some g \<Longrightarrow> hosted w levels g"
  unfolding ready_def by (elim exE conjE) simp

lemma invoke_ok:
  fixes w :: "('e, 'u) world"
  assumes U: "polite w0 U hu fu" and s: "same_shells w0 w" "director_ok w" and r: "ready levels hs w a"
    and x: "accessors w a = Some x" "p \<in> set (GetInputPorts x)" and pt: "ports w p = Some pt"
  shows "ends own_failure (\<lambda>_ w'. schedules w w' \<and> userState w' = fold (\<lambda>h. hu h (GetLatestInput pt)) (hs p) (userState w))
    (InvokeInputHandlers U a (p_name pt) w)"
proof -
  obtain d where d: "a_kind x = Atomic d" "GetInputPort (p_name pt) x = Inr p"
      "map_of (m_inputHandlers d) (p_name pt) = Some (hs p)" using ready_port[OF r x] pt by auto
  have now: "handlers_now w a (p_name pt) = Some (hs p)" using x d by (simp add: handlers_now_def)
  then show ?thesis
    using handler_loop_ok[OF U s now, where ev = "GetLatestInput pt" and i = 0] x(1) d(2) pt
    by (simp add: InvokeInputHandlers_def Accessor_GetLatestInput_def with_accessor_def)
qed

lemma process_port_ok:
  fixes w :: "('e, 'u) world"
  assumes U: "polite w0 U hu fu" and s: "same_shells w0 w" and r: "ready levels hs w a"
    and x: "accessors w a = Some x" and p: "p \<in> set (GetInputPorts x)"
    and ok: "reactions_ok_but X R w" and al: "inputs_alert_but Y w" and n: "0 < n"
  shows "ends own_failure (\<lambda>_ w'. reactions_ok_but X R w' \<and> inputs_alert_but (Y - {p}) w' \<and> carries w w' \<and>
      ports w' = (ports w)(p := map_option handled (ports w p)) \<and>
      userState w' = attend hu hs (ports w) p (userState w) \<and>
      entries A w' \<le> entries A w + (if \<exists>pt. ports w p = Some pt \<and> IsWaitingForInputHandler pt then Suc levels else 0))
    (process_port U levels n a p w)" (is "ends _ (\<lambda>_. ?done) _")
proof -
  obtain pt where pt: "ports w p = Some pt" "p_owner pt = a" "m_destinations pt = []" using ready_port[OF r x p] by blast
  have dir: "director_ok w" using ok by (simp add: reactions_ok_but_def)
  show ?thesis
  proof (cases "IsWaitingForInputHandler pt")
    case False
    then have "inputs_alert_but (Y - {p}) w"
      using pt(1) by (intro inputs_alert_carries[OF al carries_refl]) (auto simp: IsWaitingForInputHandler_def)
    moreover have "(ports w)(p := map_option handled (ports w p)) = ports w"
      using False pt(1) by (simp add: handled_def fun_upd_idem_iff)
    ultimately show ?thesis
      using False pt(1) ok by (simp add: process_port_def with_port_def attend_def carries_refl)
  next
    case True
    let ?pt1 = "DequeueLatestInput pt"
    let ?S = "(ports w)(p := map_option handled (ports w p))"
    have hd: "handled pt = ?pt1" using True by (simp add: handled_def)
    then have S: "?S = (ports w)(p \<mapsto> ?pt1)" using pt(1) by simp
    let ?next = "\<lambda>w. with_port p (\<lambda>pt w.
       let pt1 = DequeueLatestInput pt; w1 = w\<lparr>ports := (ports w)(p \<mapsto> pt1)\<rparr>
       in if \<not> IsWaitingForInputHandler pt1 then Ret () w1
          else run_bind (with_accessor a (\<lambda>x w. case m_parent x of None \<Rightarrow> Ret () w
              | Some g \<Rightarrow> ScheduleReaction levels g a (GetPriority x) w) w1)
            (\<lambda>_. SendData levels n p (ShareLatestInput pt1))) w"
    have "ends own_failure (\<lambda>_. ?done) (run_bind (InvokeInputHandlers U a (p_name pt) w) (\<lambda>_. ?next))"
    proof (rule ends_bind[OF invoke_ok[OF U s dir r x p pt(1)]])
      fix u :: unit and w1 :: "('e, 'u) world"
      assume "schedules w w1 \<and> userState w1 = fold (\<lambda>h. hu h (GetLatestInput pt)) (hs p) (userState w)"
      then have sc: "schedules w w1" and us: "userState w1 = attend hu hs (ports w) p (userState w)"
        using True pt(1) by (simp_all add: attend_def)
      have same: "ports w1 = ports w" using sc by (simp add: schedules_def)
      define w2 where "w2 = w1\<lparr>ports := ?S\<rparr>"
      have w2: "ports w2 = ?S" "ports w2 p = Some ?pt1" "userState w2 = userState w1"
        using pt(1) by (simp_all add: w2_def hd)
      have dest: "m_destinations ?pt1 = []" using pt(3) by (simp add: DequeueLatestInput_def Let_def)
      have ad: "carries w w2"
        using carries_trans[OF carries_schedules[OF sc] dequeue_carries[of w1 p pt]] pt(1)
        by (simp add: w2_def hd same)
      have ok2: "reactions_ok_but X R w2" unfolding w2_def using reactions_ok_schedules[OF ok sc] by simp
      have q2: "queue_of w2 = queue_of w" using schedules_same(1)[OF sc] by (simp add: w2_def queue_of_def fun_eq_iff)
      have e2: "entries A w2 \<le> entries A w" using entries_schedules[OF sc, of A] entries_same[of w2 w1 A] by (simp add: w2_def queue_of_def fun_eq_iff)
      obtain x2 where x2: "accessors w2 a = Some x2" "strip x2 = strip x"
        using schedules_Some[OF sc x] by (auto simp: w2_def)
      have par: "m_parent x2 = m_parent x" using strip_parts(2)[OF x2(2)] .
      have fin: "?done w'" if wk: "carries w w'" and ok': "reactions_ok_but X R w'" and S': "ports w' = ?S"
          and q: "\<And>g. IsWaitingForInputHandler ?pt1 \<Longrightarrow> m_parent x = Some g \<Longrightarrow> a \<in> queue_of w' g"
          and u: "userState w' = userState w2" and e: "entries A w' \<le> entries A w2 + Suc levels" for w' :: "('e, 'u) world"
      proof -
        have own: "p_owner ?pt1 = a" using pt(2) by (simp add: DequeueLatestInput_def Let_def)
        have "inputs_alert_but (Y - {p}) w'"
        proof (rule inputs_alert_carries[OF al wk])
          fix q qt y g
          assume h: "q \<notin> Y - {p}" "ports w' q = Some qt" "accessors w (p_owner qt) = Some y" "takes qt y"
            "m_waitingForInputHandler qt" "m_parent y = Some g"
          show "q \<notin> Y \<and> ports w q = Some qt \<or> p_owner qt \<in> queue_of w' g"
          proof (cases "q = p")
            case True
            then have "qt = ?pt1" using h(2) S' S by simp
            then show ?thesis using h(3,5,6) own x q
              by (simp add: IsWaitingForInputHandler_def)
          next
            case False
            then show ?thesis using h(1,2) S' S by simp
          qed
        qed
        then show ?thesis using ok' wk S' u us w2(3) e e2 True pt(1) by simp
      qed
      show "ends own_failure (\<lambda>_. ?done) (?next w1)"
      proof (cases "IsWaitingForInputHandler ?pt1")
        case False
        have "?next w1 = Ret () w2" using False pt(1) by (simp add: with_port_def same w2_def hd Let_def)
        moreover have "?done w2" by (rule fin[OF ad ok2 w2(1)]) (use False in simp_all)
        ultimately show ?thesis by simp
      next
        case True
        have "?next w1 = run_bind (with_accessor a (\<lambda>x w. case m_parent x of None \<Rightarrow> Ret () w
              | Some g \<Rightarrow> ScheduleReaction levels g a (GetPriority x) w) w2) (\<lambda>_. SendData levels n p (ShareLatestInput ?pt1))"
          using True pt(1) by (simp add: with_port_def same w2_def hd Let_def)
        moreover have "hosted w2 levels g" if "m_parent x2 = Some g" for g
          using ready_hosted[OF r x] that par hosted_cong[of w w2] ad by (simp add: carries_def same_wiring_def)
        note req = request_next[OF x2(1) this ok2 w2(2) dest n, where A = A and out = "ShareLatestInput ?pt1"]
        have "ends own_failure (\<lambda>_. ?done) (run_bind (with_accessor a (\<lambda>x w. case m_parent x of None \<Rightarrow> Ret () w
              | Some g \<Rightarrow> ScheduleReaction levels g a (GetPriority x) w) w2) (\<lambda>_. SendData levels n p (ShareLatestInput ?pt1)))"
        proof (rule ends_mono[OF req])
          fix v :: unit and w' :: "('e, 'u) world"
          assume w': "reactions_ok_but X R w' \<and> wakes w2 w' \<and> ports w' = ports w2 \<and>
            (\<forall>g. m_parent x2 = Some g \<longrightarrow> a \<in> queue_of w' g) \<and> entries A w' \<le> entries A w2 + Suc levels"
          show "?done w'"
          proof (rule fin)
            show "carries w w'" using carries_trans[OF ad carries_wakes[of w2 w']] w' by blast
            show "userState w' = userState w2" using w' by (simp add: wakes_def)
          qed (use w' w2(1) par in simp_all)
        qed
        ultimately show ?thesis by simp
      qed
    qed
    then show ?thesis using True pt(1) by (simp add: process_port_def with_port_def[abs_def])
  qed
qed

section \<open>One atomic accessor\<close>

definition waits :: "'e port_store \<Rightarrow> nat \<Rightarrow> bool" where
  "waits S p \<longleftrightarrow> (\<exists>pt. S p = Some pt \<and> IsWaitingForInputHandler pt)"

definition handle_ports :: "nat list \<Rightarrow> 'e port_store \<Rightarrow> 'e port_store" where
  "handle_ports ps S = (\<lambda>q. if q \<in> set ps then map_option handled (S q) else S q)"

lemma attend_cong: "S' p = S p \<Longrightarrow> attend hu hs S' p u = attend hu hs S p u"
  by (simp add: attend_def)

lemma carries_ready:
  assumes s: "carries w w'" and r: "ready levels hs w a" and x: "accessors w a = Some x"
  shows "ready levels hs w' a \<and> (\<exists>x'. accessors w' a = Some x' \<and> GetInputPorts x' = GetInputPorts x \<and> m_parent x' = m_parent x)"
proof -
  have wire: "same_wiring w w'" using s by (simp add: carries_def)
  then have shells: "same_shells w w'" by (simp add: same_wiring_def)
  obtain d where d: "a_kind x = Atomic d" using r x unfolding ready_def by auto
  obtain x' where x': "accessors w' a = Some x'" "idle x' = idle x" using same_shells_Some[OF shells x] by blast
  from idle_atomic(3)[OF x'(2) d] idle_parts(1)[OF x'(2)] show ?thesis using x'(1) ready_cong[OF wire r] by simp
qed

lemma each_port_ok:
  fixes w :: "('e, 'u) world"
  assumes U: "polite w0 U hu fu" and n: "0 < n"
  shows "same_shells w0 w \<Longrightarrow> ready levels hs w a \<Longrightarrow> accessors w a = Some x \<Longrightarrow> set ps \<subseteq> set (GetInputPorts x) \<Longrightarrow>
    distinct ps \<Longrightarrow> reactions_ok_but X R w \<Longrightarrow> inputs_alert_but Y w \<Longrightarrow>
    ends own_failure (\<lambda>_ w'. reactions_ok_but X R w' \<and> inputs_alert_but (Y - set ps) w' \<and> carries w w' \<and>
      ports w' = handle_ports ps (ports w) \<and> userState w' = fold (attend hu hs (ports w)) ps (userState w) \<and>
      entries A w' \<le> entries A w + Suc levels * length (filter (waits (ports w)) ps))
    (run_each (process_port U levels n a) ps w)"
proof (induction ps arbitrary: w x Y)
  case Nil
  then show ?case by (simp add: carries_refl handle_ports_def)
next
  case (Cons p ps)
  let ?done = "\<lambda>w'. reactions_ok_but X R w' \<and> inputs_alert_but (Y - set (p # ps)) w' \<and> carries w w' \<and>
      ports w' = handle_ports (p # ps) (ports w) \<and> userState w' = fold (attend hu hs (ports w)) (p # ps) (userState w) \<and>
      entries A w' \<le> entries A w + Suc levels * length (filter (waits (ports w)) (p # ps))"
  have p: "p \<in> set (GetInputPorts x)" "p \<notin> set ps" using Cons.prems(4,5) by simp_all
  show ?case
    unfolding run_each.simps
  proof (rule ends_bind[OF process_port_ok[OF U Cons.prems(1,2,3) p(1) Cons.prems(6,7) n, where A = A]])
    fix u :: unit and w1 :: "('e, 'u) world"
    assume w1: "reactions_ok_but X R w1 \<and> inputs_alert_but (Y - {p}) w1 \<and> carries w w1 \<and>
      ports w1 = (ports w)(p := map_option handled (ports w p)) \<and> userState w1 = attend hu hs (ports w) p (userState w) \<and>
      entries A w1 \<le> entries A w + (if \<exists>pt. ports w p = Some pt \<and> IsWaitingForInputHandler pt then Suc levels else 0)"
    then have ad: "carries w w1" by blast
    obtain x1 where x1: "ready levels hs w1 a" "accessors w1 a = Some x1" "GetInputPorts x1 = GetInputPorts x"
      using carries_ready[OF ad Cons.prems(2,3)] by blast
    have "same_shells w w1" using ad by (simp add: carries_def same_wiring_def)
    note s1 = same_shells_trans[OF Cons.prems(1) this]
    have "ends own_failure (\<lambda>_ w'. reactions_ok_but X R w' \<and> inputs_alert_but (Y - {p} - set ps) w' \<and> carries w1 w' \<and>
        ports w' = handle_ports ps (ports w1) \<and> userState w' = fold (attend hu hs (ports w1)) ps (userState w1) \<and>
        entries A w' \<le> entries A w1 + Suc levels * length (filter (waits (ports w1)) ps))
      (run_each (process_port U levels n a) ps w1)"
      by (rule Cons.IH[OF s1 x1(1,2)]) (use x1(3) w1 Cons.prems(4,5) in simp_all)
    then show "ends own_failure (\<lambda>_. ?done) (run_each (process_port U levels n a) ps w1)"
    proof (rule ends_mono)
      fix v :: unit and w' :: "('e, 'u) world"
      assume w': "reactions_ok_but X R w' \<and> inputs_alert_but (Y - {p} - set ps) w' \<and> carries w1 w' \<and>
        ports w' = handle_ports ps (ports w1) \<and> userState w' = fold (attend hu hs (ports w1)) ps (userState w1) \<and>
        entries A w' \<le> entries A w1 + Suc levels * length (filter (waits (ports w1)) ps)"
      have same: "ports w1 q = ports w q" if "q \<in> set ps" for q using w1 p(2) that by auto
      have "fold (attend hu hs (ports w1)) ps (userState w1) = fold (attend hu hs (ports w)) ps (userState w1)"
        by (rule fold_cong) (use same attend_cong in \<open>auto simp: fun_eq_iff attend_def\<close>)
      moreover have "filter (waits (ports w1)) ps = filter (waits (ports w)) ps"
        by (rule filter_cong) (use same in \<open>simp_all add: waits_def\<close>)
      moreover have "handle_ports ps (ports w1) = handle_ports (p # ps) (ports w)"
        using w1 p(2) by (auto simp: handle_ports_def fun_eq_iff)
      moreover have "Y - {p} - set ps = Y - set (p # ps)" by auto
      moreover have "carries w w'" using carries_trans[OF ad] w' by blast
      moreover have "entries A w1 \<le> entries A w + (if waits (ports w) p then Suc levels else 0)" using w1 by (simp add: waits_def)
      ultimately show "?done w'" using w' w1 by (simp add: waits_def split: if_splits)
    qed
  qed
qed

lemma ProcessInputs_ok:
  fixes w :: "('e, 'u) world"
  assumes U: "polite w0 U hu fu" and n: "0 < n" and s: "same_shells w0 w" and r: "ready levels hs w a"
    and x: "accessors w a = Some x" "a_kind x = Atomic d"
    and ok: "reactions_ok_but X R w" and al: "inputs_alert_but (Y \<union> set (GetInputPorts x)) w"
  shows "ends own_failure (\<lambda>_ w'. reactions_ok_but X R w' \<and> inputs_alert_but (Y - set (GetInputPorts x)) w' \<and> carries w w' \<and>
      ports w' = handle_ports (GetInputPorts x) (ports w) \<and>
      userState w' = (if m_hasFireFunction d then fu a else id) (fold (attend hu hs (ports w)) (GetInputPorts x) (userState w)) \<and>
      entries A w' \<le> entries A w + Suc levels * length (filter (waits (ports w)) (GetInputPorts x)))
    (ProcessInputs U levels n a w)" (is "ends _ (\<lambda>_. ?done) _")
proof -
  let ?ps = "GetInputPorts x"
  have "distinct ?ps" using r x(1) unfolding ready_def by auto
  note each = each_port_ok[OF U n s r x(1) subset_refl this ok al, where A = A]
  let ?fire = "with_atomic a (\<lambda>x d w. if m_hasFireFunction d then u_fire U a w else Ret () w)"
  have "ends own_failure (\<lambda>_. ?done) (run_bind (run_each (process_port U levels n a) ?ps w) (\<lambda>_. ?fire))"
  proof (rule ends_bind[OF each])
    fix u :: unit and w1 :: "('e, 'u) world"
    assume w1: "reactions_ok_but X R w1 \<and> inputs_alert_but (Y \<union> set ?ps - set ?ps) w1 \<and> carries w w1 \<and>
      ports w1 = handle_ports ?ps (ports w) \<and> userState w1 = fold (attend hu hs (ports w)) ?ps (userState w) \<and>
      entries A w1 \<le> entries A w + Suc levels * length (filter (waits (ports w)) ?ps)"
    have Y: "Y \<union> set ?ps - set ?ps = Y - set ?ps" by auto
    have shells: "same_shells w w1" using w1 by (simp add: carries_def same_wiring_def)
    obtain x1 where x1: "accessors w1 a = Some x1" "idle x1 = idle x" using same_shells_Some[OF shells x(1)] by blast
    have fire: "?fire w1 = (if m_hasFireFunction d then u_fire U a w1 else Ret () w1)"
      using x1(1) idle_atomic(1)[OF x1(2) x(2)] by (simp add: with_atomic_def with_accessor_def)
    show "ends own_failure (\<lambda>_. ?done) (?fire w1)"
    proof (cases "m_hasFireFunction d")
      case False
      then show ?thesis using fire w1 Y by simp
    next
      case True
      have "director_ok w1" using w1 by (simp add: reactions_ok_but_def)
      with U same_shells_trans[OF s shells]
      have "ends own_failure (\<lambda>_ w'. schedules w1 w' \<and> userState w' = fu a (userState w1)) (u_fire U a w1)"
        unfolding polite_def by (blast intro: ends_or_ends)
      then have "ends own_failure (\<lambda>_. ?done) (u_fire U a w1)"
      proof (rule ends_mono)
        fix v :: unit and w' :: "('e, 'u) world"
        assume w': "schedules w1 w' \<and> userState w' = fu a (userState w1)"
        then have sc: "schedules w1 w'" by blast
        have "entries A w' \<le> entries A w1" by (rule entries_schedules[OF sc])
        moreover have "reactions_ok_but X R w'" using reactions_ok_schedules[OF _ sc] w1 by blast
        moreover have "inputs_alert_but (Y - set ?ps) w'" using inputs_alert_schedules[OF _ sc] w1 Y by simp
        moreover have "carries w w'" using carries_trans[OF _ carries_schedules[OF sc]] w1 by blast
        moreover have "ports w' = ports w1" using sc by (simp add: schedules_def)
        ultimately show "?done w'" using w1 w' True by simp
      qed
      then show ?thesis using fire True by simp
    qed
  qed
  then show ?thesis using x by (simp add: ProcessInputs_def with_atomic_def[abs_def] with_accessor_def cong: if_cong)
qed

text \<open>
  C7. An atomic accessor reacts. Its parent has just taken it out of its queue, so of all waiting
  inputs only the accessor's own may lack a pending reaction. Every input port has an entry of handlers,
  and handlers and \<open>Fire\<close> throw nothing but their own overflow or thread failure and leave the
  structure of the model alone. (\<open>ReactionRounds\<close> shows what another exception does.) Every port of the accessor that
  waits has the event at its front handed to each of its handlers in the order of registration,
  port by port in the order of creation, and that event removed; then \<open>Fire\<close> runs. Afterwards no
  waiting input lacks a reaction: if one of its ports still waits, the accessor is back in the
  queue of its parent. The call ends, and fails only when a time overflows or a thread cannot be
  started.
\<close>

theorem ProcessInputs_handles:
  fixes w :: "('e, 'u) world"
  assumes "polite w U hu fu" and "0 < n" and "ready levels hs w a"
    and "accessors w a = Some x" and "a_kind x = Atomic d"
    and "reactions_ok_but {} R w" and "inputs_alert_but (set (GetInputPorts x)) w"
  shows "ends own_failure
    (\<lambda>_ w'. ports w' = handle_ports (GetInputPorts x) (ports w) \<and>
       userState w' = (if m_hasFireFunction d then fu a else id)
         (fold (attend hu hs (ports w)) (GetInputPorts x) (userState w)) \<and>
       same_shells w w' \<and> reactions_ok_but {} R w' \<and> inputs_alert_but {} w')
    (ProcessInputs U levels n a w)"
proof (rule ends_mono[OF ProcessInputs_ok[OF assms(1,2) same_shells_refl assms(3,4,5,6), where Y = "{}" and A = "{}"]])
  show "inputs_alert_but ({} \<union> set (GetInputPorts x)) w" using assms(7) by simp
qed (simp add: carries_def same_wiring_def)

text \<open>The example: an accessor with two events queued, in a host that runs its reaction.\<close>

definition recorder :: "(nat, nat list) user_code" where
  "recorder = \<lparr>u_initialize = (\<lambda>_. Ret ()), u_fire = (\<lambda>_. Ret ()),
     u_handler = (\<lambda>h ev w. Ret () (w\<lparr>userState := userState w @ [h + the ev]\<rparr>)), u_callback = (\<lambda>_. Ret ())\<rparr>"

definition listener :: accessor where
  "listener = (Accessor_new ''Second'' (Atomic (no_atomic\<lparr>m_inputHandlers := [(''In'', [10, 20])]\<rparr>)))
     \<lparr>m_parent := Some 8, m_initialized := True, m_priority := 3, m_inputPorts := [(''In'', 1)], m_orderedInputPorts := [1]\<rparr>"

definition inbox :: "nat port" where
  "inbox = (Port_new ''In'' 2 InputPort)\<lparr>m_waitingForInputHandler := True, m_inputQueue := [Some 5, Some 7]\<rparr>"

definition busy_host :: "nat unique_priority_queue \<Rightarrow> accessor" where
  "busy_host q = Accessor_new ''Host''
     (Composite ((plain_composite True [2])\<lparr>m_reactionRequested := True, m_childEventQueue := q\<rparr>))"

definition busy :: "nat unique_priority_queue \<Rightarrow> (nat, nat list) world" where
  "busy q = dstate.extend (Director_new (\<lambda>_. Some (1000, 0)) [])
     \<lparr>ports = [1 \<mapsto> inbox], accessors = [2 \<mapsto> listener, 8 \<mapsto> busy_host q], nextPort = 2, userState = []\<rparr>"

lemma busy_simps:
  "ports (busy q) = [1 \<mapsto> inbox]" "userState (busy q) = []"
  "accessors (busy q) = [2 \<mapsto> listener, 8 \<mapsto> busy_host q]"
  by (simp_all add: busy_def dstate.extend_def)

lemma busy_ids: "reaction_ids (busy q) = {}"
  by (simp add: busy_def reaction_ids_def dstate.extend_def Director_new_def Let_def)

lemma busy_host_simps:
  "a_kind (busy_host q) = Composite ((plain_composite True [2])\<lparr>m_reactionRequested := True, m_childEventQueue := q\<rparr>)"
  "m_parent (busy_host q) = None"
  by (simp_all add: busy_host_def Accessor_new_def)

lemma listener_simps:
  "a_kind listener = Atomic (no_atomic\<lparr>m_inputHandlers := [(''In'', [10, 20])]\<rparr>)" "m_parent listener = Some 8"
  "GetInputPorts listener = [1]" "GetInputPort ''In'' listener = Inr 1"
  by (simp_all add: listener_def Accessor_new_def GetInputPorts_def GetInputPort_def)

lemma inbox_simps:
  "p_name inbox = ''In''" "p_owner inbox = 2" "p_kind inbox = InputPort" "m_destinations inbox = []"
  "m_waitingForInputHandler inbox" "m_inputQueue inbox = [Some 5, Some 7]"
  by (simp_all add: inbox_def Port_new_def)

lemma recorder_polite: "polite w0 recorder (\<lambda>h ev u. u @ [h + the ev]) (\<lambda>_ u. u)"
proof -
  have "schedules w (w\<lparr>userState := v\<rparr>)" if "director_ok w" for w :: "(nat, nat list) world" and v
    using that by (simp add: schedules_def director_ok_def reaction_scheduled_def reaction_ids_def)
  then show ?thesis by (simp add: polite_def recorder_def schedules_refl)
qed

lemma busy_ready: "ready 1 (\<lambda>_. [10, 20]) (busy c) 2"
  unfolding ready_def
proof (intro exI conjI allI impI ballI)
  let ?d = "no_atomic\<lparr>m_inputHandlers := [(''In'', [10::nat, 20])]\<rparr>"
  show "accessors (busy c) 2 = Some listener" by (simp add: busy_simps)
  show "a_kind listener = Atomic ?d" by (simp add: listener_simps)
  show "distinct (GetInputPorts listener)" by (simp add: listener_simps)
  show "ports (busy c) p = Some inbox" "p_owner inbox = 2" "p_kind inbox = InputPort" "m_destinations inbox = []"
    "GetInputPort (p_name inbox) listener = Inr p" "map_of (m_inputHandlers ?d) (p_name inbox) = Some [10, 20]"
    if "p \<in> set (GetInputPorts listener)" for p
    using that by (simp_all add: busy_simps listener_simps inbox_simps)
  show "p \<in> set (GetInputPorts listener)" if "ports (busy c) p = Some qt \<and> p_owner qt = 2 \<and> p_kind qt = InputPort" for p qt
    using that by (simp add: busy_simps listener_simps split: if_splits)
  show "hosted (busy c) 1 g" if "m_parent listener = Some g" for g
    using that by (simp add: busy_simps listener_simps busy_host_simps plain_composite_def)
qed

lemma busy_ok:
  assumes q: "upq_ok (accessor_priority (busy q)) q" "set (m_elementsInQueue q) \<subseteq> {2}"
  shows "reactions_ok_but {} {8} (busy q)"
proof -
  have k: "a = 8 \<and> c = (plain_composite True [2])\<lparr>m_reactionRequested := True, m_childEventQueue := q\<rparr>"
    if "accessors (busy q) a = Some x" "a_kind x = Composite c" for a x c
    using that by (auto simp: busy_simps listener_simps busy_host_simps split: if_splits)
  have qs: "queue_of (busy q) a = (if a = 8 then set (m_elementsInQueue q) else {})" for a
    by (simp add: queue_of_def busy_simps listener_simps busy_host_simps)
  have req: "requested (busy q) a = (a = 8)" for a
    by (auto simp: requested_def busy_simps listener_simps busy_host_simps)
  have "queues_ok (busy q)" unfolding queues_ok_def
  proof (intro allI impI conjI ballI)
    fix a x c assume x: "accessors (busy q) a = Some x \<and> a_kind x = Composite c"
    then show "upq_ok (accessor_priority (busy q)) (m_childEventQueue c)" using k q(1) by fastforce
    fix b assume "b \<in> queue_of (busy q) a"
    then have "b = 2" "a = 8" using q(2) qs by (auto split: if_splits)
    then show "\<exists>y. accessors (busy q) b = Some y \<and> m_parent y = Some a" by (simp add: busy_simps listener_simps)
  qed
  moreover have "announced (busy q) a" for a
    using qs[of a] req by (auto simp: announced_def busy_simps busy_host_simps)
  moreover have "request_answered (busy q) a" if "a \<noteq> 8" for a
    using that req by (simp add: request_answered_def)
  moreover have "director_ok (busy q)"
    by (simp add: busy_def director_ok_def queue_wf_def dstate.extend_def Director_new_def Let_def)
  ultimately show ?thesis by (simp add: reactions_ok_but_def)
qed

lemma ProcessInputs_handles_witness:
  "ends own_failure (\<lambda>_ w'. userState w' = [15, 25] \<and> map_option m_inputQueue (ports w' 1) = Some [Some 7] \<and>
     inputs_alert_but {} w')
   (ProcessInputs recorder 1 1 2 (busy upq_new))"
proof (rule ends_mono)
  show "ends own_failure
    (\<lambda>_ w'. ports w' = handle_ports (GetInputPorts listener) (ports (busy upq_new)) \<and>
       userState w' = (if m_hasFireFunction (no_atomic\<lparr>m_inputHandlers := [(''In'', [10, 20])]\<rparr>) then (\<lambda>u. u) else id)
         (fold (attend (\<lambda>h ev u. u @ [h + the ev]) (\<lambda>_. [10, 20]) (ports (busy upq_new))) (GetInputPorts listener)
            (userState (busy upq_new))) \<and>
       same_shells (busy upq_new) w' \<and> reactions_ok_but {} {8} w' \<and> inputs_alert_but {} w')
    (ProcessInputs recorder 1 1 2 (busy upq_new))"
  proof (rule ProcessInputs_handles[OF recorder_polite _ busy_ready])
    show "reactions_ok_but {} {8} (busy upq_new)" by (rule busy_ok) (rule upq_ok_new, simp add: upq_new_def)
    show "inputs_alert_but (set (GetInputPorts listener)) (busy upq_new)"
      by (simp add: inputs_alert_but_def busy_simps listener_simps)
  qed (simp_all add: busy_simps listener_simps)
qed (simp add: busy_simps listener_simps inbox_simps handle_ports_def handled_def attend_def IsWaitingForInputHandler_def
    GetLatestInput_def DequeueLatestInput_def no_atomic_def)

section \<open>Reactions one after the other\<close>

fun react_times :: "('e, 'u) user_code \<Rightarrow> nat \<Rightarrow> nat \<Rightarrow> nat \<Rightarrow> nat \<Rightarrow> (unit, 'e, 'u) op" where
  "react_times U levels n 0 a w = Ret () w"
| "react_times U levels n (Suc k) a w = run_bind (ProcessInputs U levels n a w) (\<lambda>_. react_times U levels n k a)"

text \<open>The events \<open>evs\<close> wait at the ports, none of them null.\<close>

definition stocked :: "(nat \<Rightarrow> 'e list) \<Rightarrow> nat list \<Rightarrow> 'e port_store \<Rightarrow> bool" where
  "stocked evs ps S \<longleftrightarrow> (\<forall>p \<in> set ps. \<exists>pt. S p = Some pt \<and> input_ok pt \<and> m_inputQueue pt = map Some (evs p))"

text \<open>What the handlers do with the \<open>i\<close>-th event of every port that has one.\<close>

definition handle_nth ::
  "(nat \<Rightarrow> 'e option \<Rightarrow> 'u \<Rightarrow> 'u) \<Rightarrow> (nat \<Rightarrow> nat list) \<Rightarrow> (nat \<Rightarrow> 'e list) \<Rightarrow> nat list \<Rightarrow> nat \<Rightarrow> 'u \<Rightarrow> 'u" where
  "handle_nth hu hs evs ps i =
     fold (\<lambda>p. if i < length (evs p) then fold (\<lambda>h. hu h (Some (evs p ! i))) (hs p) else id) ps"

lemma handle_nth_Suc: "handle_nth hu hs evs ps (Suc i) = handle_nth hu hs (\<lambda>p. tl (evs p)) ps i"
  unfolding handle_nth_def by (rule arg_cong2[where f = fold]) (auto simp: fun_eq_iff nth_tl)

lemma input_waits:
  assumes "input_ok pt" and "m_inputQueue pt = map Some es"
  shows "IsWaitingForInputHandler pt = (es \<noteq> [])" and "es \<noteq> [] \<Longrightarrow> GetLatestInput pt = Some (es ! 0)"
    and "input_ok (handled pt)" and "m_inputQueue (handled pt) = map Some (tl es)"
proof -
  show w: "IsWaitingForInputHandler pt = (es \<noteq> [])"
    using assms by (auto simp: input_ok_def IsWaitingForInputHandler_def hd_map)
  show "GetLatestInput pt = Some (es ! 0)" if "es \<noteq> []"
    using that assms(2) by (cases es) (simp_all add: GetLatestInput_def)
  show "input_ok (handled pt)" using input_ok_Dequeue[OF assms(1)] assms(1) by (simp add: handled_def)
  show "m_inputQueue (handled pt) = map Some (tl es)"
    using w assms(2) by (cases es) (simp_all add: handled_def DequeueLatestInput_def Let_def)
qed

lemma stocked_handled: "stocked evs ps S \<Longrightarrow> stocked (\<lambda>p. tl (evs p)) ps (handle_ports ps S)"
  using input_waits(3,4) by (fastforce simp: stocked_def handle_ports_def)

lemma stocked_attend:
  assumes "stocked evs ps S"
  shows "fold (attend hu hs S) ps = handle_nth hu hs evs ps 0"
  unfolding handle_nth_def
proof (rule ext, rule fold_cong)
  fix p assume "p \<in> set ps"
  then obtain pt where pt: "S p = Some pt" "input_ok pt" "m_inputQueue pt = map Some (evs p)"
    using assms unfolding stocked_def by blast
  from input_waits(1,2)[OF pt(2,3)] pt(1)
  show "attend hu hs S p = (if 0 < length (evs p) then fold (\<lambda>h. hu h (Some (evs p ! 0))) (hs p) else id)"
    by (auto simp: attend_def fun_eq_iff)
qed simp_all

lemma inputs_alert_more: "inputs_alert_but Y w \<Longrightarrow> Y \<subseteq> Z \<Longrightarrow> inputs_alert_but Z w"
  unfolding inputs_alert_but_def by blast

lemma react_times_ok:
  fixes w :: "('e, 'u) world"
  assumes U: "polite w0 U hu fu" and n: "0 < n"
  shows "same_shells w0 w \<Longrightarrow> ready levels hs w a \<Longrightarrow> accessors w a = Some x \<Longrightarrow> a_kind x = Atomic d \<Longrightarrow>
    reactions_ok_but X R w \<Longrightarrow> inputs_alert_but (set (GetInputPorts x)) w \<Longrightarrow> stocked evs (GetInputPorts x) (ports w) \<Longrightarrow>
    ends own_failure (\<lambda>_ w'. stocked (\<lambda>p. drop k (evs p)) (GetInputPorts x) (ports w') \<and>
       userState w' = fold (\<lambda>i. (if m_hasFireFunction d then fu a else id) \<circ> handle_nth hu hs evs (GetInputPorts x) i)
         [0..<k] (userState w))
      (react_times U levels n k a w)"
proof (induction k arbitrary: w x evs)
  case 0
  then show ?case by simp
next
  case (Suc k)
  let ?ps = "GetInputPorts x" and ?fire = "if m_hasFireFunction d then fu a else id"
  let ?step = "\<lambda>evs i. ?fire \<circ> handle_nth hu hs evs ?ps i"
  have "inputs_alert_but ({} \<union> set ?ps) w" using Suc.prems(6) by simp
  note first = ProcessInputs_ok[OF U n Suc.prems(1-5) this, where A = "{}"]
  show ?case
    unfolding react_times.simps
  proof (rule ends_bind[OF first])
    fix u :: unit and w1 :: "('e, 'u) world"
    assume w1: "reactions_ok_but X R w1 \<and> inputs_alert_but ({} - set ?ps) w1 \<and> carries w w1 \<and>
      ports w1 = handle_ports ?ps (ports w) \<and> userState w1 = ?fire (fold (attend hu hs (ports w)) ?ps (userState w)) \<and>
      entries {} w1 \<le> entries {} w + Suc levels * length (filter (waits (ports w)) ?ps)"
    then have ad: "carries w w1" by blast
    then have shells: "same_shells w w1" by (simp add: carries_def same_wiring_def)
    obtain x1 where x1: "accessors w1 a = Some x1" "idle x1 = idle x" using same_shells_Some[OF shells Suc.prems(3)] by blast
    note k = idle_atomic(1,3)[OF x1(2) Suc.prems(4)]
    have r1: "ready levels hs w1 a" using carries_ready[OF ad Suc.prems(2,3)] by blast
    have al: "inputs_alert_but (set (GetInputPorts x1)) w1" using w1 inputs_alert_more[of "{} - set ?ps" w1] by blast
    have st: "stocked (\<lambda>p. tl (evs p)) (GetInputPorts x1) (ports w1)"
      using w1 stocked_handled[OF Suc.prems(7)] by (simp add: k(2))
    have rest: "ends own_failure (\<lambda>_ w'. stocked (\<lambda>p. drop k (tl (evs p))) ?ps (ports w') \<and>
        userState w' = fold (?step (\<lambda>p. tl (evs p))) [0..<k] (userState w1))
      (react_times U levels n k a w1)"
      using Suc.IH[OF same_shells_trans[OF Suc.prems(1) shells] r1 x1(1) k(1) _ al st] w1 unfolding k(2) by blast
    have one: "userState w1 = ?step evs 0 (userState w)" using w1 stocked_attend[OF Suc.prems(7), of hu hs] by simp
    have "[0..<Suc k] = 0 # map Suc [0..<k]" by (simp add: upt_conv_Cons map_Suc_upt del: upt_Suc)
    then have "fold (?step evs) [0..<Suc k] (userState w) = fold (?step (\<lambda>p. tl (evs p))) [0..<k] (userState w1)"
      by (simp add: one fold_map comp_def handle_nth_Suc del: upt_Suc)
    with rest show "ends own_failure (\<lambda>_ w'. stocked (\<lambda>p. drop (Suc k) (evs p)) ?ps (ports w') \<and>
        userState w' = fold (?step evs) [0..<Suc k] (userState w)) (react_times U levels n k a w1)"
      by (simp add: drop_Suc del: upt_Suc)
  qed
qed

text \<open>
  C22. Inputs are handled in order. Let the ports of an atomic accessor hold any events, none of
  them null, in the order of arrival, each port with at least an entry of handlers, and let
  handlers and \<open>Fire\<close> throw nothing but the failures of their own calls. If the accessor reacts
  \<open>k\<close> times and nothing new arrives, then its reaction number \<open>i\<close> hands event number \<open>i\<close> of every
  port that has so many to all handlers of the port, in the order of registration, and then calls
  \<open>Fire\<close>; the events after the first \<open>k\<close> are still there, in order. So each event is handled
  exactly once, and none is overtaken.
\<close>

theorem inputs_handled_in_order:
  fixes w :: "('e, 'u) world"
  assumes "polite w U hu fu" and "0 < n" and "ready levels hs w a"
    and "accessors w a = Some x" and "a_kind x = Atomic d"
    and "reactions_ok_but {} R w" and "inputs_alert_but (set (GetInputPorts x)) w"
    and "\<And>p. p \<in> set (GetInputPorts x) \<Longrightarrow>
      \<exists>pt. ports w p = Some pt \<and> input_ok pt \<and> m_inputQueue pt = map Some (evs p)"
  shows "ends own_failure
    (\<lambda>_ w'. (\<forall>p \<in> set (GetInputPorts x). \<exists>pt. ports w' p = Some pt \<and> m_inputQueue pt = map Some (drop k (evs p))) \<and>
       userState w' = fold (\<lambda>i. (if m_hasFireFunction d then fu a else id) \<circ> handle_nth hu hs evs (GetInputPorts x) i)
         [0..<k] (userState w))
    (react_times U levels n k a w)"
proof -
  have "stocked evs (GetInputPorts x) (ports w)" using assms(8) by (simp add: stocked_def)
  then show ?thesis
  proof (rule ends_mono[OF react_times_ok[OF assms(1,2) same_shells_refl assms(3-7), of evs k]], goal_cases)
    case (1 u w')
    then show ?case unfolding stocked_def by (intro conjI) (meson, blast)
  qed
qed

lemma inputs_handled_in_order_witness:
  "ends own_failure (\<lambda>_ w'. userState w' = [15, 25, 17, 27] \<and> map_option m_inputQueue (ports w' 1) = Some [])
   (react_times recorder 1 1 2 2 (busy upq_new))"
proof (rule ends_mono)
  show "ends own_failure
    (\<lambda>_ w'. (\<forall>p \<in> set (GetInputPorts listener). \<exists>pt. ports w' p = Some pt \<and>
         m_inputQueue pt = map Some (drop 2 ((\<lambda>_. [5, 7]) p))) \<and>
       userState w' = fold (\<lambda>i. (if m_hasFireFunction (no_atomic\<lparr>m_inputHandlers := [(''In'', [10, 20])]\<rparr>) then (\<lambda>_ u. u) 2 else id) \<circ>
           handle_nth (\<lambda>h ev u. u @ [h + the ev]) (\<lambda>_. [10, 20]) (\<lambda>_. [5, 7]) (GetInputPorts listener) i)
         [0..<2] (userState (busy upq_new)))
    (react_times recorder 1 1 2 2 (busy upq_new))"
  proof (rule inputs_handled_in_order[OF recorder_polite _ busy_ready])
    show "reactions_ok_but {} {8} (busy upq_new)" by (rule busy_ok) (rule upq_ok_new, simp add: upq_new_def)
    show "inputs_alert_but (set (GetInputPorts listener)) (busy upq_new)"
      by (simp add: inputs_alert_but_def busy_simps listener_simps)
    show "\<exists>pt. ports (busy upq_new) p = Some pt \<and> input_ok pt \<and> m_inputQueue pt = map Some [5, 7]"
      if "p \<in> set (GetInputPorts listener)" for p
      using that by (simp add: busy_simps listener_simps inbox_def input_ok_def Port_new_def)
  qed (simp_all add: busy_simps listener_simps)
qed (auto simp: busy_simps listener_simps handle_nth_def no_atomic_def upt_rec)

end
