(* ===== verification/ReactionFrame.thy ===== *)
theory ReactionFrame
  imports Runtime
begin

text \<open>
  What holds of the director throughout the delivery of an event and a reaction. Of the director
  these use one call only, the scheduling of a reaction for a composite; everything else they
  change is in the accessors and the ports, or is done by user code. So a relation between states
  that is transitive, holds when the director and the user's state stay as they are, and is kept by
  that one call and by user code, is kept by \<open>ScheduleReaction\<close>, \<open>SendData\<close>, \<open>ProcessInputs\<close> and
  \<open>ProcessChildEventQueue\<close>. The locale states this interface.
\<close>

definition composites :: "('e, 'u) world \<Rightarrow> nat set" where
  "composites w = {a. \<exists>x c. accessors w a = Some x \<and> a_kind x = Composite c}"

definition quiet :: "('e, 'u) world \<Rightarrow> ('e, 'u) world \<Rightarrow> bool" where
  "quiet w w' \<longleftrightarrow> dstate.truncate w' = dstate.truncate w \<and> userState w' = userState w \<and> composites w' = composites w"

lemma quiet_refl [simp]: "quiet w w"
  by (simp add: quiet_def)

lemma quiet_ports [simp]: "quiet w (w\<lparr>ports := S\<rparr>)"
  by (simp add: quiet_def dstate.truncate_def composites_def)

lemma composites_accessor:
  assumes "\<And>x. (\<exists>c. a_kind (f x) = Composite c) = (\<exists>c. a_kind x = Composite c)"
  shows "composites (modify_accessor a f w) = composites w"
proof -
  have "(\<exists>x c. accessors (modify_accessor a f w) b = Some x \<and> a_kind x = Composite c) =
      (\<exists>x c. accessors w b = Some x \<and> a_kind x = Composite c)" for b
    using assms[of "the (accessors w b)"] by (cases "accessors w b") (cases "b = a"; simp add: modify_accessor_def)+
  then show ?thesis by (simp add: composites_def)
qed

lemma composites_modify [simp]: "composites (modify_composite a f w) = composites w"
  unfolding modify_composite_def by (rule composites_accessor) (simp split: accessor_kind.split)

lemma quiet_composite [simp]: "quiet w (modify_composite a f w)"
  unfolding quiet_def by (simp add: dstate.truncate_def) (simp add: modify_composite_def modify_accessor_def)

lemma composites_erase [simp]: "composites (erase_handler a name i hs w) = composites w"
  unfolding erase_handler_def modify_atomic_def by (rule composites_accessor) (simp split: accessor_kind.split)

lemma quiet_erase [simp]: "quiet w (erase_handler a name i hs w)"
  unfolding quiet_def
  by (simp add: dstate.truncate_def) (simp add: erase_handler_def modify_atomic_def modify_accessor_def)

definition reactions_keep :: "(('e, 'u) world \<Rightarrow> ('e, 'u) world \<Rightarrow> bool) \<Rightarrow> ('e, 'u) user_code \<Rightarrow> bool" where
  "reactions_keep T U \<longleftrightarrow> (\<forall>w. (\<forall>a. run_prop (T w) (u_fire U a w)) \<and> (\<forall>h ev. run_prop (T w) (u_handler U h ev w)))"

locale reaction_frame =
  fixes T :: "('e, 'u) world \<Rightarrow> ('e, 'u) world \<Rightarrow> bool"
  assumes trans: "T u v \<Longrightarrow> T v w \<Longrightarrow> T u w"
    and calm: "quiet v w \<Longrightarrow> T v w"
    and ask: "a \<in> composites w \<Longrightarrow> run_prop (T w) (ScheduleCallback (ProcessQueueOf a) 0 False p w)"
begin

lemma after: "T v w \<Longrightarrow> run_prop (T w) r \<Longrightarrow> run_prop (T v) r"
  by (auto elim!: run_prop_mono trans)

lemma bind: "run_prop (T w) r \<Longrightarrow> (\<And>x v. run_prop (T v) (f x v)) \<Longrightarrow> run_prop (T w) (run_bind r f)"
  by (cases r) (auto intro: after)

lemma same: "T w w"
  by (rule calm) simp

lemma after_calm: "quiet v w \<Longrightarrow> run_prop (T w) r \<Longrightarrow> run_prop (T v) r"
  using after calm by blast

lemma with_accessor_keeps: "(\<And>x w. run_prop (T w) (f x w)) \<Longrightarrow> run_prop (T w) (with_accessor a f w)"
  by (simp add: with_accessor_def same split: option.split)

lemma with_composite_here:
  "(\<And>x c. a \<in> composites w \<Longrightarrow> run_prop (T w) (f x c w)) \<Longrightarrow> run_prop (T w) (with_composite a f w)"
  by (auto simp: with_composite_def with_accessor_def same composites_def split: accessor_kind.split option.split)

lemma with_composite_keeps: "(\<And>x c w. run_prop (T w) (f x c w)) \<Longrightarrow> run_prop (T w) (with_composite a f w)"
  by (rule with_composite_here)

lemma with_atomic_keeps: "(\<And>x c w. run_prop (T w) (f x c w)) \<Longrightarrow> run_prop (T w) (with_atomic a f w)"
  unfolding with_atomic_def
  by (rule with_accessor_keeps) (simp add: same split: accessor_kind.split)

lemma with_director_here: "run_prop (T w) (f w) \<Longrightarrow> run_prop (T w) (with_director a f w)"
  by (simp add: with_director_def same split: option.split sum.split)

lemma with_director_keeps: "(\<And>w. run_prop (T w) (f w)) \<Longrightarrow> run_prop (T w) (with_director a f w)"
  by (rule with_director_here)

lemma with_port_keeps: "(\<And>x w. run_prop (T w) (f x w)) \<Longrightarrow> run_prop (T w) (with_port a f w)"
  by (simp add: with_port_def same split: option.split)

lemma run_each_keeps: "(\<And>x w. run_prop (T w) (f x w)) \<Longrightarrow> run_prop (T w) (run_each f xs w)"
  by (induction xs arbitrary: w) (auto intro: same bind)

lemma each_child_keeps: "(\<And>x w. run_prop (T w) (f x w)) \<Longrightarrow> run_prop (T w) (each_child f a cs bs w)"
  by (induction bs arbitrary: w) (auto intro!: same bind)

lemmas with_keeps = with_accessor_keeps with_composite_keeps with_atomic_keeps with_director_keeps with_port_keeps
  run_each_keeps each_child_keeps

section \<open>Delivery\<close>

lemma queue_child_keeps: "run_prop (T w) (queue_child a b w)"
  unfolding queue_child_def by (intro with_keeps) (simp add: same calm)

lemma queue_child_composites: "run_prop (\<lambda>w'. T w w' \<and> composites w' = composites w) (queue_child a b w)"
  by (auto simp: queue_child_def with_composite_def with_accessor_def same calm split: accessor_kind.split option.split)

lemma ScheduleReaction_keeps: "run_prop (T w) (ScheduleReaction n a b p w)"
proof (induction n arbitrary: a b p w)
  case (Suc n)
  have requests: "run_prop (T w) (run_bind (queue_child a b (modify_composite a f w)) (\<lambda>_. with_director a (\<lambda>w1.
      run_bind (ScheduleCallback (ProcessQueueOf a) 0 False q w1) (\<lambda>_. Ret ()))))"
    if a: "a \<in> composites w" for f q w
  proof (rule after_calm[of _ "modify_composite a f w"])
    let ?w = "modify_composite a f w"
    have "run_prop (T v) (with_director a (\<lambda>w1. run_bind (ScheduleCallback (ProcessQueueOf a) 0 False q w1) (\<lambda>_. Ret ())) v)"
      if "composites v = composites ?w" for v
      by (rule with_director_here, rule bind[OF ask]) (use that a in \<open>simp_all add: same\<close>)
    then show "run_prop (T ?w) (run_bind (queue_child a b ?w) (\<lambda>_. with_director a (\<lambda>w1.
        run_bind (ScheduleCallback (ProcessQueueOf a) 0 False q w1) (\<lambda>_. Ret ()))))"
      using queue_child_composites[of ?w a b] by (cases "queue_child a b ?w") (auto intro: after)
  qed simp
  have up: "run_prop (T w) (run_bind (queue_child a b w) (\<lambda>_. ScheduleReaction n g a q))" for g q
    by (rule bind[OF queue_child_keeps Suc])
  have "run_prop (T w) (let priority = if p = INT_MAX then GetPriority x else p in
      case m_parent x of
        Some g \<Rightarrow> run_bind (queue_child a b w) (\<lambda>_. ScheduleReaction n g a priority)
      | None \<Rightarrow>
          if \<not> m_reactionRequested c
          then run_bind (queue_child a b (modify_composite a (\<lambda>c. c\<lparr>m_reactionRequested := True\<rparr>) w))
                 (\<lambda>_. with_director a (\<lambda>w1. run_bind (ScheduleCallback (ProcessQueueOf a) 0 False priority w1) (\<lambda>_. Ret ())))
          else queue_child a b w)" if "a \<in> composites w" for x c
    using requests[OF that] up queue_child_keeps by (simp add: Let_def split: option.split)
  then show ?case
    unfolding ScheduleReaction.simps by (rule with_composite_here)
qed simp

lemma AlertNewInput_keeps: "run_prop (T w) (AlertNewInput n a w)"
  unfolding AlertNewInput_def
  by (intro with_keeps) (simp add: same ScheduleReaction_keeps split: option.split)

lemma receive_data_keeps:
  assumes "\<And>q w. run_prop (T w) (send q data w)"
  shows "run_prop (T w) (receive_data levels send q data w)"
proof -
  have "run_prop (T w) (run_bind (AlertNewInput levels a (w\<lparr>ports := ps\<rparr>)) (\<lambda>_. send q data))" for a ps w
    by (rule after_calm[of _ "w\<lparr>ports := ps\<rparr>"], simp, intro bind AlertNewInput_keeps assms)
  then show ?thesis
    unfolding receive_data_def
    by (auto intro!: with_keeps assms simp: same calm Let_def simp del: IsComposite.simps
        split: option.split port_kind.split)
qed

lemma SendData_keeps: "run_prop (T w) (SendData levels n p data w)"
proof (induction n arbitrary: p w)
  case (Suc n)
  then show ?case by (auto intro!: run_each_keeps receive_data_keeps simp: same split: option.split)
qed simp

lemma send_output_keeps: "run_prop (T w) (send_output levels n a name out w)"
  unfolding send_output_def
  by (intro with_keeps) (simp add: same SendData_keeps split: sum.split)

section \<open>Reactions\<close>

lemma handler_loop_keeps:
  assumes "reactions_keep T U"
  shows "run_prop (T w) (handler_loop U a name hs0 ev i hs w)"
proof (induction hs arbitrary: i w)
  case (Cons h hs)
  have h: "run_prop (T w) (u_handler U h ev w)" using assms by (simp add: reactions_keep_def)
  then show ?case
    by (cases "u_handler U h ev w") (auto intro: after[OF _ Cons] trans[OF _ calm])
qed (simp add: same)

lemma InvokeInputHandlers_keeps:
  assumes "reactions_keep T U"
  shows "run_prop (T w) (InvokeInputHandlers U a name w)"
  unfolding InvokeInputHandlers_def Accessor_GetLatestInput_def
  by (intro bind with_keeps) (simp_all add: same handler_loop_keeps[OF assms] split: sum.split option.split)

text \<open>What follows the handlers of a port.\<close>

lemma dequeue_keeps:
  "run_prop (T w) (with_port p (\<lambda>pt w.
       let pt1 = DequeueLatestInput pt;
           w1 = w\<lparr>ports := (ports w)(p \<mapsto> pt1)\<rparr>
       in if \<not> IsWaitingForInputHandler pt1 then Ret () w1
          else run_bind
            (with_accessor a (\<lambda>x w. case m_parent x of
               None \<Rightarrow> Ret () w
             | Some g \<Rightarrow> ScheduleReaction levels g a (GetPriority x) w) w1)
            (\<lambda>_. SendData levels n p (ShareLatestInput pt1))) w)"
proof -
  have rest: "run_prop (T w) (run_bind
      (with_accessor a (\<lambda>x w. case m_parent x of None \<Rightarrow> Ret () w
         | Some g \<Rightarrow> ScheduleReaction levels g a (GetPriority x) w) (w\<lparr>ports := ps\<rparr>))
      (\<lambda>_. SendData levels n p ev))" for ps ev w
    by (rule after_calm[of _ "w\<lparr>ports := ps\<rparr>"], simp, intro bind with_keeps SendData_keeps)
      (simp add: same ScheduleReaction_keeps split: option.split)
  show ?thesis by (intro with_keeps) (simp add: Let_def same calm rest)
qed

lemma process_port_keeps:
  assumes "reactions_keep T U"
  shows "run_prop (T w) (process_port U levels n a p w)"
proof -
  have "run_prop (T w) (run_bind (InvokeInputHandlers U a name w) (\<lambda>_. with_port p (\<lambda>pt w.
       let pt1 = DequeueLatestInput pt;
           w1 = w\<lparr>ports := (ports w)(p \<mapsto> pt1)\<rparr>
       in if \<not> IsWaitingForInputHandler pt1 then Ret () w1
          else run_bind
            (with_accessor a (\<lambda>x w. case m_parent x of
               None \<Rightarrow> Ret () w
             | Some g \<Rightarrow> ScheduleReaction levels g a (GetPriority x) w) w1)
            (\<lambda>_. SendData levels n p (ShareLatestInput pt1)))))" for name w
    by (intro bind InvokeInputHandlers_keeps[OF assms] dequeue_keeps)
  then show ?thesis unfolding process_port_def by (intro with_keeps) (simp add: same)
qed

lemma ProcessInputs_keeps:
  assumes "reactions_keep T U"
  shows "run_prop (T w) (ProcessInputs U levels n a w)"
  unfolding ProcessInputs_def
  by (intro bind with_keeps process_port_keeps[OF assms]) (use assms in \<open>simp add: same reactions_keep_def\<close>)

lemma ProcessChildEventQueue_keeps:
  assumes "reactions_keep T U"
  shows "run_prop (T w) (ProcessChildEventQueue U levels n k a w)"
proof (induction k arbitrary: a w)
  case (Suc k)
  have "run_prop (T w) (run_bind
      (with_accessor b (\<lambda>y. if IsComposite y then ProcessChildEventQueue U levels n k b
          else ProcessInputs U levels n b) (modify_composite a f w))
      (\<lambda>_. ProcessChildEventQueue U levels n k a))" for b f w
    by (rule after_calm[of _ "modify_composite a f w"], simp, intro bind with_keeps)
      (simp_all add: Suc ProcessInputs_keeps[OF assms] del: IsComposite.simps)
  then show ?case
    unfolding ProcessChildEventQueue.simps
    by (intro with_keeps) (simp add: same calm del: IsComposite.simps split: sum.split)
qed simp

end

end
