(* ===== verification/ReactionRounds.thy ===== *)
theory ReactionRounds
  imports Reactions ReactionFrame
begin

text \<open>
  A whole reaction: \<open>ProcessChildEventQueue\<close> of \<open>src/src/CompositeAccessorImpl.cpp\<close> works off the
  queue of a composite, child by child, going down into composites. With user code that keeps to
  the contract of \<open>Reactions\<close> it comes to an end, and then no input waits below the host. The
  last section shows what an exception in a handler leaves behind.
\<close>

section \<open>Taking a child out of a queue\<close>

lemma pop_child:
  fixes w :: "('e, 'u) world"
  assumes x: "accessors w a = Some x" "a_kind x = Composite c" and ok: "reactions_ok_but X R w"
    and ne: "queue_of w a \<noteq> {}"
  shows "\<exists>b q y. upq_top (m_childEventQueue c) = Inr b \<and> upq_pop (GreaterAccessorImplPtrs w) (m_childEventQueue c) = Inr q \<and>
    \<not> upq_empty (m_childEventQueue c) \<and> \<not> (\<exists>d \<in> set (m_queue (m_childEventQueue c)). accessors w d = None) \<and>
    b \<in> queue_of w a \<and> accessors w b = Some y \<and> m_parent y = Some a \<and>
    upq_ok (accessor_priority w) q \<and> set (m_elementsInQueue q) = queue_of w a - {b}"
proof -
  have qa: "queue_of w a = set (m_elementsInQueue (m_childEventQueue c))" using x by (simp add: queue_of_def)
  have uq: "upq_ok (accessor_priority w) (m_childEventQueue c)"
      and ex: "\<forall>d \<in> queue_of w a. \<exists>y. accessors w d = Some y \<and> m_parent y = Some a"
    using ok x unfolding reactions_ok_but_def queues_ok_def by blast+
  obtain b q where b: "upq_top (m_childEventQueue c) = Inr b" "upq_pop (GreaterAccessorImplPtrs w) (m_childEventQueue c) = Inr q"
      "upq_ok (accessor_priority w) q" "b \<in> queue_of w a" "set (m_elementsInQueue q) = queue_of w a - {b}"
    using upq_top_pop[OF uq] ne unfolding qa GreaterAccessorImplPtrs_def by blast
  have s: "set (m_queue (m_childEventQueue c)) = queue_of w a" using uq qa by (simp add: upq_ok_def)
  then have "\<not> upq_empty (m_childEventQueue c)" using ne by (auto simp: upq_empty_def)
  moreover have "\<not> (\<exists>d \<in> set (m_queue (m_childEventQueue c)). accessors w d = None)" unfolding s using ex by fastforce
  ultimately show ?thesis using b ex by blast
qed

text \<open>The child that was taken out is the one yet to serve: its inputs, or its own queue.\<close>

lemma popped_ok:
  fixes w :: "('e, 'u) world"
  assumes x: "accessors w a = Some x" "a_kind x = Composite c" and ok: "reactions_ok_but X R w" and al: "inputs_alert_but {} w"
    and q: "upq_ok (accessor_priority w) q" "set (m_elementsInQueue q) = queue_of w a - {b}" and b: "b \<in> queue_of w a"
  defines "w1 \<equiv> modify_composite a (\<lambda>c. c\<lparr>m_childEventQueue := q\<rparr>) w"
  shows "same_shells w w1" and "ports w1 = ports w" and "queue_of w1 = (queue_of w)(a := queue_of w a - {b})"
    and "reactions_ok_but (insert b X) R w1" and "inputs_alert_but {p. \<exists>pt. ports w p = Some pt \<and> p_owner pt = b \<and> p_kind pt = InputPort} w1"
    and "userState w1 = userState w"
proof -
  let ?c = "c\<lparr>m_childEventQueue := q\<rparr>"
  have acc: "accessors w1 = (accessors w)(a \<mapsto> x\<lparr>a_kind := Composite ?c\<rparr>)"
    unfolding w1_def by (rule accessors_modify_composite[OF x])
  show shells: "same_shells w w1" by (auto simp: same_shells_def acc x idle_def fun_eq_iff)
  show ps: "ports w1 = ports w" by (simp add: w1_def)
  show "userState w1 = userState w" by (simp add: w1_def modify_composite_def modify_accessor_def)
  show qs: "queue_of w1 = (queue_of w)(a := queue_of w a - {b})"
    by (rule ext) (simp add: queue_of_def acc x q(2)[unfolded queue_of_def x(1)])
  have req: "requested w1 d = requested w d" for d using x by (auto simp: requested_def acc)
  have sch: "reaction_scheduled w1 d = reaction_scheduled w d" for d
    by (simp add: reaction_scheduled_def w1_def modify_composite_def modify_accessor_def)
  have dir: "director_ok w1 = director_ok w"
    by (simp add: director_ok_def w1_def modify_composite_def modify_accessor_def)
  have inv: "director_ok w" "queues_ok w" "\<And>d. d \<notin> X \<Longrightarrow> announced w d" "\<And>d. d \<notin> R \<Longrightarrow> request_answered w d"
    using ok by (simp_all add: reactions_ok_but_def)
  have "queues_ok w1"
    unfolding queues_ok_def same_shells_priority[OF shells]
  proof (intro allI impI conjI ballI)
    fix d z e assume z: "accessors w1 d = Some z \<and> a_kind z = Composite e"
    show "upq_ok (accessor_priority w) (m_childEventQueue e)"
    proof (cases "d = a")
      case True
      then show ?thesis using z acc q(1) by auto
    next
      case False
      then show ?thesis using z acc inv(2) unfolding queues_ok_def by (metis fun_upd_other)
    qed
    fix k assume k: "k \<in> queue_of w1 d"
    obtain z0 e0 where "accessors w d = Some z0" "a_kind z0 = Composite e0"
      using z x acc by (cases "d = a") auto
    moreover have "k \<in> queue_of w d" using k qs by (auto split: if_splits)
    ultimately obtain y where y: "accessors w k = Some y" "m_parent y = Some d" using inv(2) unfolding queues_ok_def by blast
    then show "\<exists>y. accessors w1 k = Some y \<and> m_parent y = Some d" using x(1) by (auto simp: acc)
  qed
  moreover have "announced w1 d" if d: "d \<notin> insert b X" for d
    unfolding announced_def
  proof (intro impI allI)
    fix z assume ne: "queue_of w1 d \<noteq> {}" and z: "accessors w1 d = Some z"
    then obtain z0 where z0: "accessors w d = Some z0" using x acc by (cases "d = a") auto
    then have par: "m_parent z = m_parent z0" using same_shells_parent[OF shells z0 z] by simp
    have "queue_of w d \<noteq> {}" using ne qs by (auto split: if_splits)
    then have "case m_parent z0 of None \<Rightarrow> requested w d | Some p \<Rightarrow> d \<in> queue_of w p"
      using inv(3)[of d] d z0 unfolding announced_def by blast
    then show "case m_parent z of None \<Rightarrow> requested w1 d | Some p \<Rightarrow> d \<in> queue_of w1 p"
      unfolding par using d qs req by (cases "m_parent z0") auto
  qed
  moreover have "request_answered w1 d" if "d \<notin> R" for d
    by (rule request_answered_mono[OF inv(4)[OF that] shells]) (simp_all add: req sch)
  ultimately show "reactions_ok_but (insert b X) R w1" using dir inv(1) by (simp add: reactions_ok_but_def)
  show "inputs_alert_but {p. \<exists>pt. ports w p = Some pt \<and> p_owner pt = b \<and> p_kind pt = InputPort} w1"
    unfolding inputs_alert_but_def
  proof (intro allI impI)
    fix p pt z g
    assume h: "p \<notin> {p. \<exists>pt. ports w p = Some pt \<and> p_owner pt = b \<and> p_kind pt = InputPort} \<and> ports w1 p = Some pt \<and>
      accessors w1 (p_owner pt) = Some z \<and> takes pt z \<and> m_waitingForInputHandler pt \<and> m_parent z = Some g"
    then have nb: "p_owner pt \<noteq> b" using ps by (auto simp: takes_def)
    obtain z0 where z0: "accessors w (p_owner pt) = Some z0" "takes pt z0" "m_parent z0 = Some g"
      using h x acc by (cases "p_owner pt = a") (auto simp: takes_def)
    then have "p_owner pt \<in> queue_of w g" using al h ps unfolding inputs_alert_but_def by auto
    then show "p_owner pt \<in> queue_of w1 g" using nb qs by auto
  qed
qed

text \<open>The end of the loop: the request is taken back.\<close>

lemma cleared_ok:
  fixes w :: "('e, 'u) world"
  assumes x: "accessors w a = Some x" "a_kind x = Composite c" and ok: "reactions_ok_but (insert a X) R w" and al: "inputs_alert_but {} w"
    and e: "queue_of w a = {}"
  defines "w1 \<equiv> modify_composite a (\<lambda>c. c\<lparr>m_reactionRequested := False\<rparr>) w"
  shows "same_shells w w1" and "ports w1 = ports w" and "queue_of w1 = queue_of w" and "\<not> requested w1 a"
    and "reactions_ok_but X (R - {a}) w1" and "inputs_alert_but {} w1"
proof -
  let ?c = "c\<lparr>m_reactionRequested := False\<rparr>"
  have acc: "accessors w1 = (accessors w)(a \<mapsto> x\<lparr>a_kind := Composite ?c\<rparr>)"
    unfolding w1_def by (rule accessors_modify_composite[OF x])
  show shells: "same_shells w w1" by (auto simp: same_shells_def acc x idle_def fun_eq_iff)
  show ps: "ports w1 = ports w" by (simp add: w1_def)
  show qs: "queue_of w1 = queue_of w" by (rule ext) (simp add: queue_of_def acc x)
  show nreq: "\<not> requested w1 a" by (simp add: requested_def acc)
  have req: "requested w1 d = requested w d" if "d \<noteq> a" for d using that by (auto simp: requested_def acc)
  have sch: "reaction_scheduled w1 d = reaction_scheduled w d" for d
    by (simp add: reaction_scheduled_def w1_def modify_composite_def modify_accessor_def)
  have dir: "director_ok w1 = director_ok w"
    by (simp add: director_ok_def w1_def modify_composite_def modify_accessor_def)
  have inv: "director_ok w" "queues_ok w" "\<And>d. d \<notin> insert a X \<Longrightarrow> announced w d" "\<And>d. d \<notin> R \<Longrightarrow> request_answered w d"
    using ok by (simp_all add: reactions_ok_but_def)
  have "queues_ok w1"
    unfolding queues_ok_def same_shells_priority[OF shells] qs
  proof (intro allI impI conjI ballI)
    fix d z f assume z: "accessors w1 d = Some z \<and> a_kind z = Composite f"
    obtain z0 f0 where z0: "accessors w d = Some z0" "a_kind z0 = Composite f0" "m_childEventQueue f0 = m_childEventQueue f"
      using z x acc by (cases "d = a") auto
    then show "upq_ok (accessor_priority w) (m_childEventQueue f)" using inv(2) unfolding queues_ok_def by metis
    fix k assume k: "k \<in> queue_of w d"
    then obtain y where y: "accessors w k = Some y" "m_parent y = Some d" using z0 inv(2) unfolding queues_ok_def by blast
    then show "\<exists>y. accessors w1 k = Some y \<and> m_parent y = Some d" using x(1) by (auto simp: acc)
  qed
  moreover have "announced w1 d" if d: "d \<notin> X" for d
  proof (cases "d = a")
    case True
    then show ?thesis using e qs by (simp add: announced_def)
  next
    case False
    show ?thesis by (rule announced_mono[OF inv(3) shells]) (use d False qs req in auto)
  qed
  moreover have "request_answered w1 d" if "d \<notin> R - {a}" for d
  proof (cases "d = a")
    case True
    then show ?thesis using nreq by (simp add: request_answered_def)
  next
    case False
    show ?thesis by (rule request_answered_mono[OF inv(4) shells]) (use that False sch req in auto)
  qed
  ultimately show "reactions_ok_but X (R - {a}) w1" using dir inv(1) by (simp add: reactions_ok_but_def)
  show "inputs_alert_but {} w1"
    unfolding inputs_alert_but_def
  proof (intro allI impI)
    fix p pt z g
    assume h: "p \<notin> {} \<and> ports w1 p = Some pt \<and> accessors w1 (p_owner pt) = Some z \<and> takes pt z \<and>
      m_waitingForInputHandler pt \<and> m_parent z = Some g"
    obtain z0 where z0: "accessors w (p_owner pt) = Some z0" "takes pt z0" "m_parent z0 = Some g"
      using h x acc by (cases "p_owner pt = a") (auto simp: takes_def)
    then show "p_owner pt \<in> queue_of w1 g" using al h ps qs unfolding inputs_alert_but_def by auto
  qed
qed

section \<open>The work left\<close>

definition inputs_ok :: "'e port_store \<Rightarrow> bool" where
  "inputs_ok S \<longleftrightarrow> (\<forall>p pt. S p = Some pt \<longrightarrow> input_ok pt)"

definition backlog :: "'e port_store \<Rightarrow> nat \<Rightarrow> nat" where
  "backlog S p = (case S p of None \<Rightarrow> 0 | Some pt \<Rightarrow> length (m_inputQueue pt))"

text \<open>
  Each queued event may cost one round of its accessor, which is queued on every level again and
  may need a callback for that; each entry of an event queue and each queued reaction costs one step.
\<close>

definition load :: "nat \<Rightarrow> ('e, 'u) world \<Rightarrow> nat" where
  "load levels w = Suc levels * (\<Sum>p \<in> dom (ports w). backlog (ports w) p) + entries (dom (accessors w)) w"

lemma handle_ports_price:
  fixes c :: "nat \<Rightarrow> nat"
  assumes ok: "inputs_ok S" and d: "distinct ps" "set ps \<subseteq> P" "finite P"
  shows "(\<Sum>p \<in> P. c p * backlog (handle_ports ps S) p) + sum_list (map c (filter (waits S) ps)) \<le> (\<Sum>p \<in> P. c p * backlog S p)"
proof -
  let ?due = "\<lambda>p. if p \<in> set ps \<and> waits S p then c p else 0"
  have "sum_list (map c (filter (waits S) ps)) = sum c (set (filter (waits S) ps))"
    using d(1) by (simp add: sum_list_distinct_conv_sum_set)
  also have "\<dots> = (\<Sum>p \<in> P. ?due p)"
  proof -
    have "set (filter (waits S) ps) = P \<inter> {p. p \<in> set ps \<and> waits S p}" using d(2) by auto
    then show ?thesis by (simp add: sum.If_cases[OF d(3)])
  qed
  finally have "sum_list (map c (filter (waits S) ps)) = (\<Sum>p \<in> P. ?due p)" .
  moreover have "c p * backlog (handle_ports ps S) p + ?due p \<le> c p * backlog S p" for p
  proof -
    have "backlog (handle_ports ps S) p + (if p \<in> set ps \<and> waits S p then 1 else 0) \<le> backlog S p"
    proof (cases "S p")
      case None
      then show ?thesis by (simp add: backlog_def handle_ports_def waits_def)
    next
      case (Some pt)
      then have "m_waitingForInputHandler pt \<longrightarrow> m_inputQueue pt \<noteq> []" using ok by (simp add: inputs_ok_def input_ok_def)
      then show ?thesis using Some
        by (cases "m_inputQueue pt")
          (auto simp: backlog_def handle_ports_def waits_def handled_def IsWaitingForInputHandler_def DequeueLatestInput_def Let_def)
    qed
    from mult_le_mono2[OF this, of "c p"] show ?thesis by (cases "p \<in> set ps \<and> waits S p") (auto simp: distrib_left)
  qed
  then have "(\<Sum>p \<in> P. c p * backlog (handle_ports ps S) p + ?due p) \<le> (\<Sum>p \<in> P. c p * backlog S p)" by (rule sum_mono)
  ultimately show ?thesis by (simp add: sum.distrib)
qed

lemma handle_ports_backlog:
  assumes "inputs_ok S" and "distinct ps" "set ps \<subseteq> P" "finite P"
  shows "(\<Sum>p \<in> P. backlog (handle_ports ps S) p) + length (filter (waits S) ps) \<le> (\<Sum>p \<in> P. backlog S p)"
  using handle_ports_price[OF assms, of "\<lambda>_. 1"] by (simp add: sum_list_triv)

lemma inputs_ok_handle: "inputs_ok S \<Longrightarrow> inputs_ok (handle_ports ps S)"
  by (auto simp: inputs_ok_def handle_ports_def handled_def input_ok_Dequeue)

lemma entries_pop:
  assumes "finite A" and "a \<in> A" and "b \<in> queue_of w a" and "queue_of w1 = (queue_of w)(a := queue_of w a - {b})"
    and "reaction_ids w1 = reaction_ids w"
  shows "entries A w1 + 1 = entries A w"
proof -
  have "card (queue_of w a - {b}) + 1 = card (queue_of w a)"
    using assms(3) card_Suc_Diff1[of "queue_of w a" b] by simp
  then show ?thesis using assms(1,2) by (simp add: entries_def assms(4,5) sum.remove[of A a])
qed

section \<open>The loop\<close>

text \<open>A model in which a round of reactions can run: every atomic accessor is ready.\<close>

definition staffed :: "('e, 'u) world \<Rightarrow> nat \<Rightarrow> (nat \<Rightarrow> nat list) \<Rightarrow> ('e, 'u) world \<Rightarrow> bool" where
  "staffed w0 levels hs w \<longleftrightarrow> same_shells w0 w \<and> inputs_ok (ports w) \<and> finite (dom (ports w)) \<and> finite (dom (accessors w)) \<and>
     (\<forall>a x. accessors w a = Some x \<and> \<not> IsComposite x \<longrightarrow> ready levels hs w a)"

lemma same_wiring_dom:
  assumes "same_wiring w w'"
  shows "dom (ports w') = dom (ports w)" "dom (accessors w') = dom (accessors w)"
  using same_wiring_None[OF assms] same_shells_None[of w w'] assms by (auto simp: dom_def same_wiring_def)

lemma staffed_cong:
  assumes q: "staffed w0 levels hs w" and s: "same_wiring w w'" and i: "inputs_ok (ports w')"
  shows "staffed w0 levels hs w'"
proof -
  have shells: "same_shells w w'" using s by (simp add: same_wiring_def)
  have "ready levels hs w' a" if h: "accessors w' a = Some x'" "\<not> IsComposite x'" for a x'
  proof -
    have "accessors w a \<noteq> None" using h(1) same_shells_None[OF shells, of a] by simp
    then obtain x where x: "accessors w a = Some x" by blast
    then have "idle x' = idle x" using same_shells_Some[OF shells x] h(1) by auto
    then have "\<not> IsComposite x" using h(2) idle_parts(6) by blast
    then show ?thesis using q x ready_cong[OF s] unfolding staffed_def by blast
  qed
  then show ?thesis
    using q i same_wiring_dom[OF s] same_shells_trans[OF _ shells] unfolding staffed_def by simp
qed

lemma load_less:
  assumes "same_wiring w w'" and "Suc levels * (\<Sum>p \<in> dom (ports w). backlog (ports w') p) + entries (dom (accessors w)) w' \<le> m"
  shows "load levels w' \<le> m"
  using assms(2) same_wiring_dom[OF assms(1)] by (simp add: load_def)

text \<open>An atomic accessor that was taken out of a queue reacts: the work left shrinks.\<close>

lemma child_reacts:
  fixes w :: "('e, 'u) world"
  assumes U: "polite w0 U hu fu" and n: "0 < n" and st: "staffed w0 levels hs w"
    and y: "accessors w b = Some y" "\<not> IsComposite y" and ok: "reactions_ok_but (insert b X) R w"
    and al: "inputs_alert_but {p. \<exists>pt. ports w p = Some pt \<and> p_owner pt = b \<and> p_kind pt = InputPort} w"
  shows "ends own_failure (\<lambda>_ w'. reactions_ok_but X R w' \<and> inputs_alert_but {} w' \<and> staffed w0 levels hs w' \<and>
      same_wiring w w' \<and> load levels w' \<le> load levels w)
    (ProcessInputs U levels n b w)"
proof -
  obtain d where d: "a_kind y = Atomic d" using y(2) by (cases "a_kind y") simp_all
  have r: "ready levels hs w b" using st y unfolding staffed_def by blast
  then have ports: "distinct (GetInputPorts y)" "set (GetInputPorts y) \<subseteq> dom (ports w)"
      "{p. \<exists>pt. ports w p = Some pt \<and> p_owner pt = b \<and> p_kind pt = InputPort} \<subseteq> set (GetInputPorts y)"
    unfolding ready_def using y(1) by auto
  have "queue_of w b = {}" using y(1) d by (simp add: queue_of_def)
  then have "announced w b" by (simp add: announced_def)
  then have ok': "reactions_ok_but X R w" by (rule reactions_ok_close[OF ok])
  have al': "inputs_alert_but ({} \<union> set (GetInputPorts y)) w"
    using al ports(3) unfolding inputs_alert_but_def by blast
  have s: "same_shells w0 w" and i: "inputs_ok (ports w)" and f: "finite (dom (ports w))"
    using st by (simp_all add: staffed_def)
  show ?thesis
  proof (rule ends_mono[OF ProcessInputs_ok[OF U n s r y(1) d ok' al', where A = "dom (accessors w)"]])
    fix u :: unit and w' :: "('e, 'u) world"
    assume w': "reactions_ok_but X R w' \<and> inputs_alert_but ({} - set (GetInputPorts y)) w' \<and> carries w w' \<and>
      ports w' = handle_ports (GetInputPorts y) (ports w) \<and>
      userState w' = (if m_hasFireFunction d then fu b else id) (fold (attend hu hs (ports w)) (GetInputPorts y) (userState w)) \<and>
      entries (dom (accessors w)) w' \<le> entries (dom (accessors w)) w + Suc levels * length (filter (waits (ports w)) (GetInputPorts y))"
    then have wire: "same_wiring w w'" by (simp add: carries_def)
    have "Suc levels * ((\<Sum>p \<in> dom (ports w). backlog (ports w') p) + length (filter (waits (ports w)) (GetInputPorts y))) \<le>
        Suc levels * (\<Sum>p \<in> dom (ports w). backlog (ports w) p)"
      using handle_ports_backlog[OF i ports(1,2) f] w' by (intro mult_le_mono2) simp
    then have "load levels w' \<le> load levels w"
      using w' by (intro load_less[OF wire]) (simp add: load_def algebra_simps)
    moreover have "staffed w0 levels hs w'" using staffed_cong[OF st wire] inputs_ok_handle[OF i] w' by simp
    ultimately show "reactions_ok_but X R w' \<and> inputs_alert_but {} w' \<and> staffed w0 levels hs w' \<and>
        same_wiring w w' \<and> load levels w' \<le> load levels w" using w' wire by simp
  qed
qed

lemma reactions_ok_fewer: "reactions_ok_but X (R - Z) w \<Longrightarrow> reactions_ok_but X R w"
  unfolding reactions_ok_but_def by blast

lemma ends_conj: "ends E P r \<Longrightarrow> ends E Q r \<Longrightarrow> ends E (\<lambda>x s. P x s \<and> Q x s) r"
  by (cases r) simp_all

text \<open>
  The loop ends. Along the way it keeps any relation \<open>Q\<close> that is transitive and holds for the reactions
  of the atomic accessors: what such a relation may use is that a child was taken out of a queue,
  which is one step less to do, and what is known of the state in which the child reacts.
\<close>

definition unqueued :: "nat \<Rightarrow> ('e, 'u) world \<Rightarrow> ('e, 'u) world \<Rightarrow> bool" where
  "unqueued levels w w' \<longleftrightarrow> quiet w w' \<and> same_wiring w w' \<and> ports w' = ports w \<and> load levels w' + 1 = load levels w"

lemma queue_loop_keeps:
  fixes w :: "('e, 'u) world" and Q :: "('e, 'u) world \<Rightarrow> ('e, 'u) world \<Rightarrow> bool"
  assumes U: "polite w0 U hu fu" and n: "0 < n"
    and Qtrans: "\<And>u v w. Q u v \<Longrightarrow> Q v w \<Longrightarrow> Q u w"
    and Qdone: "\<And>v w. quiet v w \<Longrightarrow> same_wiring v w \<Longrightarrow> ports w = ports v \<Longrightarrow> load levels w = load levels v \<Longrightarrow> Q v w"
    and Qdown: "\<And>v w. unqueued levels v w \<Longrightarrow> Q v w"
    and Qchild: "\<And>v w b y X R. unqueued levels v w \<Longrightarrow> staffed w0 levels hs w \<Longrightarrow> accessors w b = Some y \<Longrightarrow> \<not> IsComposite y \<Longrightarrow>
      reactions_ok_but (insert b X) R w \<Longrightarrow> inputs_alert_but {p. \<exists>pt. ports w p = Some pt \<and> p_owner pt = b \<and> p_kind pt = InputPort} w \<Longrightarrow>
      ends own_failure (\<lambda>_. Q v) (ProcessInputs U levels n b w)"
  shows "staffed w0 levels hs w \<Longrightarrow> accessors w a = Some x \<Longrightarrow> IsComposite x \<Longrightarrow>
    reactions_ok_but (insert a X) R w \<Longrightarrow> inputs_alert_but {} w \<Longrightarrow> load levels w < k \<Longrightarrow>
    ends own_failure (\<lambda>_ w'. reactions_ok_but X (R - {a}) w' \<and> inputs_alert_but {} w' \<and> staffed w0 levels hs w' \<and>
        same_wiring w w' \<and> load levels w' \<le> load levels w \<and> queue_of w' a = {} \<and> \<not> requested w' a \<and> Q w w')
      (ProcessChildEventQueue U levels n k a w)"
proof (induction k arbitrary: w a x X)
  case (Suc k)
  let ?done = "\<lambda>X a w w'. reactions_ok_but X (R - {a}) w' \<and> inputs_alert_but {} w' \<and> staffed w0 levels hs w' \<and>
        same_wiring w w' \<and> load levels w' \<le> load levels w \<and> queue_of w' a = {} \<and> \<not> requested w' a \<and> Q w w'"
  obtain c where c: "a_kind x = Composite c" using Suc.prems(3) by (cases "a_kind x") simp_all
  note st = Suc.prems(1)
  show ?case
  proof (cases "queue_of w a = {}")
    case True
    let ?w1 = "modify_composite a (\<lambda>c. c\<lparr>m_reactionRequested := False\<rparr>) w"
    note clear = cleared_ok[OF Suc.prems(2) c Suc.prems(4,5) True]
    have wire: "same_wiring w ?w1" using clear(1,2) by (simp add: same_wiring_def)
    have "staffed w0 levels hs ?w1" using staffed_cong[OF st wire] st clear(2) by (simp add: staffed_def)
    moreover have "load levels ?w1 = load levels w"
      using same_wiring_dom[OF wire] clear(2,3) by (simp add: load_def entries_def)
    moreover from this have "Q w ?w1" using Qdone[OF _ wire clear(2)] by simp
    ultimately have "?done X a w ?w1" using clear wire True by simp
    moreover have "upq_empty (m_childEventQueue c)"
      using True Suc.prems(2,4) c unfolding reactions_ok_but_def queues_ok_def
      by (fastforce simp: queue_of_def upq_ok_def upq_empty_def)
    ultimately show ?thesis using Suc.prems(2) c by (simp add: with_composite_def with_accessor_def)
  next
    case False
    obtain b q y where b: "upq_top (m_childEventQueue c) = Inr b" "upq_pop (GreaterAccessorImplPtrs w) (m_childEventQueue c) = Inr q"
        "\<not> upq_empty (m_childEventQueue c)" "\<not> (\<exists>d \<in> set (m_queue (m_childEventQueue c)). accessors w d = None)"
        "b \<in> queue_of w a" "accessors w b = Some y" "upq_ok (accessor_priority w) q" "set (m_elementsInQueue q) = queue_of w a - {b}"
      using pop_child[OF Suc.prems(2) c Suc.prems(4) False] by blast
    define w1 where "w1 = modify_composite a (\<lambda>c. c\<lparr>m_childEventQueue := q\<rparr>) w"
    note pop = popped_ok[OF Suc.prems(2) c Suc.prems(4,5) b(7,8,5), folded w1_def]
    have wire: "same_wiring w w1" using pop(1,2) by (simp add: same_wiring_def)
    have st1: "staffed w0 levels hs w1" using staffed_cong[OF st wire] st pop(2) by (simp add: staffed_def)
    have ids: "reaction_ids w1 = reaction_ids w" by (simp add: w1_def)
    have "finite (dom (accessors w))" "a \<in> dom (accessors w)" using st Suc.prems(2) by (auto simp: staffed_def)
    then have "load levels w1 + 1 = load levels w"
      using entries_pop[OF _ _ b(5) pop(3) ids] same_wiring_dom[OF wire] pop(2) by (simp add: load_def)
    then have down: "unqueued levels w w1" using wire pop(2) by (simp add: unqueued_def) (simp add: w1_def)
    have "load levels w1 + 1 = load levels w" using down by (simp add: unqueued_def)
    then have less: "load levels w1 < k" "load levels w1 \<le> load levels w" using Suc.prems(6) by simp_all
    obtain y1 where y1: "accessors w1 b = Some y1" using same_shells_Some[OF pop(1) b(6)] by blast
    let ?mid = "\<lambda>w'. reactions_ok_but (insert a X) R w' \<and> inputs_alert_but {} w' \<and> staffed w0 levels hs w' \<and>
        same_wiring w1 w' \<and> load levels w' \<le> load levels w1 \<and> Q w w'"
    have child: "ends own_failure (\<lambda>_. ?mid)
        (if IsComposite y1 then ProcessChildEventQueue U levels n k b w1 else ProcessInputs U levels n b w1)"
    proof (cases "IsComposite y1")
      case True
      have "inputs_alert_but {} w1"
        unfolding inputs_alert_but_def
      proof (intro allI impI)
        fix p pt z g
        assume h: "p \<notin> {} \<and> ports w1 p = Some pt \<and> accessors w1 (p_owner pt) = Some z \<and> takes pt z \<and>
          m_waitingForInputHandler pt \<and> m_parent z = Some g"
        then have "p_owner pt \<noteq> b" using True y1 by (auto simp: takes_def)
        then have "p \<notin> {p. \<exists>pt. ports w p = Some pt \<and> p_owner pt = b \<and> p_kind pt = InputPort}" using h pop(2) by auto
        then show "p_owner pt \<in> queue_of w1 g" using pop(5) h unfolding inputs_alert_but_def by blast
      qed
      from Suc.IH[OF st1 y1 True pop(4) this less(1)]
      have "ends own_failure (\<lambda>_. ?mid) (ProcessChildEventQueue U levels n k b w1)"
        by (rule ends_mono) (auto intro: reactions_ok_fewer Qtrans[OF Qdown[OF down]])
      then show ?thesis using True by simp
    next
      case False
      have "inputs_alert_but {p. \<exists>pt. ports w1 p = Some pt \<and> p_owner pt = b \<and> p_kind pt = InputPort} w1"
        using pop(2,5) by simp
      note child_reacts[OF U n st1 y1 False pop(4) this] Qchild[OF down st1 y1 False pop(4) this]
      from ends_conj[OF this] have "ends own_failure (\<lambda>_. ?mid) (ProcessInputs U levels n b w1)"
        by (rule ends_mono) (auto intro: reactions_ok_more)
      then show ?thesis using False by simp
    qed
    have "ends own_failure (\<lambda>_. ?done X a w)
        (run_bind (if IsComposite y1 then ProcessChildEventQueue U levels n k b w1 else ProcessInputs U levels n b w1)
          (\<lambda>_. ProcessChildEventQueue U levels n k a))"
    proof (rule ends_bind[OF child])
      fix u :: unit and w2 :: "('e, 'u) world"
      assume w2: "?mid w2"
      have wire2: "same_wiring w w2" using same_wiring_trans[OF wire] w2 by blast
      then have "same_shells w w2" by (simp add: same_wiring_def)
      then obtain x2 where x2: "accessors w2 a = Some x2" "idle x2 = idle x"
        using same_shells_Some Suc.prems(2) by blast
      have comp: "IsComposite x2" using idle_parts(6)[OF x2(2)] Suc.prems(3) by blast
      have "staffed w0 levels hs w2" "reactions_ok_but (insert a X) R w2" "inputs_alert_but {} w2" "load levels w2 < k"
        using w2 less(1) by (blast, blast, blast, linarith)
      from Suc.IH[OF this(1) x2(1) comp this(2,3,4)]
      show "ends own_failure (\<lambda>_. ?done X a w) (ProcessChildEventQueue U levels n k a w2)"
      proof (rule ends_mono)
        fix v :: unit and w' :: "('e, 'u) world"
        assume w': "?done X a w2 w'"
        have "same_wiring w w'" using same_wiring_trans[OF wire2] w' by blast
        moreover have "load levels w' \<le> load levels w" using w' w2 less(2) by linarith
        moreover have "Q w w'" using Qtrans w2 w' by blast
        ultimately show "?done X a w w'" using w' by blast
      qed
    qed
    moreover have "ProcessChildEventQueue U levels n (Suc k) a w =
        run_bind (if IsComposite y1 then ProcessChildEventQueue U levels n k b w1 else ProcessInputs U levels n b w1)
          (\<lambda>_. ProcessChildEventQueue U levels n k a)"
      using Suc.prems(2) c b(1-3) y1
      by (simp add: with_composite_def with_accessor_def w1_def[symmetric] if_not_P[OF b(4)] del: IsComposite.simps)
    ultimately show ?thesis by (simp only:)
  qed
qed simp

lemma queue_loop_ok:
  fixes w :: "('e, 'u) world"
  assumes "polite w0 U hu fu" and "0 < n" and "staffed w0 levels hs w" and "accessors w a = Some x" and "IsComposite x"
    and "reactions_ok_but (insert a X) R w" and "inputs_alert_but {} w" and "load levels w < k"
  shows "ends own_failure (\<lambda>_ w'. reactions_ok_but X (R - {a}) w' \<and> inputs_alert_but {} w' \<and> staffed w0 levels hs w' \<and>
      same_wiring w w' \<and> load levels w' \<le> load levels w \<and> queue_of w' a = {} \<and> \<not> requested w' a)
    (ProcessChildEventQueue U levels n k a w)"
proof (rule ends_mono[OF queue_loop_keeps[where Q = "\<lambda>_ _. True", OF assms(1,2) _ _ _ _ assms(3-8)]])
  fix v w :: "('e, 'u) world" and b y X R
  assume "staffed w0 levels hs w" "accessors w b = Some y" "\<not> IsComposite y" "reactions_ok_but (insert b X) R w"
    "inputs_alert_but {p. \<exists>pt. ports w p = Some pt \<and> p_owner pt = b \<and> p_kind pt = InputPort} w"
  from child_reacts[OF assms(1,2) this] show "ends own_failure (\<lambda>_ _. True) (ProcessInputs U levels n b w)"
    by (rule ends_mono) simp
qed simp_all

text \<open>The composite \<open>g\<close> lies below the root \<open>h\<close>, or is it.\<close>

fun leads_to :: "('e, 'u) world \<Rightarrow> nat \<Rightarrow> nat \<Rightarrow> nat \<Rightarrow> bool" where
  "leads_to w h 0 g = False"
| "leads_to w h (Suc m) g =
     (case accessors w g of
        None \<Rightarrow> False
      | Some x \<Rightarrow> (case m_parent x of None \<Rightarrow> g = h | Some p \<Rightarrow> leads_to w h m p))"

lemma idle_below:
  assumes ok: "reactions_ok_but {} R w" and e: "queue_of w h = {}"
  shows "leads_to w h m g \<Longrightarrow> queue_of w g = {}"
proof (induction m arbitrary: g)
  case (Suc m)
  then obtain x where x: "accessors w g = Some x" "case m_parent x of None \<Rightarrow> g = h | Some p \<Rightarrow> leads_to w h m p"
    by (auto split: option.splits)
  show ?case
  proof (cases "m_parent x")
    case None
    then show ?thesis using x e by simp
  next
    case (Some p)
    then have "queue_of w p = {}" using Suc.IH x(2) by simp
    moreover have "announced w g" using ok by (simp add: reactions_ok_but_def)
    ultimately show ?thesis using Some x(1) by (auto simp: announced_def)
  qed
qed simp

text \<open>
  C5. A reaction of a host comes to an end: a bound above the work queued at its start (each
  queued event, once per level of the tree, and each entry of an event queue) is enough for the
  loops. Afterwards the host's queue is empty, the request is taken back, so that the next input
  schedules a new reaction, and no input port of an atomic accessor below the host waits for its
  handlers: its queue is empty, or has a null event at its front. The round fails only when a
  time overflows or a thread cannot be started.
\<close>

theorem reaction_round:
  fixes w :: "('e, 'u) world"
  assumes "polite w U hu fu" and "0 < n" and "staffed w levels hs w"
    and "accessors w h = Some x" and "is_host x"
    and "reactions_ok_but {} {h} w" and "inputs_alert_but {} w" and "load levels w < k"
  shows "ends own_failure
    (\<lambda>_ w'. messages_ok w' \<and> queue_of w' h = {} \<and> \<not> requested w' h \<and> same_wiring w w' \<and>
       (\<forall>q qt y g m. ports w' q = Some qt \<and> accessors w' (p_owner qt) = Some y \<and> takes qt y \<and>
          m_parent y = Some g \<and> leads_to w' h m g \<longrightarrow>
          \<not> IsWaitingForInputHandler qt \<and> (m_inputQueue qt = [] \<or> hd (m_inputQueue qt) = None)))
    (ProcessChildEventQueue U levels n k h w)"
proof (rule ends_mono[OF queue_loop_ok[OF assms(1,2,3,4) _ _ assms(7,8)]])
  show "IsComposite x" using assms(5) by (cases "a_kind x") simp_all
  show "reactions_ok_but (insert h {}) {h} w" using reactions_ok_more[OF assms(6)] by blast
  fix u :: unit and w' :: "('e, 'u) world"
  assume w': "reactions_ok_but {} ({h} - {h}) w' \<and> inputs_alert_but {} w' \<and> staffed w levels hs w' \<and> same_wiring w w' \<and>
    load levels w' \<le> load levels w \<and> queue_of w' h = {} \<and> \<not> requested w' h"
  have "\<not> m_waitingForInputHandler qt"
    if h: "ports w' q = Some qt" "accessors w' (p_owner qt) = Some y" "takes qt y" "m_parent y = Some g" "leads_to w' h m g"
    for q qt y g m
  proof
    assume "m_waitingForInputHandler qt"
    then have "p_owner qt \<in> queue_of w' g" using w' h unfolding inputs_alert_but_def by blast
    then show False using idle_below[of "{}" w' h m g] w' h(5) by simp
  qed
  moreover have "input_ok qt" if "ports w' q = Some qt" for q qt using w' that by (simp add: staffed_def inputs_ok_def)
  ultimately have "\<not> IsWaitingForInputHandler qt \<and> (m_inputQueue qt = [] \<or> hd (m_inputQueue qt) = None)"
    if "ports w' q = Some qt \<and> accessors w' (p_owner qt) = Some y \<and> takes qt y \<and> m_parent y = Some g \<and> leads_to w' h m g"
    for q qt y g m
    using that unfolding IsWaitingForInputHandler_def input_ok_def by blast
  then show "messages_ok w' \<and> queue_of w' h = {} \<and> \<not> requested w' h \<and> same_wiring w w' \<and>
       (\<forall>q qt y g m. ports w' q = Some qt \<and> accessors w' (p_owner qt) = Some y \<and> takes qt y \<and>
          m_parent y = Some g \<and> leads_to w' h m g \<longrightarrow>
          \<not> IsWaitingForInputHandler qt \<and> (m_inputQueue qt = [] \<or> hd (m_inputQueue qt) = None))"
    using w' unfolding messages_ok_def Diff_cancel by blast
qed

definition ready_queue :: "nat unique_priority_queue" where
  "ready_queue = \<lparr>m_queue = [2], m_elementsInQueue = [2]\<rparr>"

lemma busy_queue:
  "queue_of (busy ready_queue) 8 = {2}" "queue_of (busy ready_queue) 2 = {}"
  by (simp_all add: queue_of_def busy_simps listener_simps busy_host_simps ready_queue_def)

lemma busy_staffed: "staffed (busy q) 1 (\<lambda>_. [10, 20]) (busy q)"
  unfolding staffed_def
proof (intro conjI allI impI)
  show "same_shells (busy q) (busy q)" by (rule same_shells_refl)
  show "inputs_ok (ports (busy q))" by (simp add: inputs_ok_def busy_simps input_ok_def inbox_simps)
  show "finite (dom (ports (busy q)))" "finite (dom (accessors (busy q)))" by (simp_all add: busy_simps)
  fix a x assume "accessors (busy q) a = Some x \<and> \<not> IsComposite x"
  then have "a = 2" by (auto simp: busy_simps busy_host_simps split: if_splits)
  then show "ready 1 (\<lambda>_. [10, 20]) (busy q) a" using busy_ready by blast
qed

lemma busy_alert: "inputs_alert_but {} (busy ready_queue)"
  by (auto simp: inputs_alert_but_def busy_simps listener_simps inbox_simps busy_queue split: if_splits)

lemma busy_load: "load 1 (busy ready_queue) < 6"
proof -
  have "card (queue_of (busy ready_queue) 8) = 1" "card (queue_of (busy ready_queue) 2) = 0" by (simp_all add: busy_queue)
  then show ?thesis by (simp add: load_def entries_def busy_simps backlog_def inbox_simps busy_ids)
qed

lemma reaction_round_witness:
  "ends own_failure (\<lambda>_ w'. \<not> requested w' 8 \<and> queue_of w' 8 = {} \<and> messages_ok w')
     (ProcessChildEventQueue recorder 1 1 6 8 (busy ready_queue))"
proof (rule ends_mono[OF reaction_round[OF recorder_polite _ busy_staffed, where n = 1
    and h = 8 and x = "busy_host ready_queue" and k = 6]])
  show "reactions_ok_but {} {8} (busy ready_queue)"
    by (rule busy_ok) (simp_all add: ready_queue_def upq_ok_def heap_ok_def)
qed (use busy_load in \<open>simp_all add: busy_simps busy_host_simps plain_composite_def busy_alert\<close>)

section \<open>An exception in a handler\<close>

lemma run_each_skip: "(\<And>q. q \<in> set qs \<Longrightarrow> f q w = Ret () w) \<Longrightarrow> run_each f (qs @ rs) w = run_each f rs w"
  by (induction qs) simp_all

text \<open>
  C36. A handler that throws stalls the host for good. The exception leaves \<open>ProcessChildEventQueue\<close>
  with the request of the host still set, the accessor out of the queue, and the event at the
  front of its port, which still waits. So whatever the port receives later alerts nobody, and
  every later request for a reaction, of any child, only queues the child: no callback that would
  process the queue is scheduled.
\<close>

theorem handler_exception_stalls:
  fixes w :: "('e, 'u) world"
  assumes x: "accessors w h = Some x" "a_kind x = Composite c" "m_parent x = None" "m_reactionRequested c"
    and ok: "reactions_ok_but {} R w" and top: "upq_top (m_childEventQueue c) = Inr b"
    and y: "accessors w b = Some y" "m_initialized y" "ready levels hs w b"
    and ps: "GetInputPorts y = qs @ p # ps" "\<forall>q \<in> set qs. \<not> waits (ports w) q" "waits (ports w) p" "hs p = f # fs"
    and f: "\<forall>ev v. u_handler U f ev v = Throw e v" "is_std_exception e"
  shows "\<exists>w'. ProcessChildEventQueue U levels n (Suc k) h w = Throw e w' \<and> requested w' h \<and> b \<notin> queue_of w' h \<and>
    ports w' = ports w \<and> m_callbackQueue w' = m_callbackQueue w \<and>
    (\<forall>input. ReceiveData levels n p input w' = Ret () (w'\<lparr>ports := modify_port p (QueueInput input) (ports w')\<rparr>)) \<and>
    (\<forall>m d prio. ScheduleReaction (Suc m) h d prio w' = queue_child h d w')"
proof -
  have uq: "upq_ok (accessor_priority w) (m_childEventQueue c)" using ok x(1,2) unfolding reactions_ok_but_def queues_ok_def by blast
  have "m_queue (m_childEventQueue c) \<noteq> []" using top by (auto simp: upq_top_def)
  then have "queue_of w h \<noteq> {}" using uq x(1,2) by (auto simp: queue_of_def upq_ok_def)
  from pop_child[OF x(1,2) ok this] obtain q where
    q: "upq_pop (GreaterAccessorImplPtrs w) (m_childEventQueue c) = Inr q"
      "\<not> upq_empty (m_childEventQueue c)" "\<not> (\<exists>d \<in> set (m_queue (m_childEventQueue c)). accessors w d = None)"
      "m_parent y = Some h" "set (m_elementsInQueue q) = queue_of w h - {b}"
    using top y(1) by auto
  obtain d where d: "a_kind y = Atomic d" using y(1,3) unfolding ready_def by auto
  have bh: "b \<noteq> h" using q(4) x(1,3) y(1) by auto
  define w1 where "w1 = modify_composite h (\<lambda>c. c\<lparr>m_childEventQueue := q\<rparr>) w"
  have acc: "accessors w1 = (accessors w)(h \<mapsto> x\<lparr>a_kind := Composite (c\<lparr>m_childEventQueue := q\<rparr>)\<rparr>)"
    unfolding w1_def by (rule accessors_modify_composite[OF x(1,2)])
  have w1: "ports w1 = ports w" "accessors w1 b = Some y" using acc bh y(1) by (simp_all add: w1_def)
  obtain pt where pt: "ports w p = Some pt" "p_owner pt = b" "p_kind pt = InputPort" "GetInputPort (p_name pt) y = Inr p"
      "map_of (m_inputHandlers d) (p_name pt) = Some (hs p)" "IsWaitingForInputHandler pt"
    using ready_port[OF y(3,1), of p] ps(1,3) d by (auto simp: waits_def)
  define w' where "w' = erase_handler b (p_name pt) 0 (hs p) w1"
  let ?y' = "y\<lparr>a_kind := Atomic (d\<lparr>m_inputHandlers :=
      smap_put (p_name pt) (take 0 (hs p) @ drop (Suc 0) (hs p)) (m_inputHandlers d)\<rparr>)\<rparr>"
  have acc': "accessors w' = (accessors w1)(b \<mapsto> ?y')" "ports w' = ports w"
    by (simp_all add: w'_def erase_handler_def modify_atomic_def modify_accessor_def w1 d)
  have q': "m_callbackQueue w' = m_callbackQueue w"
    by (simp add: w'_def erase_handler_def modify_atomic_def modify_accessor_def w1_def modify_composite_def)
  have y': "accessors w' b = Some ?y'" "m_initialized ?y'" "\<not> IsComposite ?y'" using acc'(1) y(2) by simp_all
  have h': "accessors w' h = Some (x\<lparr>a_kind := Composite (c\<lparr>m_childEventQueue := q\<rparr>)\<rparr>)" using acc acc'(1) bh by simp
  have skip: "process_port U levels n b r w1 = Ret () w1" if "r \<in> set qs" for r
  proof -
    have "r \<in> set (GetInputPorts y)" using that ps(1) by simp
    then obtain rt where "ports w r = Some rt" using ready_port[OF y(3,1)] by blast
    then show ?thesis using that ps(2) by (simp add: process_port_def with_port_def w1(1) waits_def)
  qed
  have "InvokeInputHandlers U b (p_name pt) w1 = Throw e w'"
    using w1 pt(1,4,5) d f ps(4)
    by (simp add: InvokeInputHandlers_def Accessor_GetLatestInput_def with_accessor_def handlers_now_def w'_def)
  then have "process_port U levels n b p w1 = Throw e w'"
    using pt(1,6) by (simp add: process_port_def with_port_def w1(1))
  then have "run_each (process_port U levels n b) (GetInputPorts y) w1 = Throw e w'"
    unfolding ps(1) using run_each_skip[of qs "process_port U levels n b" w1 "p # ps"] skip by simp
  then have "ProcessInputs U levels n b w1 = Throw e w'"
    using w1(2) d by (simp add: ProcessInputs_def with_atomic_def with_accessor_def)
  then have "ProcessChildEventQueue U levels n (Suc k) h w = Throw e w'"
    using x(1,2) q(1,2) top w1(2) d
    by (simp add: with_composite_def with_accessor_def if_not_P[OF q(3)] w1_def[symmetric])
  moreover have "requested w' h" using h' x(4) by (simp add: requested_def)
  moreover have "b \<notin> queue_of w' h" using h' q(5) by (simp add: queue_of_def)
  moreover have "ReceiveData levels n p input w' = Ret () (w'\<lparr>ports := modify_port p (QueueInput input) (ports w')\<rparr>)" for input
    using pt(1,2,3,6) y' acc'(2)
    by (simp add: ReceiveData_def receive_data_def with_accessor_def IsInitialized_def IsWaitingForInputHandler_def del: IsComposite.simps)
  moreover have "ScheduleReaction (Suc m) h a prio w' = queue_child h a w'" for m a prio
    using h' x(3,4) by (simp add: with_composite_def with_accessor_def Let_def)
  ultimately show ?thesis using acc'(2) q' by blast
qed

definition failing :: "(nat, nat list) user_code" where
  "failing = recorder\<lparr>u_handler := (\<lambda>_ _ v. Throw OutOfRange v)\<rparr>"

lemma handler_exception_stalls_witness:
  "\<exists>w'. ProcessChildEventQueue failing 1 1 1 8 (busy ready_queue) = Throw OutOfRange w' \<and> requested w' 8 \<and>
     (\<forall>m d prio. ScheduleReaction (Suc m) 8 d prio w' = queue_child 8 d w')"
proof -
  let ?w = "busy ready_queue"
  have r: "reactions_ok_but {} {8} ?w" by (rule busy_ok) (simp_all add: ready_queue_def upq_ok_def heap_ok_def)
  have a: "accessors ?w 8 = Some (busy_host ready_queue)" "accessors ?w 2 = Some listener" by (simp_all add: busy_simps)
  have c: "m_reactionRequested ((plain_composite True [2])\<lparr>m_reactionRequested := True, m_childEventQueue := ready_queue\<rparr>)"
    "upq_top (m_childEventQueue ((plain_composite True [2])\<lparr>m_reactionRequested := True, m_childEventQueue := ready_queue\<rparr>)) = Inr 2"
    by (simp_all add: ready_queue_def upq_top_def)
  have l: "m_initialized listener" "GetInputPorts listener = [] @ 1 # []"
    by (simp_all add: listener_def GetInputPorts_def)
  have p: "waits (ports ?w) 1" by (simp add: waits_def busy_simps inbox_simps IsWaitingForInputHandler_def)
  have f: "\<forall>ev v. u_handler failing 10 ev v = Throw OutOfRange v" "is_std_exception OutOfRange" by (simp_all add: failing_def)
  show ?thesis
    using handler_exception_stalls[OF a(1) busy_host_simps c(1) r c(2) a(2) l(1) busy_ready l(2) _ p refl f, of 1 0] by auto
qed

end
