(* ===== verification/ReactionOrder.thy ===== *)
theory ReactionOrder
  imports ReactionRounds HostOrder
begin

text \<open>
  The order in which a reaction serves the accessors: \<open>ProcessChildEventQueue\<close> of
  \<open>src/src/CompositeAccessorImpl.cpp\<close> against a reference. The reference goes through the queued
  children of a composite once, in the order of their priorities, into a composite child before
  the next one, and serves each atomic accessor until none of its ports waits. That the queue is a
  heap, that accessors are queued again while the loop runs, and on every level of the tree, makes
  no difference. The last section shows a model in which this order is not the order of causality.
\<close>

section \<open>The reference\<close>

definition composite_at :: "('e, 'u) world \<Rightarrow> nat \<Rightarrow> bool" where
  "composite_at w a = (case accessors w a of None \<Rightarrow> False | Some x \<Rightarrow> IsComposite x)"

definition inputs_of :: "('e, 'u) world \<Rightarrow> nat \<Rightarrow> nat list" where
  "inputs_of w a = (case accessors w a of None \<Rightarrow> [] | Some x \<Rightarrow> GetInputPorts x)"

definition fires :: "('e, 'u) world \<Rightarrow> nat \<Rightarrow> bool" where
  "fires w a = (case accessors w a of None \<Rightarrow> False
     | Some x \<Rightarrow> (case a_kind x of Atomic d \<Rightarrow> m_hasFireFunction d | Composite _ \<Rightarrow> False))"

text \<open>One reaction of an atomic accessor, on the ports and the user's state.\<close>

definition react ::
  "('e, 'u) world \<Rightarrow> (nat \<Rightarrow> 'e option \<Rightarrow> 'u \<Rightarrow> 'u) \<Rightarrow> (nat \<Rightarrow> 'u \<Rightarrow> 'u) \<Rightarrow> (nat \<Rightarrow> nat list) \<Rightarrow> nat \<Rightarrow>
   'e port_store \<times> 'u \<Rightarrow> 'e port_store \<times> 'u" where
  "react w hu fu hs b = (\<lambda>(S, u). (handle_ports (inputs_of w b) S,
     (if fires w b then fu b else id) (fold (attend hu hs S) (inputs_of w b) u)))"

text \<open>How often a port has its handlers called before it waits no more: up to a null event.\<close>

definition turn :: "'e port_store \<Rightarrow> nat \<Rightarrow> nat" where
  "turn S p = (case S p of
     None \<Rightarrow> 0
   | Some pt \<Rightarrow> if IsWaitingForInputHandler pt then length (takeWhile (\<lambda>e. e \<noteq> None) (m_inputQueue pt)) else 0)"

definition turns :: "'e port_store \<Rightarrow> nat list \<Rightarrow> nat" where
  "turns S ps = foldr (\<lambda>p. max (turn S p)) ps 0"

definition serve ::
  "('e, 'u) world \<Rightarrow> (nat \<Rightarrow> 'e option \<Rightarrow> 'u \<Rightarrow> 'u) \<Rightarrow> (nat \<Rightarrow> 'u \<Rightarrow> 'u) \<Rightarrow> (nat \<Rightarrow> nat list) \<Rightarrow> nat \<Rightarrow>
   'e port_store \<times> 'u \<Rightarrow> 'e port_store \<times> 'u" where
  "serve w hu fu hs b s = (react w hu fu hs b ^^ max 1 (turns (fst s) (inputs_of w b))) s"

definition by_priority :: "('e, 'u) world \<Rightarrow> nat set \<Rightarrow> nat list" where
  "by_priority w B = sort_key (accessor_priority w) (sorted_list_of_set B)"

text \<open>The atomic accessors to serve, for queues \<open>Q\<close>, down to the given depth.\<close>

fun order :: "('e, 'u) world \<Rightarrow> (nat \<Rightarrow> nat set) \<Rightarrow> nat \<Rightarrow> nat \<Rightarrow> nat list" where
  "order w Q 0 a = []"
| "order w Q (Suc n) a =
     concat (map (\<lambda>b. if composite_at w b then order w Q n b else [b]) (by_priority w (Q a)))"

section \<open>Sorting\<close>

lemma set_by_priority: "finite B \<Longrightarrow> set (by_priority w B) = B"
  by (simp add: by_priority_def)

lemma by_priority_least:
  assumes f: "finite B" and i: "inj_on (accessor_priority w) B" and b: "b \<in> B"
    and least: "\<And>c. c \<in> B \<Longrightarrow> accessor_priority w b \<le> accessor_priority w c"
  shows "by_priority w B = b # by_priority w (B - {b})"
proof (rule map_sorted_distinct_set_unique[where f = "accessor_priority w"])
  have s: "set (by_priority w B) = B" "set (by_priority w (B - {b})) = B - {b}"
    using f by (simp_all add: set_by_priority)
  have d: "distinct (by_priority w B)" "distinct (by_priority w (B - {b}))" by (simp_all add: by_priority_def)
  have "set (b # by_priority w (B - {b})) = B" using s(2) b by auto
  with s(1) show "set (by_priority w B) = set (b # by_priority w (B - {b}))" by simp
  show "inj_on (accessor_priority w) (set (by_priority w B) \<union> set (b # by_priority w (B - {b})))"
    using i s b by (simp add: insert_absorb)
  show "distinct (map (accessor_priority w) (by_priority w B))" using d(1) s(1) i by (simp add: distinct_map)
  show "distinct (map (accessor_priority w) (b # by_priority w (B - {b})))"
    using d(2) s(2) i b by (auto simp: distinct_map dest: inj_onD intro: inj_on_subset)
  show "sorted (map (accessor_priority w) (by_priority w B))" by (simp add: by_priority_def)
  show "sorted (map (accessor_priority w) (b # by_priority w (B - {b})))"
    using s(2) least by (simp add: by_priority_def f)
qed

lemma order_unfold:
  assumes "finite (Q a)" and "inj_on (accessor_priority w) (Q a)" and "b \<in> Q a"
    and "\<And>c. c \<in> Q a \<Longrightarrow> accessor_priority w b \<le> accessor_priority w c"
  shows "order w Q (Suc n) a = (if composite_at w b then order w Q n b else [b]) @
    concat (map (\<lambda>b. if composite_at w b then order w Q n b else [b]) (by_priority w (Q a - {b})))"
  using by_priority_least[OF assms] by simp

section \<open>The turns of an accessor\<close>

lemma handled_turn:
  assumes "inputs_ok S"
  shows "turn (handle_ports ps S) p = (if p \<in> set ps then turn S p - 1 else turn S p)"
proof (cases "S p")
  case (Some pt)
  then have i: "input_ok pt" using assms by (simp add: inputs_ok_def)
  show ?thesis
  proof (cases "m_inputQueue pt")
    case Nil
    then show ?thesis using Some i
      by (simp add: turn_def handle_ports_def handled_def IsWaitingForInputHandler_def input_ok_def)
  next
    case (Cons e es)
    then show ?thesis using Some i
      by (cases es) (auto simp: turn_def handle_ports_def handled_def IsWaitingForInputHandler_def input_ok_def
          DequeueLatestInput_def Let_def)
  qed
qed (simp add: turn_def handle_ports_def)

lemma turn_waits: "inputs_ok S \<Longrightarrow> 0 < turn S p \<longleftrightarrow> waits S p"
proof (cases "S p")
  case (Some pt)
  moreover assume "inputs_ok S"
  ultimately have "input_ok pt" by (simp add: inputs_ok_def)
  with Some show ?thesis
    by (cases "m_inputQueue pt") (auto simp: turn_def waits_def IsWaitingForInputHandler_def input_ok_def)
qed (simp add: turn_def waits_def)

lemma turns_handled:
  assumes "inputs_ok S" and "set qs \<subseteq> set ps"
  shows "turns (handle_ports ps S) qs = turns S qs - 1"
  using assms(2) by (induction qs) (auto simp: turns_def handled_turn[OF assms(1)])

lemma turns_waits: "inputs_ok S \<Longrightarrow> 0 < turns S ps \<longleftrightarrow> (\<exists>p \<in> set ps. waits S p)"
proof (induction ps)
  case (Cons p ps)
  have "turns S (p # ps) = max (turn S p) (turns S ps)" by (simp add: turns_def)
  then have "0 < turns S (p # ps) \<longleftrightarrow> 0 < turn S p \<or> 0 < turns S ps" by linarith
  then show ?case using Cons turn_waits by auto
qed (simp add: turns_def)

text \<open>Serving an accessor is reacting once, and serving it again if one of its ports still waits.\<close>

lemma serve_step:
  assumes "inputs_ok (fst s)"
  shows "serve w hu fu hs b s = (let s' = react w hu fu hs b s in
    if \<exists>p \<in> set (inputs_of w b). waits (fst s') p then serve w hu fu hs b s' else s')"
proof -
  let ?ps = "inputs_of w b" and ?s' = "react w hu fu hs b s"
  have p: "fst ?s' = handle_ports ?ps (fst s)" by (simp add: react_def split: prod.split)
  then have ok: "inputs_ok (fst ?s')" using inputs_ok_handle[OF assms] by simp
  have t: "turns (fst ?s') ?ps = turns (fst s) ?ps - 1" unfolding p by (rule turns_handled[OF assms]) simp
  show ?thesis
  proof (cases "\<exists>p \<in> set ?ps. waits (fst ?s') p")
    case True
    then have "0 < turns (fst ?s') ?ps" using turns_waits[OF ok] by blast
    then have "max 1 (turns (fst s) ?ps) = Suc (max 1 (turns (fst ?s') ?ps))" using t by simp
    then show ?thesis using True by (simp add: serve_def Let_def funpow_swap1)
  next
    case False
    then have "turns (fst ?s') ?ps = 0" using turns_waits[OF ok, of ?ps] by blast
    then have "max 1 (turns (fst s) ?ps) = 1" using t by simp
    then show ?thesis using False by (simp add: serve_def Let_def)
  qed
qed

section \<open>The tree\<close>

definition parents :: "('e, 'u) world \<Rightarrow> (nat \<times> nat) set" where
  "parents w = {(b, a). \<exists>y. accessors w b = Some y \<and> m_parent y = Some a}"

text \<open>No accessor is as many levels as that below another.\<close>

definition shallow :: "('e, 'u) world \<Rightarrow> nat \<Rightarrow> nat \<Rightarrow> bool" where
  "shallow w n a \<longleftrightarrow> \<not> (\<exists>g. (g, a) \<in> parents w ^^ n)"

lemma parents_single: "(b, a) \<in> parents w \<Longrightarrow> (b, a') \<in> parents w \<Longrightarrow> a = a'"
  by (auto simp: parents_def)

lemma parents_shells:
  assumes s: "same_shells w w'"
  shows "parents w' = parents w"
proof -
  have "(\<exists>y. accessors w' b = Some y \<and> m_parent y = Some a) = (\<exists>y. accessors w b = Some y \<and> m_parent y = Some a)" for b a
  proof (cases "accessors w b")
    case None
    then have "accessors w' b = None" using same_shells_None[OF s] by blast
    with None show ?thesis by simp
  next
    case (Some y)
    then obtain y' where y': "accessors w' b = Some y'" using same_shells_Some[OF s] by blast
    then show ?thesis using same_shells_parent[OF s Some y'] Some by simp
  qed
  then show ?thesis by (simp add: parents_def)
qed

lemma hosted_up: "hosted w n a \<Longrightarrow> (a, g) \<in> (parents w)\<^sup>+ \<Longrightarrow> \<exists>m < n. hosted w m g"
proof (rotate_tac, induction rule: trancl_induct)
  case (base g)
  then show ?case by (cases n) (auto simp: parents_def)
next
  case (step g f)
  then obtain m where m: "m < n" "hosted w m g" by blast
  then obtain k where k: "m = Suc k" by (cases m) simp_all
  then have "hosted w k f" using m(2) step.hyps(2) by (auto simp: parents_def)
  then show ?case using m(1) k by (intro exI[of _ k]) simp
qed

lemma hosted_no_cycle: "hosted w n a \<Longrightarrow> (a, a) \<notin> (parents w)\<^sup>+"
proof (induction n rule: less_induct)
  case (less n)
  then show ?case using hosted_up by blast
qed

lemma hosted_child: "hosted w n a \<Longrightarrow> (b, a) \<in> parents w \<Longrightarrow> composite_at w b \<Longrightarrow> hosted w (Suc n) b"
  by (auto simp: parents_def composite_at_def simp del: IsComposite.simps)

lemma shallow_child: "shallow w (Suc n) a \<Longrightarrow> (b, a) \<in> parents w \<Longrightarrow> shallow w n b"
  unfolding shallow_def by (meson relpow_Suc_I)

text \<open>Nothing below one child is below another, and the parent is below none.\<close>

lemma siblings_apart:
  assumes c: "(a, a) \<notin> (parents w)\<^sup>+" and b: "(b, a) \<in> parents w" "(d, a) \<in> parents w" "b \<noteq> d"
  shows "(b, d) \<notin> (parents w)\<^sup>*"
proof
  assume "(b, d) \<in> (parents w)\<^sup>*"
  then have "(b, d) \<in> (parents w)\<^sup>+" using b(3) by (metis rtranclD)
  then obtain g where g: "(b, g) \<in> parents w" "(g, d) \<in> (parents w)\<^sup>*" by (meson tranclD)
  then have "(a, d) \<in> (parents w)\<^sup>*" using parents_single[OF b(1)] by blast
  then show False using b(2) c by (meson rtrancl_into_trancl1)
qed

lemma below_apart:
  assumes c: "(a, a) \<notin> (parents w)\<^sup>+" and b: "(b, a) \<in> parents w" "(d, a) \<in> parents w" "b \<noteq> d"
    and g: "(g, b) \<in> (parents w)\<^sup>*" "(g, d) \<in> (parents w)\<^sup>*"
  shows False
proof -
  have "single_valued (parents w)" by (auto simp: single_valued_def intro: parents_single)
  then have "(b, d) \<in> (parents w)\<^sup>* \<or> (d, b) \<in> (parents w)\<^sup>*" by (rule single_valued_confluent[OF _ g])
  then show False using siblings_apart[OF c b] siblings_apart[OF c b(2,1) not_sym[OF b(3)]] by simp
qed

lemma order_cong:
  assumes kids: "\<And>g b. b \<in> Q g \<Longrightarrow> (b, g) \<in> parents w" and fin: "\<And>g. finite (Q g)"
  shows "(\<And>g. (g, a) \<in> (parents w)\<^sup>* \<Longrightarrow> Q' g = Q g) \<Longrightarrow> order w Q' n a = order w Q n a"
proof (induction n arbitrary: a)
  case (Suc n)
  have same: "Q' a = Q a" using Suc.prems by blast
  have "order w Q' n b = order w Q n b" if "b \<in> Q a" for b
    by (rule Suc.IH, rule Suc.prems) (use kids[OF that] in \<open>meson rtrancl.rtrancl_into_rtrancl\<close>)
  then have "map (\<lambda>b. if composite_at w b then order w Q' n b else [b]) (by_priority w (Q a)) =
      map (\<lambda>b. if composite_at w b then order w Q n b else [b]) (by_priority w (Q a))"
    using set_by_priority[OF fin[of a], of w] by simp
  from arg_cong[OF this, of concat] show ?case by (simp add: same)
qed simp

lemma order_empty [simp]: "Q a = {} \<Longrightarrow> order w Q n a = []"
  by (cases n) (simp_all add: by_priority_def)

section \<open>Where a request for a reaction goes\<close>

text \<open>Queues gain at most the accessor that asks and its ancestors.\<close>

definition asks :: "nat \<Rightarrow> ('e, 'u) world \<Rightarrow> ('e, 'u) world \<Rightarrow> bool" where
  "asks b w w' \<longleftrightarrow> same_shells w w' \<and> ports w' = ports w \<and>
     (\<forall>g. queue_of w' g \<subseteq> queue_of w g \<union> (parents w)\<^sup>* `` {b})"

lemma asks_refl [simp]: "asks b w w"
  by (auto simp: asks_def same_shells_refl)

lemma asks_trans:
  assumes "asks b w v" and "asks b v u"
  shows "asks b w u"
proof -
  have "parents v = parents w" using assms(1) parents_shells unfolding asks_def by blast
  moreover have "same_shells w u" using same_shells_trans assms unfolding asks_def by blast
  ultimately show ?thesis using assms unfolding asks_def by (simp add: subset_iff) blast
qed

lemma asks_parent:
  assumes "asks a w w'" and "(b, a) \<in> parents w"
  shows "asks b w w'"
proof -
  have "(parents w)\<^sup>* `` {a} \<subseteq> (parents w)\<^sup>* `` {b}" using assms(2) by (auto intro: converse_rtrancl_into_rtrancl)
  then show ?thesis using assms(1) unfolding asks_def by (meson Un_mono order_refl order_trans)
qed

lemma asks_after: "asks b w v \<Longrightarrow> run_prop (asks b v) r \<Longrightarrow> run_prop (asks b w) r"
  by (auto elim: run_prop_mono intro: asks_trans)

lemma asks_bind: "run_prop (asks b w) r \<Longrightarrow> (\<And>x v. asks b w v \<Longrightarrow> run_prop (asks b v) (f x v)) \<Longrightarrow>
    run_prop (asks b w) (run_bind r f)"
  by (cases r) (auto intro: asks_after)

lemma queue_child_asks:
  fixes w :: "('e, 'u) world"
  shows "run_prop (asks b w) (queue_child a b w)"
proof (cases "accessors w a")
  case (Some x)
  show ?thesis
  proof (cases "a_kind x")
    case (Composite c)
    let ?w1 = "modify_composite a (\<lambda>c. c\<lparr>m_childEventQueue := upq_push (GreaterAccessorImplPtrs w) b (m_childEventQueue c)\<rparr>) w"
    have acc: "accessors ?w1 = (accessors w)(a \<mapsto> x\<lparr>a_kind := Composite
        (c\<lparr>m_childEventQueue := upq_push (GreaterAccessorImplPtrs w) b (m_childEventQueue c)\<rparr>)\<rparr>)"
      by (rule accessors_modify_composite[OF Some Composite])
    have "same_shells w ?w1" by (simp add: same_shells_def acc Some idle_def Composite)
    moreover have els: "set (m_elementsInQueue (upq_push f b q)) \<subseteq> insert b (set (m_elementsInQueue q))"
      for f and q :: "nat unique_priority_queue" by (auto simp: upq_push_def)
    have "queue_of ?w1 g \<subseteq> queue_of w g \<union> {b}" for g
      using els[of "GreaterAccessorImplPtrs w" "m_childEventQueue c"]
      by (cases "g = a") (auto simp: queue_of_def acc Some Composite)
    ultimately have "asks b w ?w1" by (fastforce simp: asks_def)
    then show ?thesis using Some Composite by (simp add: queue_child_def with_composite_def with_accessor_def)
  qed (simp add: queue_child_def with_composite_def with_accessor_def Some)
qed (simp add: queue_child_def with_composite_def with_accessor_def)

lemma request_asks: "asks b w (modify_composite a (\<lambda>c. c\<lparr>m_reactionRequested := r\<rparr>) w)"
proof -
  let ?w1 = "modify_composite a (\<lambda>c. c\<lparr>m_reactionRequested := r\<rparr>) w"
  have "map_option idle (accessors ?w1 d) = map_option idle (accessors w d) \<and> queue_of ?w1 d = queue_of w d" for d
    by (cases "accessors w d"; cases "a_kind (the (accessors w d))")
      (auto simp: modify_composite_def modify_accessor_def idle_def queue_of_def)
  then show ?thesis by (simp add: asks_def same_shells_def)
qed

lemma ScheduleCallback_asks:
  fixes w :: "('e, 'u) world"
  shows "run_prop (asks b w) (ScheduleCallback f delay p q w)"
  using ScheduleCallback_more[of w f delay p q]
proof (rule run_prop_mono)
  fix w' :: "('e, 'u) world"
  assume "dstate.more w' = dstate.more w"
  note same = world_of_more[OF this]
  then show "asks b w w'" by (simp add: asks_def same_shells_def queue_of_def)
qed

lemma ScheduleReaction_asks:
  fixes w :: "('e, 'u) world"
  shows "(b, a) \<in> parents w \<Longrightarrow> run_prop (asks b w) (ScheduleReaction n a b p w)"
proof (induction n arbitrary: a b p w)
  case (Suc n)
  show ?case
  proof (cases "accessors w a")
    case (Some x)
    show ?thesis
    proof (cases "a_kind x")
      case (Composite c)
      let ?p = "if p = INT_MAX then GetPriority x else p"
      let ?w0 = "modify_composite a (\<lambda>c. c\<lparr>m_reactionRequested := True\<rparr>) w"
      have up: "run_prop (asks b w) (run_bind (queue_child a b w) (\<lambda>_. ScheduleReaction n g a ?p))"
        if g: "m_parent x = Some g" for g
      proof (rule asks_bind[OF queue_child_asks])
        fix v :: "('e, 'u) world" assume "asks b w v"
        then have par: "parents v = parents w" using parents_shells unfolding asks_def by blast
        then have ag: "(a, g) \<in> parents v" using g Some by (simp add: parents_def)
        show "run_prop (asks b v) (ScheduleReaction n g a ?p v)"
          by (rule run_prop_mono[OF Suc.IH[OF ag]]) (use asks_parent Suc.prems par in blast)
      qed
      have call: "run_prop (asks b v) (with_director a (\<lambda>w1.
          run_bind (ScheduleCallback (ProcessQueueOf a) 0 False q w1) (\<lambda>_. Ret ())) v)" for v q
        using asks_bind[OF ScheduleCallback_asks[of b v "ProcessQueueOf a" 0 False q], of "\<lambda>_. Ret ()"]
        by (simp add: with_director_def split: option.split sum.split)
      have "run_prop (asks b w) (run_bind (queue_child a b ?w0) (\<lambda>_. with_director a (\<lambda>w1.
          run_bind (ScheduleCallback (ProcessQueueOf a) 0 False ?p w1) (\<lambda>_. Ret ()))))"
        by (rule asks_after[OF request_asks asks_bind[OF queue_child_asks call]])
      then show ?thesis using up queue_child_asks[of b w a] Some Composite
        by (cases "p = INT_MAX"; cases "m_parent x") (simp_all add: with_composite_def with_accessor_def Let_def)
    qed (simp add: with_composite_def with_accessor_def Some)
  qed (simp add: with_composite_def with_accessor_def)
qed simp

section \<open>One atomic accessor\<close>

fun returns :: "('a \<Rightarrow> 's \<Rightarrow> bool) \<Rightarrow> ('a, 's) run \<Rightarrow> bool" where
  "returns P (Ret x s) = P x s"
| "returns P (Throw e s) = True"
| "returns P Diverge = True"

lemma ends_returns: "ends E P r \<Longrightarrow> returns P r"
  by (cases r) simp_all

lemma run_prop_returns: "run_prop P r \<Longrightarrow> returns (\<lambda>_. P) r"
  by (cases r) simp_all

lemma returns_bind: "returns P r \<Longrightarrow> (\<And>x s. P x s \<Longrightarrow> returns Q (f x s)) \<Longrightarrow> returns Q (run_bind r f)"
  by (cases r) simp_all

lemma returns_mono: "returns P r \<Longrightarrow> (\<And>x s. P x s \<Longrightarrow> Q x s) \<Longrightarrow> returns Q r"
  by (cases r) simp_all

lemma returns_and: "returns P r \<Longrightarrow> returns Q r \<Longrightarrow> returns (\<lambda>x s. P x s \<and> Q x s) r"
  by (cases r) simp_all

lemma ends_returning: "ends E P r \<Longrightarrow> returns Q r \<Longrightarrow> ends E (\<lambda>x s. P x s \<and> Q x s) r"
  by (cases r) simp_all

text \<open>Queues gain at most an accessor and its ancestors, and only if one of its ports waits.\<close>

definition stirs :: "nat \<Rightarrow> nat list \<Rightarrow> ('e, 'u) world \<Rightarrow> ('e, 'u) world \<Rightarrow> bool" where
  "stirs a ps w w' \<longleftrightarrow> (\<forall>g. queue_of w' g \<subseteq> queue_of w g \<union> (parents w)\<^sup>* `` {a}) \<and>
     (queue_of w' = queue_of w \<or> (\<exists>p \<in> set ps. waits (ports w') p))"

lemma stirs_same: "queue_of w' = queue_of w \<Longrightarrow> stirs a ps w w'"
  by (auto simp: stirs_def)

lemma stirs_trans:
  assumes "stirs a [p] w w1" and "stirs a ps w1 w'" and "parents w1 = parents w"
    and "waits (ports w') p = waits (ports w1) p"
  shows "stirs a (p # ps) w w'"
  unfolding stirs_def
proof
  show "\<forall>g. queue_of w' g \<subseteq> queue_of w g \<union> (parents w)\<^sup>* `` {a}"
  proof
    fix g
    have "queue_of w1 g \<subseteq> queue_of w g \<union> (parents w)\<^sup>* `` {a}"
        "queue_of w' g \<subseteq> queue_of w1 g \<union> (parents w)\<^sup>* `` {a}"
      using assms(1-3) unfolding stirs_def by simp_all
    then show "queue_of w' g \<subseteq> queue_of w g \<union> (parents w)\<^sup>* `` {a}" by blast
  qed
  show "queue_of w' = queue_of w \<or> (\<exists>p \<in> set (p # ps). waits (ports w') p)"
    using assms(1,2,4) unfolding stirs_def by (cases "queue_of w' = queue_of w1") auto
qed

lemma process_port_stirs:
  fixes w :: "('e, 'u) world"
  assumes U: "polite w0 U hu fu" and n: "0 < n" and s: "same_shells w0 w" "director_ok w" and r: "ready levels hs w a"
    and x: "accessors w a = Some x" "p \<in> set (GetInputPorts x)"
  shows "returns (\<lambda>_. stirs a [p] w) (process_port U levels n a p w)"
proof -
  obtain pt where pt: "ports w p = Some pt" "m_destinations pt = []" using ready_port[OF r x] by blast
  show ?thesis
  proof (cases "IsWaitingForInputHandler pt")
    case False
    then show ?thesis using pt(1) by (simp add: process_port_def with_port_def stirs_same)
  next
    case True
    let ?pt1 = "DequeueLatestInput pt"
    let ?ask = "with_accessor a (\<lambda>x w. case m_parent x of None \<Rightarrow> Ret () w
        | Some g \<Rightarrow> ScheduleReaction levels g a (GetPriority x) w)"
    let ?next = "\<lambda>w. with_port p (\<lambda>pt w.
       let pt1 = DequeueLatestInput pt; w1 = w\<lparr>ports := (ports w)(p \<mapsto> pt1)\<rparr>
       in if \<not> IsWaitingForInputHandler pt1 then Ret () w1
          else run_bind (?ask w1) (\<lambda>_. SendData levels n p (ShareLatestInput pt1))) w"
    have "returns (\<lambda>_. stirs a [p] w) (run_bind (InvokeInputHandlers U a (p_name pt) w) (\<lambda>_. ?next))"
    proof (rule returns_bind[OF ends_returns[OF invoke_ok[OF U s r x pt(1)]]])
      fix u :: unit and w1 :: "('e, 'u) world"
      assume "schedules w w1 \<and> userState w1 = fold (\<lambda>h. hu h (GetLatestInput pt)) (hs p) (userState w)"
      then have sc: "schedules w w1" by blast
      note same = schedules_same[OF sc]
      have ps: "ports w1 p = Some pt" using sc pt(1) by (simp add: schedules_def)
      define w2 where "w2 = w1\<lparr>ports := (ports w1)(p \<mapsto> ?pt1)\<rparr>"
      have q2: "queue_of w2 = queue_of w" using same(1) by (simp add: w2_def queue_of_def fun_eq_iff)
      have p2: "parents w2 = parents w" using parents_shells[OF same(3)] by (simp add: w2_def parents_def)
      show "returns (\<lambda>_. stirs a [p] w) (?next w1)"
      proof (cases "IsWaitingForInputHandler ?pt1")
        case False
        then have "?next w1 = Ret () w2" using ps by (simp add: with_port_def w2_def)
        then show ?thesis using q2 by (simp add: stirs_same)
      next
        case True
        have "returns (\<lambda>_. asks a w2) (?ask w2)"
        proof (cases "accessors w2 a")
          case (Some y)
          then show ?thesis using run_prop_returns[OF ScheduleReaction_asks[of a _ w2]]
            by (simp add: with_accessor_def parents_def split: option.split)
        qed (simp add: with_accessor_def)
        then have "returns (\<lambda>_. stirs a [p] w) (run_bind (?ask w2) (\<lambda>_. SendData levels n p (ShareLatestInput ?pt1)))"
        proof (rule returns_bind)
          fix v :: unit and w3 :: "('e, 'u) world"
          assume w3: "asks a w2 w3"
          then have p3: "ports w3 p = Some ?pt1" by (simp add: asks_def w2_def)
          have "stirs a [p] w w3" using w3 True p3 q2 p2 by (simp add: stirs_def asks_def waits_def)
          moreover have "SendData levels n p (ShareLatestInput ?pt1) w3 = Ret () w3"
            using p3 pt(2) n by (cases n) (simp_all add: DequeueLatestInput_def Let_def)
          ultimately show "returns (\<lambda>_. stirs a [p] w) (SendData levels n p (ShareLatestInput ?pt1) w3)" by simp
        qed
        then show ?thesis using True ps by (simp add: with_port_def w2_def Let_def)
      qed
    qed
    then show ?thesis using True pt(1) by (simp add: process_port_def with_port_def[abs_def])
  qed
qed

lemma each_port_stirs:
  fixes w :: "('e, 'u) world"
  assumes U: "polite w0 U hu fu" and n: "0 < n"
  shows "same_shells w0 w \<Longrightarrow> ready levels hs w a \<Longrightarrow> accessors w a = Some x \<Longrightarrow> set ps \<subseteq> set (GetInputPorts x) \<Longrightarrow>
    distinct ps \<Longrightarrow> reactions_ok_but X R w \<Longrightarrow> inputs_alert_but Y w \<Longrightarrow>
    returns (\<lambda>_. stirs a ps w) (run_each (process_port U levels n a) ps w)"
proof (induction ps arbitrary: w x Y)
  case Nil
  then show ?case by (simp add: stirs_same)
next
  case (Cons p ps)
  have p: "p \<in> set (GetInputPorts x)" "p \<notin> set ps" "set ps \<subseteq> set (GetInputPorts x)" "distinct ps" using Cons.prems(4,5) by simp_all
  have "director_ok w" using Cons.prems(6) by (simp add: reactions_ok_but_def)
  note first = returns_and[OF ends_returns[OF process_port_ok[OF U Cons.prems(1,2,3) p(1) Cons.prems(6,7) n, where A = "{}"]]
      process_port_stirs[OF U n Cons.prems(1) this Cons.prems(2,3) p(1)]]
  show ?case
    unfolding run_each.simps
  proof (rule returns_bind[OF first], elim conjE)
    fix u :: unit and w1 :: "('e, 'u) world"
    assume w1: "reactions_ok_but X R w1" "inputs_alert_but (Y - {p}) w1" "carries w w1"
      "ports w1 = (ports w)(p := map_option handled (ports w p))" and st: "stirs a [p] w w1"
    obtain x1 where x1: "ready levels hs w1 a" "accessors w1 a = Some x1" "GetInputPorts x1 = GetInputPorts x"
      using carries_ready[OF w1(3) Cons.prems(2,3)] by blast
    have shells: "same_shells w w1" using w1(3) by (simp add: carries_def same_wiring_def)
    note s1 = same_shells_trans[OF Cons.prems(1) shells]
    have sub: "set ps \<subseteq> set (GetInputPorts x1)" using x1(3) p(3) by simp
    note rest = returns_and[OF Cons.IH[OF s1 x1(1,2) sub p(4) w1(1,2)]
        ends_returns[OF each_port_ok[OF U n s1 x1(1,2) sub p(4) w1(1,2), where A = "{}"]]]
    show "returns (\<lambda>_. stirs a (p # ps) w) (run_each (process_port U levels n a) ps w1)"
    proof (rule returns_mono[OF rest], elim conjE)
      fix v :: unit and w' :: "('e, 'u) world"
      assume st': "stirs a ps w1 w'" and ports: "ports w' = handle_ports ps (ports w1)"
      have "waits (ports w') p = waits (ports w1) p" using p(2) by (simp add: ports waits_def handle_ports_def)
      then show "stirs a (p # ps) w w'"
        by (rule stirs_trans[OF st st' parents_shells[OF shells]])
    qed
  qed
qed

lemma ProcessInputs_stirs:
  fixes w :: "('e, 'u) world"
  assumes U: "polite w0 U hu fu" and n: "0 < n" and s: "same_shells w0 w" and r: "ready levels hs w a"
    and x: "accessors w a = Some x" and ok: "reactions_ok_but X R w" and al: "inputs_alert_but Y w"
  shows "returns (\<lambda>_. stirs a (GetInputPorts x) w) (ProcessInputs U levels n a w)"
proof -
  let ?ps = "GetInputPorts x"
  let ?fire = "with_atomic a (\<lambda>x d w. if m_hasFireFunction d then u_fire U a w else Ret () w)"
  have d: "distinct ?ps" "\<exists>d. a_kind x = Atomic d" using r x unfolding ready_def by auto
  note each = returns_and[OF each_port_stirs[OF U n s r x subset_refl d(1) ok al]
      ends_returns[OF each_port_ok[OF U n s r x subset_refl d(1) ok al, where A = "{}"]]]
  have "returns (\<lambda>_. stirs a ?ps w) (run_bind (run_each (process_port U levels n a) ?ps w) (\<lambda>_. ?fire))"
  proof (rule returns_bind[OF each], elim conjE)
    fix u :: unit and w1 :: "('e, 'u) world"
    assume st: "stirs a ?ps w w1" and w1: "reactions_ok_but X R w1" "carries w w1"
    have "same_shells w0 w1" "director_ok w1" using w1 same_shells_trans[OF s]
      by (simp_all add: carries_def same_wiring_def reactions_ok_but_def)
    with U have "ends own_failure (\<lambda>_ w'. schedules w1 w' \<and> userState w' = fu a (userState w1)) (u_fire U a w1)"
      unfolding polite_def by (blast intro: ends_or_ends)
    then have "returns (\<lambda>_. stirs a ?ps w) (u_fire U a w1)"
    proof (rule returns_mono[OF ends_returns])
      fix v :: unit and w' :: "('e, 'u) world"
      assume "schedules w1 w' \<and> userState w' = fu a (userState w1)"
      then have "queue_of w' = queue_of w1" "ports w' = ports w1" using schedules_same(1) by (auto simp: schedules_def)
      with st show "stirs a ?ps w w'" by (simp add: stirs_def)
    qed
    then show "returns (\<lambda>_. stirs a ?ps w) (?fire w1)"
      using st by (simp add: with_atomic_def with_accessor_def split: option.split accessor_kind.split)
  qed
  then show ?thesis using x d(2) by (auto simp: ProcessInputs_def with_atomic_def[abs_def] with_accessor_def cong: if_cong)
qed

section \<open>What is left after a child was served\<close>

lemma served_child:
  assumes cyc: "(a, a) \<notin> (parents w)\<^sup>+" and kids: "\<And>g c. c \<in> Q g \<Longrightarrow> (c, g) \<in> parents w"
    and kids2: "\<And>g c. c \<in> Q2 g \<Longrightarrow> (c, g) \<in> parents w" and fin: "\<And>g. finite (Q g)" and b: "b \<in> Q a"
    and up: "\<And>g. Q2 g \<subseteq> (Q(a := Q a - {b})) g \<union> (parents w)\<^sup>* `` {b}"
    and low: "\<And>g. (g, b) \<notin> (parents w)\<^sup>* \<Longrightarrow> (Q(a := Q a - {b})) g \<subseteq> Q2 g"
  shows "Q2 a - {b} = Q a - {b}" and "\<And>c. c \<in> Q a - {b} \<Longrightarrow> order w Q2 n c = order w Q n c"
    and "order w (Q(a := Q a - {b})) n b = order w Q n b"
proof -
  have ba: "(b, a) \<in> parents w" using kids[OF b] .
  have na: "(a, c) \<notin> (parents w)\<^sup>*" if "(c, a) \<in> parents w" for c
    using cyc that by (meson rtrancl_into_trancl1)
  have "c \<in> Q a - {b}" if c: "c \<in> Q2 a - {b}" for c
  proof -
    have "(b, c) \<notin> (parents w)\<^sup>*" using siblings_apart[OF cyc ba kids2] c by blast
    then show ?thesis using up[of a] c by auto
  qed
  moreover have "Q a - {b} \<subseteq> Q2 a" using low[OF na[OF ba]] by simp
  ultimately show "Q2 a - {b} = Q a - {b}" by blast
  show "order w (Q(a := Q a - {b})) n b = order w Q n b"
    by (rule order_cong[OF kids fin]) (use na[OF ba] in auto)
  fix c assume c: "c \<in> Q a - {b}"
  then have ca: "(c, a) \<in> parents w" "b \<noteq> c" using kids by auto
  show "order w Q2 n c = order w Q n c"
  proof (rule order_cong[OF kids fin])
    fix g assume g: "(g, c) \<in> (parents w)\<^sup>*"
    then have "g \<noteq> a" using na[OF ca(1)] by blast
    then have Q1: "(Q(a := Q a - {b})) g = Q g" by simp
    have "(g, b) \<notin> (parents w)\<^sup>*" using below_apart[OF cyc ba ca(1,2)] g by blast
    then have "Q g \<subseteq> Q2 g" using low Q1 by metis
    moreover have "(b, d) \<notin> (parents w)\<^sup>*" if "d \<in> Q2 g" for d
    proof
      assume "(b, d) \<in> (parents w)\<^sup>*"
      then have "(b, c) \<in> (parents w)\<^sup>*" using kids2[OF that] g by (meson converse_rtrancl_into_rtrancl rtrancl_trans)
      then show False using siblings_apart[OF cyc ba ca] by blast
    qed
    then have "Q2 g \<subseteq> Q g" using up[of g] Q1 by auto
    ultimately show "Q2 g = Q g" by blast
  qed
qed

text \<open>The order after a child was served: it is at the front again if it is queued again.\<close>

lemma order_after:
  assumes fin: "finite (Q a)" "finite (Q2 a)" and i: "inj_on (accessor_priority w) (Q a)" and b: "b \<in> Q a"
    and least: "\<And>c. c \<in> Q a \<Longrightarrow> accessor_priority w b \<le> accessor_priority w c"
    and rest: "Q2 a - {b} = Q a - {b}" "\<And>c. c \<in> Q a - {b} \<Longrightarrow> order w Q2 n c = order w Q n c"
  shows "\<exists>later. order w Q (Suc n) a = (if composite_at w b then order w Q n b else [b]) @ later \<and>
    order w Q2 (Suc n) a = (if b \<in> Q2 a then if composite_at w b then order w Q2 n b else [b] else []) @ later"
proof (intro exI conjI)
  let ?f = "\<lambda>Q b. if composite_at w b then order w Q n b else [b]"
  let ?later = "concat (map (?f Q) (by_priority w (Q a - {b})))"
  show "order w Q (Suc n) a = ?f Q b @ ?later" by (rule order_unfold[where Q = Q and a = a]) (use fin i b least in auto)
  have "set (by_priority w (Q a - {b})) = Q a - {b}" using fin(1) by (simp add: set_by_priority)
  then have "map (?f Q2) (by_priority w (Q a - {b})) = map (?f Q) (by_priority w (Q a - {b}))" using rest(2) by simp
  then have same: "concat (map (?f Q2) (by_priority w (Q a - {b}))) = ?later" by (rule arg_cong)
  show "order w Q2 (Suc n) a = (if b \<in> Q2 a then ?f Q2 b else []) @ ?later"
  proof (cases "b \<in> Q2 a")
    case True
    then have Q2: "Q2 a = Q a" using rest(1) b by blast
    have "order w Q2 (Suc n) a = ?f Q2 b @ concat (map (?f Q2) (by_priority w (Q2 a - {b})))"
      by (rule order_unfold[where Q = Q2 and a = a]) (use fin True i least Q2 in auto)
    then show ?thesis using True rest(1) same by simp
  next
    case False
    then have "Q2 a = Q a - {b}" using rest(1) by blast
    then show ?thesis using False same by simp
  qed
qed

section \<open>The loop\<close>

lemma queued_child:
  assumes "queues_ok w" and "b \<in> queue_of w a"
  shows "(b, a) \<in> parents w"
proof -
  obtain x c where "accessors w a = Some x" "a_kind x = Composite c"
    using assms(2) by (auto simp: queue_of_def split: option.splits accessor_kind.splits)
  then show ?thesis using assms unfolding queues_ok_def parents_def by blast
qed

text \<open>No two children of a composite have the same priority.\<close>

definition ranked :: "('e, 'u) world \<Rightarrow> bool" where
  "ranked w \<longleftrightarrow> (\<forall>a. inj_on (accessor_priority w) {b. (b, a) \<in> parents w})"

text \<open>Priorities that are distinct on the whole tree (as \<open>ComputeAccessorPriorities\<close> gives them) will do.\<close>

lemma ranked_distinct:
  assumes "inj_on (prio w) A" and "\<And>b a. (b, a) \<in> parents w \<Longrightarrow> b \<in> A"
  shows "ranked w"
proof -
  have "accessor_priority w = prio w"
    by (simp add: fun_eq_iff accessor_priority_def prio_def GetPriority_def split: option.split)
  then show ?thesis using assms unfolding ranked_def by (auto intro: inj_on_subset)
qed

definition served ::
  "('e, 'u) world \<Rightarrow> (nat \<Rightarrow> 'e option \<Rightarrow> 'u \<Rightarrow> 'u) \<Rightarrow> (nat \<Rightarrow> 'u \<Rightarrow> 'u) \<Rightarrow> (nat \<Rightarrow> nat list) \<Rightarrow> nat \<Rightarrow> nat \<Rightarrow>
   ('e, 'u) world \<Rightarrow> ('e, 'u) world \<Rightarrow> bool" where
  "served w0 hu fu hs d a w w' \<longleftrightarrow>
     (ports w', userState w') = fold (serve w0 hu fu hs) (order w0 (queue_of w) d a) (ports w, userState w) \<and>
     (\<forall>g. queue_of w' g \<subseteq> queue_of w g \<union> (parents w0)\<^sup>* `` {a}) \<and>
     (\<forall>g. (g, a) \<notin> (parents w0)\<^sup>* \<longrightarrow> queue_of w g \<subseteq> queue_of w' g)"

lemma same_shells_atomic:
  assumes s: "same_shells w0 w" and x: "accessors w b = Some x"
  shows "inputs_of w0 b = (if IsComposite x then inputs_of w0 b else GetInputPorts x)"
    and "a_kind x = Atomic d \<Longrightarrow> fires w0 b = m_hasFireFunction d" and "composite_at w0 b = IsComposite x"
proof -
  have "accessors w0 b \<noteq> None" using same_shells_None[OF s, of b] x by simp
  then obtain x0 where x0: "accessors w0 b = Some x0" by blast
  then have i: "idle x = idle x0" using same_shells_Some[OF s x0] x by auto
  show "composite_at w0 b = IsComposite x" using x0 idle_parts(6)[OF i] by (simp add: composite_at_def del: IsComposite.simps)
  show "fires w0 b = m_hasFireFunction d" if "a_kind x = Atomic d"
    using idle_atomic(1)[OF i[symmetric] that] x0 by (simp add: fires_def)
  show "inputs_of w0 b = (if IsComposite x then inputs_of w0 b else GetInputPorts x)"
  proof (cases "a_kind x")
    case (Atomic d)
    then show ?thesis using idle_atomic(3)[OF i[symmetric] Atomic] x0 by (simp add: inputs_of_def)
  qed simp
qed

text \<open>An atomic child reacts once, and is queued again exactly when one of its ports still waits.\<close>

lemma child_reacts_once:
  fixes w :: "('e, 'u) world"
  assumes U: "polite w0 U hu fu" and n: "0 < n" and st: "staffed w0 levels hs w"
    and y: "accessors w b = Some y" "\<not> IsComposite y" "m_parent y = Some a" and ok: "reactions_ok_but (insert b X) R w"
    and al: "inputs_alert_but {p. \<exists>pt. ports w p = Some pt \<and> p_owner pt = b \<and> p_kind pt = InputPort} w"
    and nq: "b \<notin> queue_of w a"
  shows "returns (\<lambda>_ w'. (ports w', userState w') = react w0 hu fu hs b (ports w, userState w) \<and>
      (\<forall>g. queue_of w g \<subseteq> queue_of w' g) \<and> (\<forall>g. queue_of w' g \<subseteq> queue_of w g \<union> (parents w0)\<^sup>* `` {b}) \<and>
      (b \<in> queue_of w' a \<longleftrightarrow> (\<exists>p \<in> set (inputs_of w0 b). waits (ports w') p)))
    (ProcessInputs U levels n b w)"
proof -
  obtain d where d: "a_kind y = Atomic d" using y(2) by (cases "a_kind y") simp_all
  have r: "ready levels hs w b" using st y(1,2) unfolding staffed_def by blast
  have s: "same_shells w0 w" using st by (simp add: staffed_def)
  have ins: "inputs_of w0 b = GetInputPorts y" "fires w0 b = m_hasFireFunction d"
    using same_shells_atomic(1,2)[OF s y(1)] y(2) d by simp_all
  have "{p. \<exists>pt. ports w p = Some pt \<and> p_owner pt = b \<and> p_kind pt = InputPort} \<subseteq> set (GetInputPorts y)"
    using r unfolding ready_def using y(1) by auto
  then have al': "inputs_alert_but ({} \<union> set (GetInputPorts y)) w" using al unfolding inputs_alert_but_def by blast
  have "queue_of w b = {}" using y(1) d by (simp add: queue_of_def)
  then have "announced w b" by (simp add: announced_def)
  then have ok': "reactions_ok_but X R w" by (rule reactions_ok_close[OF ok])
  note run = returns_and[OF ends_returns[OF ProcessInputs_ok[OF U n s r y(1) d ok' al', where A = "{}"]]
      ProcessInputs_stirs[OF U n s r y(1) ok' al']]
  show ?thesis
  proof (rule returns_mono[OF run], elim conjE)
    fix u :: unit and w' :: "('e, 'u) world"
    assume i: "inputs_alert_but ({} - set (GetInputPorts y)) w'" and c: "carries w w'"
      and p: "ports w' = handle_ports (GetInputPorts y) (ports w)"
        "userState w' = (if m_hasFireFunction d then fu b else id) (fold (attend hu hs (ports w)) (GetInputPorts y) (userState w))"
      and st: "stirs b (GetInputPorts y) w w'"
    have "b \<in> queue_of w' a" if q: "q \<in> set (GetInputPorts y)" "waits (ports w') q" for q
    proof -
      have wire: "same_wiring w w'" using c by (simp add: carries_def)
      have shells: "same_shells w w'" using wire by (simp add: same_wiring_def)
      obtain qt where qt: "ports w q = Some qt" "p_owner qt = b" "p_kind qt = InputPort" using ready_port[OF r y(1) q(1)] by blast
      obtain qt' where qt': "ports w' q = Some qt'" "wiring qt' = wiring qt" using same_wiring_Some[OF wire qt(1)] by blast
      obtain y' where y': "accessors w' b = Some y'" "idle y' = idle y" using same_shells_Some[OF shells y(1)] by blast
      have "takes qt' y'" "m_parent y' = Some a" "p_owner qt' = b"
        using wiring_parts[OF qt'(2)] qt idle_parts(1,6)[OF y'(2)] y(2,3) by (simp_all add: takes_def del: IsComposite.simps)
      moreover have "m_waitingForInputHandler qt'" using q(2) qt'(1) by (simp add: waits_def IsWaitingForInputHandler_def)
      ultimately show ?thesis using i qt'(1) y'(1) unfolding inputs_alert_but_def by blast
    qed
    moreover have "\<exists>p \<in> set (GetInputPorts y). waits (ports w') p" if "b \<in> queue_of w' a"
      using st nq that unfolding stirs_def by auto
    moreover have "(ports w', userState w') = react w0 hu fu hs b (ports w, userState w)" using p ins by (simp add: react_def)
    moreover have "\<forall>g. queue_of w' g \<subseteq> queue_of w g \<union> (parents w0)\<^sup>* `` {b}"
      using st parents_shells[OF s] by (simp add: stirs_def)
    ultimately show "(ports w', userState w') = react w0 hu fu hs b (ports w, userState w) \<and>
        (\<forall>g. queue_of w g \<subseteq> queue_of w' g) \<and> (\<forall>g. queue_of w' g \<subseteq> queue_of w g \<union> (parents w0)\<^sup>* `` {b}) \<and>
        (b \<in> queue_of w' a \<longleftrightarrow> (\<exists>p \<in> set (inputs_of w0 b). waits (ports w') p))"
      using c ins(1) unfolding carries_def by metis
  qed
qed

text \<open>Serving a child first and then what is queued is serving what was queued.\<close>

lemma order_step:
  assumes h: "(a, a) \<notin> (parents w)\<^sup>+" "\<And>g c. c \<in> Q g \<Longrightarrow> (c, g) \<in> parents w"
    "\<And>g c. c \<in> Q2 g \<Longrightarrow> (c, g) \<in> parents w" "\<And>g. finite (Q g)" "b \<in> Q a"
    "\<And>g. Q2 g \<subseteq> (Q(a := Q a - {b})) g \<union> (parents w)\<^sup>* `` {b}"
    "\<And>g. (g, b) \<notin> (parents w)\<^sup>* \<Longrightarrow> (Q(a := Q a - {b})) g \<subseteq> Q2 g"
    and i: "inj_on (accessor_priority w) (Q a)" and fin: "finite (Q2 a)"
    and least: "\<And>c. c \<in> Q a \<Longrightarrow> accessor_priority w b \<le> accessor_priority w c"
    and step: "if composite_at w b
      then Q2 b = {} \<and> s2 = fold (serve w hu fu hs) (order w (Q(a := Q a - {b})) n b) s
      else inputs_ok (fst s) \<and> s2 = react w hu fu hs b s \<and> (b \<in> Q2 a \<longleftrightarrow> (\<exists>p \<in> set (inputs_of w b). waits (fst s2) p))"
  shows "fold (serve w hu fu hs) (order w Q2 (Suc n) a) s2 = fold (serve w hu fu hs) (order w Q (Suc n) a) s"
proof -
  note rest = served_child[where Q = Q and ?Q2.0 = Q2 and b = b and a = a, OF h]
  obtain later where later: "order w Q (Suc n) a = (if composite_at w b then order w Q n b else [b]) @ later"
      "order w Q2 (Suc n) a = (if b \<in> Q2 a then if composite_at w b then order w Q2 n b else [b] else []) @ later"
    using order_after[where Q = Q and ?Q2.0 = Q2 and a = a and b = b and n = n, OF h(4) fin i h(5) least rest(1,2)] by blast
  show ?thesis
  proof (cases "composite_at w b")
    case True
    then show ?thesis using later step rest(3) by simp
  next
    case False
    then have "serve w hu fu hs b s = (if b \<in> Q2 a then serve w hu fu hs b s2 else s2)"
      using step serve_step[of s w hu fu hs b] by (simp add: Let_def)
    then show ?thesis using later False by simp
  qed
qed

lemma served_trans:
  assumes q1: "queue_of w1 = (queue_of w)(a := queue_of w a - {b})" and b: "b \<in> queue_of w a" "(b, a) \<in> parents w0"
    and up: "\<And>g. queue_of w2 g \<subseteq> queue_of w1 g \<union> (parents w0)\<^sup>* `` {b}"
    and low: "\<And>g. (g, b) \<notin> (parents w0)\<^sup>* \<Longrightarrow> queue_of w1 g \<subseteq> queue_of w2 g"
    and same: "fold (serve w0 hu fu hs) (order w0 (queue_of w2) d a) (ports w2, userState w2) =
      fold (serve w0 hu fu hs) (order w0 (queue_of w) d a) (ports w, userState w)"
    and s: "served w0 hu fu hs d a w2 w'" and kids: "\<And>g c. c \<in> queue_of w2 g \<Longrightarrow> (c, g) \<in> parents w0"
    and cyc: "(a, a) \<notin> (parents w0)\<^sup>+"
  shows "served w0 hu fu hs d a w w'"
  unfolding served_def
proof (intro conjI allI impI)
  show "(ports w', userState w') = fold (serve w0 hu fu hs) (order w0 (queue_of w) d a) (ports w, userState w)"
    using s same by (simp add: served_def)
  fix g
  have "queue_of w2 g \<subseteq> queue_of w' g" if "(g, a) \<notin> (parents w0)\<^sup>*" using s that by (simp add: served_def)
  moreover have "g \<noteq> a" "(g, b) \<notin> (parents w0)\<^sup>*" if "(g, a) \<notin> (parents w0)\<^sup>*" using that b(2) by (auto intro: rtrancl_into_rtrancl)
  ultimately show "queue_of w g \<subseteq> queue_of w' g" if "(g, a) \<notin> (parents w0)\<^sup>*" using low[of g] that by (auto simp: q1)
  show "queue_of w' g \<subseteq> queue_of w g \<union> (parents w0)\<^sup>* `` {a}"
  proof
    fix c assume c: "c \<in> queue_of w' g"
    have w': "queue_of w' g \<subseteq> queue_of w2 g \<union> (parents w0)\<^sup>* `` {a}" using s by (simp add: served_def)
    then have "c \<in> queue_of w1 g \<or> (b, c) \<in> (parents w0)\<^sup>* \<or> (a, c) \<in> (parents w0)\<^sup>*" using c up[of g] by blast
    moreover have "(a, c) \<in> (parents w0)\<^sup>*" if "(b, c) \<in> (parents w0)\<^sup>*" "c \<noteq> b"
      using that b(2) parents_single by (metis converse_rtranclE)
    moreover have "g = a" if "c = b"
    proof -
      have "(a, b) \<notin> (parents w0)\<^sup>*" using cyc b(2) by (meson rtrancl_into_trancl1)
      then have "b \<in> queue_of w2 g" using w' c that by blast
      then show ?thesis using parents_single[OF kids] b(2) by blast
    qed
    ultimately show "c \<in> queue_of w g \<union> (parents w0)\<^sup>* `` {a}" using b(1) by (auto simp: q1 split: if_splits)
  qed
qed

text \<open>The state after a child was served, and what the call of the child did.\<close>

definition fit :: "('e, 'u) world \<Rightarrow> nat \<Rightarrow> (nat \<Rightarrow> nat list) \<Rightarrow> nat set \<Rightarrow> nat set \<Rightarrow> ('e, 'u) world \<Rightarrow> bool" where
  "fit w0 levels hs X R w \<longleftrightarrow> reactions_ok_but X R w \<and> inputs_alert_but {} w \<and> staffed w0 levels hs w"

definition child_done ::
  "('e, 'u) world \<Rightarrow> (nat \<Rightarrow> 'e option \<Rightarrow> 'u \<Rightarrow> 'u) \<Rightarrow> (nat \<Rightarrow> 'u \<Rightarrow> 'u) \<Rightarrow> (nat \<Rightarrow> nat list) \<Rightarrow> nat \<Rightarrow> nat \<Rightarrow> nat \<Rightarrow>
   ('e, 'u) world \<Rightarrow> ('e, 'u) world \<Rightarrow> bool" where
  "child_done w0 hu fu hs e a b w w' \<longleftrightarrow>
     (\<forall>g. queue_of w' g \<subseteq> queue_of w g \<union> (parents w0)\<^sup>* `` {b}) \<and>
     (\<forall>g. (g, b) \<notin> (parents w0)\<^sup>* \<longrightarrow> queue_of w g \<subseteq> queue_of w' g) \<and>
     (if composite_at w0 b
      then queue_of w' b = {} \<and> (ports w', userState w') = fold (serve w0 hu fu hs) (order w0 (queue_of w) e b) (ports w, userState w)
      else inputs_ok (ports w) \<and> (ports w', userState w') = react w0 hu fu hs b (ports w, userState w) \<and>
        (b \<in> queue_of w' a \<longleftrightarrow> (\<exists>p \<in> set (inputs_of w0 b). waits (ports w') p)))"

lemma child_served:
  fixes w :: "('e, 'u) world"
  assumes U: "polite w0 U hu fu" and n: "0 < n" and st: "staffed w0 levels hs w" and y: "accessors w b = Some y" "m_parent y = Some a"
    and ok: "reactions_ok_but (insert b X) R w"
    and al: "inputs_alert_but {p. \<exists>pt. ports w p = Some pt \<and> p_owner pt = b \<and> p_kind pt = InputPort} w"
    and less: "load levels w < k" and nq: "b \<notin> queue_of w a"
    and loop: "IsComposite y \<Longrightarrow> inputs_alert_but {} w \<Longrightarrow>
      returns (\<lambda>_. served w0 hu fu hs e b w) (ProcessChildEventQueue U levels n k b w)"
  shows "returns (\<lambda>_ w'. (fit w0 levels hs X R w' \<and> load levels w' \<le> load levels w) \<and> child_done w0 hu fu hs e a b w w')
    (if IsComposite y then ProcessChildEventQueue U levels n k b w else ProcessInputs U levels n b w)"
proof -
  have s: "same_shells w0 w" using st by (simp add: staffed_def)
  note comp = same_shells_atomic(3)[OF s y(1)]
  show ?thesis
  proof (cases "IsComposite y")
    case True
    have al0: "inputs_alert_but {} w"
      unfolding inputs_alert_but_def
    proof (intro allI impI)
      fix p pt z g
      assume h: "p \<notin> {} \<and> ports w p = Some pt \<and> accessors w (p_owner pt) = Some z \<and> takes pt z \<and>
        m_waitingForInputHandler pt \<and> m_parent z = Some g"
      then have "p_owner pt \<noteq> b" using True y(1) by (auto simp: takes_def)
      then have "p \<notin> {p. \<exists>pt. ports w p = Some pt \<and> p_owner pt = b \<and> p_kind pt = InputPort}" using h by auto
      then show "p_owner pt \<in> queue_of w g" using al h unfolding inputs_alert_but_def by blast
    qed
    note run = returns_and[OF ends_returns[OF queue_loop_ok[OF U n st y(1) True ok al0 less]] loop[OF True al0]]
    have "returns (\<lambda>_ w'. (fit w0 levels hs X R w' \<and> load levels w' \<le> load levels w) \<and> child_done w0 hu fu hs e a b w w')
        (ProcessChildEventQueue U levels n k b w)"
      by (rule returns_mono[OF run]) (use comp True in \<open>auto simp: fit_def child_done_def served_def intro: reactions_ok_fewer\<close>)
    then show ?thesis using True by simp
  next
    case False
    note run = returns_and[OF ends_returns[OF child_reacts[OF U n st y(1) False ok al]]
        child_reacts_once[OF U n st y(1) False y(2) ok al nq]]
    have i: "inputs_ok (ports w)" using st by (simp add: staffed_def)
    have "returns (\<lambda>_ w'. (fit w0 levels hs X R w' \<and> load levels w' \<le> load levels w) \<and> child_done w0 hu fu hs e a b w w')
        (ProcessInputs U levels n b w)"
      by (rule returns_mono[OF run]) (use comp False i in \<open>simp add: fit_def child_done_def\<close>)
    then show ?thesis using False by simp
  qed
qed

lemma fit_kids:
  assumes "fit w0 levels hs X R w" and "b \<in> queue_of w a"
  shows "(b, a) \<in> parents w0"
proof -
  have s: "same_shells w0 w" and q: "queues_ok w" using assms(1) by (simp_all add: fit_def staffed_def reactions_ok_but_def)
  show ?thesis using queued_child[OF q assms(2)] parents_shells[OF s] by simp
qed

text \<open>A turn of the loop: the least child is taken out and served, then the rest of the loop runs.\<close>

lemma loop_step:
  fixes w :: "('e, 'u) world"
  assumes rk: "ranked w0" and h: "hosted w0 m a" and fw: "fit w0 levels hs X R w" and fw2: "fit w0 levels hs X' R' w2"
    and b: "b \<in> queue_of w a" "\<And>c. c \<in> queue_of w a \<Longrightarrow> accessor_priority w b \<le> accessor_priority w c"
    and w1: "queue_of w1 = (queue_of w)(a := queue_of w a - {b})" "ports w1 = ports w" "userState w1 = userState w"
    and child: "child_done w0 hu fu hs e a b w1 w2" and s: "served w0 hu fu hs (Suc e) a w2 w'"
  shows "served w0 hu fu hs (Suc e) a w w'"
proof -
  note kids = fit_kids[OF fw] and kids2 = fit_kids[OF fw2]
  have cyc: "(a, a) \<notin> (parents w0)\<^sup>+" using hosted_no_cycle[OF h] .
  have "same_shells w0 w" using fw by (simp add: fit_def staffed_def)
  then have same_prio: "accessor_priority w = accessor_priority w0" by (rule same_shells_priority)
  have up: "queue_of w2 g \<subseteq> queue_of w1 g \<union> (parents w0)\<^sup>* `` {b}"
    and low: "(g, b) \<notin> (parents w0)\<^sup>* \<Longrightarrow> queue_of w1 g \<subseteq> queue_of w2 g" for g
    using child by (simp_all add: child_done_def)
  have "queue_of w a \<subseteq> {b. (b, a) \<in> parents w0}" using kids by blast
  with rk have i: "inj_on (accessor_priority w0) (queue_of w a)" unfolding ranked_def by (blast intro: inj_on_subset)
  have "fold (serve w0 hu fu hs) (order w0 (queue_of w2) (Suc e) a) (ports w2, userState w2) =
      fold (serve w0 hu fu hs) (order w0 (queue_of w) (Suc e) a) (ports w, userState w)"
  proof (rule order_step[where Q = "queue_of w" and ?Q2.0 = "queue_of w2" and a = a and b = b, OF cyc kids kids2 _ b(1)])
    show "queue_of w2 g \<subseteq> ((queue_of w)(a := queue_of w a - {b})) g \<union> (parents w0)\<^sup>* `` {b}" for g
      using up[of g] by (simp add: w1(1))
    show "((queue_of w)(a := queue_of w a - {b})) g \<subseteq> queue_of w2 g" if "(g, b) \<notin> (parents w0)\<^sup>*" for g
      using low[OF that] by (simp add: w1(1))
    show "accessor_priority w0 b \<le> accessor_priority w0 c" if "c \<in> queue_of w a" for c using b(2)[OF that] same_prio by simp
    show "if composite_at w0 b
      then queue_of w2 b = {} \<and> (ports w2, userState w2) = fold (serve w0 hu fu hs)
        (order w0 ((queue_of w)(a := queue_of w a - {b})) e b) (ports w, userState w)
      else inputs_ok (fst (ports w, userState w)) \<and> (ports w2, userState w2) = react w0 hu fu hs b (ports w, userState w) \<and>
        (b \<in> queue_of w2 a \<longleftrightarrow> (\<exists>p \<in> set (inputs_of w0 b). waits (fst (ports w2, userState w2)) p))"
      using child unfolding child_done_def w1 fst_conv by (elim conjE)
  qed (use i in simp_all)
  from served_trans[OF w1(1) b(1) kids[OF b(1)] up low this s kids2 cyc] show ?thesis .
qed

lemma queue_loop_order:
  fixes w :: "('e, 'u) world"
  assumes U: "polite w0 U hu fu" and n: "0 < n" and rk: "ranked w0"
  shows "fit w0 levels hs (insert a X) R w \<Longrightarrow> accessors w a = Some x \<Longrightarrow> IsComposite x \<Longrightarrow>
    hosted w0 m a \<Longrightarrow> shallow w0 d a \<Longrightarrow> load levels w < k \<Longrightarrow>
    returns (\<lambda>_. served w0 hu fu hs d a w) (ProcessChildEventQueue U levels n k a w)"
proof (induction k arbitrary: w a x X m d)
  case (Suc k)
  obtain c where c: "a_kind x = Composite c" using Suc.prems(3) by (cases "a_kind x") simp_all
  from Suc.prems(1) have ok: "reactions_ok_but (insert a X) R w" and al: "inputs_alert_but {} w" and st: "staffed w0 levels hs w"
    by (simp_all add: fit_def)
  note acc = Suc.prems(2)
  show ?case
  proof (cases "queue_of w a = {}")
    case True
    let ?w1 = "modify_composite a (\<lambda>c. c\<lparr>m_reactionRequested := False\<rparr>) w"
    have "queue_of ?w1 = queue_of w" using cleared_ok(3)[OF acc c ok al True] .
    then have "served w0 hu fu hs d a w ?w1"
      using True by (simp add: served_def) (auto simp: modify_composite_def modify_accessor_def)
    moreover have "upq_empty (m_childEventQueue c)"
      using True acc ok c unfolding reactions_ok_but_def queues_ok_def
      by (fastforce simp: queue_of_def upq_ok_def upq_empty_def)
    ultimately show ?thesis using acc c by (simp add: with_composite_def with_accessor_def)
  next
    case False
    obtain b q y where b: "upq_top (m_childEventQueue c) = Inr b" "upq_pop (GreaterAccessorImplPtrs w) (m_childEventQueue c) = Inr q"
        "\<not> upq_empty (m_childEventQueue c)" "\<not> (\<exists>d \<in> set (m_queue (m_childEventQueue c)). accessors w d = None)"
        "b \<in> queue_of w a" "accessors w b = Some y" "upq_ok (accessor_priority w) q" "set (m_elementsInQueue q) = queue_of w a - {b}"
      using pop_child[OF acc c ok False] by blast
    define w1 where "w1 = modify_composite a (\<lambda>c. c\<lparr>m_childEventQueue := q\<rparr>) w"
    note pop = popped_ok[OF acc c ok al b(7,8,5), folded w1_def]
    obtain e where d: "d = Suc e" using Suc.prems(5) by (cases d) (auto simp: shallow_def)
    have wire: "same_wiring w w1" using pop(1,2) by (simp add: same_wiring_def)
    have st1: "staffed w0 levels hs w1" using staffed_cong[OF st wire] st pop(2) by (simp add: staffed_def)
    have "finite (dom (accessors w))" "a \<in> dom (accessors w)" using st acc by (auto simp: staffed_def)
    then have "load levels w1 + 1 = load levels w"
      using entries_pop[OF _ _ b(5) pop(3)] same_wiring_dom[OF wire] pop(2) by (simp add: load_def w1_def)
    then have less: "load levels w1 < k" using Suc.prems(6) by simp
    have ba: "(b, a) \<in> parents w0" by (rule fit_kids[OF Suc.prems(1) b(5)])
    have shells: "same_shells w0 w1" using st1 by (simp add: staffed_def)
    obtain y1 where y1: "accessors w1 b = Some y1" using same_shells_Some[OF pop(1) b(6)] by blast
    have "(b, a) \<in> parents w1" using ba parents_shells[OF shells] by simp
    then have par: "m_parent y1 = Some a" using y1 by (simp add: parents_def)
    have loop: "returns (\<lambda>_. served w0 hu fu hs e b w1) (ProcessChildEventQueue U levels n k b w1)"
      if comp: "IsComposite y1" and al1: "inputs_alert_but {} w1"
    proof (rule Suc.IH[OF _ y1 comp _ _ less])
      show "fit w0 levels hs (insert b (insert a X)) R w1" using pop(4) al1 st1 by (simp add: fit_def)
      show "hosted w0 (Suc m) b"
        using hosted_child[OF Suc.prems(4) ba] same_shells_atomic(3)[OF shells y1] comp by blast
      show "shallow w0 e b" using shallow_child Suc.prems(5) ba d by blast
    qed
    have "inputs_alert_but {p. \<exists>pt. ports w1 p = Some pt \<and> p_owner pt = b \<and> p_kind pt = InputPort} w1"
      using pop(2,5) by simp
    note child = child_served[OF U n st1 y1 par pop(4) this less _ loop]
    have "returns (\<lambda>_. served w0 hu fu hs d a w)
        (run_bind (if IsComposite y1 then ProcessChildEventQueue U levels n k b w1 else ProcessInputs U levels n b w1)
          (\<lambda>_. ProcessChildEventQueue U levels n k a))"
    proof (rule returns_bind[OF child])
      show "b \<notin> queue_of w1 a" using pop(3) by simp
      fix u :: unit and w2 :: "('e, 'u) world"
      assume w2: "(fit w0 levels hs (insert a X) R w2 \<and> load levels w2 \<le> load levels w1) \<and> child_done w0 hu fu hs e a b w1 w2"
      have s2: "same_shells w0 w" "same_shells w0 w2" using w2 st by (simp_all add: fit_def staffed_def)
      have "accessors w2 a \<noteq> None" using acc same_shells_None[OF s2(1), of a] same_shells_None[OF s2(2), of a] by simp
      then obtain x2 where x2: "accessors w2 a = Some x2" by blast
      have comp: "IsComposite x2"
        using same_shells_atomic(3)[OF s2(1) acc] same_shells_atomic(3)[OF s2(2) x2] Suc.prems(3) by simp
      have fit2: "fit w0 levels hs (insert a X) R w2" and "load levels w2 < k" using w2 less by (blast, linarith)
      from Suc.IH[OF this(1) x2 comp Suc.prems(4,5) this(2)]
      show "returns (\<lambda>_. served w0 hu fu hs d a w) (ProcessChildEventQueue U levels n k a w2)"
      proof (rule returns_mono)
        have uq: "upq_ok (accessor_priority w) (m_childEventQueue c)" using ok acc c unfolding reactions_ok_but_def queues_ok_def by blast
        have qa: "queue_of w a = set (m_elementsInQueue (m_childEventQueue c))" using acc c by (simp add: queue_of_def)
        have least: "accessor_priority w b \<le> accessor_priority w z" if "z \<in> queue_of w a" for z
          using upq_top_pop[OF uq] b(1) that unfolding qa by fastforce
        fix v :: unit and w' :: "('e, 'u) world"
        assume s: "served w0 hu fu hs d a w2 w'"
        show "served w0 hu fu hs d a w w'"
          using loop_step[OF rk Suc.prems(4,1) fit2 b(5) least pop(3,2,6)] w2 s unfolding d by blast
      qed
    qed
    moreover have "ProcessChildEventQueue U levels n (Suc k) a w =
        run_bind (if IsComposite y1 then ProcessChildEventQueue U levels n k b w1 else ProcessInputs U levels n b w1)
          (\<lambda>_. ProcessChildEventQueue U levels n k a)"
      using acc c b(1-3) y1
      by (simp add: with_composite_def with_accessor_def w1_def[symmetric] if_not_P[OF b(4)] del: IsComposite.simps)
    ultimately show ?thesis by (simp only:)
  qed
qed simp

text \<open>
  C6. A reaction of a host serves the accessors in the order of their priorities. Let no two
  children of a composite have the same priority (which is what \<open>ComputeAccessorPriorities\<close>
  establishes, theory \<open>HostOrder\<close>, lemma \<open>ranked_distinct\<close>; new children have the same one until the
  model is updated), let the event queues be heaps by the priorities as they are now (which an update while
  events are queued does not keep, theory \<open>HostHazards\<close>, lemma \<open>update_leaves_stale_queue\<close>), and let handlers
  and \<open>Fire\<close> throw nothing but their own overflow or thread failure and leave the structure of the model alone.
  Then, unless the reaction fails so, the ports and the user's state after the reaction are those of
  the reference: the queued children are gone through once, by priority, each composite child with
  all that is queued below it before the next child, and each atomic accessor reacts as often as
  one of its ports waits before any accessor after it does. So the result is a function of the
  state at the start; it does not depend on the order in which the requests were queued.
\<close>

theorem reaction_in_priority_order:
  fixes w :: "('e, 'u) world"
  assumes "polite w U hu fu" and "0 < n" and "staffed w levels hs w"
    and "accessors w h = Some x" and "IsComposite x" and "hosted w m h" and "shallow w d h" and "ranked w"
    and "reactions_ok_but {} {h} w" and "inputs_alert_but {} w" and "load levels w < k"
  shows "ends own_failure
    (\<lambda>_ w'. (ports w', userState w') =
       fold (serve w hu fu hs) (order w (queue_of w) d h) (ports w, userState w))
    (ProcessChildEventQueue U levels n k h w)"
proof -
  have ok: "reactions_ok_but (insert h {}) {h} w" using reactions_ok_more[OF assms(9)] by blast
  then have f: "fit w levels hs (insert h {}) {h} w" using assms(3,10) by (simp add: fit_def)
  note run = ends_returning[OF queue_loop_ok[OF assms(1,2,3,4,5) ok assms(10,11)]
      queue_loop_order[OF assms(1,2,8) f assms(4,5,6,7,11)]]
  show ?thesis by (rule ends_mono[OF run]) (simp add: served_def)
qed

lemma reaction_in_priority_order_witness:
  "ends own_failure (\<lambda>_ w'. userState w' = [15, 25, 17, 27] \<and> map_option m_inputQueue (ports w' 1) = Some [])
     (ProcessChildEventQueue recorder 1 1 6 8 (busy ready_queue))"
proof (rule ends_mono[OF reaction_in_priority_order[OF recorder_polite _ busy_staffed, where n = 1 and h = 8 and m = 1 and d = 2
    and x = "busy_host ready_queue" and k = 6]])
  let ?w = "busy ready_queue"
  have "parents ?w = {(2, 8)}" by (auto simp: parents_def busy_simps busy_host_simps listener_simps split: if_splits)
  then show "shallow ?w 2 8" "ranked ?w" by (auto simp: shallow_def ranked_def inj_on_def numeral_2_eq_2)
  show "reactions_ok_but {} {8} ?w"
    by (rule busy_ok) (simp_all add: ready_queue_def upq_ok_def heap_ok_def)
  fix u :: unit and w' :: "(nat, nat list) world"
  have "composite_at ?w 2 = False" "inputs_of ?w 2 = [1]" "fires ?w 2 = False"
    by (simp_all add: composite_at_def inputs_of_def fires_def busy_simps listener_simps no_atomic_def)
  moreover have "order ?w (queue_of ?w) 2 8 = [2]"
    using calculation(1) by (simp add: numeral_2_eq_2 by_priority_def busy_queue)
  moreover assume "(ports w', userState w') = fold (serve ?w (\<lambda>h ev u. u @ [h + the ev]) (\<lambda>_ u. u) (\<lambda>_. [10, 20]))
      (order ?w (queue_of ?w) 2 8) (ports ?w, userState ?w)"
  ultimately show "userState w' = [15, 25, 17, 27] \<and> map_option m_inputQueue (ports w' 1) = Some []"
    by (simp add: serve_def react_def turns_def turn_def handle_ports_def handled_def attend_def busy_simps inbox_simps
        IsWaitingForInputHandler_def GetLatestInput_def DequeueLatestInput_def numeral_2_eq_2)
qed (use busy_load in \<open>simp_all add: busy_simps busy_host_simps plain_composite_def busy_alert\<close>)

section \<open>The order of reactions and causality\<close>

text \<open>
  A sensor feeds a filter and, in a box, a sum; the filter feeds the sum too. The box has a clock
  beside the sum, so that its own depth, the least of its children's, is that of a source.
\<close>

definition inner :: "string \<Rightarrow> accessor_kind \<Rightarrow> nat \<Rightarrow> int \<Rightarrow> (string \<times> nat) list \<Rightarrow> (string \<times> nat) list \<Rightarrow> accessor" where
  "inner name k parent rank ins outs = (Accessor_new name k)\<lparr>m_parent := Some parent, m_priority := rank, m_initialized := True,
     m_inputPorts := ins, m_orderedInputPorts := map snd ins, m_outputPorts := outs, m_orderedOutputPorts := map snd outs\<rparr>"

definition sum_of_two :: "(nat \<Rightarrow> int) \<Rightarrow> (nat, nat list) world" where
  "sum_of_two rank = dstate.extend (Director_new (\<lambda>_. Some (1000, 0)) [])
     \<lparr>ports = [0 \<mapsto> (Port_new ''Out'' 1 (OutputPort True))\<lparr>m_destinations := [1, 6]\<rparr>,
        1 \<mapsto> (Port_new ''In'' 2 InputPort)\<lparr>m_source := Some 0\<rparr>,
        2 \<mapsto> (Port_new ''Out'' 2 (OutputPort False))\<lparr>m_destinations := [7]\<rparr>,
        3 \<mapsto> Port_new ''Out'' 3 (OutputPort True),
        4 \<mapsto> (Port_new ''A'' 4 InputPort)\<lparr>m_source := Some 6\<rparr>,
        5 \<mapsto> (Port_new ''B'' 4 InputPort)\<lparr>m_source := Some 7\<rparr>,
        6 \<mapsto> (Port_new ''A'' 9 InputPort)\<lparr>m_source := Some 0, m_destinations := [4]\<rparr>,
        7 \<mapsto> (Port_new ''B'' 9 InputPort)\<lparr>m_source := Some 2, m_destinations := [5]\<rparr>],
      accessors = [1 \<mapsto> inner ''Sensor'' (Atomic no_atomic) 10 (rank 1) [] [(''Out'', 0)],
        2 \<mapsto> inner ''Filter'' (Atomic (no_atomic\<lparr>m_inputHandlers := [(''In'', [100])]\<rparr>)) 10 (rank 2) [(''In'', 1)] [(''Out'', 2)],
        3 \<mapsto> inner ''Clock'' (Atomic no_atomic) 9 (rank 3) [] [(''Out'', 3)],
        4 \<mapsto> inner ''Sum'' (Atomic (no_atomic\<lparr>m_inputHandlers := [(''A'', [200]), (''B'', [300])]\<rparr>)) 9 (rank 4) [(''A'', 4), (''B'', 5)] [],
        9 \<mapsto> inner ''Box'' (Composite (plain_composite False [3, 4])) 10 (rank 9) [(''A'', 6), (''B'', 7)] [],
        10 \<mapsto> (Accessor_new ''Host'' (Composite (plain_composite True [1, 2, 9])))\<lparr>m_initialized := True\<rparr>],
      nextPort = 8, userState = []\<rparr>"

text \<open>
  The filter feeds the sum and gets the smaller priority, but the sum reacts first: its box has a
  smaller priority than the filter, and the reaction goes through the box before it goes on.
\<close>

definition sum_priorities :: "nat \<Rightarrow> int" where
  "sum_priorities a = (if a = 9 then 2 else if a = 1 then 3 else if a = 3 then 4 else if a = 2 then 5 else 6)"

lemma feeder_reacts_late:
  shows "map_option (\<lambda>w. map (accessor_priority w) [1, 2, 3, 4, 9])
      (run_state (ComputeAccessorPriorities 3 10 False (sum_of_two (\<lambda>_. DefaultAccessorPriority)))) =
    Some (map sum_priorities [1, 2, 3, 4, 9])"
    and "ask_source (sum_of_two sum_priorities) 5 = Some (Inr (Some 2))" and "sum_priorities 2 < sum_priorities 4"
    and "map_option userState (run_state (run_bind (SendData 3 4 0 (Some 7) (sum_of_two sum_priorities))
      (\<lambda>_. ProcessChildEventQueue recorder 3 4 20 10))) = Some [200 + 7, 100 + 7]"
  by code_simp+

text \<open>
  The same without the box, where the sum itself has a spontaneous output beside its two inputs.
  An accessor has the least of the depths of its outputs, so the sum has the depth of a source, and
  it gets a smaller priority than the filter that feeds it: it reacts to the event of the sensor
  before the filter has passed its own on.
\<close>

definition ticking_sum :: "(nat \<Rightarrow> int) \<Rightarrow> (nat, nat list) world" where
  "ticking_sum rank = (sum_of_two rank)
     \<lparr>ports := [0 \<mapsto> (Port_new ''Out'' 1 (OutputPort True))\<lparr>m_destinations := [1, 4]\<rparr>,
        1 \<mapsto> (Port_new ''In'' 2 InputPort)\<lparr>m_source := Some 0\<rparr>,
        2 \<mapsto> (Port_new ''Out'' 2 (OutputPort False))\<lparr>m_destinations := [5]\<rparr>,
        3 \<mapsto> Port_new ''Tick'' 4 (OutputPort True),
        4 \<mapsto> (Port_new ''A'' 4 InputPort)\<lparr>m_source := Some 0\<rparr>,
        5 \<mapsto> (Port_new ''B'' 4 InputPort)\<lparr>m_source := Some 2\<rparr>],
      accessors := [1 \<mapsto> inner ''Sensor'' (Atomic no_atomic) 10 (rank 1) [] [(''Out'', 0)],
        2 \<mapsto> inner ''Filter'' (Atomic (no_atomic\<lparr>m_inputHandlers := [(''In'', [100])]\<rparr>)) 10 (rank 2) [(''In'', 1)] [(''Out'', 2)],
        4 \<mapsto> inner ''Sum'' (Atomic (no_atomic\<lparr>m_inputHandlers := [(''A'', [200]), (''B'', [300])],
             m_forwardPrunedDependencies := [(4, [3]), (5, [3])], m_backwardPrunedDependencies := [(3, [4, 5])]\<rparr>))
           10 (rank 4) [(''A'', 4), (''B'', 5)] [(''Tick'', 3)],
        10 \<mapsto> (Accessor_new ''Host'' (Composite (plain_composite True [1, 2, 4])))\<lparr>m_initialized := True\<rparr>]\<rparr>"

definition ticking_priorities :: "nat \<Rightarrow> int" where
  "ticking_priorities a = (if a = 1 then 2 else if a = 4 then 3 else 4)"

lemma ticking_receiver_first:
  shows "map_option (\<lambda>w. map (accessor_priority w) [1, 2, 4])
      (run_state (ComputeAccessorPriorities 3 10 False (ticking_sum (\<lambda>_. DefaultAccessorPriority)))) =
    Some (map ticking_priorities [1, 2, 4])"
    and "ask_source (ticking_sum ticking_priorities) 5 = Some (Inr (Some 2))" and "ticking_priorities 4 < ticking_priorities 2"
    and "map_option userState (run_state (run_bind (SendData 3 4 0 (Some 7) (ticking_sum ticking_priorities))
      (\<lambda>_. ProcessChildEventQueue recorder 3 4 20 10))) = Some [200 + 7, 100 + 7]"
  by code_simp+

end
