(* ===== verification/Executions.thy ===== *)
theory Executions
  imports DirectorProgress Messages
begin

text \<open>
  \<open>Execute\<close> and \<open>ExecuteInternal\<close> of \<open>src/src/Director.cpp\<close> over rounds whose contract is known.
  Their loops use of a round that it ends, leaves the threads and futures of the execution alone,
  and that the next due time lies after it. The locale states this interface; inside it the loops
  are shown to end and to leave the director waiting for a time that the clock has not reached.
\<close>

section \<open>The state of an execution\<close>

definition same_execution :: "('cb, 'z) dstate_scheme \<Rightarrow> ('cb, 'z) dstate_scheme \<Rightarrow> bool" where
  "same_execution d d' \<longleftrightarrow> m_executionResult d' = m_executionResult d \<and>
     m_executionCancellationToken d' = m_executionCancellationToken d \<and> tokens d' = tokens d \<and> futures d' = futures d \<and>
     threads d' = threads d \<and> clock d' = clock d \<and> spawnOutcomes d' = spawnOutcomes d"

lemma same_execution_refl [simp]: "same_execution d d"
  by (simp add: same_execution_def)

lemma same_execution_trans: "same_execution d e \<Longrightarrow> same_execution e f \<Longrightarrow> same_execution d f"
  by (simp add: same_execution_def)

definition reading :: "('cb, 'z) dstate_scheme \<Rightarrow> nat \<Rightarrow> int" where
  "reading d i = timespec_to_milliseconds (clock d i)"

text \<open>
  An execution thread is launched and waits: the director holds its token and its future, and the
  thread holds the promise. No thread promises a future that does not exist, and no thread was
  launched at the second attempt, which loses the promise.
\<close>

definition armed :: "('cb, 'z) dstate_scheme \<Rightarrow> bool" where
  "armed d \<longleftrightarrow> (\<exists>tok f a. m_executionCancellationToken d = Some tok \<and> tok < length (tokens d) \<and> \<not> token_canceled tok d \<and>
     m_executionResult d = Some f \<and> f < length (futures d) \<and> futures d ! f = Pending \<and>
     find_activation f (threads d) = Some a \<and> act_token a = tok)"

definition promises_ok :: "('cb, 'z) dstate_scheme \<Rightarrow> bool" where
  "promises_ok d \<longleftrightarrow> SpawnAgain \<notin> set (spawnOutcomes d) \<and>
     (\<forall>a \<in> set (threads d). \<forall>f. act_promise a = Some f \<longrightarrow> f < length (futures d))"

definition execution_failure :: "exn \<Rightarrow> bool" where
  "execution_failure e \<longleftrightarrow> own_failure e \<or> e = Fatal Terminated"

lemma launch_once:
  "SpawnAgain \<notin> set os \<Longrightarrow> launch pr os = (r, os') \<Longrightarrow> (r = Inr pr \<or> r = Inl SystemError) \<and> SpawnAgain \<notin> set os'"
  by (cases "(pr, os)" rule: launch.cases) auto

lemma find_snoc: "List.find P xs = None \<Longrightarrow> P a \<Longrightarrow> List.find P (xs @ [a]) = Some a"
  by (induction xs) (auto split: if_splits)

lemma ScheduleNextExecution_arms:
  assumes "promises_ok d"
  shows "ends own_failure (\<lambda>_ d'. same_queue d d' \<and> dstate.more d' = dstate.more d \<and> clock d' = clock d \<and>
      armed d' \<and> promises_ok d' \<and> m_executionResult d' = Some (length (futures d)) \<and> futures d' = futures d @ [Pending])
    (ScheduleNextExecution d)"
proof (cases "fits_llong (m_nextScheduledExecutionTime d - timespec_to_milliseconds (clock d (ticks d)))")
  case True
  obtain r os where l: "launch (Some (length (futures d))) (spawnOutcomes d) = (r, os)" by fastforce
  note o = launch_once[OF _ l]
  have "find_activation (length (futures d)) (threads d) = None"
    using assms by (auto simp: find_activation_def find_None_iff promises_ok_def)
  then have "find_activation (length (futures d)) (threads d @ [a]) = Some a"
    if "act_promise a = Some (length (futures d))" for a
    using that by (simp add: find_activation_def find_snoc)
  then show ?thesis
    using True l o assms
    by (auto simp: ScheduleNextExecution_def PosixUtcInMilliseconds_def own_failure_def same_queue_def armed_def
        promises_ok_def token_canceled_def nth_append less_Suc_eq Let_def)
next
  case False
  then show ?thesis by (simp add: ScheduleNextExecution_def PosixUtcInMilliseconds_def own_failure_def)
qed

lemma next_queued_same: "same_queue d d' \<Longrightarrow> GetNextQueuedExecutionTime d' = GetNextQueuedExecutionTime d"
  by (simp add: same_queue_def GetNextQueuedExecutionTime_def cong: list.case_cong)

section \<open>Rounds and what they promise\<close>

text \<open>
  \<open>good j d\<close>: from \<open>d\<close> the next \<open>j\<close> rounds go well. \<open>rest\<close> is what a round leaves, of the state outside the
  director. A round ends; what is queued then lies after its time; and it leaves the execution alone.
\<close>

locale director_rounds =
  fixes run :: "('cb, 'z) callback_semantics" and cfuel :: nat
    and good :: "nat \<Rightarrow> ('cb, 'z) dstate_scheme \<Rightarrow> bool" and rest :: "('cb, 'z) dstate_scheme \<Rightarrow> bool"
  assumes round: "good (Suc j) d \<Longrightarrow> m_nextScheduledExecutionTime d < DefaultNextExecutionTime \<Longrightarrow>
    ends own_failure (\<lambda>_ d'. \<exists>t. GetNextQueuedExecutionTime d' = Inr t \<and> m_nextScheduledExecutionTime d < t \<and>
      good j (d'\<lparr>m_nextScheduledExecutionTime := t\<rparr>) \<and> rest (d'\<lparr>m_nextScheduledExecutionTime := t\<rparr>)) (ExecuteCallbacks run cfuel d)"
    and round_execution: "good (Suc j) d \<Longrightarrow> run_prop (same_execution d) (ExecuteCallbacks run cfuel d)"
    and good_queue: "good j d \<Longrightarrow> same_queue d d' \<Longrightarrow> dstate.more d' = dstate.more d \<Longrightarrow> good j d'"
    and rest_more: "rest d \<Longrightarrow> dstate.more d' = dstate.more d \<Longrightarrow> rest d'"
    and good_Reset: "good j d \<Longrightarrow> rest d \<Longrightarrow> good j (Reset d)"
begin

lemma round_both:
  "good (Suc j) d \<Longrightarrow> m_nextScheduledExecutionTime d < DefaultNextExecutionTime \<Longrightarrow>
    ends own_failure (\<lambda>_ d'. \<exists>t. GetNextQueuedExecutionTime d' = Inr t \<and> m_nextScheduledExecutionTime d < t \<and> same_execution d d' \<and>
      good j (d'\<lparr>m_nextScheduledExecutionTime := t\<rparr>) \<and> rest (d'\<lparr>m_nextScheduledExecutionTime := t\<rparr>)) (ExecuteCallbacks run cfuel d)"
  using round[of j d] round_execution[of j d] by (cases "ExecuteCallbacks run cfuel d") auto

text \<open>
  Between rounds: the rounds that the clock leaves time for go well, and the last one left the
  director waiting for the front of its queue, or there is something to do and its time has come.
\<close>

definition settled :: "('cb, 'z) dstate_scheme \<Rightarrow> bool" where
  "settled d \<longleftrightarrow> rest d \<and> GetNextQueuedExecutionTime d = Inr (m_nextScheduledExecutionTime d)"

definition going :: "(nat \<Rightarrow> (int \<times> int) option) \<Rightarrow> int \<Rightarrow> nat \<Rightarrow> ('cb, 'z) dstate_scheme \<Rightarrow> bool" where
  "going clk T fuel d \<longleftrightarrow> (\<exists>j. good j d \<and> nat (T + 1 - m_nextScheduledExecutionTime d) \<le> j \<and> j < fuel) \<and>
     clock d = clk \<and> (\<forall>i. reading d i \<le> T) \<and> (settled d \<or> \<not> NeedsReset d \<and> (\<forall>i. m_nextScheduledExecutionTime d \<le> reading d i))"

definition waiting :: "(nat \<Rightarrow> (int \<times> int) option) \<Rightarrow> int \<Rightarrow> nat \<Rightarrow> ('cb, 'z) dstate_scheme \<Rightarrow> bool" where
  "waiting clk T fuel d \<longleftrightarrow> going clk T fuel d \<and> settled d \<and> (NeedsReset d \<or> (\<exists>i. reading d i < m_nextScheduledExecutionTime d))"

lemma settled_queue: "settled d \<Longrightarrow> same_queue d d' \<Longrightarrow> dstate.more d' = dstate.more d \<Longrightarrow> settled d'"
  using next_queued_same[of d d'] by (auto simp: settled_def same_queue_def elim: rest_more)

lemma going_queue:
  assumes "going clk T fuel d" and "same_queue d d'" and "dstate.more d' = dstate.more d" and "clock d' = clock d"
  shows "going clk T fuel d'"
  using assms good_queue[OF _ assms(2,3)] settled_queue[OF _ assms(2,3)]
  unfolding going_def by (auto simp: same_queue_def reading_def NeedsReset_def)

lemma waiting_queue:
  assumes "waiting clk T fuel d" and "same_queue d d'" and "dstate.more d' = dstate.more d" and "clock d' = clock d"
  shows "waiting clk T fuel d'"
  using assms going_queue[OF _ assms(2-4)] settled_queue[OF _ assms(2,3)]
  unfolding waiting_def by (auto simp: same_queue_def reading_def NeedsReset_def)

lemma Reset_waiting:
  assumes w: "waiting clk T fuel d" and T: "T < DefaultNextExecutionTime"
  shows "waiting clk T fuel (Reset d)"
proof -
  have r: "rest d" "clock d = clk \<and> (\<forall>i. reading d i \<le> T)" using w by (simp_all add: waiting_def going_def settled_def)
  obtain j where j: "good j d" "j < fuel" using w by (auto simp: waiting_def going_def)
  have "dstate.more (Reset d) = dstate.more d" by (simp add: Reset_def PosixUtcInMilliseconds_def Let_def)
  then have "settled (Reset d)" using rest_more[OF r(1)] by (simp add: settled_def GetNextQueuedExecutionTime_def)
  moreover have "good j (Reset d)" by (rule good_Reset[OF j(1) r(1)])
  moreover have "NeedsReset (Reset d)" "reading (Reset d) i = reading d i" for i by (simp_all add: NeedsReset_def reading_def)
  ultimately show ?thesis
    using r(2) j(2) T unfolding waiting_def going_def by (intro conjI exI[of _ j]) auto
qed

lemma waiting_going: "waiting clk T fuel d \<Longrightarrow> going clk T fuel d"
  by (simp add: waiting_def)

lemma waiting_mono: "waiting clk T n d \<Longrightarrow> waiting clk T (Suc n) d"
  unfolding waiting_def going_def using less_SucI by blast

section \<open>The loops\<close>

lemma internal_loop_ends:
  assumes T: "T < DefaultNextExecutionTime"
  shows "going clk T n d \<Longrightarrow> \<not> token_canceled tok d \<Longrightarrow>
    ends own_failure (\<lambda>thrown d'. same_execution d d' \<and> (case thrown of Some e \<Rightarrow> own_failure e | None \<Rightarrow> waiting clk T n d'))
      (internal_loop run cfuel tok n d)"
proof (induction n arbitrary: d)
  case 0
  then show ?case by (simp add: going_def)
next
  case (Suc n)
  obtain j where j: "good j d" "nat (T + 1 - m_nextScheduledExecutionTime d) \<le> j" "j < Suc n"
    using Suc.prems(1) by (auto simp: going_def)
  have T': "\<And>i. reading d i \<le> T" using Suc.prems(1) by (simp add: going_def)
  define d1 where "d1 = d\<lparr>ticks := Suc (ticks d)\<rparr>"
  have d1: "same_queue d d1" "dstate.more d1 = dstate.more d" "clock d1 = clock d" "same_execution d d1"
    by (simp_all add: d1_def same_queue_def same_execution_def)
  consider (empty) "NeedsReset d" | (early) "\<not> NeedsReset d" "reading d (ticks d) < m_nextScheduledExecutionTime d"
    | (due) "\<not> NeedsReset d" "m_nextScheduledExecutionTime d \<le> reading d (ticks d)" by linarith
  then show ?case
  proof cases
    case empty
    then have "waiting clk T (Suc n) d" using Suc.prems(1) by (simp add: waiting_def going_def)
    then show ?thesis using empty by simp
  next
    case early
    then have "settled d" using Suc.prems(1) linorder_not_le by (auto simp: going_def)
    then have "waiting clk T (Suc n) d" using early Suc.prems(1) by (auto simp: waiting_def)
    then have "waiting clk T (Suc n) d1" by (rule waiting_queue[OF _ d1(1-3)])
    then show ?thesis using early Suc.prems(2) d1(4) by (simp add: PosixUtcInMilliseconds_def reading_def d1_def)
  next
    case due
    then have "0 < nat (T + 1 - m_nextScheduledExecutionTime d)" using T'[of "ticks d"] by simp
    then obtain j' where j': "j = Suc j'" using j(2) by (cases j) auto
    have good1: "good (Suc j') d1" using good_queue[OF _ d1(1,2)] j(1) j' by simp
    have soon: "m_nextScheduledExecutionTime d1 < DefaultNextExecutionTime"
      using due(2) T'[of "ticks d"] T by (simp add: d1_def)
    have loop: "internal_loop run cfuel tok (Suc n) d =
      (case ExecuteCallbacks run cfuel d1 of
         Diverge \<Rightarrow> Diverge
       | Throw e d2 \<Rightarrow> if is_catchable e then Ret (Some e) d2 else Throw e d2
       | Ret _ d2 \<Rightarrow>
           if token_canceled tok d2 then internal_loop run cfuel tok n d2
           else (case GetNextQueuedExecutionTime d2 of
                   Inl e \<Rightarrow> Throw (Fatal Terminated) d2
                 | Inr t \<Rightarrow> internal_loop run cfuel tok n (d2\<lparr>m_nextScheduledExecutionTime := t\<rparr>)))"
      using due Suc.prems(2) by (simp add: PosixUtcInMilliseconds_def reading_def d1_def)
    show ?thesis
    proof (cases "ExecuteCallbacks run cfuel d1")
      case (Ret u d2)
      then obtain t where t: "GetNextQueuedExecutionTime d2 = Inr t"
          "m_nextScheduledExecutionTime d < t" "same_execution d1 d2"
          "good j' (d2\<lparr>m_nextScheduledExecutionTime := t\<rparr>)" "rest (d2\<lparr>m_nextScheduledExecutionTime := t\<rparr>)"
        using round_both[OF good1 soon] by (auto simp: d1_def)
      let ?d = "d2\<lparr>m_nextScheduledExecutionTime := t\<rparr>"
      have same: "same_execution d ?d" using same_execution_trans[OF d1(4) t(3)] by (simp add: same_execution_def)
      then have live: "\<not> token_canceled tok ?d" "\<not> token_canceled tok d2" "clock ?d = clk" "\<And>i. reading ?d i = reading d i"
        using Suc.prems by (simp_all add: same_execution_def token_canceled_def reading_def going_def)
      have "settled ?d" using t(1,5) by (simp add: settled_def GetNextQueuedExecutionTime_def cong: list.case_cong)
      moreover have "nat (T + 1 - t) \<le> j'" using t(2) j(2) j' by auto
      ultimately have "going clk T n ?d" using t(4) j(3) j' T' live(3,4) unfolding going_def by auto
      from Suc.IH[OF this live(1)] have "ends own_failure (\<lambda>thrown d'. same_execution d d' \<and>
          (case thrown of Some e \<Rightarrow> own_failure e | None \<Rightarrow> waiting clk T (Suc n) d')) (internal_loop run cfuel tok n ?d)"
        by (rule ends_mono) (auto intro: same_execution_trans[OF same] waiting_mono split: option.splits)
      then show ?thesis unfolding loop using Ret live(2) t(1) by simp
    next
      case (Throw e d2)
      then have "own_failure e" "same_execution d1 d2" using round_both[OF good1 soon] round_execution[OF good1] by simp_all
      then show ?thesis unfolding loop using Throw same_execution_trans[OF d1(4)] by simp
    next
      case Diverge
      then show ?thesis using round_both[OF good1 soon] by simp
    qed
  qed
qed

text \<open>The thread of an armed director: it answers its future, and launches the next thread.\<close>

lemma ExecuteInternal_ends:
  assumes T: "T < DefaultNextExecutionTime" and g: "going clk T fuel d" and p: "promises_ok d"
    and a: "act_promise a = Some f" "f < length (futures d)" "\<not> token_canceled (act_token a) d"
  shows "ends execution_failure (\<lambda>_ d'. f < length (futures d') \<and> ((\<exists>e. futures d' ! f = Failed e \<and> own_failure e) \<or>
      futures d' ! f = Ready False \<and> waiting clk T fuel d' \<and> promises_ok d' \<and> armed d' \<and> m_executionResult d' \<noteq> Some f))
    (ExecuteInternal run cfuel fuel a d)"
proof -
  let ?tok = "act_token a" and ?s = "sleep_until_due a d"
  have s: "same_queue d ?s" "dstate.more ?s = dstate.more d" "clock ?s = clock d" "same_execution d ?s"
    by (simp_all add: sleep_until_due_def same_queue_def same_execution_def)
  have "\<not> token_canceled ?tok ?s" using a(3) s(4) by (simp add: token_canceled_def same_execution_def)
  from internal_loop_ends[OF T going_queue[OF g s(1-3)] this]
  have loop: "ends own_failure (\<lambda>thrown d'. same_execution d d' \<and> (case thrown of Some e \<Rightarrow> own_failure e | None \<Rightarrow> waiting clk T fuel d'))
      (internal_loop run cfuel ?tok fuel ?s)"
    by (rule ends_mono) (use same_execution_trans[OF s(4)] in auto)
  show ?thesis
  proof (cases "internal_loop run cfuel ?tok fuel ?s")
    case (Ret thrown d1)
    then have d1: "same_execution d d1" "case thrown of Some e \<Rightarrow> own_failure e | None \<Rightarrow> waiting clk T fuel d1"
      using loop by simp_all
    then have e1: "futures d1 = futures d" "\<not> token_canceled ?tok d1" "promises_ok d1"
      using a(3) p by (simp_all add: same_execution_def token_canceled_def promises_ok_def)
    show ?thesis
    proof (cases thrown)
      case (Some e)
      then show ?thesis using Ret d1(2) e1(1) a(1,2) by (simp add: ExecuteInternal_def set_promise_def)
    next
      case None
      define d2 where "d2 = (if NeedsReset d1 then Reset d1 else d1)"
      have w1: "waiting clk T fuel d1" using d1(2) None by simp
      have w: "waiting clk T fuel d2" using Reset_waiting[OF w1 T] w1 by (simp add: d2_def)
      have f2: "futures d2 = futures d" using e1(1) by (simp add: d2_def)
      have "spawnOutcomes (Reset d1) = spawnOutcomes d1" by (simp add: Reset_def PosixUtcInMilliseconds_def Let_def)
      then have "promises_ok d2" using e1(3) by (simp add: promises_ok_def d2_def)
      from ScheduleNextExecution_arms[OF this] show ?thesis
      proof (cases "ScheduleNextExecution d2")
        case next_thread: (Ret u d3)
        then have d3: "same_queue d2 d3" "dstate.more d3 = dstate.more d2" "clock d3 = clock d2" "armed d3" "promises_ok d3"
            "m_executionResult d3 = Some (length (futures d))" "futures d3 = futures d @ [Pending]"
          using ScheduleNextExecution_arms[OF \<open>promises_ok d2\<close>] f2 by simp_all
        let ?d = "d3\<lparr>futures := (futures d3)[f := Ready False]\<rparr>"
        have "waiting clk T fuel ?d"
          by (rule waiting_queue[OF waiting_queue[OF w d3(1-3)]]) (simp_all add: same_queue_def)
        moreover have "promises_ok ?d" using d3(5) by (simp add: promises_ok_def)
        moreover have "armed ?d"
          using d3(4,6,7) a(2) unfolding armed_def by (auto simp: token_canceled_def nth_list_update)
        ultimately show ?thesis
          using Ret None next_thread e1(2) a(1,2) d3(6,7)
          by (simp add: ExecuteInternal_def set_promise_def d2_def Let_def nth_list_update)
      next
        case (Throw e d3)
        then have "own_failure e" using ScheduleNextExecution_arms[OF \<open>promises_ok d2\<close>] by simp
        then show ?thesis
          using Ret None Throw e1(2) by (simp add: ExecuteInternal_def d2_def Let_def execution_failure_def)
      next
        case Diverge
        then show ?thesis using ScheduleNextExecution_arms[OF \<open>promises_ok d2\<close>] by simp
      qed
    qed
  next
    case (Throw e d1)
    then show ?thesis using loop by (simp add: ExecuteInternal_def execution_failure_def)
  next
    case Diverge
    then show ?thesis using loop by simp
  qed
qed

lemma future_get_ends:
  assumes T: "T < DefaultNextExecutionTime" and g: "going clk T fuel d" and p: "promises_ok d" and m: "armed d"
    and f: "m_executionResult d = Some f"
  shows "ends execution_failure (\<lambda>b d'. \<not> b \<and> waiting clk T fuel d' \<and> promises_ok d' \<and> armed d') (future_get run cfuel fuel f d)"
proof -
  obtain a where a: "f < length (futures d)" "futures d ! f = Pending" "find_activation f (threads d) = Some a"
      "\<not> token_canceled (act_token a) d"
    using m f by (auto simp: armed_def)
  then have pr: "act_promise a = Some f" by (auto simp: find_activation_def find_Some_iff)
  let ?d = "d\<lparr>threads := remove1 a (threads d)\<rparr>"
  have g': "going clk T fuel ?d" by (rule going_queue[OF g]) (simp_all add: same_queue_def)
  have p': "promises_ok ?d" using p set_remove1_subset[of a "threads d"] by (auto simp: promises_ok_def)
  have a': "f < length (futures ?d)" "\<not> token_canceled (act_token a) ?d" using a(1,4) by (simp_all add: token_canceled_def)
  have "ends execution_failure (\<lambda>b d'. \<not> b \<and> waiting clk T fuel d' \<and> promises_ok d' \<and> armed d')
      (run_bind (ExecuteInternal run cfuel fuel a ?d) (\<lambda>_. take_result f))"
  proof (rule ends_bind[OF ExecuteInternal_ends[OF T g' p' pr a']])
    fix u :: unit and d' :: "('cb, 'z) dstate_scheme"
    assume d': "f < length (futures d') \<and> ((\<exists>e. futures d' ! f = Failed e \<and> own_failure e) \<or>
        futures d' ! f = Ready False \<and> waiting clk T fuel d' \<and> promises_ok d' \<and> armed d' \<and> m_executionResult d' \<noteq> Some f)"
    let ?e = "d'\<lparr>futures := (futures d')[f := Retrieved]\<rparr>"
    show "ends execution_failure (\<lambda>b d'. \<not> b \<and> waiting clk T fuel d' \<and> promises_ok d' \<and> armed d') (take_result f d')"
    proof (cases "futures d' ! f = Ready False")
      case True
      then have w: "waiting clk T fuel d'" "promises_ok d'" "armed d'" "m_executionResult d' \<noteq> Some f" using d' by auto
      have "waiting clk T fuel ?e" by (rule waiting_queue[OF w(1)]) (simp_all add: same_queue_def)
      moreover have "promises_ok ?e" using w(2) by (simp add: promises_ok_def)
      moreover have "armed ?e" using w(3,4) unfolding armed_def by (auto simp: token_canceled_def nth_list_update)
      ultimately show ?thesis using True by (simp add: take_result_def Let_def)
    next
      case False
      then show ?thesis using d' by (auto simp: take_result_def Let_def execution_failure_def)
    qed
  qed
  then show ?thesis using a(2,3) by (simp add: future_get_def)
qed

lemma execute_rounds_ends:
  assumes T: "T < DefaultNextExecutionTime" and N: "0 < N"
  shows "going clk T fuel d \<Longrightarrow> promises_ok d \<Longrightarrow> armed d \<Longrightarrow> cur < N \<or> waiting clk T fuel d \<Longrightarrow> nat (N - cur) < n \<Longrightarrow>
    ends execution_failure (\<lambda>_. waiting clk T fuel) (execute_rounds run cfuel fuel N n cur (m_executionResult d) d)"
proof (induction n arbitrary: cur d)
  case (Suc n)
  obtain tok f where m: "m_executionCancellationToken d = Some tok" "\<not> token_canceled tok d" "m_executionResult d = Some f"
      "futures d ! f = Pending"
    using Suc.prems(3) by (auto simp: armed_def)
  show ?case
  proof (cases "cur < N")
    case True
    have again: "ends execution_failure (\<lambda>_. waiting clk T fuel) (execute_rounds run cfuel fuel N n (cur + 1) (m_executionResult s) s)"
      if "waiting clk T fuel s \<and> promises_ok s \<and> armed s" for s
      by (rule Suc.IH) (use that waiting_going Suc.prems(5) True in auto)
    have "ends execution_failure (\<lambda>_. waiting clk T fuel) (run_bind (future_get run cfuel fuel f d)
        (\<lambda>b d1. if b \<and> m_executionResult d1 = None then Ret () d1
           else execute_rounds run cfuel fuel N n (if N \<noteq> 0 then cur + 1 else cur) (m_executionResult d1) d1))"
      by (rule ends_bind[OF future_get_ends[OF T Suc.prems(1-3) m(3)]]) (use again N in simp)
    then show ?thesis using m True by simp
  next
    case False
    then show ?thesis using m N Suc.prems(4) by simp
  qed
qed simp

text \<open>
  \<open>Execute\<close> with a number of iterations, called when no thread is launched (the director is new, or
  \<open>StopExecution\<close> was called) or when one waits.
\<close>

lemma Execute_ends:
  assumes T: "T < DefaultNextExecutionTime" and N: "0 < N" "nat N < n"
    and g: "going clk T fuel d" and p: "promises_ok d" and m: "m_executionCancellationToken d = None \<or> armed d"
  shows "ends execution_failure (\<lambda>_ d'. waiting clk T fuel d' \<and> m_executionCancellationToken d' = None)
    (Execute run cfuel fuel n N d)"
proof -
  let ?start = "case m_executionCancellationToken d of None \<Rightarrow> ScheduleNextExecution d
    | Some tok \<Rightarrow> if token_canceled tok d then ScheduleNextExecution d else Ret () d"
  have "ends execution_failure (\<lambda>_ d'. going clk T fuel d' \<and> promises_ok d' \<and> armed d') ?start"
  proof (cases "armed d")
    case True
    then show ?thesis using g p by (auto simp: armed_def)
  next
    case False
    have "ends execution_failure (\<lambda>_ d'. going clk T fuel d' \<and> promises_ok d' \<and> armed d') (ScheduleNextExecution d)"
      using ScheduleNextExecution_arms[OF p] going_queue[OF g]
      by (cases "ScheduleNextExecution d") (auto simp: execution_failure_def)
    then show ?thesis using m False by simp
  qed
  then show ?thesis
    unfolding Execute_def
  proof (rule ends_bind)
    fix u :: unit and d1 :: "('cb, 'z) dstate_scheme"
    assume d1: "going clk T fuel d1 \<and> promises_ok d1 \<and> armed d1"
    have "ends execution_failure (\<lambda>_. waiting clk T fuel) (execute_rounds run cfuel fuel N n 0 (m_executionResult d1) d1)"
      by (rule execute_rounds_ends[OF T N(1)]) (use d1 N in simp_all)
    then show "ends execution_failure (\<lambda>_ d'. waiting clk T fuel d' \<and> m_executionCancellationToken d' = None)
        (run_bind (execute_rounds run cfuel fuel N n 0 (m_executionResult d1) d1) (\<lambda>_ d2. Ret () (StopExecution d2)))"
    proof (rule ends_bind)
      fix v :: unit and d2 :: "('cb, 'z) dstate_scheme"
      assume "waiting clk T fuel d2"
      then have "waiting clk T fuel (StopExecution d2)" by (rule waiting_queue) (simp_all add: same_queue_def)
      then show "ends execution_failure (\<lambda>_ d'. waiting clk T fuel d' \<and> m_executionCancellationToken d' = None)
          (Ret () (StopExecution d2))" by simp
    qed
  qed
qed

end

end
