(* ===== verification/RoundDirector.thy ===== *)
theory RoundDirector
  imports ReactionFrame Executions
begin

text \<open>
  What a round of \<open>Director::ExecuteCallbacks\<close> with the framework's own callbacks does to the
  director: the callbacks registered stay ones that a round can run, requests for reactions are
  due at once, a callback that ran is put back at its next time or removed, and the work that user
  code adds for the round is paid from a budget.
\<close>

section \<open>Prices\<close>

fun is_reaction :: "'e callback \<Rightarrow> bool" where
  "is_reaction (ProcessQueueOf a) = True"
| "is_reaction _ = False"

lemma is_reaction_iff: "is_reaction f \<longleftrightarrow> (\<exists>a. f = ProcessQueueOf a)"
  by (cases f) simp_all

text \<open>
  What a step of user code may cost, and what is set aside for it: a handler, \<open>Fire\<close> and a callback
  of the user may schedule callbacks up to a price; an event in the queue of an input port, and the
  callback that sends an output, carry the price of what they will cause.
\<close>

record prices =
  p_handler :: "nat \<Rightarrow> nat"
  p_fire :: nat
  p_callback :: "nat \<Rightarrow> nat"
  p_input :: "nat \<Rightarrow> nat"
  p_output :: "nat \<Rightarrow> string \<Rightarrow> nat"

fun price :: "prices \<Rightarrow> 'e callback \<Rightarrow> nat" where
  "price P (SendOutputTo a name ev) = Suc (p_output P a name)"
| "price P (UserCallback f) = Suc (p_callback P f)"
| "price P (UpdateModel a) = 1"
| "price P (ProcessQueueOf a) = 0"

text \<open>
  The prices of a registered callback: of its occurrences due by a time, of those of a periodic one
  (which stays registered), and of one run.
\<close>

definition due_price :: "prices \<Rightarrow> 'e callback callback_map \<Rightarrow> int \<Rightarrow> int \<Rightarrow> nat" where
  "due_price P m t i = (case map_of m i of None \<Rightarrow> 0 | Some c \<Rightarrow> price P (callbackFunction c) * due_count m t i)"

definition repeat_price :: "prices \<Rightarrow> 'e callback callback_map \<Rightarrow> int \<Rightarrow> int \<Rightarrow> nat" where
  "repeat_price P m t i = (case map_of m i of None \<Rightarrow> 0 | Some c \<Rightarrow> if isPeriodic c then due_price P m t i else 0)"

definition run_price :: "prices \<Rightarrow> 'e callback callback_map \<Rightarrow> int \<Rightarrow> nat" where
  "run_price P m i = (case map_of m i of None \<Rightarrow> 0 | Some c \<Rightarrow> price P (callbackFunction c))"

text \<open>What is due in a round, and what is queued, with what the round will run again.\<close>

definition due_work :: "prices \<Rightarrow> ('e, 'u) world \<Rightarrow> nat" where
  "due_work P w = sum_list (map (due_price P (m_scheduledCallbacks w) (m_nextScheduledExecutionTime w)) (m_callbackQueue w))"

definition queue_price :: "prices \<Rightarrow> 'e callback callback_map \<Rightarrow> int \<Rightarrow> int \<Rightarrow> nat" where
  "queue_price P m t i = run_price P m i + repeat_price P m t i"

definition stock :: "prices \<Rightarrow> ('e, 'u) world \<Rightarrow> nat" where
  "stock P w = sum_list (map (queue_price P (m_scheduledCallbacks w) (m_nextScheduledExecutionTime w)) (m_callbackQueue w))"

lemma price_cong:
  assumes "map_of m' i = map_of m i"
  shows "due_price P m' t i = due_price P m t i" "queue_price P m' t i = queue_price P m t i"
proof -
  have "due_count m' t i = due_count m t i" using assms by (simp add: due_count_def)
  then show "due_price P m' t i = due_price P m t i" "queue_price P m' t i = queue_price P m t i"
    using assms by (simp_all add: due_price_def repeat_price_def run_price_def queue_price_def split: option.split)
qed

lemma work_cong:
  assumes "\<And>i. i \<in> set q \<Longrightarrow> map_of m' i = map_of m i"
  shows "sum_list (map (due_price P m' t) q) = sum_list (map (due_price P m t) q)"
    and "sum_list (map (queue_price P m' t) q) = sum_list (map (queue_price P m t) q)"
  using assms by (auto intro!: arg_cong[of _ _ sum_list] map_cong price_cong)

text \<open>A callback that is not queued is put into the queue.\<close>

lemma work_put:
  assumes "i \<notin> set (m_callbackQueue w)" and "\<And>j. j \<noteq> i \<Longrightarrow> map_of m j = map_of (m_scheduledCallbacks w) j"
    and "m_scheduledCallbacks w' = m" "m_callbackQueue w' = insort_key k i (m_callbackQueue w)"
      "m_nextScheduledExecutionTime w' = m_nextScheduledExecutionTime w"
  shows "due_work P w' = due_price P m (m_nextScheduledExecutionTime w) i + due_work P w"
    and "stock P w' = queue_price P m (m_nextScheduledExecutionTime w) i + stock P w"
proof -
  have "map_of m j = map_of (m_scheduledCallbacks w) j" if "j \<in> set (m_callbackQueue w)" for j using that assms(1,2) by metis
  note q = work_cong[OF this]
  show "due_work P w' = due_price P m (m_nextScheduledExecutionTime w) i + due_work P w"
    and "stock P w' = queue_price P m (m_nextScheduledExecutionTime w) i + stock P w"
    by (simp_all add: due_work_def stock_def assms(3-5) sum_list_insort_key q)
qed

lemma work_erase:
  assumes "i \<notin> set (m_callbackQueue w)"
  shows "due_work P (RemoveScheduledCallbackFromMap i w) = due_work P w" "stock P (RemoveScheduledCallbackFromMap i w) = stock P w"
proof -
  have "map_of (smap_erase i (m_scheduledCallbacks w)) j = map_of (m_scheduledCallbacks w) j" if "j \<in> set (m_callbackQueue w)" for j
    using that assms by auto
  note q = work_cong[OF this]
  show "due_work P (RemoveScheduledCallbackFromMap i w) = due_work P w" "stock P (RemoveScheduledCallbackFromMap i w) = stock P w"
    by (simp_all add: due_work_def stock_def RemoveScheduledCallbackFromMap_def q)
qed

section \<open>The director during a round\<close>

text \<open>
  Callbacks that a round can run: an output exists and its connections end, a queue is that of a
  composite, and the structure of the model does not change.
\<close>

fun sound :: "('e, 'u) world \<Rightarrow> nat \<Rightarrow> nat \<Rightarrow> 'e callback \<Rightarrow> bool" where
  "sound w levels n (SendOutputTo a name ev) =
     (\<exists>x p. accessors w a = Some x \<and> GetOutputPort name x = Inr p \<and> routed w levels n p)"
| "sound w levels n (ProcessQueueOf a) = (a \<in> composites w)"
| "sound w levels n (UpdateModel a) = False"
| "sound w levels n (UserCallback f) = True"

definition callbacks_sound :: "('e, 'u) world \<Rightarrow> nat \<Rightarrow> nat \<Rightarrow> ('e, 'u) world \<Rightarrow> bool" where
  "callbacks_sound w0 levels n w \<longleftrightarrow> periods_positive w \<and>
     (\<forall>i c. map_of (m_scheduledCallbacks w) i = Some c \<longrightarrow> sound w0 levels n (callbackFunction c) \<and>
        (is_reaction (callbackFunction c) \<longrightarrow>
           \<not> isPeriodic c \<and> nextExecutionTimeInMilliseconds c \<le> m_nextScheduledExecutionTime w))"

definition in_round :: "('e, 'u) world \<Rightarrow> nat \<Rightarrow> nat \<Rightarrow> ('e, 'u) world \<Rightarrow> bool" where
  "in_round w0 levels n w \<longleftrightarrow> director_ok w \<and> composites w = composites w0 \<and>
     m_currentLogicalTime w = m_nextScheduledExecutionTime w \<and> callbacks_sound w0 levels n w"

text \<open>
  What a step within a round does to the director, at the price \<open>x\<close>: the time stays, a callback that
  is not queued (the one that runs) stays so, the threads of the execution are left alone, and what
  it adds for this round, and for all rounds, is paid from the price or a budget in the user's state.
\<close>

definition spends :: "('e, 'u) world \<Rightarrow> nat \<Rightarrow> nat \<Rightarrow> prices \<Rightarrow> ('u \<Rightarrow> nat) \<Rightarrow> nat \<Rightarrow> ('e, 'u) world \<Rightarrow> ('e, 'u) world \<Rightarrow> bool" where
  "spends w0 levels n P budget x w w' \<longleftrightarrow> (in_round w0 levels n w \<longrightarrow> in_round w0 levels n w' \<and>
     m_nextScheduledExecutionTime w' = m_nextScheduledExecutionTime w \<and> m_nextCallbackId w \<le> m_nextCallbackId w' \<and>
     (\<forall>i. i \<notin> set (m_callbackQueue w) \<and> i < m_nextCallbackId w \<longrightarrow> i \<notin> set (m_callbackQueue w') \<and>
        (\<forall>c. map_of (m_scheduledCallbacks w') i = Some c \<longrightarrow> map_of (m_scheduledCallbacks w) i = Some c)) \<and>
     same_execution w w' \<and>
     due_work P w' + budget (userState w') \<le> due_work P w + budget (userState w) + x \<and>
     stock P w' + budget (userState w') \<le> stock P w + budget (userState w) + x)"

lemma spends_trans:
  "spends w0 levels n P budget x u v \<Longrightarrow> spends w0 levels n P budget y v w \<Longrightarrow> spends w0 levels n P budget (x + y) u w"
  unfolding spends_def by (auto intro: order_trans same_execution_trans dest: order.strict_trans2)

lemma spends_more: "spends w0 levels n P budget x v w \<Longrightarrow> x \<le> y \<Longrightarrow> spends w0 levels n P budget y v w"
  unfolding spends_def by (auto intro: order_trans)

lemma quiet_director:
  assumes "quiet v w"
  shows "m_callbackQueue w = m_callbackQueue v" "m_scheduledCallbacks w = m_scheduledCallbacks v"
    "m_nextCallbackId w = m_nextCallbackId v" "m_nextScheduledExecutionTime w = m_nextScheduledExecutionTime v"
    "m_currentLogicalTime w = m_currentLogicalTime v" "composites w = composites v" "userState w = userState v"
    "same_execution v w"
  using assms by (simp_all add: quiet_def dstate.truncate_def same_execution_def)

lemma spends_quiet: "quiet v w \<Longrightarrow> spends w0 levels n P budget 0 v w"
  by (simp add: spends_def in_round_def callbacks_sound_def periods_positive_def director_ok_def due_work_def stock_def quiet_director)

text \<open>Registering a callback.\<close>

lemma schedule_in_round:
  assumes w: "in_round w0 levels n w" and d: "0 \<le> delay"
  shows "ScheduleCallback f delay per prio w =
    (if fits_llong (m_currentLogicalTime w + delay) \<and> fits_int (m_nextCallbackId w + 1)
     then Ret (m_nextCallbackId w) (registered f delay per prio w) else Throw (Fatal SignedOverflow) w)"
  using ScheduleCallback_registered[of w delay f per prio] ScheduleCallback_cases[of w delay f per prio] w d
  by (auto simp: in_round_def)

lemma registered_in_round:
  fixes w :: "('e, 'u) world"
  assumes w: "in_round w0 levels n w" and fits: "fits_llong (m_currentLogicalTime w + delay)" "fits_int (m_nextCallbackId w + 1)"
    and f: "sound w0 levels n f" "is_reaction f \<Longrightarrow> \<not> per \<and> delay = 0" "per \<Longrightarrow> 0 < delay"
  shows "in_round w0 levels n (registered f delay per prio w)"
proof -
  let ?w = "registered f delay per prio w"
  have ok: "director_ok ?w" using w fits ScheduleCallback_registered[of w delay f per prio] by (simp add: in_round_def)
  have "dstate.more ?w = dstate.more w" by (simp add: registered_def Let_def)
  then have "composites ?w = composites w" using world_of_more(1)[of ?w w] by (simp add: composites_def)
  moreover have "callbacks_sound w0 levels n ?w"
    using w f unfolding in_round_def callbacks_sound_def periods_positive_def
    by (auto simp: new_callback_def split: if_splits)
  ultimately show ?thesis using w ok by (simp add: in_round_def)
qed

lemma registered_spends:
  fixes w :: "('e, 'u) world"
  assumes w: "in_round w0 levels n w" and fits: "fits_llong (m_currentLogicalTime w + delay)" "fits_int (m_nextCallbackId w + 1)"
    and f: "sound w0 levels n f" "is_reaction f \<Longrightarrow> \<not> per \<and> delay = 0" "per \<Longrightarrow> 0 < delay" and d: "0 \<le> delay"
  shows "spends w0 levels n P budget (price P f) w (registered f delay per prio w)"
proof -
  let ?w = "registered f delay per prio w" and ?t = "m_nextScheduledExecutionTime w" and ?i = "m_nextCallbackId w"
    and ?m = "m_scheduledCallbacks w"
  let ?m' = "m_scheduledCallbacks ?w"
  have out: "?i \<notin> set (m_callbackQueue w)" using w by (auto simp: in_round_def director_ok_def queue_wf_def)
  have m': "map_of ?m' ?i = Some (new_callback f delay per prio (m_currentLogicalTime w + delay))" by simp
  have "m_callbackQueue ?w = insort_key (sched_key ?m') ?i (m_callbackQueue w)" by (simp add: registered_def Let_def)
  note put = work_put[OF out _ refl this, where P = P]
  have due: "due_price P ?m' ?t ?i \<le> price P f" "queue_price P ?m' ?t ?i = price P f"
    using w d f(3) by (auto simp: due_price_def queue_price_def repeat_price_def run_price_def due_count_def new_callback_def in_round_def)
  have "due_work P ?w \<le> due_work P w + price P f" using put(1) due(1) by simp
  moreover have "stock P ?w = stock P w + price P f" using put(2) due by simp
  moreover have "userState ?w = userState w" by (rule world_of_more(4)) (simp add: registered_def Let_def)
  moreover have "same_execution w ?w" by (simp add: same_execution_def registered_def Let_def)
  ultimately show ?thesis using registered_in_round[OF w fits f] by (auto simp: spends_def set_insort_key)
qed

lemma ask_spends:
  fixes w :: "('e, 'u) world"
  assumes "a \<in> composites w"
  shows "run_prop (spends w0 levels n P budget 0 w) (ScheduleCallback (ProcessQueueOf a) 0 False p w)"
proof (cases "in_round w0 levels n w")
  case True
  have "a \<in> composites w0" using True assms by (simp add: in_round_def)
  then show ?thesis
    using schedule_in_round[OF True, of 0] registered_spends[OF True, of 0 "ProcessQueueOf a" False P budget p]
    by (simp add: spends_quiet)
next
  case False
  then show ?thesis by (cases "ScheduleCallback (ProcessQueueOf a) 0 False p w") (simp_all add: spends_def)
qed

interpretation round: reaction_frame "spends w0 levels n P budget 0" for w0 levels n P budget
  by unfold_locales (auto intro: spends_trans[of _ _ _ _ _ 0 _ _ 0, simplified] spends_quiet ask_spends)

section \<open>Taking a callback out and putting it back\<close>

lemma ends_and: "ends E P r \<Longrightarrow> run_prop Q r \<Longrightarrow> ends E (\<lambda>x w. P x w \<and> Q w) r"
  by (cases r) simp_all

lemma popped_round:
  fixes w :: "('e, 'u) world"
  assumes w: "in_round w0 levels n w" and q: "m_callbackQueue w = i # q"
  defines "w1 \<equiv> w\<lparr>m_callbackQueue := q\<rparr>"
  shows "in_round w0 levels n w1" and "i \<notin> set q" and "i < m_nextCallbackId w" and "reaction_ids w1 = reaction_ids w - {i}"
    and "due_work P w = due_price P (m_scheduledCallbacks w) (m_nextScheduledExecutionTime w) i + due_work P w1"
    and "stock P w = queue_price P (m_scheduledCallbacks w) (m_nextScheduledExecutionTime w) i + stock P w1"
proof -
  have wf: "queue_wf (m_scheduledCallbacks w) (i # q) (m_nextCallbackId w)"
    using w q by (simp add: in_round_def director_ok_def)
  note tl = queue_wf_tl[OF wf]
  then show "i \<notin> set q" by blast
  show "i < m_nextCallbackId w" using wf by (auto simp: queue_wf_def)
  have "composites w1 = composites w" by (simp add: composites_def w1_def)
  then show "in_round w0 levels n w1"
    using w tl by (simp add: in_round_def callbacks_sound_def periods_positive_def director_ok_def w1_def)
  show "reaction_ids w1 = reaction_ids w - {i}" using q tl by (auto simp: reaction_ids_def w1_def)
  show "due_work P w = due_price P (m_scheduledCallbacks w) (m_nextScheduledExecutionTime w) i + due_work P w1"
    "stock P w = queue_price P (m_scheduledCallbacks w) (m_nextScheduledExecutionTime w) i + stock P w1"
    using q by (simp_all add: due_work_def stock_def w1_def)
qed

text \<open>The next occurrence of a periodic callback, in the round or after it.\<close>

lemma next_occurrence:
  assumes m: "map_of m i = Some c" "isPeriodic c" "0 < delayInMilliseconds c" "nextExecutionTimeInMilliseconds c \<le> t"
    and m': "map_of m' i = Some (c\<lparr>nextExecutionTimeInMilliseconds := nextExecutionTimeInMilliseconds c + delayInMilliseconds c\<rparr>)"
  shows "due_price P m' t i + price P (callbackFunction c) = due_price P m t i"
    and "queue_price P m' t i + price P (callbackFunction c) = queue_price P m t i"
proof -
  let ?n = "nextExecutionTimeInMilliseconds c" and ?p = "delayInMilliseconds c"
  have "due_count m' t i + 1 = due_count m t i"
  proof (cases "?n + ?p \<le> t")
    case le: True
    then have "0 \<le> (t - (?n + ?p)) div ?p" using m(3) by (simp add: pos_imp_zdiv_nonneg_iff)
    then show ?thesis using m m' le div_step[OF m(3) le] by (simp add: due_count_def)
  next
    case False
    have "(t - ?n) div ?p = 0" using False m(4) by (simp add: div_pos_pos_trivial)
    then show ?thesis using False m m' by (simp add: due_count_def)
  qed
  then have "due_count m t i = Suc (due_count m' t i)" by simp
  then show "due_price P m' t i + price P (callbackFunction c) = due_price P m t i"
    using m(1) m' by (simp add: due_price_def)
  then show "queue_price P m' t i + price P (callbackFunction c) = queue_price P m t i"
    using m(1,2) m' by (simp add: queue_price_def repeat_price_def run_price_def)
qed

text \<open>A callback that ran is put back at its next time, or removed: what it was registered for is used up.\<close>

lemma reschedule_round:
  fixes w :: "('e, 'u) world"
  assumes w: "in_round w0 levels n w" and i: "i \<notin> set (m_callbackQueue w)"
    and c: "\<And>c'. map_of (m_scheduledCallbacks w) i = Some c' \<Longrightarrow> c' = c" "map_of m i = Some c"
    and due: "nextExecutionTimeInMilliseconds c \<le> m_nextScheduledExecutionTime w"
  shows "ends own_failure (\<lambda>_ w'. in_round w0 levels n w' \<and> m_nextScheduledExecutionTime w' = m_nextScheduledExecutionTime w \<and>
      dstate.more w' = dstate.more w \<and> same_execution w w' \<and> reaction_ids w' = reaction_ids w \<and>
      (\<forall>a. reaction_scheduled w' a = reaction_scheduled w a) \<and>
      due_work P w' + price P (callbackFunction c) \<le> due_work P w + due_price P m (m_nextScheduledExecutionTime w) i \<and>
      stock P w' + price P (callbackFunction c) \<le> stock P w + queue_price P m (m_nextScheduledExecutionTime w) i)
    (reschedule_or_remove i w)" (is "ends _ (\<lambda>_. ?done) _")
proof -
  let ?t = "m_nextScheduledExecutionTime w"
  have once: "price P (callbackFunction c) \<le> due_price P m ?t i" "price P (callbackFunction c) \<le> queue_price P m ?t i"
    using c(2) due by (simp_all add: due_price_def due_count_def queue_price_def run_price_def)
  have ok: "director_ok w" using w by (simp add: in_round_def)
  show ?thesis
  proof (cases "map_of (m_scheduledCallbacks w) i")
    case None
    then show ?thesis using w once by (simp add: reschedule_or_remove_def)
  next
    case (Some c')
    then have m: "map_of (m_scheduledCallbacks w) i = Some c" using c(1) by simp
    show ?thesis
    proof (cases "isPeriodic c")
      case False
      let ?w = "RemoveScheduledCallbackFromMap i w"
      have "director_ok ?w" using ok queue_wf_erase_out[OF _ i] by (simp add: director_ok_def RemoveScheduledCallbackFromMap_def)
      then have "in_round w0 levels n ?w"
        using w by (simp add: in_round_def callbacks_sound_def periods_positive_def RemoveScheduledCallbackFromMap_def composites_def)
      moreover have "reaction_ids ?w = reaction_ids w" "\<forall>a. reaction_scheduled ?w a = reaction_scheduled w a"
        using i by (auto simp: reaction_ids_def reaction_scheduled_def RemoveScheduledCallbackFromMap_def)
      ultimately have "?done ?w"
        using once work_erase[OF i, of P] by (simp add: RemoveScheduledCallbackFromMap_def[of i w] same_execution_def)
      then show ?thesis using m False by (simp add: reschedule_or_remove_def)
    next
      case True
      let ?n = "nextExecutionTimeInMilliseconds c" and ?p = "delayInMilliseconds c"
      let ?c = "c\<lparr>nextExecutionTimeInMilliseconds := ?n + ?p\<rparr>"
      let ?m = "smap_put i ?c (m_scheduledCallbacks w)"
      let ?w = "w\<lparr>m_scheduledCallbacks := ?m, m_callbackQueue := insort_key (sched_key ?m) i (m_callbackQueue w)\<rparr>"
      have wf: "queue_wf ?m (m_callbackQueue w) (m_nextCallbackId w)"
      proof -
        have "queue_wf (m_scheduledCallbacks w) (m_callbackQueue w) (m_nextCallbackId w)" using ok by (simp add: director_ok_def)
        moreover from this m have "0 \<le> i" "i < m_nextCallbackId w" unfolding queue_wf_def by blast+
        ultimately show ?thesis using queue_wf_put_out i by blast
      qed
      note put = queue_wf_queue[of "w\<lparr>m_scheduledCallbacks := ?m\<rparr>" "m_nextCallbackId w" i]
      have q: "QueueScheduledCallback i (w\<lparr>m_scheduledCallbacks := ?m\<rparr>) = Ret () ?w"
        using put wf i by simp
      have okw: "director_ok ?w" using put wf i by (simp add: director_ok_def)
      have p: "0 < ?p" and r: "\<not> is_reaction (callbackFunction c)"
        using w m True unfolding in_round_def callbacks_sound_def periods_positive_def by blast+
      have "in_round w0 levels n ?w"
        using w okw m r unfolding in_round_def callbacks_sound_def periods_positive_def
        by (auto simp: composites_def split: if_splits)
      moreover have "reaction_ids ?w = reaction_ids w" "\<forall>a. reaction_scheduled ?w a = reaction_scheduled w a"
        using i r by (auto simp: reaction_ids_def reaction_scheduled_def set_insort_key is_reaction_iff)
      moreover have "due_work P ?w = due_price P ?m ?t i + due_work P w" "stock P ?w = queue_price P ?m ?t i + stock P w"
        using work_put[OF i, of ?m ?w "sched_key ?m" P] by simp_all
      moreover note next_occurrence[OF c(2) True p due, of ?m P]
      ultimately have "?done ?w" by (simp add: same_execution_def)
      then show ?thesis using m True q by (simp add: reschedule_or_remove_def own_failure_def Let_def)
    qed
  qed
qed

end
