(* ===== verification/ReactionPrices.thy ===== *)
theory ReactionPrices
  imports ReactionRounds RoundDirector
begin

text \<open>
  What a reaction costs: handlers and \<open>Fire\<close> schedule callbacks, such as outputs, up to their
  prices. An event in the queue of an input port carries the price of its handlers, and each step of
  the reaction that of \<open>Fire\<close>; so a reaction is paid for by the events it removes.
\<close>

section \<open>The contract\<close>

definition charges ::
  "('e, 'u) world \<Rightarrow> nat \<Rightarrow> nat \<Rightarrow> prices \<Rightarrow> ('u \<Rightarrow> nat) \<Rightarrow> ('e, 'u) user_code \<Rightarrow> bool" where
  "charges w0 levels n P budget U \<longleftrightarrow>
     (\<forall>h ev w. run_prop (spends w0 levels n P budget (p_handler P h) w) (u_handler U h ev w)) \<and>
     (\<forall>a w. run_prop (spends w0 levels n P budget (p_fire P) w) (u_fire U a w)) \<and>
     (\<forall>f w. run_prop (spends w0 levels n P budget (p_callback P f) w) (u_callback U f w))"

text \<open>The price of an event covers the handlers of its port.\<close>

definition inputs_priced :: "prices \<Rightarrow> (nat \<Rightarrow> nat list) \<Rightarrow> bool" where
  "inputs_priced P hs \<longleftrightarrow> (\<forall>p. sum_list (map (p_handler P) (hs p)) \<le> p_input P p)"

lemma spends_after:
  "spends w0 levels n P budget x v w \<Longrightarrow> run_prop (spends w0 levels n P budget y w) r \<Longrightarrow>
    run_prop (spends w0 levels n P budget (x + y) v) r"
  by (auto elim!: run_prop_mono spends_trans)

lemma spends_bind:
  assumes "run_prop (spends w0 levels n P budget x w) r" and "ends E Q r"
    and "\<And>a v. Q a v \<Longrightarrow> run_prop (spends w0 levels n P budget y v) (f a v)"
  shows "run_prop (spends w0 levels n P budget (x + y) w) (run_bind r f)"
  using assms by (cases r) (auto intro: spends_after elim: spends_more)

lemma spends_then:
  assumes "run_prop (spends w0 levels n P budget x w) r" and "\<And>a v. run_prop (spends w0 levels n P budget y v) (f a v)"
  shows "run_prop (spends w0 levels n P budget (x + y) w) (run_bind r f)"
  using assms by (cases r) (auto intro: spends_after elim: spends_more)

section \<open>One accessor\<close>

lemma handler_loop_price:
  assumes U: "charges w0 levels n P budget U"
  shows "run_prop (spends w0 levels n P budget (sum_list (map (p_handler P) hs)) w) (handler_loop U a name hs0 ev i hs w)"
proof (induction hs arbitrary: i w)
  case Nil
  then show ?case by (simp add: spends_quiet)
next
  case (Cons h hs)
  have h: "run_prop (spends w0 levels n P budget (p_handler P h) w) (u_handler U h ev w)" using U by (simp add: charges_def)
  show ?case
  proof (cases "u_handler U h ev w")
    case (Ret u w1)
    then have s: "spends w0 levels n P budget (p_handler P h) w w1" using h by simp
    then show ?thesis using Ret spends_after[OF s Cons] spends_more[OF s] by simp
  next
    case (Throw e w1)
    then have s: "spends w0 levels n P budget (p_handler P h) w w1" using h by simp
    have q: "spends w0 levels n P budget 0 w1 (erase_handler a name i hs0 w1)" by (rule spends_quiet) simp
    show ?thesis using Throw spends_more[OF s] spends_more[OF spends_trans[OF s q]] by simp
  qed simp
qed

lemma invoke_price:
  fixes w :: "('e, 'u) world"
  assumes U: "charges w0 levels n P budget U" and hs: "inputs_priced P hs" and r: "ready levels hs w a"
    and x: "accessors w a = Some x" "p \<in> set (GetInputPorts x)" and pt: "ports w p = Some pt"
  shows "run_prop (spends w0 levels n P budget (p_input P p) w) (InvokeInputHandlers U a (p_name pt) w)"
proof -
  obtain d where d: "a_kind x = Atomic d" "GetInputPort (p_name pt) x = Inr p"
      "map_of (m_inputHandlers d) (p_name pt) = Some (hs p)" using ready_port[OF r x] pt by auto
  have now: "handlers_now w a (p_name pt) = Some (hs p)" using x d by (simp add: handlers_now_def)
  have "sum_list (map (p_handler P) (hs p)) \<le> p_input P p" using hs by (simp add: inputs_priced_def)
  with handler_loop_price[OF U] have "run_prop (spends w0 levels n P budget (p_input P p) w)
      (handler_loop U a (p_name pt) (hs p) (GetLatestInput pt) 0 (hs p) w)"
    by (blast intro: run_prop_mono spends_more)
  then show ?thesis
    using x(1) d(2) pt now by (simp add: InvokeInputHandlers_def Accessor_GetLatestInput_def with_accessor_def)
qed

lemma process_port_price:
  fixes w :: "('e, 'u) world"
  assumes U: "charges w0 levels n P budget U" and hs: "inputs_priced P hs" and r: "ready levels hs w a"
    and x: "accessors w a = Some x" "p \<in> set (GetInputPorts x)"
  shows "run_prop (spends w0 levels n P budget (if waits (ports w) p then p_input P p else 0) w) (process_port U levels n a p w)"
proof -
  obtain pt where pt: "ports w p = Some pt" using ready_port[OF r x] by blast
  show ?thesis
  proof (cases "IsWaitingForInputHandler pt")
    case True
    from spends_then[OF invoke_price[OF U hs r x pt] round.dequeue_keeps]
    show ?thesis using True pt by (simp add: process_port_def with_port_def[of p "\<lambda>pt w. if _ pt then _ w else _ pt w"] waits_def)
  next
    case False
    then show ?thesis using pt by (simp add: process_port_def with_port_def waits_def spends_quiet)
  qed
qed

lemma each_port_price:
  fixes w :: "('e, 'u) world"
  assumes U: "polite w0 U hu fu" "charges w0 levels n P budget U" and n: "0 < n" and hs: "inputs_priced P hs"
  shows "same_shells w0 w \<Longrightarrow> ready levels hs w a \<Longrightarrow> accessors w a = Some x \<Longrightarrow> set ps \<subseteq> set (GetInputPorts x) \<Longrightarrow>
    distinct ps \<Longrightarrow> reactions_ok_but X R w \<Longrightarrow> inputs_alert_but Y w \<Longrightarrow>
    run_prop (spends w0 levels n P budget (sum_list (map (p_input P) (filter (waits (ports w)) ps))) w)
      (run_each (process_port U levels n a) ps w)"
proof (induction ps arbitrary: w x Y)
  case Nil
  then show ?case by (simp add: spends_quiet)
next
  case (Cons p ps)
  have p: "p \<in> set (GetInputPorts x)" "p \<notin> set ps" using Cons.prems(4,5) by simp_all
  let ?rest = "sum_list (map (p_input P) (filter (waits (ports w)) ps))"
  have "run_prop (spends w0 levels n P budget ((if waits (ports w) p then p_input P p else 0) + ?rest) w)
      (run_bind (process_port U levels n a p w) (\<lambda>_. run_each (process_port U levels n a) ps))"
  proof (rule spends_bind[OF process_port_price[OF U(2) hs Cons.prems(2,3) p(1)]
        process_port_ok[OF U(1) Cons.prems(1,2,3) p(1) Cons.prems(6,7) n, where A = "{}"]])
    fix u :: unit and w1 :: "('e, 'u) world"
    assume w1: "reactions_ok_but X R w1 \<and> inputs_alert_but (Y - {p}) w1 \<and> carries w w1 \<and>
      ports w1 = (ports w)(p := map_option handled (ports w p)) \<and> userState w1 = attend hu hs (ports w) p (userState w) \<and>
      entries {} w1 \<le> entries {} w + (if \<exists>pt. ports w p = Some pt \<and> IsWaitingForInputHandler pt then Suc levels else 0)"
    then have ad: "carries w w1" by blast
    obtain x1 where x1: "ready levels hs w1 a" "accessors w1 a = Some x1" "GetInputPorts x1 = GetInputPorts x"
      using carries_ready[OF ad Cons.prems(2,3)] by blast
    have "same_shells w w1" using ad by (simp add: carries_def same_wiring_def)
    note s1 = same_shells_trans[OF Cons.prems(1) this]
    have "filter (waits (ports w1)) ps = filter (waits (ports w)) ps"
      by (rule filter_cong) (use w1 p(2) in \<open>auto simp: waits_def\<close>)
    note same = this
    have "run_prop (spends w0 levels n P budget (sum_list (map (p_input P) (filter (waits (ports w1)) ps))) w1)
        (run_each (process_port U levels n a) ps w1)"
      by (rule Cons.IH[OF s1 x1(1,2), where Y = "Y - {p}"]) (use x1(3) w1 Cons.prems(4,5) in simp_all)
    then show "run_prop (spends w0 levels n P budget ?rest w1) (run_each (process_port U levels n a) ps w1)" by (simp only: same)
  qed
  then show ?case by (simp split: if_splits)
qed

lemma with_atomic_at: "accessors w a = Some x \<Longrightarrow> a_kind x = Atomic d \<Longrightarrow> with_atomic a f w = f x d w"
  by (simp add: with_atomic_def with_accessor_def)

lemma ProcessInputs_price:
  fixes w :: "('e, 'u) world"
  assumes U: "polite w0 U hu fu" "charges w0 levels n P budget U" and n: "0 < n" and hs: "inputs_priced P hs"
    and s: "same_shells w0 w" and r: "ready levels hs w a" and x: "accessors w a = Some x"
    and ok: "reactions_ok_but X R w" and al: "inputs_alert_but Y w"
  shows "run_prop (spends w0 levels n P budget (sum_list (map (p_input P) (filter (waits (ports w)) (GetInputPorts x))) + p_fire P) w)
    (ProcessInputs U levels n a w)"
proof -
  obtain d where d: "a_kind x = Atomic d" "distinct (GetInputPorts x)" using r x unfolding ready_def by auto
  have "run_prop (spends w0 levels n P budget (p_fire P) v)
      (with_atomic a (\<lambda>x d w. if m_hasFireFunction d then u_fire U a w else Ret () w) v)" for v
    using U(2) spends_more[OF spends_quiet[of v v]]
    by (auto simp: with_atomic_def with_accessor_def charges_def split: option.split accessor_kind.split)
  from spends_then[OF each_port_price[OF U n hs s r x subset_refl d(2) ok al] this]
  show ?thesis using x d by (simp add: ProcessInputs_def with_atomic_at)
qed

section \<open>The reaction\<close>

text \<open>What the model carries: the prices of the events in the queues, and of the steps of reactions.\<close>

definition carried :: "nat \<Rightarrow> prices \<Rightarrow> ('e, 'u) world \<Rightarrow> nat" where
  "carried levels P w = (\<Sum>p \<in> dom (ports w). p_input P p * backlog (ports w) p) + p_fire P * load levels w"

definition balances ::
  "('e, 'u) world \<Rightarrow> nat \<Rightarrow> nat \<Rightarrow> prices \<Rightarrow> ('u \<Rightarrow> nat) \<Rightarrow> ('e, 'u) world \<Rightarrow> ('e, 'u) world \<Rightarrow> bool" where
  "balances w0 levels n P budget w w' \<longleftrightarrow>
     (\<exists>x. spends w0 levels n P budget x w w' \<and> carried levels P w' + x \<le> carried levels P w)"

lemma balances_trans:
  assumes "balances w0 levels n P budget u v" and "balances w0 levels n P budget v w"
  shows "balances w0 levels n P budget u w"
proof -
  obtain x y where x: "spends w0 levels n P budget x u v" "carried levels P v + x \<le> carried levels P u"
    and y: "spends w0 levels n P budget y v w" "carried levels P w + y \<le> carried levels P v"
    using assms by (auto simp: balances_def)
  have "carried levels P w + (x + y) \<le> carried levels P u" using x(2) y(2) by linarith
  then show ?thesis using spends_trans[OF x(1) y(1)] by (auto simp: balances_def)
qed

lemma balances_quiet:
  assumes "quiet v w" and "same_wiring v w" and "ports w = ports v" and "load levels w \<le> load levels v"
  shows "balances w0 levels n P budget v w"
proof -
  have "carried levels P w \<le> carried levels P v" using assms(3,4) by (simp add: carried_def)
  then show ?thesis using spends_quiet[OF assms(1)] unfolding balances_def by (intro exI[of _ 0]) simp
qed

lemma child_price:
  fixes v w :: "('e, 'u) world"
  assumes U: "polite w0 U hu fu" "charges w0 levels n P budget U" and n: "0 < n" and hs: "inputs_priced P hs"
    and v: "unqueued levels v w" and st: "staffed w0 levels hs w"
    and y: "accessors w b = Some y" "\<not> IsComposite y" and ok: "reactions_ok_but (insert b X) R w"
    and al: "inputs_alert_but {p. \<exists>pt. ports w p = Some pt \<and> p_owner pt = b \<and> p_kind pt = InputPort} w"
  shows "ends own_failure (\<lambda>_. balances w0 levels n P budget v) (ProcessInputs U levels n b w)"
proof -
  obtain d where d: "a_kind y = Atomic d" using y(2) by (cases "a_kind y") simp_all
  have s: "same_shells w0 w" and i: "inputs_ok (ports w)" and f: "finite (dom (ports w))" and r: "ready levels hs w b"
    using st y by (simp_all add: staffed_def)
  have ps: "distinct (GetInputPorts y)" "set (GetInputPorts y) \<subseteq> dom (ports w)"
      "{p. \<exists>pt. ports w p = Some pt \<and> p_owner pt = b \<and> p_kind pt = InputPort} \<subseteq> set (GetInputPorts y)"
    using r y(1) unfolding ready_def by auto
  have "queue_of w b = {}" using y(1) d by (simp add: queue_of_def)
  then have "announced w b" by (simp add: announced_def)
  then have ok': "reactions_ok_but X R w" by (rule reactions_ok_close[OF ok])
  have al': "inputs_alert_but ({} \<union> set (GetInputPorts y)) w" using al ps(3) unfolding inputs_alert_but_def by blast
  let ?W = "sum_list (map (p_input P) (filter (waits (ports w)) (GetInputPorts y)))"
  note both = ends_and[OF child_reacts[OF U(1) n st y ok al] ProcessInputs_price[OF U n hs s r y(1) ok' al']]
  have "ends own_failure (\<lambda>_ w'. ports w' = handle_ports (GetInputPorts y) (ports w)) (ProcessInputs U levels n b w)"
    by (rule ends_mono[OF ProcessInputs_ok[OF U(1) n s r y(1) d ok' al', where A = "{}"]]) blast
  from ends_conj[OF both this] show ?thesis
  proof (rule ends_mono)
    fix u :: unit and w' :: "('e, 'u) world"
    assume w': "((reactions_ok_but X R w' \<and> inputs_alert_but {} w' \<and> staffed w0 levels hs w' \<and> same_wiring w w' \<and>
        load levels w' \<le> load levels w) \<and> spends w0 levels n P budget (?W + p_fire P) w w') \<and>
      ports w' = handle_ports (GetInputPorts y) (ports w)"
    have same: "dom (ports w') = dom (ports w)" "quiet v w" "ports w = ports v" "load levels w + 1 = load levels v"
      using w' same_wiring_dom[of w w'] v by (simp_all add: unqueued_def)
    have "(\<Sum>p \<in> dom (ports w). p_input P p * backlog (ports w') p) + ?W \<le> (\<Sum>p \<in> dom (ports w). p_input P p * backlog (ports w) p)"
      using handle_ports_price[OF i ps(1,2) f, of "p_input P"] w' by simp
    moreover have "p_fire P * load levels w' + p_fire P \<le> p_fire P * load levels v"
      using mult_le_mono2[of "load levels w' + 1" "load levels v" "p_fire P"] w' same(4) by simp
    ultimately have "carried levels P w' + (?W + p_fire P) \<le> carried levels P v"
      using same(1,3) by (simp add: carried_def)
    then show "balances w0 levels n P budget v w'"
      using spends_trans[OF spends_quiet[OF same(2)], of w0 levels n P budget "?W + p_fire P" w'] w'
      unfolding balances_def by (intro exI[of _ "?W + p_fire P"]) simp
  qed
qed

lemma reaction_price:
  fixes w :: "('e, 'u) world"
  assumes U: "polite w0 U hu fu" "charges w0 levels n P budget U" and n: "0 < n" and hs: "inputs_priced P hs"
    and st: "staffed w0 levels hs w" and x: "accessors w a = Some x" "IsComposite x"
    and ok: "reactions_ok_but (insert a X) R w" "inputs_alert_but {} w" and k: "load levels w < k"
  shows "ends own_failure (\<lambda>_ w'. reactions_ok_but X (R - {a}) w' \<and> inputs_alert_but {} w' \<and> staffed w0 levels hs w' \<and>
      same_wiring w w' \<and> load levels w' \<le> load levels w \<and> queue_of w' a = {} \<and> \<not> requested w' a \<and>
      balances w0 levels n P budget w w')
    (ProcessChildEventQueue U levels n k a w)"
proof (rule queue_loop_keeps[OF U(1) n _ _ _ _ st x ok k])
  show "balances w0 levels n P budget u v \<Longrightarrow> balances w0 levels n P budget v w \<Longrightarrow> balances w0 levels n P budget u w"
    for u v w :: "('e, 'u) world" by (rule balances_trans)
  show "quiet v w \<Longrightarrow> same_wiring v w \<Longrightarrow> ports w = ports v \<Longrightarrow> load levels w = load levels v \<Longrightarrow> balances w0 levels n P budget v w"
    for v w :: "('e, 'u) world" by (rule balances_quiet) simp_all
  show "unqueued levels v w \<Longrightarrow> balances w0 levels n P budget v w"
    for v w :: "('e, 'u) world" by (rule balances_quiet) (simp_all add: unqueued_def)
qed (rule child_price[OF U n hs])

end
