(* ===== verification/Delivery.thy ===== *)
theory Delivery
  imports Messages
begin

text \<open>
  Where an event arrives. Connections give every port at most one source (\<open>connections_ok\<close>,
  theory \<open>Port\<close>), so the ports reached from one port form a tree, and
  \<open>SendData\<close> takes the event to each of them once.
\<close>

section \<open>Every port is reached by one way\<close>

text \<open>The connections, as a relation.\<close>

definition leads :: "('e, 'u) world \<Rightarrow> (nat \<times> nat) set" where
  "leads w = {(p, q). \<exists>pt. ports w p = Some pt \<and> q \<in> set (m_destinations pt)}"

lemma leads_back:
  assumes "connections_ok (ports w)"
  shows "single_valued ((leads w)\<inverse>)"
  unfolding single_valued_def leads_def
proof (intro allI impI)
  fix q p p'
  assume "(q, p) \<in> {(p, q). \<exists>pt. ports w p = Some pt \<and> q \<in> set (m_destinations pt)}\<inverse>"
    and "(q, p') \<in> {(p, q). \<exists>pt. ports w p = Some pt \<and> q \<in> set (m_destinations pt)}\<inverse>"
  then obtain pt pt' where "ports w p = Some pt" "q \<in> set (m_destinations pt)"
      "ports w p' = Some pt'" "q \<in> set (m_destinations pt')" by auto
  then show "p = p'" using assms unfolding connections_ok_def by (metis option.inject)
qed

lemma routed_trancl:
  assumes "(p, q) \<in> (leads w)\<^sup>+"
  shows "routed w levels n p \<Longrightarrow> \<exists>m < n. routed w levels m q"
  using assms
proof (induction rule: trancl_induct)
  case (base q)
  then show ?case by (cases n) (auto simp: leads_def)
next
  case (step q r)
  then obtain m where m: "m < n" "routed w levels m q" by blast
  then obtain k where k: "m = Suc k" by (cases m) simp_all
  then have "routed w levels k r" using m(2) step.hyps(2) by (auto simp: leads_def)
  then show ?case using m(1) k by (intro exI[of _ k]) simp
qed

lemma routed_acyclic: "routed w levels n p \<Longrightarrow> (p, p) \<notin> (leads w)\<^sup>+"
proof (induction n rule: less_induct)
  case (less n)
  show ?case
  proof
    assume c: "(p, p) \<in> (leads w)\<^sup>+"
    from routed_trancl[OF c less.prems] less.IH c show False by blast
  qed
qed

lemma receivers_reached: "r \<in> set (receivers w data n p) \<Longrightarrow> (p, r) \<in> (leads w)\<^sup>+"
proof (induction n arbitrary: p)
  case (Suc n)
  then obtain pt where pt: "ports w p = Some pt" by (cases "ports w p") auto
  with Suc.prems obtain q where q: "q \<in> set (m_destinations pt)"
      "r \<in> set (arrivals w data (receivers w data n) q)" by auto
  then have e: "(p, q) \<in> leads w" using pt by (auto simp: leads_def)
  have "r = q \<or> r \<in> set (receivers w data n q)" using q(2) by (auto simp: arrivals_def split: option.splits if_splits)
  then show ?case using e Suc.IH by (meson r_into_trancl trancl_into_trancl2)
qed simp

lemma distinct_concat_map:
  "distinct xs \<Longrightarrow> (\<And>x. x \<in> set xs \<Longrightarrow> distinct (f x)) \<Longrightarrow>
   (\<And>x y r. x \<in> set xs \<Longrightarrow> y \<in> set xs \<Longrightarrow> r \<in> set (f x) \<Longrightarrow> r \<in> set (f y) \<Longrightarrow> x = y) \<Longrightarrow> distinct (concat (map f xs))"
proof (induction xs)
  case (Cons x xs)
  have "set (f x) \<inter> (\<Union>y \<in> set xs. set (f y)) = {}" using Cons.prems(1,3) by fastforce
  then show ?case using Cons by simp
qed simp

text \<open>Since a port has one source, no port gets an event twice.\<close>

lemma receivers_distinct:
  assumes c: "connections_ok (ports w)"
  shows "routed w levels n p \<Longrightarrow> distinct (receivers w data n p)"
proof (induction n arbitrary: p)
  case (Suc n)
  let ?a = "arrivals w data (receivers w data n)"
  from Suc.prems obtain pt where pt: "ports w p = Some pt" "\<And>q. q \<in> set (m_destinations pt) \<Longrightarrow> routed w levels n q"
    by (auto split: option.splits)
  have reached: "(q, r) \<in> (leads w)\<^sup>*" if "r \<in> set (?a q)" for q r
  proof -
    have "r = q \<or> r \<in> set (receivers w data n q)" using that by (auto simp: arrivals_def split: option.splits if_splits)
    then show ?thesis using receivers_reached by (metis rtrancl.rtrancl_refl trancl_into_rtrancl)
  qed
  have apart: "q = q'" if q: "q \<in> set (m_destinations pt)" "q' \<in> set (m_destinations pt)" "(q', q) \<in> (leads w)\<^sup>*" for q q'
  proof (rule ccontr)
    assume "q \<noteq> q'"
    then have "(q', q) \<in> (leads w)\<^sup>+" using q(3) by (metis rtranclD)
    then obtain s where s: "(q', s) \<in> (leads w)\<^sup>*" "(s, q) \<in> leads w" by (meson tranclD2)
    have "(p, q) \<in> leads w" "(p, q') \<in> leads w" using pt(1) q(1,2) by (auto simp: leads_def)
    then have "s = p" using s(2) leads_back[OF c] unfolding single_valued_def by blast
    then have "(q', q') \<in> (leads w)\<^sup>+" using s(1) \<open>(p, q') \<in> leads w\<close> by simp
    then show False using routed_acyclic[OF pt(2)[OF q(2)]] by simp
  qed
  have "distinct (concat (map ?a (m_destinations pt)))"
  proof (rule distinct_concat_map)
    show "distinct (m_destinations pt)" using c pt(1) unfolding connections_ok_def by blast
    show "distinct (?a q)" if "q \<in> set (m_destinations pt)" for q
    proof -
      have "q \<notin> set (receivers w data n q)" using receivers_reached routed_acyclic[OF pt(2)[OF that]] by blast
      then show ?thesis using Suc.IH[OF pt(2)[OF that]] by (simp add: arrivals_def split: option.split)
    qed
    fix q q' r assume q: "q \<in> set (m_destinations pt)" "q' \<in> set (m_destinations pt)" "r \<in> set (?a q)" "r \<in> set (?a q')"
    have "(r, q) \<in> ((leads w)\<inverse>)\<^sup>*" "(r, q') \<in> ((leads w)\<inverse>)\<^sup>*"
      using reached[OF q(3)] reached[OF q(4)] by (simp_all add: rtrancl_converse)
    from single_valued_confluent[OF leads_back[OF c] this] have "(q', q) \<in> (leads w)\<^sup>* \<or> (q, q') \<in> (leads w)\<^sup>*"
      by (simp add: rtrancl_converse)
    then show "q = q'" using apart[OF q(1,2)] apart[OF q(2,1)] by blast
  qed
  then show ?case using pt(1) by simp
qed simp

section \<open>Sending an event\<close>

text \<open>
  C4. Sending an event. When the connections are well formed and end, no port gets it twice, and exactly the ports that \<open>receivers\<close> names have
  it at the end of their queues, the user's state is as before, the accessors are the same up to
  their event queues, their requests for a reaction and the identifiers of their callbacks, and
  no input is forgotten: whenever
  an input port waits for its handlers, its accessor is pending, with a callback of the host in
  the director's queue. The call ends, and fails only when a time overflows or a thread cannot
  be started.
\<close>

theorem SendData_delivers:
  fixes w :: "('e, 'u) world"
  assumes "routed w levels n p" and "messages_ok w" and "connections_ok (ports w)"
  shows "ends own_failure
    (\<lambda>_ w'. distinct (receivers w data n p) \<and> ports w' = deliver data (receivers w data n p) (ports w) \<and> userState w' = userState w \<and>
       same_shells w w' \<and> messages_ok w' \<and>
       (\<forall>q qt x g. ports w' q = Some qt \<and> accessors w' (p_owner qt) = Some x \<and> takes qt x \<and>
          m_waitingForInputHandler qt \<and> m_parent x = Some g \<and> hosted w' levels g \<longrightarrow>
          pending w' (Suc levels) (p_owner qt)))
    (SendData levels n p data w)"
proof (rule ends_mono[OF SendData_ok[OF assms(1,2) receivers_distinct[OF assms(3,1)], where A = "{}"]])
  fix u :: unit and w' :: "('e, 'u) world"
  assume w': "messages_ok w' \<and> wakes w w' \<and> ports w' = deliver data (receivers w data n p) (ports w) \<and>
    entries {} w' \<le> entries {} w + Suc levels * length (receivers w data n p)"
  then have r: "reactions_ok_but {} {} w'" and i: "inputs_alert_but {} w'" by (simp_all add: messages_ok_def)
  have "pending w' (Suc levels) (p_owner qt)"
    if h: "ports w' q = Some qt \<and> accessors w' (p_owner qt) = Some x \<and> takes qt x \<and>
          m_waitingForInputHandler qt \<and> m_parent x = Some g \<and> hosted w' levels g" for q qt x g
  proof -
    have "p_owner qt \<in> queue_of w' g" using i h unfolding inputs_alert_but_def by blast
    then show ?thesis using queued_pending[OF r] h by blast
  qed
  then show "distinct (receivers w data n p) \<and> ports w' = deliver data (receivers w data n p) (ports w) \<and> userState w' = userState w \<and>
       same_shells w w' \<and> messages_ok w' \<and>
       (\<forall>q qt x g. ports w' q = Some qt \<and> accessors w' (p_owner qt) = Some x \<and> takes qt x \<and>
          m_waitingForInputHandler qt \<and> m_parent x = Some g \<and> hosted w' levels g \<longrightarrow>
          pending w' (Suc levels) (p_owner qt))"
    using w' receivers_distinct[OF assms(3,1)] unfolding wakes_def by blast
qed

definition running :: "(nat, unit) world" where
  "running = empty_world\<lparr>nextPort := 2,
     ports := [0 \<mapsto> (Port_new ''Out'' 1 (OutputPort False))\<lparr>m_destinations := [1]\<rparr>,
       1 \<mapsto> (Port_new ''In'' 2 InputPort)\<lparr>m_source := Some 0\<rparr>],
     accessors := [1 \<mapsto> (Accessor_new ''First'' (Atomic no_atomic))\<lparr>m_parent := Some 8, m_initialized := True\<rparr>,
       2 \<mapsto> (Accessor_new ''Second'' (Atomic no_atomic))\<lparr>m_parent := Some 8, m_initialized := True, m_priority := 3\<rparr>,
       8 \<mapsto> (Accessor_new ''Host'' (Composite (plain_composite True [1, 2])))\<lparr>m_initialized := True\<rparr>]\<rparr>"

lemma running_ok: "messages_ok running"
proof -
  have "queue_of running = (\<lambda>_. {})"
    by (simp add: fun_eq_iff queue_of_def running_def Accessor_new_def plain_composite_def upq_new_def)
  moreover have "\<not> requested running a" for a
    by (simp add: requested_def running_def Accessor_new_def plain_composite_def)
  moreover have "director_ok running" by (simp add: running_def director_ok_def queue_wf_def empty_world_def
      dstate.extend_def Director_new_def Let_def)
  moreover have "upq_ok r (m_childEventQueue c)" if "accessors running a = Some x" "a_kind x = Composite c" for a x c r
    using that by (auto simp: running_def Accessor_new_def plain_composite_def split: if_splits)
  moreover have "\<not> m_waitingForInputHandler qt" if "ports running q = Some qt" for q qt
    using that by (auto simp: running_def Port_new_def split: if_splits)
  ultimately show ?thesis
    unfolding messages_ok_def reactions_ok_but_def queues_ok_def announced_def request_answered_def inputs_alert_but_def
    by auto
qed

lemma running_connections: "connections_ok (ports running)"
  by (auto simp: connections_ok_def running_def Port_new_def split: if_splits)

lemma SendData_delivers_witness:
  "ends own_failure (\<lambda>_ w'. map_option m_inputQueue (ports w' 1) = Some [Some 5] \<and> messages_ok w' \<and> pending w' 2 2)
     (SendData 1 2 0 (Some 5) running)"
proof -
  have r: "routed running 1 2 0"
    by (simp add: running_def numeral_2_eq_2 Port_new_def Accessor_new_def plain_composite_def)
  have rc: "receivers running (Some 5) 2 0 = [1]"
    by (simp add: running_def numeral_2_eq_2 Port_new_def Accessor_new_def arrivals_def IsInitialized_def takes_def
        passes_def QueueInput_def)
  have h: "hosted running 1 8" by (simp add: running_def Accessor_new_def plain_composite_def)
  have x: "accessors running 2 = Some ((Accessor_new ''Second'' (Atomic no_atomic))
      \<lparr>m_parent := Some 8, m_initialized := True, m_priority := 3\<rparr>)" by (simp add: running_def)
  show ?thesis
  proof (rule ends_mono[OF SendData_delivers[OF r running_ok running_connections]])
    fix u :: unit and w' :: "(nat, unit) world"
    assume w': "distinct (receivers running (Some 5) 2 0) \<and> ports w' = deliver (Some 5) (receivers running (Some 5) 2 0) (ports running) \<and>
       userState w' = userState running \<and> same_shells running w' \<and> messages_ok w' \<and>
       (\<forall>q qt x g. ports w' q = Some qt \<and> accessors w' (p_owner qt) = Some x \<and> takes qt x \<and>
          m_waitingForInputHandler qt \<and> m_parent x = Some g \<and> hosted w' 1 g \<longrightarrow> pending w' (Suc 1) (p_owner qt))"
    have p: "ports w' 1 = Some (QueueInput (Some 5) ((Port_new ''In'' 2 InputPort)\<lparr>m_source := Some 0\<rparr>))"
    proof -
      have "ports w' = deliver (Some 5) [1] (ports running)" using w' unfolding rc by blast
      moreover have "ports running 1 = Some ((Port_new ''In'' 2 InputPort)\<lparr>m_source := Some 0\<rparr>)" by (simp add: running_def)
      ultimately show ?thesis by (simp add: deliver_def)
    qed
    have s: "same_shells running w'" using w' by blast
    obtain x' where x': "accessors w' 2 = Some x'"
        "idle x' = idle ((Accessor_new ''Second'' (Atomic no_atomic))\<lparr>m_parent := Some 8, m_initialized := True, m_priority := 3\<rparr>)"
      using same_shells_Some[OF s x] by blast
    have "m_parent x' = Some 8" "\<not> IsComposite x'"
      using idle_parts(1,6)[OF x'(2)] by (simp_all add: Accessor_new_def)
    moreover have "hosted w' 1 8" using hosted_cong[OF s, of 1 8] h by (simp del: hosted.simps)
    moreover have "pending w' (Suc 1) (p_owner qt)"
      if "ports w' 1 = Some qt" "accessors w' (p_owner qt) = Some x'" "takes qt x'" "m_waitingForInputHandler qt"
        "m_parent x' = Some 8" "hosted w' 1 8" for qt
      using w' that by blast
    ultimately have "pending w' (Suc 1) 2"
      using p x'(1) by (simp add: QueueInput_def Port_new_def takes_def del: pending.simps hosted.simps IsComposite.simps)
    then show "map_option m_inputQueue (ports w' 1) = Some [Some 5] \<and> messages_ok w' \<and> pending w' 2 2"
      using w' p by (simp add: QueueInput_def Port_new_def numeral_2_eq_2 del: pending.simps)
  qed
qed

end
