(* ===== verification/Rounds.thy ===== *)
theory Rounds
  imports ReactionPrices Delivery
begin

text \<open>
  A round of the director with the framework's own callbacks: \<open>ExecuteCallbacks\<close> of
  \<open>src/src/Director.cpp\<close> runs the due callbacks, which send events (\<open>SendOutput\<close> of
  \<open>AccessorImpl.cpp\<close>), run user code, and process the event queue of the host. This puts together
  the theories of the director, of the delivery of events and of reactions: a round ends, and when
  it has ended nothing is left to do for its time, neither a callback nor an input.
\<close>

section \<open>The model in between\<close>

text \<open>The invariants of the messages only need the callbacks of reactions to stay.\<close>

lemma reactions_ok_director:
  assumes "reactions_ok_but X R w" and "accessors w' = accessors w" and "director_ok w'" and "R \<subseteq> R'"
    and "\<And>a. a \<notin> R' \<Longrightarrow> reaction_scheduled w a \<Longrightarrow> reaction_scheduled w' a"
  shows "reactions_ok_but X R' w'"
proof -
  have "queue_of w' = queue_of w" "requested w' = requested w" "accessor_priority w' = accessor_priority w"
    using assms(2) by (simp_all add: fun_eq_iff queue_of_def requested_def accessor_priority_def)
  note same = this assms(2)
  have "announced w' = announced w" by (rule ext) (simp add: announced_def same cong: option.case_cong)
  moreover have "queues_ok w' = queues_ok w" by (simp add: queues_ok_def same)
  moreover have "\<And>a. a \<notin> R' \<Longrightarrow> request_answered w a \<Longrightarrow> request_answered w' a"
    using assms(5) by (simp add: request_answered_def same)
  ultimately show ?thesis using assms(1,3,4) unfolding reactions_ok_but_def by auto
qed

lemma inputs_alert_director:
  "inputs_alert_but Y w \<Longrightarrow> accessors w' = accessors w \<Longrightarrow> ports w' = ports w \<Longrightarrow> inputs_alert_but Y w'"
  by (simp add: inputs_alert_but_def queue_of_def)

lemma same_wiring_director: "accessors w' = accessors w \<Longrightarrow> ports w' = ports w \<Longrightarrow> same_wiring w w'"
  by (simp add: same_wiring_def same_shells_def)

lemma wiring_connections:
  assumes "wiring pt' = wiring pt"
  shows "m_source pt' = m_source pt" "m_destinations pt' = m_destinations pt" "IsSpontaneous pt' = IsSpontaneous pt"
  using assms unfolding wiring_def by (cases pt; cases pt'; simp)+

lemma same_wiring_sym: "same_wiring w w' \<Longrightarrow> same_wiring w' w"
  by (simp add: same_wiring_def same_shells_def)

lemma connections_ok_wiring:
  assumes s: "same_wiring w w'" and c: "connections_ok (ports w)"
  shows "connections_ok (ports w')"
proof -
  have pred: "\<exists>y. ports w d = Some y \<and> wiring y = wiring z" if "ports w' d = Some z" for d z
    using same_wiring_Some[OF same_wiring_sym[OF s] that] .
  have succ: "\<exists>z. ports w' d = Some z \<and> wiring z = wiring y" if "ports w d = Some y" for d y
    using same_wiring_Some[OF s that] .
  show ?thesis
    unfolding connections_ok_def
  proof (intro conjI allI impI)
    fix p x' assume x': "ports w' p = Some x'"
    then obtain x where x: "ports w p = Some x" "wiring x = wiring x'" using pred by blast
    show "distinct (m_destinations x')" using connections_ok_distinct[OF c x(1)] wiring_connections[OF x(2)] by simp
    fix d
    have "(\<exists>y. ports w d = Some y \<and> m_source y = Some p) = (\<exists>y. ports w' d = Some y \<and> m_source y = Some p)"
      using pred[of d] succ[of d] wiring_connections(1) by metis
    then show "d \<in> set (m_destinations x') \<longleftrightarrow> (\<exists>y. ports w' d = Some y \<and> m_source y = Some p)"
      using connections_ok_dest[OF c x(1), of d] wiring_connections(2)[OF x(2)] by simp
  next
    fix d y' q assume y': "ports w' d = Some y' \<and> m_source y' = Some q"
    then obtain y where y: "ports w d = Some y" "wiring y = wiring y'" using pred by blast
    then have "ports w q \<noteq> None \<and> \<not> IsSpontaneous y"
      using connections_ok_source[OF c y(1)] wiring_connections(1)[OF y(2)] y' by simp
    then show "ports w' q \<noteq> None" "\<not> IsSpontaneous y'"
      using same_wiring_None[OF s, of q] wiring_connections(3)[OF y(2)] by simp_all
  qed
qed

lemma same_shells_output:
  assumes "same_shells w w'" and "accessors w a = Some x" and "accessors w' a = Some x'"
  shows "GetOutputPort name x' = GetOutputPort name x"
proof -
  have "idle x' = idle x" using same_shells_Some[OF assms(1,2)] assms(3) by auto
  then have "m_outputPorts x' = m_outputPorts x" unfolding idle_def by (cases x; cases x'; simp)
  then show ?thesis by (simp add: GetOutputPort_def)
qed

text \<open>Delivery adds at most one event to each of the ports that get it.\<close>

lemma receivers_ports: "r \<in> set (receivers w data n p) \<Longrightarrow> r \<in> dom (ports w)"
proof (induction n arbitrary: p)
  case (Suc n)
  then obtain pt where pt: "ports w p = Some pt" by (cases "ports w p") auto
  with Suc.prems obtain q where "r \<in> set (arrivals w data (receivers w data n) q)" by auto
  then have "r = q \<and> ports w q \<noteq> None \<or> r \<in> set (receivers w data n q)"
    by (cases "ports w q") (auto simp: arrivals_def split: option.splits if_splits)
  then show ?case using Suc.IH by auto
qed simp

lemma deliver_price:
  fixes c :: "nat \<Rightarrow> nat"
  assumes P: "finite P" and d: "distinct qs" "set qs \<subseteq> P"
  shows "(\<Sum>p \<in> P. c p * backlog (deliver data qs S) p) \<le> (\<Sum>p \<in> P. c p * backlog S p) + sum_list (map c qs)"
proof -
  have "c p * backlog (deliver data qs S) p \<le> c p * backlog S p + (if p \<in> set qs then c p else 0)" for p
    by (auto simp: backlog_def deliver_def QueueInput_def Let_def split: option.split)
  then have "(\<Sum>p \<in> P. c p * backlog (deliver data qs S) p) \<le> (\<Sum>p \<in> P. c p * backlog S p + (if p \<in> set qs then c p else 0))"
    by (rule sum_mono)
  also have "\<dots> = (\<Sum>p \<in> P. c p * backlog S p) + (\<Sum>p \<in> P. if p \<in> set qs then c p else 0)" by (rule sum.distrib)
  also have "(\<Sum>p \<in> P. if p \<in> set qs then c p else 0) = sum c (P \<inter> set qs)" using P by (simp add: sum.If_cases Int_def)
  also have "P \<inter> set qs = set qs" using d(2) by blast
  also have "sum c (set qs) = sum_list (map c qs)" using d(1) by (simp add: sum_list_distinct_conv_sum_set)
  finally show ?thesis .
qed

lemma inputs_ok_deliver: "inputs_ok S \<Longrightarrow> inputs_ok (deliver data qs S)"
  unfolding inputs_ok_def deliver_def by (auto intro: input_ok_Queue split: if_splits)

section \<open>One callback\<close>

text \<open>
  The contract of user code: what \<open>polite\<close> asks of handlers and \<open>Fire\<close>, the same of callbacks, and
  that all of them stay within their prices and the budget.
\<close>

definition disciplined ::
  "('e, 'u) world \<Rightarrow> nat \<Rightarrow> nat \<Rightarrow> prices \<Rightarrow> ('u \<Rightarrow> nat) \<Rightarrow> ('e, 'u) user_code \<Rightarrow> (nat \<Rightarrow> 'e option \<Rightarrow> 'u \<Rightarrow> 'u) \<Rightarrow> (nat \<Rightarrow> 'u \<Rightarrow> 'u) \<Rightarrow> bool" where
  "disciplined w0 levels n P budget U hu fu \<longleftrightarrow> polite w0 U hu fu \<and> charges w0 levels n P budget U \<and>
     (\<forall>f w. same_shells w0 w \<and> director_ok w \<longrightarrow> ends_or (schedules w) (\<lambda>_ w'. schedules w w') (u_callback U f w))"

text \<open>The state between two callbacks.\<close>

definition between ::
  "('e, 'u) world \<Rightarrow> nat \<Rightarrow> nat \<Rightarrow> (nat \<Rightarrow> nat list) \<Rightarrow> ('e, 'u) world \<Rightarrow> bool" where
  "between w0 levels n hs w \<longleftrightarrow> in_round w0 levels n w \<and> staffed w0 levels hs w \<and> same_wiring w0 w \<and> messages_ok w"

text \<open>The events that a callback may send cost one round each for every port that gets them.\<close>

definition spread :: "nat \<Rightarrow> ('e, 'u) world \<Rightarrow> nat" where
  "spread levels w = 2 * Suc levels * card (dom (ports w))"

text \<open>The price of sending an event: that of the inputs that may get it.\<close>

fun input_price :: "prices \<Rightarrow> ('e, 'u) world \<Rightarrow> nat \<Rightarrow> nat \<Rightarrow> nat" where
  "input_price P w 0 p = 0"
| "input_price P w (Suc n) p =
     (case ports w p of
        None \<Rightarrow> 0
      | Some pt \<Rightarrow> sum_list (map (\<lambda>q. p_input P q + input_price P w n q) (m_destinations pt)))"

text \<open>
  Prices that cover what they cause: an event the handlers of its port, and an output the inputs
  that get it and the calls of \<open>Fire\<close> that follow.
\<close>

definition priced :: "('e, 'u) world \<Rightarrow> nat \<Rightarrow> nat \<Rightarrow> prices \<Rightarrow> (nat \<Rightarrow> nat list) \<Rightarrow> bool" where
  "priced w levels n P hs \<longleftrightarrow> inputs_priced P hs \<and>
     (\<forall>a name x p. accessors w a = Some x \<and> GetOutputPort name x = Inr p \<longrightarrow>
        input_price P w n p + p_fire P * spread levels w \<le> p_output P a name)"

text \<open>
  The work of a round: its callbacks and those that they may still cause, each of which may send
  an event to every port, and the reactions at hand.
\<close>

definition effort :: "nat \<Rightarrow> prices \<Rightarrow> ('u \<Rightarrow> nat) \<Rightarrow> ('e, 'u) world \<Rightarrow> nat" where
  "effort levels P budget w = Suc (spread levels w) * (due_work P w + budget (userState w) + carried levels P w) + load levels w"

text \<open>What all rounds to come may run, the repetition of periodic callbacks in later rounds aside.\<close>

definition reserve :: "nat \<Rightarrow> prices \<Rightarrow> ('u \<Rightarrow> nat) \<Rightarrow> ('e, 'u) world \<Rightarrow> nat" where
  "reserve levels P budget w = stock P w + budget (userState w) + carried levels P w"

lemma receivers_price: "sum_list (map (p_input P) (receivers w data n p)) \<le> input_price P w n p"
proof (induction n arbitrary: p)
  case (Suc n)
  have "sum_list (map (p_input P) (arrivals w data (receivers w data n) q)) \<le> p_input P q + input_price P w n q" for q
    using Suc[of q] by (auto simp: arrivals_def split: option.split)
  then have "sum_list (map (p_input P) (concat (map (arrivals w data (receivers w data n)) qs))) \<le>
      sum_list (map (\<lambda>q. p_input P q + input_price P w n q) qs)" for qs
    by (induction qs) (simp_all add: add_mono)
  then show ?case by (simp split: option.split)
qed simp

lemma input_price_cong: "same_wiring w w' \<Longrightarrow> input_price P w' n p = input_price P w n p"
proof (induction n arbitrary: p)
  case (Suc n)
  show ?case
  proof (cases "ports w p")
    case None
    then have "ports w' p = None" using same_wiring_None[OF Suc.prems] by blast
    with None show ?thesis by simp
  next
    case (Some pt)
    then show ?thesis using same_wiring_Some[OF Suc.prems] Suc.IH[OF Suc.prems] wiring_parts(1) by fastforce
  qed
qed simp

lemma spread_cong: "same_wiring w w' \<Longrightarrow> spread levels w' = spread levels w"
  by (simp add: spread_def same_wiring_dom)

lemma load_wiring:
  assumes s: "same_wiring w w'" and b: "(\<Sum>p \<in> dom (ports w). backlog (ports w') p) \<le> (\<Sum>p \<in> dom (ports w). backlog (ports w) p) + m"
    and e: "entries (dom (accessors w)) w' \<le> entries (dom (accessors w)) w + m'"
  shows "load levels w' \<le> load levels w + Suc levels * m + m'"
proof -
  have "Suc levels * (\<Sum>p \<in> dom (ports w). backlog (ports w') p) \<le> Suc levels * ((\<Sum>p \<in> dom (ports w). backlog (ports w) p) + m)"
    using b by (rule mult_le_mono2)
  then show ?thesis
    using e unfolding load_def same_wiring_dom[OF s] by (simp add: distrib_left)
qed

lemma sending_round:
  fixes w :: "('e, 'u) world"
  assumes r: "routed w levels n p" and ok: "messages_ok w" and c: "connections_ok (ports w)" and f: "finite (dom (ports w))"
  shows "ends own_failure (\<lambda>_ w'. messages_ok w' \<and> same_wiring w w' \<and> (inputs_ok (ports w) \<longrightarrow> inputs_ok (ports w')) \<and>
      load levels w' \<le> load levels w + spread levels w \<and>
      carried levels P w' \<le> carried levels P w + input_price P w n p + p_fire P * spread levels w) (SendData levels n p data w)"
    (is "ends _ (\<lambda>_. ?done) _")
proof (rule ends_mono[OF SendData_ok[OF r ok receivers_distinct[OF c r], where A = "dom (accessors w)"]])
  fix u :: unit and w' :: "('e, 'u) world"
  let ?q = "receivers w data n p"
  assume w': "messages_ok w' \<and> wakes w w' \<and> ports w' = deliver data ?q (ports w) \<and>
    entries (dom (accessors w)) w' \<le> entries (dom (accessors w)) w + Suc levels * length ?q"
  then have wire: "same_wiring w w'" using same_wiring_deliver by (auto simp: wakes_def)
  have q: "distinct ?q" "set ?q \<subseteq> dom (ports w)" using receivers_distinct[OF c r] receivers_ports by blast+
  note price = deliver_price[OF f q, of _ data "ports w"]
  have "length ?q = card (set ?q)" using q(1) by (simp add: distinct_card)
  also have "\<dots> \<le> card (dom (ports w))" by (rule card_mono[OF f q(2)])
  finally have len: "length ?q \<le> card (dom (ports w))" .
  have e: "entries (dom (accessors w)) w' \<le> entries (dom (accessors w)) w + Suc levels * card (dom (ports w))"
    using w' mult_le_mono2[OF len, of "Suc levels"] by linarith
  have b: "(\<Sum>q \<in> dom (ports w). backlog (ports w') q) \<le> (\<Sum>q \<in> dom (ports w). backlog (ports w) q) + card (dom (ports w))"
    using price[of "\<lambda>_. 1"] len w' by (simp add: sum_list_triv)
  have l: "load levels w' \<le> load levels w + spread levels w"
    using load_wiring[OF wire b e, of levels] by (simp add: spread_def)
  have "dom (ports w') = dom (ports w)" by (rule same_wiring_dom(1)[OF wire])
  then have "carried levels P w' \<le> carried levels P w + input_price P w n p + p_fire P * spread levels w"
    using price[of "p_input P"] w' receivers_price[of P w data n p] mult_le_mono2[OF l, of "p_fire P"]
    by (simp add: carried_def distrib_left)
  then show "?done w'" using w' wire l inputs_ok_deliver by auto
qed

text \<open>
  A due callback that was taken out of the queue runs: what it adds to the director and to the model
  comes out of its price, where one step of the round is left over, unless it is a reaction, which is paid
  for by the events it handles.
\<close>

definition after_callback ::
  "('e, 'u) world \<Rightarrow> nat \<Rightarrow> nat \<Rightarrow> prices \<Rightarrow> ('u \<Rightarrow> nat) \<Rightarrow> (nat \<Rightarrow> nat list) \<Rightarrow> 'e callback \<Rightarrow> ('e, 'u) world \<Rightarrow> ('e, 'u) world
     \<Rightarrow> ('e, 'u) world \<Rightarrow> bool" where
  "after_callback w0 levels n P budget hs f w w1 w' \<longleftrightarrow> staffed w0 levels hs w' \<and> same_wiring w w' \<and> messages_ok w' \<and>
     load levels w' + (if is_reaction f then 1 else 0) \<le> load levels w + (if is_reaction f then 0 else spread levels w) \<and>
     (\<exists>x. spends w0 levels n P budget x w1 w' \<and> carried levels P w' + x + (if is_reaction f then 0 else 1) \<le> carried levels P w + price P f)"

lemma carried_mono:
  "ports w' = ports w \<Longrightarrow> load levels w' \<le> load levels w \<Longrightarrow> carried levels P w' \<le> carried levels P w"
  by (simp add: carried_def)

lemma callback_round:
  fixes w :: "('e, 'u) world"
  assumes U: "disciplined w0 levels n P budget U hu fu" and n: "0 < n" and c0: "connections_ok (ports w0)" and P: "priced w0 levels n P hs"
    and b: "between w0 levels n hs w" and q: "m_callbackQueue w = i # q" and c: "map_of (m_scheduledCallbacks w) i = Some c"
    and k: "load levels w < k"
  defines "w1 \<equiv> w\<lparr>m_callbackQueue := q\<rparr>"
  shows "ends own_failure (\<lambda>_. after_callback w0 levels n P budget hs (callbackFunction c) w w1)
    (run_callback U levels n k (callbackFunction c) w1)" (is "ends _ (\<lambda>_. ?done) _")
proof -
  have w: "in_round w0 levels n w" "staffed w0 levels hs w" "same_wiring w0 w" "messages_ok w"
    using b by (simp_all add: between_def)
  have contract: "polite w0 U hu fu" "charges w0 levels n P budget U" "inputs_priced P hs"
    using U P by (simp_all add: disciplined_def priced_def)
  note pop = popped_round[OF w(1) q, folded w1_def]
  have same: "accessors w1 = accessors w" "ports w1 = ports w" by (simp_all add: w1_def)
  have wire: "same_wiring w w1" by (rule same_wiring_director[OF same])
  have qs: "queue_of w1 = queue_of w" by (simp add: fun_eq_iff queue_of_def same)
  have st: "staffed w0 levels hs w1" using staffed_cong[OF w(2) wire] w(2) by (simp add: staffed_def same)
  have f: "finite (dom (ports w1))" "inputs_ok (ports w1)" using st by (simp_all add: staffed_def)
  have ok1: "director_ok w1" using pop(1) by (simp add: in_round_def)
  have al: "inputs_alert_but {} w1" using w(4) inputs_alert_director[OF _ same] by (simp add: messages_ok_def)
  have kept: "reaction_scheduled w1 a" if "reaction_scheduled w a" "callbackFunction c \<noteq> ProcessQueueOf a" for a
    using that q c by (auto simp: reaction_scheduled_def w1_def)
  have sp: "spread levels w1 = spread levels w" by (rule spread_cong[OF wire])
  have load1: "load levels w1 \<le> load levels w" using card_Diff1_le[of "reaction_ids w" i]
    by (simp add: load_def entries_def same qs pop(4))
  have carried1: "carried levels P w1 \<le> carried levels P w" by (rule carried_mono[OF same(2) load1])
  have sound: "sound w0 levels n (callbackFunction c)" using w(1) c unfolding in_round_def callbacks_sound_def by blast
  have next_ok: "?done w'" if "\<not> is_reaction (callbackFunction c)" "messages_ok w'" "same_wiring w1 w'" "inputs_ok (ports w')"
      "load levels w' \<le> load levels w1 + spread levels w" "spends w0 levels n P budget x w1 w'"
      "carried levels P w' + x + 1 \<le> carried levels P w1 + price P (callbackFunction c)" for w' x
  proof -
    have "carried levels P w' + x + 1 \<le> carried levels P w + price P (callbackFunction c)" using that(7) carried1 by linarith
    moreover have "load levels w' \<le> load levels w + spread levels w" using that(5) load1 by linarith
    ultimately show ?thesis
      unfolding after_callback_def
      using that(1,2,6) staffed_cong[OF st that(3,4)] same_wiring_trans[OF wire that(3)] by auto
  qed
  show ?thesis
  proof (cases "callbackFunction c")
    case (SendOutputTo a name ev)
    obtain x p where x: "accessors w0 a = Some x" "GetOutputPort name x = Inr p" "routed w0 levels n p"
      using sound SendOutputTo by auto
    have wire0: "same_wiring w0 w1" by (rule same_wiring_trans[OF w(3) wire])
    then have shells: "same_shells w0 w1" by (simp add: same_wiring_def)
    obtain x1 where x1: "accessors w1 a = Some x1" using same_shells_Some[OF shells x(1)] by blast
    have out: "GetOutputPort name x1 = Inr p" using same_shells_output[OF shells x(1) x1] x(2) by simp
    have cost: "input_price P w1 n p + p_fire P * spread levels w1 + 1 \<le> price P (callbackFunction c)"
      using P x(1,2) SendOutputTo by (simp add: priced_def input_price_cong[OF wire0] spread_cong[OF wire0])
    have "reactions_ok_but {} {} w1"
      by (rule reactions_ok_director[of "{}" "{}" w]) (use w(4) same ok1 kept SendOutputTo in \<open>simp_all add: messages_ok_def\<close>)
    then have "messages_ok w1" using al by (simp add: messages_ok_def)
    note sent = ends_and[OF sending_round[OF routed_cong[OF wire0 x(3)] this connections_ok_wiring[OF wire0 c0] f(1), where P = P and data = ev]
        round.SendData_keeps[of w0 levels n P budget w1]]
    have "ends own_failure (\<lambda>_. ?done) (SendData levels n p ev w1)"
    proof (rule ends_mono[OF sent])
      fix u :: unit and w' :: "('e, 'u) world"
      assume w': "(messages_ok w' \<and> same_wiring w1 w' \<and> (inputs_ok (ports w1) \<longrightarrow> inputs_ok (ports w')) \<and>
          load levels w' \<le> load levels w1 + spread levels w1 \<and>
          carried levels P w' \<le> carried levels P w1 + input_price P w1 n p + p_fire P * spread levels w1) \<and>
        spends w0 levels n P budget 0 w1 w'"
      then show "?done w'" using cost f(2) SendOutputTo sp by (intro next_ok[of w' 0]) simp_all
    qed
    then show ?thesis using SendOutputTo x1 out by (simp add: send_output_def with_accessor_def)
  next
    case (ProcessQueueOf a)
    have "a \<in> composites w" using sound ProcessQueueOf w(1) by (simp add: in_round_def)
    then obtain x e where x: "accessors w1 a = Some x" "a_kind x = Composite e" by (auto simp: composites_def same)
    have "reactions_ok_but {} {a} w1"
      by (rule reactions_ok_director[of "{}" "{}" w]) (use w(4) same ok1 kept ProcessQueueOf in \<open>auto simp: messages_ok_def\<close>)
    then have r: "reactions_ok_but (insert a {}) {a} w1" using reactions_ok_more by blast
    have "i \<in> reaction_ids w" using q c ProcessQueueOf by (simp add: reaction_ids_def)
    then have "card (reaction_ids w) = Suc (card (reaction_ids w - {i}))" by (metis card_Suc_Diff1 finite_reaction_ids)
    then have l: "load levels w1 + 1 = load levels w" by (simp add: load_def entries_def same qs pop(4))
    have "ends own_failure (\<lambda>_. ?done) (ProcessChildEventQueue U levels n k a w1)"
    proof (rule ends_mono[OF reaction_price[OF contract(1,2) n contract(3) st x(1) _ r al]])
      show "IsComposite x" using x(2) by simp
      show "load levels w1 < k" using l k by simp
      fix u :: unit and w' :: "('e, 'u) world"
      assume w': "reactions_ok_but {} ({a} - {a}) w' \<and> inputs_alert_but {} w' \<and> staffed w0 levels hs w' \<and>
        same_wiring w1 w' \<and> load levels w' \<le> load levels w1 \<and> queue_of w' a = {} \<and> \<not> requested w' a \<and>
        balances w0 levels n P budget w1 w'"
      then obtain y where y: "spends w0 levels n P budget y w1 w'" "carried levels P w' + y \<le> carried levels P w1"
        by (auto simp: balances_def)
      have "carried levels P w' + y \<le> carried levels P w" using y(2) carried1 by linarith
      moreover have "messages_ok w'" using w' unfolding messages_ok_def Diff_cancel by blast
      ultimately show "?done w'"
        unfolding after_callback_def using w' y(1) ProcessQueueOf l same_wiring_trans[OF wire] by auto
    qed
    then show ?thesis using ProcessQueueOf by simp
  next
    case (UpdateModel a)
    then show ?thesis using sound by simp
  next
    case (UserCallback g)
    have r: "reactions_ok_but {} {} w1"
      by (rule reactions_ok_director[of "{}" "{}" w]) (use w(4) same ok1 kept UserCallback in \<open>simp_all add: messages_ok_def\<close>)
    have "same_shells w0 w1" using st by (simp add: staffed_def)
    then have "ends own_failure (\<lambda>_ w'. schedules w1 w') (u_callback U g w1)"
      using U ok1 unfolding disciplined_def by (blast intro: ends_or_ends)
    moreover have "run_prop (spends w0 levels n P budget (p_callback P g) w1) (u_callback U g w1)"
      using contract(2) by (simp add: charges_def)
    ultimately have "ends own_failure (\<lambda>_ w'. schedules w1 w' \<and> spends w0 levels n P budget (p_callback P g) w1 w') (u_callback U g w1)"
      by (rule ends_and)
    then have "ends own_failure (\<lambda>_. ?done) (u_callback U g w1)"
    proof (rule ends_mono)
      fix u :: unit and w' :: "('e, 'u) world"
      assume s: "schedules w1 w' \<and> spends w0 levels n P budget (p_callback P g) w1 w'"
      then have s1: "schedules w1 w'" by blast
      have wire': "same_wiring w1 w'" using carries_schedules[OF s1] by (simp add: carries_def)
      have ps: "ports w' = ports w1" using s1 by (simp add: schedules_def)
      have "messages_ok w'" using reactions_ok_schedules[OF r s1] inputs_alert_schedules[OF al s1] by (simp add: messages_ok_def)
      moreover have l: "load levels w' \<le> load levels w1"
        using entries_schedules[OF s1, of "dom (accessors w1)"] same_wiring_dom[OF wire'] by (simp add: load_def ps)
      moreover have "carried levels P w' \<le> carried levels P w1" by (rule carried_mono[OF ps l])
      ultimately show "?done w'"
        using wire' f(2) UserCallback s by (intro next_ok[of w' "p_callback P g"]) (simp_all add: ps)
    qed
    then show ?thesis using UserCallback by simp
  qed
qed

text \<open>It is put back or removed, and with the price of this occurrence the work has become less.\<close>

lemma front_round:
  fixes w :: "('e, 'u) world"
  assumes U: "disciplined w0 levels n P budget U hu fu" and n: "0 < n" and c0: "connections_ok (ports w0)" and P: "priced w0 levels n P hs"
    and b: "between w0 levels n hs w" and q: "m_callbackQueue w = i # q" and c: "map_of (m_scheduledCallbacks w) i = Some c"
    and due: "nextExecutionTimeInMilliseconds c \<le> m_nextScheduledExecutionTime w" and k: "load levels w < k"
  shows "ends own_failure (\<lambda>_ w'. between w0 levels n hs w' \<and> m_nextScheduledExecutionTime w' = m_nextScheduledExecutionTime w \<and>
      effort levels P budget w' < effort levels P budget w \<and> reserve levels P budget w' \<le> reserve levels P budget w)
    (execute_front (run_callback U levels n k) i w)" (is "ends _ (\<lambda>_. ?done) _")
proof -
  let ?run = "run_callback U levels n k" and ?r = "is_reaction (callbackFunction c)" and ?m = "m_scheduledCallbacks w"
    and ?t = "m_nextScheduledExecutionTime w" and ?price = "price P (callbackFunction c)"
  define w1 where "w1 = w\<lparr>m_callbackQueue := q\<rparr>"
  have w: "in_round w0 levels n w" "same_wiring w0 w" using b by (simp_all add: between_def)
  note pop = popped_round[OF w(1) q, folded w1_def]
  have ran: "ends own_failure (\<lambda>_. after_callback w0 levels n P budget hs (callbackFunction c) w w1) (?run (callbackFunction c) w1)"
    using callback_round[OF U n c0 P b q c k] by (simp add: w1_def)
  have call: "call_callback ?run i (w\<lparr>m_callbackQueue := tl (m_callbackQueue w)\<rparr>) = ?run (callbackFunction c) w1"
    using q c by (simp add: call_callback_def w1_def)
  show ?thesis
  proof (cases "?run (callbackFunction c) w1")
    case (Ret u w2)
    then have p2: "after_callback w0 levels n P budget hs (callbackFunction c) w w1 w2" using ran by simp
    then obtain x where x: "spends w0 levels n P budget x w1 w2"
        "carried levels P w2 + x + (if ?r then 0 else 1) \<le> carried levels P w + ?price" by (auto simp: after_callback_def)
    have w2: "in_round w0 levels n w2" "m_nextScheduledExecutionTime w2 = ?t" "i \<notin> set (m_callbackQueue w2)"
        "\<And>c'. map_of (m_scheduledCallbacks w2) i = Some c' \<Longrightarrow> c' = c"
        "due_work P w2 + budget (userState w2) \<le> due_work P w1 + budget (userState w) + x"
        "stock P w2 + budget (userState w2) \<le> stock P w1 + budget (userState w) + x"
      using x(1) pop(1-3) c unfolding spends_def by (auto simp: w1_def)
    have "ends own_failure (\<lambda>_. ?done) (reschedule_or_remove i w2)"
    proof (rule ends_mono[OF reschedule_round[OF w2(1,3,4) c, where P = P]])
      show "nextExecutionTimeInMilliseconds c \<le> m_nextScheduledExecutionTime w2" using due w2(2) by simp
      fix v :: unit and w' :: "('e, 'u) world"
      assume w': "in_round w0 levels n w' \<and> m_nextScheduledExecutionTime w' = m_nextScheduledExecutionTime w2 \<and>
        dstate.more w' = dstate.more w2 \<and> same_execution w2 w' \<and> reaction_ids w' = reaction_ids w2 \<and>
        (\<forall>a. reaction_scheduled w' a = reaction_scheduled w2 a) \<and>
        due_work P w' + ?price \<le> due_work P w2 + due_price P ?m (m_nextScheduledExecutionTime w2) i \<and>
        stock P w' + ?price \<le> stock P w2 + queue_price P ?m (m_nextScheduledExecutionTime w2) i"
      then have "dstate.more w' = dstate.more w2" by blast
      note same = world_of_more[OF this]
      have st2: "staffed w0 levels hs w2" "same_wiring w w2" "messages_ok w2"
          "load levels w2 + (if ?r then 1 else 0) \<le> load levels w + (if ?r then 0 else spread levels w)"
        using p2 by (simp_all add: after_callback_def)
      have wire: "same_wiring w2 w'" by (rule same_wiring_director[OF same(1,2)])
      have wire': "same_wiring w w'" by (rule same_wiring_trans[OF st2(2) wire])
      have st: "staffed w0 levels hs w'"
        by (rule staffed_cong[OF st2(1) wire]) (use st2(1) in \<open>simp add: staffed_def same(2)\<close>)
      have "reactions_ok_but {} {} w'"
        by (rule reactions_ok_director[of "{}" "{}" w2]) (use w' st2(3) same(1) in \<open>simp_all add: messages_ok_def in_round_def\<close>)
      then have ok: "messages_ok w'" using inputs_alert_director[OF _ same(1,2)] st2(3) by (simp add: messages_ok_def)
      have l2: "load levels w' = load levels w2" using w' same(1,2) by (simp add: load_def entries_def queue_of_def)
      then have l: "load levels w' + (if ?r then 1 else 0) \<le> load levels w + (if ?r then 0 else spread levels w)" using st2(4) by simp
      have "carried levels P w' = carried levels P w2" by (simp add: carried_def l2 same(2))
      then have y: "carried levels P w' + x + (if ?r then 0 else 1) \<le> carried levels P w + ?price" using x(2) by simp
      have d: "due_work P w' + budget (userState w') + ?price \<le> due_work P w + budget (userState w) + x"
        using w' w2(2,5) pop(5)[of P] same(4) by simp
      have s: "stock P w' + budget (userState w') + ?price \<le> stock P w + budget (userState w) + x"
        using w' w2(2,6) pop(6)[of P] same(4) by simp
      have work: "due_work P w' + budget (userState w') + carried levels P w' + (if ?r then 0 else 1) \<le>
          due_work P w + budget (userState w) + carried levels P w" using y d by linarith
      have "effort levels P budget w' < effort levels P budget w"
      proof (cases ?r)
        case True
        then show ?thesis
          using l mult_le_mono2[OF work, of "Suc (spread levels w)"] by (simp add: effort_def spread_cong[OF wire'])
      next
        case False
        have "Suc (spread levels w) * (due_work P w' + budget (userState w') + carried levels P w' + 1) \<le>
            Suc (spread levels w) * (due_work P w + budget (userState w) + carried levels P w)"
          using work False by (intro mult_le_mono2) simp
        then show ?thesis using l False unfolding effort_def spread_cong[OF wire'] by (simp add: algebra_simps)
      qed
      moreover have "reserve levels P budget w' \<le> reserve levels P budget w" using y s unfolding reserve_def by linarith
      ultimately show "?done w'" using w' w2(2) st ok same_wiring_trans[OF w(2) wire'] by (simp add: between_def)
    qed
    then show ?thesis using call Ret by (simp add: execute_front_def)
  next
    case (Throw e w2)
    then show ?thesis using call ran by (simp add: execute_front_def)
  next
    case Diverge
    then show ?thesis using ran by simp
  qed
qed

section \<open>The round\<close>

lemma due_round:
  fixes w :: "('e, 'u) world"
  assumes U: "disciplined w0 levels n P budget U hu fu" and n: "0 < n" and c0: "connections_ok (ports w0)" and P: "priced w0 levels n P hs"
  shows "between w0 levels n hs w \<Longrightarrow> effort levels P budget w < k \<Longrightarrow> effort levels P budget w < fuel \<Longrightarrow>
    ends own_failure (\<lambda>_ w'. between w0 levels n hs w' \<and> nothing_due w' \<and>
        m_nextScheduledExecutionTime w' = m_nextScheduledExecutionTime w \<and>
        effort levels P budget w' \<le> effort levels P budget w \<and> reserve levels P budget w' \<le> reserve levels P budget w)
      (execute_due (run_callback U levels n k) fuel w)"
proof (induction fuel arbitrary: w)
  case (Suc fuel)
  let ?done = "\<lambda>w w'. between w0 levels n hs w' \<and> nothing_due w' \<and>
    m_nextScheduledExecutionTime w' = m_nextScheduledExecutionTime w \<and>
    effort levels P budget w' \<le> effort levels P budget w \<and> reserve levels P budget w' \<le> reserve levels P budget w"
  have w: "in_round w0 levels n w" using Suc.prems(1) by (simp add: between_def)
  then have ok: "director_ok w" by (simp add: in_round_def)
  show ?case
  proof (cases "m_callbackQueue w")
    case Nil
    then show ?thesis using Suc.prems(1) by (simp add: nothing_due_def)
  next
    case (Cons i q)
    with ok obtain c where c: "map_of (m_scheduledCallbacks w) i = Some c" by (auto simp: director_ok_def queue_wf_def)
    then have t: "GetNextQueuedExecutionTime w = Inr (nextExecutionTimeInMilliseconds c)"
      using Cons by (simp add: GetNextQueuedExecutionTime_def)
    show ?thesis
    proof (cases "nextExecutionTimeInMilliseconds c \<le> m_nextScheduledExecutionTime w")
      case False
      then have "nothing_due w" using queue_times[OF ok Cons c] Cons by (fastforce simp: nothing_due_def)
      then show ?thesis using False Cons t Suc.prems(1) by simp
    next
      case True
      have "load levels w < k" using Suc.prems(2) by (simp add: effort_def)
      from front_round[OF U n c0 P Suc.prems(1) Cons c True this]
      have "ends own_failure (\<lambda>_. ?done w)
        (run_bind (execute_front (run_callback U levels n k) i w) (\<lambda>_. execute_due (run_callback U levels n k) fuel))"
      proof (rule ends_bind)
        fix u :: unit and w' :: "('e, 'u) world"
        assume w': "between w0 levels n hs w' \<and> m_nextScheduledExecutionTime w' = m_nextScheduledExecutionTime w \<and>
          effort levels P budget w' < effort levels P budget w \<and> reserve levels P budget w' \<le> reserve levels P budget w"
        then have "effort levels P budget w' < k" "effort levels P budget w' < fuel" using Suc.prems(2,3) by simp_all
        with Suc.IH[of w'] w' have "ends own_failure (\<lambda>_. ?done w') (execute_due (run_callback U levels n k) fuel w')" by blast
        then show "ends own_failure (\<lambda>_. ?done w) (execute_due (run_callback U levels n k) fuel w')"
          by (rule ends_mono) (use w' in simp)
      qed
      then show ?thesis using Cons t True by simp
    qed
  qed
qed simp

lemma leads_to_root: "leads_to w h m g \<Longrightarrow> \<exists>x. accessors w h = Some x \<and> m_parent x = None"
  by (induction m arbitrary: g) (auto split: option.splits)

lemma finished_round:
  fixes w :: "('e, 'u) world"
  assumes b: "between w0 levels n hs w" and d: "nothing_due w"
  shows "accessors w h = Some x \<Longrightarrow> m_parent x = None \<Longrightarrow> queue_of w h = {} \<and> \<not> requested w h"
    and "ports w q = Some qt \<Longrightarrow> accessors w (p_owner qt) = Some y \<Longrightarrow> takes qt y \<Longrightarrow> m_parent y = Some g \<Longrightarrow>
      leads_to w h m g \<Longrightarrow> \<not> IsWaitingForInputHandler qt \<and> (m_inputQueue qt = [] \<or> hd (m_inputQueue qt) = None)"
proof -
  have w: "in_round w0 levels n w" "inputs_ok (ports w)" "reactions_ok_but {} {} w" "inputs_alert_but {} w"
    using b by (simp_all add: between_def staffed_def messages_ok_def)
  have unscheduled: "\<not> reaction_scheduled w a" for a
    using w(1) d unfolding in_round_def callbacks_sound_def reaction_scheduled_def nothing_due_def is_reaction_iff
    by (meson linorder_not_le)
  have root: "queue_of w r = {} \<and> \<not> requested w r" if "accessors w r = Some z" "m_parent z = None" for r z
  proof -
    have "announced w r" "request_answered w r" using w(3) by (simp_all add: reactions_ok_but_def)
    then show ?thesis using that unscheduled[of r] by (auto simp: announced_def request_answered_def)
  qed
  then show "accessors w h = Some x \<Longrightarrow> m_parent x = None \<Longrightarrow> queue_of w h = {} \<and> \<not> requested w h" by blast
  assume q: "ports w q = Some qt" "accessors w (p_owner qt) = Some y" "takes qt y" "m_parent y = Some g" "leads_to w h m g"
  have "queue_of w g = {}" using idle_below[OF w(3)] root leads_to_root[OF q(5)] q(5) by blast
  then have "\<not> m_waitingForInputHandler qt" using w(4) q unfolding inputs_alert_but_def by blast
  moreover have "input_ok qt" using w(2) q(1) by (simp add: inputs_ok_def)
  ultimately show "\<not> IsWaitingForInputHandler qt \<and> (m_inputQueue qt = [] \<or> hd (m_inputQueue qt) = None)"
    by (auto simp: IsWaitingForInputHandler_def input_ok_def)
qed

text \<open>A round starts by setting the logical time.\<close>

lemma round_start:
  fixes w :: "('e, 'u) world"
  assumes st: "staffed w0 levels hs w" and wire: "same_wiring w0 w" and ok: "messages_ok w"
    and comp: "composites w = composites w0" and s: "callbacks_sound w0 levels n w"
  defines "v \<equiv> w\<lparr>m_currentLogicalTime := m_nextScheduledExecutionTime w\<rparr>"
  shows "between w0 levels n hs v" and "effort levels P budget v = effort levels P budget w"
    and "reserve levels P budget v = reserve levels P budget w"
proof -
  have same: "accessors v = accessors w" "ports v = ports w" by (simp_all add: v_def)
  have wire': "same_wiring w v" by (rule same_wiring_director[OF same])
  have dir: "director_ok w" "director_ok v"
    using ok by (simp_all add: messages_ok_def reactions_ok_but_def director_ok_def v_def)
  have qs: "queue_of v = queue_of w" "reaction_ids v = reaction_ids w"
    by (simp_all add: fun_eq_iff queue_of_def reaction_ids_def v_def)
  have "in_round w0 levels n v"
    using dir(2) s comp by (simp add: in_round_def callbacks_sound_def periods_positive_def composites_def v_def)
  moreover have "staffed w0 levels hs v"
    by (rule staffed_cong[OF st wire']) (use st in \<open>simp add: staffed_def same\<close>)
  moreover have "reactions_ok_but {} {} v"
    by (rule reactions_ok_director[of "{}" "{}" w])
      (use ok dir same in \<open>simp_all add: messages_ok_def reaction_scheduled_def v_def\<close>)
  then have "messages_ok v" using ok inputs_alert_director[OF _ same] by (simp add: messages_ok_def)
  ultimately show "between w0 levels n hs v" using same_wiring_trans[OF wire wire'] by (simp add: between_def)
  have "load levels v = load levels w" "due_work P v = due_work P w" "stock P v = stock P w"
    by (simp_all add: load_def entries_def qs) (simp_all add: v_def due_work_def stock_def)
  note work = this spread_cong[OF wire']
  show "effort levels P budget v = effort levels P budget w" "reserve levels P budget v = reserve levels P budget w"
    by (simp_all add: effort_def reserve_def carried_def work same) (simp_all add: v_def)
qed

text \<open>
  C3. A round of the director with the framework's callbacks ends, and leaves nothing to do. The
  due callbacks send events, run user code and process event queues, in the order of the
  director's queue, and what they schedule for the same time runs in the same round. If user code
  keeps to the contract, a bound above the work queued at the start is enough for the round and for the
  loops in it: the prices of the due callbacks (every occurrence, of a periodic one that is late), of the
  events in the input queues and of the callbacks that the budget allows, once for every port, and the
  reactions already queued. Afterwards the logical time is the round's, no queued callback is due,
  no root has a reaction requested or an accessor in its event queue, and below the roots no input
  waits for its handlers: its queue is empty, or has a null event at its front. The round fails
  only when a time overflows or a thread cannot be started.
\<close>

theorem round_comes_to_rest:
  fixes w :: "('e, 'u) world"
  assumes "disciplined w levels n P budget U hu fu" and "0 < n" and "priced w levels n P hs" and "staffed w levels hs w"
    and "connections_ok (ports w)" and "messages_ok w" and "callbacks_sound w levels n w"
    and "effort levels P budget w < k" and "effort levels P budget w < fuel"
  shows "ends own_failure
    (\<lambda>_ w'. messages_ok w' \<and> same_wiring w w' \<and> nothing_due w' \<and> m_currentLogicalTime w' = m_nextScheduledExecutionTime w \<and>
       (\<forall>h x. accessors w' h = Some x \<and> m_parent x = None \<longrightarrow> queue_of w' h = {} \<and> \<not> requested w' h) \<and>
       (\<forall>q qt y g h m. ports w' q = Some qt \<and> accessors w' (p_owner qt) = Some y \<and> takes qt y \<and>
          m_parent y = Some g \<and> leads_to w' h m g \<longrightarrow>
          \<not> IsWaitingForInputHandler qt \<and> (m_inputQueue qt = [] \<or> hd (m_inputQueue qt) = None)))
    (ExecuteCallbacks (run_callback U levels n k) fuel w)"
proof -
  let ?w = "w\<lparr>m_currentLogicalTime := m_nextScheduledExecutionTime w\<rparr>"
  have "same_wiring w w" by (rule same_wiring_director) simp_all
  note start = round_start[OF assms(4) this assms(6) refl assms(7)]
  then have b: "between w levels n hs ?w" and e: "effort levels P budget ?w = effort levels P budget w" by blast+
  show ?thesis
    unfolding ExecuteCallbacks_def
  proof (rule ends_mono[OF due_round[OF assms(1,2,5,3) b]])
    fix u :: unit and w' :: "('e, 'u) world"
    assume w': "between w levels n hs w' \<and> nothing_due w' \<and> m_nextScheduledExecutionTime w' = m_nextScheduledExecutionTime ?w \<and>
      effort levels P budget w' \<le> effort levels P budget ?w \<and> reserve levels P budget w' \<le> reserve levels P budget ?w"
    then have "between w levels n hs w'" "nothing_due w'" by blast+
    note fin = finished_round[OF this]
    have "messages_ok w'" "same_wiring w w'" "nothing_due w'" "m_currentLogicalTime w' = m_nextScheduledExecutionTime w"
      using w' by (simp_all add: between_def in_round_def)
    moreover have "\<forall>h x. accessors w' h = Some x \<and> m_parent x = None \<longrightarrow> queue_of w' h = {} \<and> \<not> requested w' h"
      using fin(1) by blast
    moreover have "\<not> IsWaitingForInputHandler qt \<and> (m_inputQueue qt = [] \<or> hd (m_inputQueue qt) = None)"
      if "ports w' q = Some qt \<and> accessors w' (p_owner qt) = Some y \<and> takes qt y \<and> m_parent y = Some g \<and> leads_to w' h m g"
      for q qt y g h m
      using that by (elim conjE) (rule fin(2))
    ultimately show "messages_ok w' \<and> same_wiring w w' \<and> nothing_due w' \<and> m_currentLogicalTime w' = m_nextScheduledExecutionTime w \<and>
       (\<forall>h x. accessors w' h = Some x \<and> m_parent x = None \<longrightarrow> queue_of w' h = {} \<and> \<not> requested w' h) \<and>
       (\<forall>q qt y g h m. ports w' q = Some qt \<and> accessors w' (p_owner qt) = Some y \<and> takes qt y \<and>
          m_parent y = Some g \<and> leads_to w' h m g \<longrightarrow>
          \<not> IsWaitingForInputHandler qt \<and> (m_inputQueue qt = [] \<or> hd (m_inputQueue qt) = None))"
      using fin by blast
  qed (use assms(8,9) e in simp_all)
qed

section \<open>Sending an output keeps the contract\<close>

lemma ScheduleCallback_schedules:
  fixes w :: "('e, 'u) world"
  assumes ok: "director_ok w" and f: "\<not> is_reaction f"
  shows "ends_or (schedules w) (\<lambda>_ w'. schedules w w' \<and> userState w' = userState w) (ScheduleCallback f delay p prio w)"
proof -
  let ?w = "registered f delay p prio w"
  have fresh: "j \<noteq> m_nextCallbackId w" if "j \<in> set (m_callbackQueue w)" for j
    using ok that by (auto simp: director_ok_def queue_wf_def)
  have good: "schedules w w'" if more: "dstate.more w' = dstate.more w" and ok': "director_ok w'"
    and s: "m_scheduledCallbacks w' = m_scheduledCallbacks ?w" "m_callbackQueue w' = m_callbackQueue ?w" for w' :: "('e, 'u) world"
  proof -
    note same = world_of_more[OF more]
    have "reaction_scheduled w' a" if "reaction_scheduled w a" for a
      using that fresh unfolding reaction_scheduled_def s by (fastforce simp: set_insort_key)
    moreover have "reaction_ids w' \<subseteq> reaction_ids w"
      using f unfolding reaction_ids_def s by (auto simp: set_insort_key new_callback_def is_reaction_iff split: if_splits)
    ultimately show ?thesis using ok' by (simp add: schedules_def same)
  qed
  have "run_prop (schedules w) (ScheduleCallback f delay p prio w)"
  proof (cases "fits_llong (m_currentLogicalTime w + delay) \<and> fits_int (m_nextCallbackId w + 1)")
    case True
    let ?d = "(StopExecution ?w)\<lparr>m_nextScheduledExecutionTime := m_currentLogicalTime w + delay\<rparr>"
    have reg: "director_ok ?w" "ScheduleCallback f delay p prio w =
      (if m_nextScheduledExecutionTime w > m_currentLogicalTime w + delay
       then run_bind (ScheduleNextExecution ?d) (\<lambda>_. Ret (m_nextCallbackId w)) else Ret (m_nextCallbackId w) ?w)"
      using ScheduleCallback_registered[OF ok] True by blast+
    have more: "dstate.more ?w = dstate.more w" by (simp add: registered_def Let_def)
    have "run_prop (\<lambda>w'. dstate.more w' = dstate.more ?d \<and> same_queue ?d w') (ScheduleNextExecution ?d)"
      using ScheduleNextExecution_more[of ?d] ScheduleNextExecution_same_queue[of ?d] by (cases "ScheduleNextExecution ?d") simp_all
    then have "run_prop (schedules w) (ScheduleNextExecution ?d)"
    proof (rule run_prop_mono)
      fix w' assume w': "dstate.more w' = dstate.more ?d \<and> same_queue ?d w'"
      have "director_ok ?d" using reg(1) by (simp add: director_ok_def)
      then have "director_ok w'" using w' director_ok_same_queue by blast
      then show "schedules w w'" using w' more by (intro good) (auto simp: same_queue_def)
    qed
    then have "run_prop (schedules w) (run_bind (ScheduleNextExecution ?d) (\<lambda>_. Ret (m_nextCallbackId w)))"
      by (rule run_prop_bind) simp
    moreover have "schedules w ?w" using good[OF more reg(1)] by simp
    ultimately show ?thesis unfolding reg(2) by simp
  next
    case False
    then show ?thesis using ScheduleCallback_cases[OF False] ok by (simp add: schedules_refl)
  qed
  then show ?thesis
    using ScheduleCallback_throws[OF ok] ScheduleCallback_no_diverge[of f delay p prio w] ScheduleCallback_more[of w f delay p prio]
    by (cases "ScheduleCallback f delay p prio w") (auto simp: own_failure_def dest: world_of_more(4))
qed

lemma remember_schedules:
  assumes "schedules w w'"
  shows "schedules w (modify_accessor a (\<lambda>x. x\<lparr>m_callbackIds := ids x\<rparr>) w')" (is "schedules w ?w")
proof -
  have "map_option strip (accessors ?w b) = map_option strip (accessors w' b)" for b
    by (cases "accessors w' b"; cases "b = a"; simp add: modify_accessor_def strip_def)
  then show ?thesis
    using assms by (simp add: schedules_def) (simp add: modify_accessor_def director_ok_def reaction_scheduled_def reaction_ids_def)
qed

lemma SendOutput_schedules:
  fixes w :: "('e, 'u) world"
  assumes "director_ok w" and "accessors w a = Some x" and "m_initialized x" and "GetDirector w a = Some (Inr True)"
  shows "ends_or (schedules w) (\<lambda>_ w'. schedules w w' \<and> userState w' = userState w) (SendOutput a name ev w)"
proof -
  have "\<not> is_reaction (SendOutputTo a name ev)" by simp
  from ScheduleCallback_schedules[OF assms(1) this, of 0 False "m_priority x"]
  show ?thesis
    using assms(2-4)
    by (cases "ScheduleCallback (SendOutputTo a name ev) 0 False (m_priority x) w")
      (simp_all add: SendOutput_def Accessor_ScheduleCallback_def with_accessor_def with_director_def IsInitialized_def
        remember_schedules modify_accessor_def[of _ _ w])
qed

text \<open>Within a round an output costs one callback.\<close>

lemma SendOutput_registers:
  fixes w :: "('e, 'u) world"
  assumes w: "in_round w0 levels n w"
  obtains "SendOutput a name ev w = Diverge" | e where "SendOutput a name ev w = Throw e w"
    | x :: accessor where "SendOutput a name ev w = Ret () (modify_accessor a (\<lambda>x. x\<lparr>m_callbackIds := sset_insert (m_nextCallbackId w) (m_callbackIds x)\<rparr>)
        (registered (SendOutputTo a name ev) 0 False (m_priority x) w))"
      "fits_llong (m_currentLogicalTime w + 0)" "fits_int (m_nextCallbackId w + 1)"
proof (cases "accessors w a")
  case None
  then show ?thesis using that by (simp add: SendOutput_def with_accessor_def)
next
  case (Some x)
  then have "SendOutput a name ev w = Diverge \<or> (\<exists>e. SendOutput a name ev w = Throw e w) \<or>
      SendOutput a name ev w = Ret () (modify_accessor a (\<lambda>x. x\<lparr>m_callbackIds := sset_insert (m_nextCallbackId w) (m_callbackIds x)\<rparr>)
        (registered (SendOutputTo a name ev) 0 False (m_priority x) w)) \<and>
      fits_llong (m_currentLogicalTime w + 0) \<and> fits_int (m_nextCallbackId w + 1)"
    using schedule_in_round[OF w, of 0 "SendOutputTo a name ev" False "m_priority x"]
    by (auto simp: SendOutput_def Accessor_ScheduleCallback_def with_accessor_def with_director_def split: option.split sum.split)
  then show ?thesis by (elim disjE exE conjE) (rule that; assumption)+
qed

lemma SendOutput_round:
  fixes w :: "('e, 'u) world"
  assumes w: "in_round w0 levels n w" and f: "sound w0 levels n (SendOutputTo a name ev)"
  shows "SendOutput a name ev w = Diverge \<or> (\<exists>e. SendOutput a name ev w = Throw e w) \<or>
    (\<exists>w'. SendOutput a name ev w = Ret () w' \<and> userState w' = userState w \<and>
      (\<forall>P budget. spends w0 levels n P budget (price P (SendOutputTo a name ev :: 'e callback)) w w'))"
proof (rule SendOutput_registers[OF w, of a name ev])
  fix x :: accessor
  let ?f = "SendOutputTo a name ev"
  define r where "r = registered ?f 0 False (m_priority x) w"
  define w' where "w' = modify_accessor a (\<lambda>x. x\<lparr>m_callbackIds := sset_insert (m_nextCallbackId w) (m_callbackIds x)\<rparr>) r"
  assume out: "SendOutput a name ev w = Ret () (modify_accessor a (\<lambda>x. x\<lparr>m_callbackIds := sset_insert (m_nextCallbackId w) (m_callbackIds x)\<rparr>)
      (registered ?f 0 False (m_priority x) w))"
    and fits: "fits_llong (m_currentLogicalTime w + 0)" "fits_int (m_nextCallbackId w + 1)"
  have q: "quiet r w'" by (simp add: quiet_def w'_def composites_accessor) (simp add: modify_accessor_def dstate.truncate_def)
  have "userState r = userState w" by (rule world_of_more(4)) (simp add: r_def registered_def Let_def)
  then have "userState w' = userState w" using q by (simp add: quiet_def)
  moreover have "spends w0 levels n P budget (price P ?f + 0) w w'" for P budget
    by (rule spends_trans[OF _ spends_quiet[OF q]]) (use registered_spends[OF w fits f] in \<open>simp add: r_def\<close>)
  ultimately show ?thesis using out by (auto simp: w'_def r_def)
qed auto

lemma SendOutput_charges:
  fixes w :: "('e, 'u) world"
  assumes f: "sound w0 levels n (SendOutputTo a name ev)" and x: "price P (SendOutputTo a name ev :: 'e callback) \<le> x"
  shows "run_prop (spends w0 levels n P budget x w) (SendOutput a name ev w)"
proof (cases "in_round w0 levels n w")
  case True
  have "spends w0 levels n P budget x w w" using spends_more[OF spends_quiet[OF quiet_refl]] by blast
  moreover have "spends w0 levels n P budget x w w'"
    if "\<forall>P budget. spends w0 levels n P budget (price P (SendOutputTo a name ev :: 'e callback)) w w'" for w'
    using that by (blast intro: spends_more[OF _ x])
  ultimately show ?thesis using SendOutput_round[OF True f] by (elim disjE exE conjE) simp_all
next
  case False
  then show ?thesis by (cases "SendOutput a name ev w") (simp_all add: spends_def)
qed

text \<open>A part of the price may come out of the user's budget.\<close>

lemma spends_pay:
  assumes "spends w0 levels n P budget x w w'" and "userState w' = userState w" and "budget v + x \<le> budget (userState w) + y"
  shows "spends w0 levels n P budget y w (w'\<lparr>userState := v\<rparr>)"
proof -
  let ?w = "w'\<lparr>userState := v\<rparr>"
  have "in_round w0 levels n ?w = in_round w0 levels n w'" "due_work P ?w = due_work P w'" "stock P ?w = stock P w'"
      "same_execution w ?w = same_execution w w'"
    by (simp_all add: in_round_def director_ok_def callbacks_sound_def periods_positive_def composites_def due_work_def stock_def
        same_execution_def)
  then show ?thesis using assms by (auto simp: spends_def)
qed

text \<open>
  The example: an accessor that hears its own output and sends it again, as often as the user's
  state allows.
\<close>

definition echo :: "(nat, nat) user_code" where
  "echo = \<lparr>u_initialize = (\<lambda>_. Ret ()), u_fire = (\<lambda>_. Ret ()),
     u_handler = (\<lambda>h ev w. if userState w = 0 then Ret () w
       else run_bind (SendOutput 2 ''Out'' ev w) (\<lambda>_ w1. Ret () (w1\<lparr>userState := userState w1 - 1\<rparr>))),
     u_callback = (\<lambda>_. Ret ())\<rparr>"

definition echoing :: accessor where
  "echoing = (Accessor_new ''Echo'' (Atomic (no_atomic\<lparr>m_inputHandlers := [(''In'', [10])]\<rparr>)))
     \<lparr>m_parent := Some 8, m_initialized := True, m_inputPorts := [(''In'', 1)], m_orderedInputPorts := [1],
      m_outputPorts := [(''Out'', 0)], m_orderedOutputPorts := [0]\<rparr>"

definition cave :: "(nat, nat) world" where
  "cave = dstate.extend ((Director_new (\<lambda>_. Some (1000, 0)) [])
       \<lparr>m_nextCallbackId := 1, m_callbackQueue := [0], m_nextScheduledExecutionTime := 1000000,
        m_scheduledCallbacks := [(0, new_callback (SendOutputTo 2 ''Out'' (Some 5)) 0 False 3 1000000)]\<rparr>)
     \<lparr>ports = [0 \<mapsto> (Port_new ''Out'' 2 (OutputPort True))\<lparr>m_destinations := [1]\<rparr>,
        1 \<mapsto> (Port_new ''In'' 2 InputPort)\<lparr>m_source := Some 0\<rparr>],
      accessors = [2 \<mapsto> echoing, 8 \<mapsto> Accessor_new ''Host'' (Composite (plain_composite True [2]))],
      nextPort = 2, userState = 3\<rparr>"

lemma cave_simps:
  "ports cave = [0 \<mapsto> (Port_new ''Out'' 2 (OutputPort True))\<lparr>m_destinations := [1]\<rparr>,
     1 \<mapsto> (Port_new ''In'' 2 InputPort)\<lparr>m_source := Some 0\<rparr>]"
  "accessors cave = [2 \<mapsto> echoing, 8 \<mapsto> Accessor_new ''Host'' (Composite (plain_composite True [2]))]"
  "userState cave = 3" "m_callbackQueue cave = [0]" "m_nextCallbackId cave = 1" "m_nextScheduledExecutionTime cave = 1000000"
  "m_scheduledCallbacks cave = [(0, new_callback (SendOutputTo 2 ''Out'' (Some 5)) 0 False 3 1000000)]"
  by (simp_all add: cave_def dstate.extend_def)

lemma echoing_simps:
  "a_kind echoing = Atomic (no_atomic\<lparr>m_inputHandlers := [(''In'', [10])]\<rparr>)" "m_parent echoing = Some 8" "m_initialized echoing"
  "GetInputPorts echoing = [1]" "GetInputPort ''In'' echoing = Inr 1" "GetOutputPort ''Out'' echoing = Inr 0"
  by (simp_all add: echoing_def Accessor_new_def GetInputPorts_def GetInputPort_def GetOutputPort_def)

lemma cave_hosted: "hosted cave 1 8"
  by (simp add: cave_simps Accessor_new_def plain_composite_def)

lemma cave_sound: "sound cave 1 2 (SendOutputTo 2 ''Out'' ev)"
  using cave_hosted by (simp add: cave_simps echoing_simps numeral_2_eq_2 Port_new_def)

lemma child_output:
  fixes w :: "('e, 'u) world"
  assumes s: "same_shells w0 w" and ok: "director_ok w"
    and y: "accessors w0 a = Some y" "m_parent y = Some g" "m_initialized y" "\<not> is_host y"
    and z: "accessors w0 g = Some z" "is_host z"
  shows "ends_or (schedules w) (\<lambda>_ w'. schedules w w' \<and> userState w' = userState w) (SendOutput a name ev w)"
proof -
  obtain x h where x: "accessors w a = Some x" "idle x = idle y" and h: "accessors w g = Some h" "idle h = idle z"
    using same_shells_Some[OF s y(1)] same_shells_Some[OF s z(1)] by blast
  have "is_host h" using idle_parts(7)[OF h(2)] z(2) by simp
  then have "GetDirector w g = Some (Inr True)" using h(1) by (subst GetDirector.simps) (simp del: is_host.simps)
  moreover have "m_parent x = Some g" "m_initialized x" "\<not> is_host x"
    using idle_parts(1,3,7)[OF x(2)] y by simp_all
  ultimately have "GetDirector w a = Some (Inr True)" using x(1) by (subst GetDirector.simps) (simp del: is_host.simps)
  from SendOutput_schedules[OF ok x(1) \<open>m_initialized x\<close> this] show ?thesis .
qed

lemma echo_output:
  assumes "same_shells cave w" and "director_ok w"
  shows "ends_or (schedules w) (\<lambda>_ w'. schedules w w' \<and> userState w' = userState w) (SendOutput 2 ''Out'' ev w)"
  by (rule child_output[OF assms, of 2 echoing 8 "Accessor_new ''Host'' (Composite (plain_composite True [2]))"])
    (simp_all add: cave_simps echoing_simps Accessor_new_def plain_composite_def)

lemma schedules_user: "schedules w w' \<Longrightarrow> schedules w (w'\<lparr>userState := v\<rparr>)"
  by (simp add: schedules_def director_ok_def reaction_scheduled_def reaction_ids_def)

text \<open>Nothing is priced: each output is paid from the user's budget.\<close>

definition no_prices :: prices where
  "no_prices = \<lparr>p_handler = (\<lambda>_. 0), p_fire = 0, p_callback = (\<lambda>_. 0), p_input = (\<lambda>_. 0), p_output = (\<lambda>_ _. 0)\<rparr>"

lemma no_prices_simps [simp]:
  "p_handler no_prices h = 0" "p_fire no_prices = 0" "p_callback no_prices f = 0" "p_input no_prices p = 0" "p_output no_prices a name = 0"
  by (simp_all add: no_prices_def)

lemma no_prices_priced: "priced w levels n no_prices hs"
proof -
  have "input_price no_prices w n p = 0" for p by (induction n arbitrary: p) (simp_all split: option.split)
  moreover have "sum_list (map (p_handler no_prices) xs) = 0" for xs by (induction xs) simp_all
  ultimately show ?thesis by (simp add: priced_def inputs_priced_def)
qed

lemma echo_disciplined: "disciplined cave 1 2 no_prices (\<lambda>u. u) echo (\<lambda>h ev u. u - 1) (\<lambda>_ u. u)"
proof -
  have "ends_or (schedules w) (\<lambda>_ w'. schedules w w' \<and> userState w' = userState w - 1) (u_handler echo h ev w)"
    if "same_shells cave w" "director_ok w" for w h ev
    using echo_output[OF that, of ev] that(2)
    by (cases "SendOutput 2 ''Out'' ev w") (auto simp: echo_def schedules_refl schedules_user)
  then have "polite cave echo (\<lambda>h ev u. u - 1) (\<lambda>_ u. u)"
    by (simp add: polite_def) (simp add: echo_def schedules_refl)
  moreover have "run_prop (spends cave 1 2 no_prices (\<lambda>u. u) 0 w) (u_handler echo h ev w)" for w h ev
  proof (cases "in_round cave 1 2 w \<and> userState w \<noteq> 0")
    case True
    then have "in_round cave 1 2 w" by blast
    note sent = SendOutput_round[OF this cave_sound, of ev]
    have "spends cave 1 2 no_prices (\<lambda>u. u) 0 w (w'\<lparr>userState := userState w' - 1\<rparr>)"
      if "userState w' = userState w" "\<forall>P budget. spends cave 1 2 P budget (price P (SendOutputTo 2 ''Out'' ev :: nat callback)) w w'" for w'
    proof (rule spends_pay[OF _ that(1)])
      show "spends cave 1 2 no_prices (\<lambda>u. u) (price no_prices (SendOutputTo 2 ''Out'' ev :: nat callback)) w w'" using that(2) by blast
    qed (use True that(1) in simp)
    then show ?thesis using sent True by (auto simp: echo_def round.same)
  next
    case False
    then have "userState w = 0 \<or> \<not> in_round cave 1 2 w" by blast
    then show ?thesis
      by (cases "u_handler echo h ev w") (auto simp: echo_def round.same spends_def split: if_splits)
  qed
  ultimately show ?thesis
    by (simp add: disciplined_def charges_def) (simp add: echo_def round.same schedules_refl)
qed

lemma messages_ok_new:
  fixes w :: "('e, 'u) world"
  assumes d: "director_ok w" and p: "\<And>q qt. ports w q = Some qt \<Longrightarrow> \<not> m_waitingForInputHandler qt"
    and c: "\<And>a x c. accessors w a = Some x \<Longrightarrow> a_kind x = Composite c \<Longrightarrow> m_childEventQueue c = upq_new \<and> \<not> m_reactionRequested c"
  shows "messages_ok w"
proof -
  have "queue_of w a = {}" for a
    using c[of a] by (cases "accessors w a") (auto simp: queue_of_def upq_new_def split: accessor_kind.split)
  moreover have "\<not> requested w a" for a
    using c[of a] by (cases "accessors w a") (auto simp: requested_def split: accessor_kind.split)
  moreover have "upq_ok r (m_childEventQueue c)" if "accessors w a = Some x" "a_kind x = Composite c" for a x c r
    using that assms(3) by simp
  ultimately show ?thesis
    using d p unfolding messages_ok_def reactions_ok_but_def queues_ok_def announced_def request_answered_def inputs_alert_but_def
    by auto
qed

lemma cave_ok: "messages_ok cave"
proof (rule messages_ok_new)
  show "director_ok cave" by (simp add: director_ok_def queue_wf_def smap_wf_def cave_simps)
  show "\<not> m_waitingForInputHandler qt" if "ports cave q = Some qt" for q qt
    using that by (auto simp: cave_simps Port_new_def split: if_splits)
  show "m_childEventQueue c = upq_new \<and> \<not> m_reactionRequested c" if "accessors cave a = Some x" "a_kind x = Composite c" for a x c
    using that by (auto simp: cave_simps echoing_simps Accessor_new_def plain_composite_def split: if_splits)
qed

lemma cave_ready: "ready 1 (\<lambda>_. [10]) cave 2"
  unfolding ready_def
proof (intro exI conjI allI impI ballI)
  let ?d = "no_atomic\<lparr>m_inputHandlers := [(''In'', [10::nat])]\<rparr>"
  let ?in = "(Port_new ''In'' 2 InputPort)\<lparr>m_source := Some 0\<rparr>"
  show "accessors cave 2 = Some echoing" "a_kind echoing = Atomic ?d" "distinct (GetInputPorts echoing)"
    by (simp_all add: cave_simps echoing_simps)
  show "ports cave p = Some ?in" "p_owner ?in = 2" "p_kind ?in = InputPort" "m_destinations ?in = []"
    "GetInputPort (p_name ?in) echoing = Inr p" "map_of (m_inputHandlers ?d) (p_name ?in) = Some [10]"
    if "p \<in> set (GetInputPorts echoing)" for p
    using that by (simp_all add: cave_simps echoing_simps Port_new_def)
  show "p \<in> set (GetInputPorts echoing)" if "ports cave p = Some qt \<and> p_owner qt = 2 \<and> p_kind qt = InputPort" for p qt
    using that by (auto simp: cave_simps echoing_simps Port_new_def split: if_splits)
  show "hosted cave 1 g" if "m_parent echoing = Some g" for g
    using that cave_hosted by (simp add: echoing_simps)
qed

lemma cave_staffed: "staffed cave 1 (\<lambda>_. [10]) cave"
  unfolding staffed_def
proof (intro conjI allI impI)
  show "inputs_ok (ports cave)" by (auto simp: inputs_ok_def cave_simps input_ok_def Port_new_def)
  show "finite (dom (ports cave))" "finite (dom (accessors cave))" by (simp_all add: cave_simps)
  fix a x assume "accessors cave a = Some x \<and> \<not> IsComposite x"
  then have "a = 2" by (auto simp: cave_simps Accessor_new_def split: if_splits)
  then show "ready 1 (\<lambda>_. [10]) cave a" using cave_ready by blast
qed (rule same_shells_refl)

lemma cave_connected: "connections_ok (ports cave)"
  by (auto simp: connections_ok_def cave_simps Port_new_def split: if_splits)

lemma cave_callbacks: "callbacks_sound cave 1 2 cave"
  using cave_sound by (auto simp: callbacks_sound_def periods_positive_def cave_simps new_callback_def split: if_splits)

lemma cave_effort: "effort 1 no_prices (\<lambda>u. u) cave = 36"
proof -
  have "reaction_ids cave = {}" by (simp add: reaction_ids_def cave_simps new_callback_def)
  then show ?thesis
    by (simp add: effort_def spread_def due_work_def due_price_def due_count_def carried_def load_def entries_def backlog_def cave_simps
        new_callback_def queue_of_def echoing_simps Accessor_new_def plain_composite_def upq_new_def Port_new_def)
qed

lemma round_comes_to_rest_witness:
  "ends own_failure (\<lambda>_ w'. nothing_due w' \<and> queue_of w' 8 = {} \<and> messages_ok w')
     (ExecuteCallbacks (run_callback echo 1 2 40) 40 cave)"
proof -
  have e: "effort 1 no_prices (\<lambda>u. u) cave < 40" unfolding cave_effort by simp
  have host: "accessors cave 8 = Some (Accessor_new ''Host'' (Composite (plain_composite True [2])))" by (simp add: cave_simps)
  show ?thesis
  proof (rule ends_mono[OF round_comes_to_rest[OF echo_disciplined _ no_prices_priced cave_staffed cave_connected cave_ok cave_callbacks e e]])
    fix u :: unit and w' :: "(nat, nat) world"
    assume w': "messages_ok w' \<and> same_wiring cave w' \<and> nothing_due w' \<and>
       m_currentLogicalTime w' = m_nextScheduledExecutionTime cave \<and>
       (\<forall>h x. accessors w' h = Some x \<and> m_parent x = None \<longrightarrow> queue_of w' h = {} \<and> \<not> requested w' h) \<and>
       (\<forall>q qt y g h m. ports w' q = Some qt \<and> accessors w' (p_owner qt) = Some y \<and> takes qt y \<and>
          m_parent y = Some g \<and> leads_to w' h m g \<longrightarrow>
          \<not> IsWaitingForInputHandler qt \<and> (m_inputQueue qt = [] \<or> hd (m_inputQueue qt) = None))"
    then have "same_shells cave w'" by (simp add: same_wiring_def)
    from same_shells_Some[OF this host] obtain h where h: "accessors w' 8 = Some h"
        "idle h = idle (Accessor_new ''Host'' (Composite (plain_composite True [2])))" by blast
    have "m_parent h = None" using idle_parts(1)[OF h(2)] by (simp add: Accessor_new_def)
    then have "queue_of w' 8 = {}" using w' h(1) by blast
    then show "nothing_due w' \<and> queue_of w' 8 = {} \<and> messages_ok w'" using w' by blast
  qed simp
qed

end
