(* ===== verification/Relay.thy ===== *)
theory Relay
  imports Rounds
begin

text \<open>
  An example for the rounds of the director: a sensor sends its reading with every call of a periodic
  callback, a relay passes each reading on from its input handler, and a sink counts what arrives. Every
  step is priced, so that nothing comes out of a budget and the rounds may go on as long as the clock does.
\<close>

definition relaying :: "(nat, nat) user_code" where
  "relaying = \<lparr>u_initialize = (\<lambda>_. Ret ()), u_fire = (\<lambda>_. Ret ()),
     u_handler = (\<lambda>h ev w. if h = 10 then SendOutput 3 ''Out'' ev w else Ret () (w\<lparr>userState := userState w + 1\<rparr>)),
     u_callback = (\<lambda>_. SendOutput 2 ''Out'' (Some 5))\<rparr>"

definition sensor :: accessor where
  "sensor = (Accessor_new ''Sensor'' (Atomic no_atomic))
     \<lparr>m_parent := Some 8, m_initialized := True, m_outputPorts := [(''Out'', 0)], m_orderedOutputPorts := [0]\<rparr>"

definition relay :: accessor where
  "relay = (Accessor_new ''Relay'' (Atomic (no_atomic\<lparr>m_inputHandlers := [(''In'', [10])]\<rparr>)))
     \<lparr>m_parent := Some 8, m_initialized := True, m_inputPorts := [(''In'', 1)], m_orderedInputPorts := [1],
      m_outputPorts := [(''Out'', 2)], m_orderedOutputPorts := [2]\<rparr>"

definition sink :: accessor where
  "sink = (Accessor_new ''Sink'' (Atomic (no_atomic\<lparr>m_inputHandlers := [(''In'', [20])]\<rparr>)))
     \<lparr>m_parent := Some 8, m_initialized := True, m_inputPorts := [(''In'', 3)], m_orderedInputPorts := [3]\<rparr>"

definition relays_host :: accessor where
  "relays_host = Accessor_new ''Host'' (Composite (plain_composite True [2, 3, 4]))"

text \<open>The callback of the sensor is due every millisecond; the clock stands two milliseconds after its first time.\<close>

definition relays :: "(nat, nat) world" where
  "relays = dstate.extend ((Director_new (\<lambda>_. Some (1000, 2000000)) [])
       \<lparr>m_nextCallbackId := 1, m_callbackQueue := [0], m_nextScheduledExecutionTime := 1000000,
        m_scheduledCallbacks := [(0, new_callback (UserCallback 7) 1 True 3 1000000)]\<rparr>)
     \<lparr>ports = [0 \<mapsto> (Port_new ''Out'' 2 (OutputPort True))\<lparr>m_destinations := [1]\<rparr>,
        1 \<mapsto> (Port_new ''In'' 3 InputPort)\<lparr>m_source := Some 0\<rparr>,
        2 \<mapsto> (Port_new ''Out'' 3 (OutputPort False))\<lparr>m_destinations := [3]\<rparr>,
        3 \<mapsto> (Port_new ''In'' 4 InputPort)\<lparr>m_source := Some 2\<rparr>],
      accessors = [2 \<mapsto> sensor, 3 \<mapsto> relay, 4 \<mapsto> sink, 8 \<mapsto> relays_host], nextPort = 4, userState = 0\<rparr>"

text \<open>The sensor's callback pays for its output, which pays for the relay's handler and its output.\<close>

definition relay_prices :: prices where
  "relay_prices = \<lparr>p_handler = (\<lambda>h. if h = 10 then 1 else 0), p_fire = 0, p_callback = (\<lambda>_. 2),
     p_input = (\<lambda>p. if p = 1 then 1 else 0), p_output = (\<lambda>a _. if a = 2 then 1 else 0)\<rparr>"

definition relay_handlers :: "nat \<Rightarrow> nat list" where
  "relay_handlers p = (if p = 1 then [10] else [20])"

lemma relays_simps:
  "ports relays = [0 \<mapsto> (Port_new ''Out'' 2 (OutputPort True))\<lparr>m_destinations := [1]\<rparr>,
     1 \<mapsto> (Port_new ''In'' 3 InputPort)\<lparr>m_source := Some 0\<rparr>,
     2 \<mapsto> (Port_new ''Out'' 3 (OutputPort False))\<lparr>m_destinations := [3]\<rparr>,
     3 \<mapsto> (Port_new ''In'' 4 InputPort)\<lparr>m_source := Some 2\<rparr>]"
  "accessors relays = [2 \<mapsto> sensor, 3 \<mapsto> relay, 4 \<mapsto> sink, 8 \<mapsto> relays_host]"
  "userState relays = 0" "m_callbackQueue relays = [0]" "m_nextCallbackId relays = 1" "m_nextScheduledExecutionTime relays = 1000000"
  "m_scheduledCallbacks relays = [(0, new_callback (UserCallback 7) 1 True 3 1000000)]"
  by (simp_all add: relays_def dstate.extend_def)

lemma relay_accessors:
  "a_kind sensor = Atomic no_atomic" "m_parent sensor = Some 8" "m_initialized sensor"
  "GetInputPorts sensor = []" "GetOutputPort ''Out'' sensor = Inr 0"
  "a_kind relay = Atomic (no_atomic\<lparr>m_inputHandlers := [(''In'', [10])]\<rparr>)" "m_parent relay = Some 8" "m_initialized relay"
  "GetInputPorts relay = [1]" "GetInputPort ''In'' relay = Inr 1" "GetOutputPort ''Out'' relay = Inr 2"
  "a_kind sink = Atomic (no_atomic\<lparr>m_inputHandlers := [(''In'', [20])]\<rparr>)" "m_parent sink = Some 8" "m_initialized sink"
  "GetInputPorts sink = [3]" "GetInputPort ''In'' sink = Inr 3"
  "a_kind relays_host = Composite (plain_composite True [2, 3, 4])" "m_parent relays_host = None"
  by (simp_all add: sensor_def relay_def sink_def relays_host_def Accessor_new_def GetInputPorts_def GetInputPort_def GetOutputPort_def)

lemma relays_hosted: "hosted relays 1 8"
  by (simp add: relays_simps relay_accessors plain_composite_def)

lemma relays_sound: "sound relays 1 2 (SendOutputTo 2 ''Out'' ev)" "sound relays 1 2 (SendOutputTo 3 ''Out'' ev)"
  using relays_hosted by (simp_all add: relays_simps relay_accessors numeral_2_eq_2 Port_new_def)

lemma relays_output:
  assumes s: "same_shells relays w" and ok: "director_ok w"
  shows "ends_or (schedules w) (\<lambda>_ w'. schedules w w' \<and> userState w' = userState w) (SendOutput 2 ''Out'' ev w)"
    and "ends_or (schedules w) (\<lambda>_ w'. schedules w w' \<and> userState w' = userState w) (SendOutput 3 ''Out'' ev w)"
proof -
  have "accessors relays 8 = Some relays_host" "is_host relays_host"
    by (simp_all add: relays_simps relay_accessors plain_composite_def)
  note out = child_output[OF s ok _ _ _ _ this]
  show "ends_or (schedules w) (\<lambda>_ w'. schedules w w' \<and> userState w' = userState w) (SendOutput 2 ''Out'' ev w)"
    by (rule out[of 2 sensor]) (simp_all add: relays_simps relay_accessors)
  show "ends_or (schedules w) (\<lambda>_ w'. schedules w w' \<and> userState w' = userState w) (SendOutput 3 ''Out'' ev w)"
    by (rule out[of 3 relay]) (simp_all add: relays_simps relay_accessors)
qed

lemma relaying_disciplined:
  "disciplined relays 1 2 relay_prices (\<lambda>_. 0) relaying (\<lambda>h ev u. if h = 10 then u else u + 1) (\<lambda>_ u. u)"
proof -
  have "polite relays relaying (\<lambda>h ev u. if h = 10 then u else u + 1) (\<lambda>_ u. u)"
    using relays_output by (simp add: polite_def relaying_def schedules_refl schedules_user)
  moreover have "charges relays 1 2 relay_prices (\<lambda>_. 0) relaying"
    unfolding charges_def
  proof (intro conjI allI)
    fix w :: "(nat, nat) world" and h a f ev
    show "run_prop (spends relays 1 2 relay_prices (\<lambda>_. 0) (p_handler relay_prices h) w) (u_handler relaying h ev w)"
    proof (cases "h = 10")
      case True
      then show ?thesis
        using SendOutput_charges[OF relays_sound(2), of relay_prices ev 1 "\<lambda>_. 0" w] by (simp add: relaying_def relay_prices_def)
    next
      case False
      then show ?thesis
        using spends_pay[OF spends_quiet[OF quiet_refl], of w "\<lambda>_. 0"] by (simp add: relaying_def relay_prices_def)
    qed
    show "run_prop (spends relays 1 2 relay_prices (\<lambda>_. 0) (p_fire relay_prices) w) (u_fire relaying a w)"
      by (simp add: relaying_def relay_prices_def spends_quiet)
    show "run_prop (spends relays 1 2 relay_prices (\<lambda>_. 0) (p_callback relay_prices f) w) (u_callback relaying f w)"
      using SendOutput_charges[OF relays_sound(1), of relay_prices "Some 5" 2 "\<lambda>_. 0" w] by (simp add: relaying_def relay_prices_def)
  qed
  moreover have "ends_or (schedules w) (\<lambda>_ w'. schedules w w') (u_callback relaying f w)" if "same_shells relays w" "director_ok w" for f w
    using relays_output(1)[OF that, of "Some 5"] by (cases "u_callback relaying f w") (simp_all add: relaying_def)
  ultimately show ?thesis by (simp add: disciplined_def)
qed

lemma relays_ok: "messages_ok relays"
proof (rule messages_ok_new)
  show "director_ok relays" by (simp add: director_ok_def queue_wf_def smap_wf_def relays_simps)
  show "\<not> m_waitingForInputHandler qt" if "ports relays q = Some qt" for q qt
    using that by (auto simp: relays_simps Port_new_def split: if_splits)
  show "m_childEventQueue c = upq_new \<and> \<not> m_reactionRequested c" if "accessors relays a = Some x" "a_kind x = Composite c" for a x c
    using that by (auto simp: relays_simps relay_accessors plain_composite_def split: if_splits)
qed

lemma relays_staffed: "staffed relays 1 relay_handlers relays"
  unfolding staffed_def
proof (intro conjI allI impI)
  show "inputs_ok (ports relays)" by (auto simp: inputs_ok_def relays_simps input_ok_def Port_new_def)
  show "finite (dom (ports relays))" "finite (dom (accessors relays))" by (simp_all add: relays_simps)
  fix a x assume "accessors relays a = Some x \<and> \<not> IsComposite x"
  then have "a \<in> {2, 3, 4}" by (auto simp: relays_simps relay_accessors split: if_splits)
  then show "ready 1 relay_handlers relays a"
    using relays_hosted
    by (auto simp: ready_def relays_simps relay_accessors Port_new_def relay_handlers_def split: if_splits)
qed (rule same_shells_refl)

lemma relays_connected: "connections_ok (ports relays)"
  by (auto simp: connections_ok_def relays_simps Port_new_def split: if_splits)

lemma relays_callbacks: "callbacks_sound relays 1 2 relays"
  by (auto simp: callbacks_sound_def periods_positive_def relays_simps new_callback_def split: if_splits)

lemma relays_priced: "priced relays 1 2 relay_prices relay_handlers"
proof -
  have "inputs_priced relay_prices relay_handlers" by (simp add: inputs_priced_def relay_prices_def relay_handlers_def)
  moreover have "input_price relay_prices relays 2 p \<le> p_output relay_prices a name"
    if "accessors relays a = Some x" "GetOutputPort name x = Inr p" for a name x p
    using that
    by (auto simp: relays_simps relay_prices_def numeral_2_eq_2 Port_new_def GetOutputPort_def sensor_def relay_def sink_def relays_host_def
        Accessor_new_def split: if_splits option.splits)
  moreover have "p_fire relay_prices = 0" by (simp add: relay_prices_def)
  ultimately show ?thesis by (simp add: priced_def)
qed

lemma relays_work: "effort 1 relay_prices (\<lambda>_. 0) relays = 51" "reserve 1 relay_prices (\<lambda>_. 0) relays = 6" "spread 1 relays = 16"
proof -
  have ids: "reaction_ids relays = {}" by (simp add: reaction_ids_def relays_simps new_callback_def)
  have load: "load 1 relays = 0"
    by (simp add: load_def entries_def backlog_def ids relays_simps queue_of_def relay_accessors plain_composite_def upq_new_def Port_new_def)
  have "carried 1 relay_prices relays = 0"
    unfolding carried_def load by (simp add: backlog_def relays_simps Port_new_def)
  moreover show sp: "spread 1 relays = 16" by (simp add: spread_def relays_simps)
  moreover have "due_work relay_prices relays = 3" "stock relay_prices relays = 6"
    by (simp_all add: due_work_def stock_def relays_simps due_price_def due_count_def queue_price_def run_price_def repeat_price_def
        new_callback_def relay_prices_def)
  ultimately show "effort 1 relay_prices (\<lambda>_. 0) relays = 51" "reserve 1 relay_prices (\<lambda>_. 0) relays = 6"
    unfolding effort_def reserve_def load by simp_all
qed

end
