(* ===== verification/ExecutionRounds.thy ===== *)
theory ExecutionRounds
  imports Relay Executions
begin

text \<open>
  \<open>Execute\<close> of \<open>src/src/Director.cpp\<close> with the framework's own callbacks: as many rounds as the clock
  leaves time for, each of which sends events, reacts to them and comes to rest. The theory shows
  that the rounds of \<open>Rounds\<close> keep the interface of \<open>Executions\<close>; the work of later rounds is bounded by
  the prices of the callbacks registered and of the events in the input queues, and the budget.
\<close>

section \<open>Rounds leave the threads alone\<close>

definition stays :: "('e, 'u) world \<Rightarrow> nat \<Rightarrow> nat \<Rightarrow> ('e, 'u) world \<Rightarrow> ('e, 'u) world \<Rightarrow> bool" where
  "stays w0 levels n w w' \<longleftrightarrow> (in_round w0 levels n w \<longrightarrow> in_round w0 levels n w' \<and> same_execution w w')"

lemma spends_stays: "spends w0 levels n P budget x w w' \<Longrightarrow> stays w0 levels n w w'"
  by (simp add: spends_def stays_def)

lemma run_prop_stays: "run_prop (spends w0 levels n P budget x w) r \<Longrightarrow> run_prop (stays w0 levels n w) r"
  by (rule run_prop_mono[OF _ spends_stays])

lemma stays_trans: "stays w0 levels n u v \<Longrightarrow> stays w0 levels n v w \<Longrightarrow> stays w0 levels n u w"
  by (auto simp: stays_def intro: same_execution_trans)

interpretation staying: reaction_frame "stays w0 levels n" for w0 levels n
  by unfold_locales
    (blast intro: stays_trans spends_stays[OF spends_quiet] run_prop_stays[OF ask_spends[where P = no_prices and budget = "\<lambda>_. 0"]])+

lemma callback_stays:
  assumes U: "charges w0 levels n P budget U" and s: "sound w0 levels n f"
  shows "run_prop (stays w0 levels n w) (run_callback U levels n k f w)"
proof -
  have "reactions_keep (stays w0 levels n) U" "run_prop (stays w0 levels n w) (u_callback U g w)" for g
    using U run_prop_stays unfolding charges_def reactions_keep_def by blast+
  then show ?thesis
    using s by (cases f) (simp_all add: staying.send_output_keeps staying.ProcessChildEventQueue_keeps)
qed

lemma same_execution_queues [simp]:
  "same_execution w (w\<lparr>m_callbackQueue := q\<rparr>)" "same_execution w (w\<lparr>m_scheduledCallbacks := m\<rparr>)"
  "same_execution w (w\<lparr>m_scheduledCallbacks := m, m_callbackQueue := q\<rparr>)" "same_execution w (RemoveScheduledCallbackFromMap i w)"
  by (simp_all add: same_execution_def RemoveScheduledCallbackFromMap_def)

lemma reschedule_execution: "run_prop (same_execution w) (reschedule_or_remove i w)"
proof -
  have same: "same_execution w w" by (simp add: same_execution_def)
  show ?thesis by (auto simp: reschedule_or_remove_def QueueScheduledCallback_def Let_def same split: option.split sum.split)
qed

lemma front_execution:
  fixes w :: "('e, 'u) world"
  assumes U: "charges w0 levels n P budget U" and w: "in_round w0 levels n w" and q: "m_callbackQueue w = i # q"
    and c: "map_of (m_scheduledCallbacks w) i = Some c"
  shows "run_prop (same_execution w) (execute_front (run_callback U levels n k) i w)"
proof -
  define w1 where "w1 = w\<lparr>m_callbackQueue := q\<rparr>"
  have sound: "sound w0 levels n (callbackFunction c)" using w c unfolding in_round_def callbacks_sound_def by blast
  have in1: "in_round w0 levels n w1" unfolding w1_def by (rule popped_round(1)[OF w q])
  have first: "same_execution w w1" by (simp add: w1_def)
  have ran: "run_prop (same_execution w) (run_callback U levels n k (callbackFunction c) w1)"
    by (rule run_prop_mono[OF callback_stays[OF U sound]]) (use in1 first in \<open>auto simp: stays_def intro: same_execution_trans\<close>)
  have call: "call_callback (run_callback U levels n k) i (w\<lparr>m_callbackQueue := tl (m_callbackQueue w)\<rparr>) =
      run_callback U levels n k (callbackFunction c) w1"
    using q c by (simp add: call_callback_def w1_def)
  show ?thesis
  proof (cases "run_callback U levels n k (callbackFunction c) w1")
    case (Ret u w2)
    then have "same_execution w w2" using ran by simp
    then have "run_prop (same_execution w) (reschedule_or_remove i w2)"
      by (intro run_prop_mono[OF reschedule_execution]) (rule same_execution_trans)
    then show ?thesis using call Ret by (simp add: execute_front_def)
  next
    case (Throw e w2)
    then have "same_execution w w2" using ran by simp
    moreover from this have "same_execution w (RemoveScheduledCallbackFromMap i w2)" by (rule same_execution_trans) simp
    ultimately show ?thesis using call Throw by (simp add: execute_front_def)
  next
    case Diverge
    then show ?thesis using call by (simp add: execute_front_def)
  qed
qed

lemma run_prop_ends_bind:
  "run_prop P r \<Longrightarrow> ends E Q r \<Longrightarrow> (\<And>x s. P s \<Longrightarrow> Q x s \<Longrightarrow> run_prop P (f x s)) \<Longrightarrow> run_prop P (run_bind r f)"
  by (cases r) auto

lemma due_execution:
  fixes w :: "('e, 'u) world"
  assumes U: "disciplined w0 levels n P budget U hu fu" and n: "0 < n" and c0: "connections_ok (ports w0)" and P: "priced w0 levels n P hs"
  shows "between w0 levels n hs w \<Longrightarrow> effort levels P budget w < k \<Longrightarrow>
    run_prop (same_execution w) (execute_due (run_callback U levels n k) fuel w)"
proof (induction fuel arbitrary: w)
  case (Suc fuel)
  have w: "in_round w0 levels n w" using Suc.prems(1) by (simp add: between_def)
  then have ok: "director_ok w" by (simp add: in_round_def)
  have same: "same_execution w w" by (simp add: same_execution_def)
  show ?case
  proof (cases "m_callbackQueue w")
    case Nil
    then show ?thesis using same by simp
  next
    case (Cons i q)
    with ok obtain c where c: "map_of (m_scheduledCallbacks w) i = Some c" by (auto simp: director_ok_def queue_wf_def)
    then have t: "GetNextQueuedExecutionTime w = Inr (nextExecutionTimeInMilliseconds c)"
      using Cons by (simp add: GetNextQueuedExecutionTime_def)
    have "load levels w < k" using Suc.prems(2) by (simp add: effort_def)
    have ch: "charges w0 levels n P budget U" using U by (simp add: disciplined_def)
    have "run_prop (same_execution w)
        (run_bind (execute_front (run_callback U levels n k) i w) (\<lambda>_. execute_due (run_callback U levels n k) fuel))"
      if "nextExecutionTimeInMilliseconds c \<le> m_nextScheduledExecutionTime w"
    proof (rule run_prop_ends_bind[OF front_execution[OF ch w Cons c] front_round[OF U n c0 P Suc.prems(1) Cons c that \<open>load levels w < k\<close>]])
      fix u :: unit and w' :: "('e, 'u) world"
      assume f: "same_execution w w'" and w': "between w0 levels n hs w' \<and> m_nextScheduledExecutionTime w' = m_nextScheduledExecutionTime w \<and>
        effort levels P budget w' < effort levels P budget w \<and> reserve levels P budget w' \<le> reserve levels P budget w"
      then have "run_prop (same_execution w') (execute_due (run_callback U levels n k) fuel w')"
        using Suc.IH[of w'] Suc.prems(2) by simp
      then show "run_prop (same_execution w) (execute_due (run_callback U levels n k) fuel w')"
        by (rule run_prop_mono) (rule same_execution_trans[OF f])
    qed
    then show ?thesis using Cons t same by simp
  qed
qed simp

section \<open>From one round to the next\<close>

text \<open>
  At the start of a round every callback queued is due once at most, as nothing was due at the time
  of the round before and the next round is for the time at the front of the queue.
\<close>

lemma front_time:
  assumes ok: "director_ok w" and t: "GetNextQueuedExecutionTime w = Inr t"
    and i: "i \<in> set (m_callbackQueue w)" "map_of (m_scheduledCallbacks w) i = Some c"
  shows "t \<le> nextExecutionTimeInMilliseconds c"
proof -
  obtain j q where q: "m_callbackQueue w = j # q" using i(1) by (cases "m_callbackQueue w") auto
  then obtain c' where c': "map_of (m_scheduledCallbacks w) j = Some c'" "t = nextExecutionTimeInMilliseconds c'"
    using t by (auto simp: GetNextQueuedExecutionTime_def split: option.splits)
  then show ?thesis using queue_times[OF ok q c'(1) _ i(2)] i(1) q by simp
qed

lemma next_time_later:
  assumes "director_ok w" and "nothing_due w" and "m_nextScheduledExecutionTime w < DefaultNextExecutionTime"
  shows "\<exists>t. GetNextQueuedExecutionTime w = Inr t \<and> m_nextScheduledExecutionTime w < t"
proof (cases "m_callbackQueue w")
  case Nil
  then show ?thesis using assms(3) by (simp add: GetNextQueuedExecutionTime_def)
next
  case (Cons i q)
  with assms(1) obtain c where "map_of (m_scheduledCallbacks w) i = Some c" by (auto simp: director_ok_def queue_wf_def)
  then show ?thesis using Cons assms(2) by (simp add: GetNextQueuedExecutionTime_def nothing_due_def)
qed

text \<open>So what is due in the next round is in stock, and the stock at most doubles.\<close>

lemma next_round_work:
  assumes ok: "director_ok w" and t: "GetNextQueuedExecutionTime w = Inr t"
  shows "due_work P (w\<lparr>m_nextScheduledExecutionTime := t\<rparr>) \<le> stock P w"
    and "stock P (w\<lparr>m_nextScheduledExecutionTime := t\<rparr>) \<le> 2 * stock P w"
proof -
  let ?q = "m_callbackQueue w" and ?m = "m_scheduledCallbacks w"
  have due: "due_price P ?m t i \<le> run_price P ?m i" if "i \<in> set ?q" for i
    using front_time[OF ok t that] by (force simp: due_price_def run_price_def due_count_def split: option.split)
  then have once: "due_price P ?m t i \<le> queue_price P ?m (m_nextScheduledExecutionTime w) i"
      "queue_price P ?m t i \<le> 2 * queue_price P ?m (m_nextScheduledExecutionTime w) i" if "i \<in> set ?q" for i
    using that by (fastforce simp: queue_price_def repeat_price_def run_price_def split: option.split)+
  show "due_work P (w\<lparr>m_nextScheduledExecutionTime := t\<rparr>) \<le> stock P w"
    using once(1) by (simp add: due_work_def stock_def) (rule sum_list_mono)
  have "sum_list (map (queue_price P ?m t) ?q) \<le> (\<Sum>i \<leftarrow> ?q. 2 * queue_price P ?m (m_nextScheduledExecutionTime w) i)"
    by (rule sum_list_mono[OF once(2)])
  then show "stock P (w\<lparr>m_nextScheduledExecutionTime := t\<rparr>) \<le> 2 * stock P w"
    by (simp add: stock_def sum_list_const_mult)
qed

lemma next_round:
  fixes w :: "('e, 'u) world"
  assumes "director_ok w" and "GetNextQueuedExecutionTime w = Inr t"
  defines "v \<equiv> w\<lparr>m_nextScheduledExecutionTime := t\<rparr>"
  shows "effort levels P budget v \<le> Suc (spread levels w) * reserve levels P budget w + effort levels P budget w"
    and "reserve levels P budget v \<le> 2 * reserve levels P budget w"
proof -
  have same: "load levels v = load levels w" "spread levels v = spread levels w" "carried levels P v = carried levels P w"
      "userState v = userState w"
    by (simp_all add: v_def carried_def load_def entries_def spread_def reaction_ids_def queue_of_def)
  note work = next_round_work[OF assms(1,2), of P, folded v_def]
  have "due_work P v + budget (userState v) + carried levels P v \<le> reserve levels P budget w"
    using work(1) by (simp add: reserve_def same)
  from mult_le_mono2[OF this, of "Suc (spread levels w)"]
  show "effort levels P budget v \<le> Suc (spread levels w) * reserve levels P budget w + effort levels P budget w"
    unfolding effort_def same by linarith
  show "reserve levels P budget v \<le> 2 * reserve levels P budget w"
    using work(2) by (simp add: reserve_def same)
qed

section \<open>The interface of an execution\<close>

text \<open>
  What a round leaves in the model: no root has a reaction requested or an accessor in its event
  queue, and below the roots no input waits for its handlers.
\<close>

definition at_rest :: "('e, 'u) world \<Rightarrow> bool" where
  "at_rest w \<longleftrightarrow> (\<forall>h x. accessors w h = Some x \<and> m_parent x = None \<longrightarrow> queue_of w h = {} \<and> \<not> requested w h) \<and>
     (\<forall>q qt y g h m. ports w q = Some qt \<and> accessors w (p_owner qt) = Some y \<and> takes qt y \<and>
        m_parent y = Some g \<and> leads_to w h m g \<longrightarrow>
        \<not> IsWaitingForInputHandler qt \<and> (m_inputQueue qt = [] \<or> hd (m_inputQueue qt) = None))"

text \<open>
  The next \<open>j\<close> rounds go well: user code keeps to its contract, the invariants hold, and the bounds
  on the loops exceed the work at hand and what \<open>j\<close> rounds can add to it, where each may double what is in reserve.
\<close>

definition enough :: "nat \<Rightarrow> prices \<Rightarrow> ('u \<Rightarrow> nat) \<Rightarrow> nat \<Rightarrow> ('e, 'u) world \<Rightarrow> nat" where
  "enough levels P budget j w = effort levels P budget w + (2 ^ j - 1) * (Suc (spread levels w) * reserve levels P budget w)"

definition steady ::
  "('e, 'u) world \<Rightarrow> nat \<Rightarrow> nat \<Rightarrow> prices \<Rightarrow> ('u \<Rightarrow> nat) \<Rightarrow> ('e, 'u) user_code \<Rightarrow> (nat \<Rightarrow> 'e option \<Rightarrow> 'u \<Rightarrow> 'u) \<Rightarrow> (nat \<Rightarrow> 'u \<Rightarrow> 'u)
     \<Rightarrow> (nat \<Rightarrow> nat list) \<Rightarrow> nat \<Rightarrow> nat \<Rightarrow> nat \<Rightarrow> ('e, 'u) world \<Rightarrow> bool" where
  "steady w0 levels n P budget U hu fu hs k cfuel j w \<longleftrightarrow> disciplined w0 levels n P budget U hu fu \<and> 0 < n \<and>
     connections_ok (ports w0) \<and> priced w0 levels n P hs \<and>
     staffed w0 levels hs w \<and> same_wiring w0 w \<and> messages_ok w \<and> composites w = composites w0 \<and> callbacks_sound w0 levels n w \<and>
     enough levels P budget j w < min k cfuel"

lemma leads_to_same: "accessors w' = accessors w \<Longrightarrow> leads_to w' h m g = leads_to w h m g"
  by (induction m arbitrary: g) (auto split: option.split)

lemma at_rest_more:
  fixes w :: "('e, 'u) world"
  assumes "at_rest w" and "dstate.more w' = dstate.more w"
  shows "at_rest w'"
proof -
  note same = world_of_more(1,2)[OF assms(2)]
  have "queue_of w' = queue_of w" "requested w' = requested w" using same by (simp_all add: fun_eq_iff queue_of_def requested_def)
  then have "at_rest w' = at_rest w" by (simp add: at_rest_def same leads_to_same[OF same(1)])
  then show ?thesis using assms(1) by blast
qed

text \<open>A change of the director alone.\<close>

lemma steady_director:
  fixes w :: "('e, 'u) world"
  assumes s: "steady w0 levels n P budget U hu fu hs k cfuel j w" and more: "dstate.more w' = dstate.more w"
    and ok: "messages_ok w'" "callbacks_sound w0 levels n w'"
    and le: "due_work P w' \<le> due_work P w" "stock P w' \<le> stock P w" "card (reaction_ids w') \<le> card (reaction_ids w)"
  shows "steady w0 levels n P budget U hu fu hs k cfuel j w'"
proof -
  note same = world_of_more[OF more]
  have wire: "same_wiring w w'" by (rule same_wiring_director[OF same(1,2)])
  have st: "staffed w0 levels hs w" "same_wiring w0 w" "composites w = composites w0" using s by (simp_all add: steady_def)
  have "staffed w0 levels hs w'" by (rule staffed_cong[OF st(1) wire]) (use st(1) in \<open>simp add: staffed_def same\<close>)
  moreover have "same_wiring w0 w'" by (rule same_wiring_trans[OF st(2) wire])
  moreover have "composites w' = composites w0" using st(3) by (simp add: composites_def same)
  moreover have "enough levels P budget j w' < min k cfuel"
  proof -
    have sp: "spread levels w' = spread levels w" by (simp add: spread_def same)
    have l: "load levels w' \<le> load levels w" using le(3) by (simp add: load_def entries_def queue_of_def same)
    have c: "carried levels P w' \<le> carried levels P w" by (rule carried_mono[OF same(2) l])
    have "due_work P w' + budget (userState w') + carried levels P w' \<le> due_work P w + budget (userState w) + carried levels P w"
      using le(1) c same(4) by simp
    from mult_le_mono2[OF this, of "Suc (spread levels w)"] l
    have e: "effort levels P budget w' \<le> effort levels P budget w" unfolding effort_def sp by linarith
    have r: "reserve levels P budget w' \<le> reserve levels P budget w" using le(2) c same(4) by (simp add: reserve_def)
    have "(2 ^ j - 1) * (Suc (spread levels w) * reserve levels P budget w') \<le>
        (2 ^ j - 1) * (Suc (spread levels w) * reserve levels P budget w)" by (intro mult_le_mono2 r)
    then have "enough levels P budget j w' \<le> enough levels P budget j w" using e unfolding enough_def sp by linarith
    also have "\<dots> < min k cfuel" using s by (simp add: steady_def)
    finally show ?thesis .
  qed
  ultimately show ?thesis using s ok by (simp add: steady_def)
qed

lemma messages_ok_director:
  assumes ok: "messages_ok w" and same: "accessors w' = accessors w" "ports w' = ports w" and d: "director_ok w'"
    and "\<And>a x. accessors w a = Some x \<Longrightarrow> m_parent x = None \<Longrightarrow> requested w a \<Longrightarrow> reaction_scheduled w' a"
  shows "messages_ok w'"
proof -
  have eq: "queue_of w' = queue_of w" "requested w' = requested w" "accessor_priority w' = accessor_priority w"
    using same(1) by (simp_all add: fun_eq_iff queue_of_def requested_def accessor_priority_def)
  have "announced w' = announced w" by (rule ext) (simp add: announced_def eq same cong: option.case_cong)
  moreover have "queues_ok w' = queues_ok w" by (simp add: queues_ok_def eq same)
  moreover have "request_answered w' a" for a using assms(5) by (simp add: request_answered_def eq same)
  ultimately show ?thesis
    using ok d inputs_alert_director[OF _ same] by (simp add: messages_ok_def reactions_ok_but_def)
qed

lemma steady_queue:
  fixes w :: "('e, 'u) world"
  assumes s: "steady w0 levels n P budget U hu fu hs k cfuel j w" and q: "same_queue w w'" and more: "dstate.more w' = dstate.more w"
  shows "steady w0 levels n P budget U hu fu hs k cfuel j w'"
proof (rule steady_director[OF s more])
  note same = world_of_more[OF more]
  have w: "messages_ok w" "callbacks_sound w0 levels n w" using s by (simp_all add: steady_def)
  have scheduled: "reaction_scheduled w' = reaction_scheduled w"
    using q by (simp add: fun_eq_iff reaction_scheduled_def same_queue_def)
  show "messages_ok w'"
  proof (rule messages_ok_director[OF w(1) same(1,2)])
    show "director_ok w'" using w(1) director_ok_same_queue[OF q] by (simp add: messages_ok_def reactions_ok_but_def)
    show "reaction_scheduled w' a" if "accessors w a = Some x" "m_parent x = None" "requested w a" for a x
      using w(1) that unfolding scheduled messages_ok_def reactions_ok_but_def request_answered_def by blast
  qed
  show "callbacks_sound w0 levels n w'" using w(2) q by (simp add: callbacks_sound_def periods_positive_def same_queue_def)
  show "due_work P w' \<le> due_work P w" "stock P w' \<le> stock P w" "card (reaction_ids w') \<le> card (reaction_ids w)"
    using q by (simp_all add: due_work_def stock_def reaction_ids_def same_queue_def)
qed

lemma steady_Reset:
  fixes w :: "('e, 'u) world"
  assumes s: "steady w0 levels n P budget U hu fu hs k cfuel j w" and r: "at_rest w"
  shows "steady w0 levels n P budget U hu fu hs k cfuel j (Reset w)"
proof -
  have more: "dstate.more (Reset w) = dstate.more w" by (simp add: Reset_def PosixUtcInMilliseconds_def Let_def)
  note same = world_of_more[OF more]
  show ?thesis
  proof (rule steady_director[OF s more])
    have "messages_ok w" using s by (simp add: steady_def)
    then show "messages_ok (Reset w)"
      by (rule messages_ok_director[OF _ same(1,2)]) (use r in \<open>auto simp: at_rest_def\<close>)
  qed (simp_all add: callbacks_sound_def periods_positive_def due_work_def stock_def reaction_ids_def)
qed

lemma enough_Suc:
  assumes "spread levels v = spread levels w"
    and e: "effort levels P budget v \<le> Suc (spread levels w) * reserve levels P budget w + effort levels P budget w"
    and r: "reserve levels P budget v \<le> 2 * reserve levels P budget w"
  shows "enough levels P budget j v \<le> enough levels P budget (Suc j) w"
proof -
  let ?X = "Suc (spread levels w) * reserve levels P budget w"
  have "Suc (spread levels w) * reserve levels P budget v \<le> 2 * ?X" using mult_le_mono2[OF r, of "Suc (spread levels w)"] by simp
  from mult_le_mono2[OF this, of "2 ^ j - 1"]
  have "enough levels P budget j v \<le> ?X + effort levels P budget w + (2 ^ j - 1) * (2 * ?X)"
    using e unfolding enough_def assms(1) by linarith
  also have "?X + (2 ^ j - 1) * (2 * ?X) = (1 + (2 ^ j - 1) * 2) * ?X" by (simp add: distrib_right mult.assoc)
  then have "?X + effort levels P budget w + (2 ^ j - 1) * (2 * ?X) = effort levels P budget w + (1 + (2 ^ j - 1) * 2) * ?X" by linarith
  also have "1 + (2 ^ j - 1) * 2 = (2 ^ Suc j - 1 :: nat)"
  proof -
    have "1 \<le> (2 ^ j :: nat)" by simp
    then show ?thesis unfolding power_Suc by arith
  qed
  finally show ?thesis by (simp only: enough_def)
qed

lemma steady_round:
  fixes w :: "('e, 'u) world"
  assumes s: "steady w0 levels n P budget U hu fu hs k cfuel (Suc j) w"
  shows "m_nextScheduledExecutionTime w < DefaultNextExecutionTime \<Longrightarrow>
      ends own_failure (\<lambda>_ w'. \<exists>t. GetNextQueuedExecutionTime w' = Inr t \<and> m_nextScheduledExecutionTime w < t \<and>
        steady w0 levels n P budget U hu fu hs k cfuel j (w'\<lparr>m_nextScheduledExecutionTime := t\<rparr>) \<and>
        at_rest (w'\<lparr>m_nextScheduledExecutionTime := t\<rparr>)) (ExecuteCallbacks (run_callback U levels n k) cfuel w)"
    and "run_prop (same_execution w) (ExecuteCallbacks (run_callback U levels n k) cfuel w)"
proof -
  define v where "v = w\<lparr>m_currentLogicalTime := m_nextScheduledExecutionTime w\<rparr>"
  have U: "disciplined w0 levels n P budget U hu fu" "0 < n" "connections_ok (ports w0)" "priced w0 levels n P hs"
    using s by (simp_all add: steady_def)
  have st: "staffed w0 levels hs w" "same_wiring w0 w" "messages_ok w" "composites w = composites w0" "callbacks_sound w0 levels n w"
    using s by (simp_all add: steady_def)
  note start = round_start[OF st, folded v_def]
  have bound: "enough levels P budget (Suc j) w < min k cfuel" using s unfolding steady_def by blast
  then have small: "effort levels P budget v < k" "effort levels P budget v < cfuel" unfolding start(2) enough_def by linarith+
  have "same_execution w v" by (simp add: v_def same_execution_def)
  then show "run_prop (same_execution w) (ExecuteCallbacks (run_callback U levels n k) cfuel w)"
    unfolding ExecuteCallbacks_def v_def[symmetric]
    by (intro run_prop_mono[OF due_execution[OF U start(1) small(1)]]) (rule same_execution_trans)
  assume soon: "m_nextScheduledExecutionTime w < DefaultNextExecutionTime"
  show "ends own_failure (\<lambda>_ w'. \<exists>t. GetNextQueuedExecutionTime w' = Inr t \<and> m_nextScheduledExecutionTime w < t \<and>
        steady w0 levels n P budget U hu fu hs k cfuel j (w'\<lparr>m_nextScheduledExecutionTime := t\<rparr>) \<and>
        at_rest (w'\<lparr>m_nextScheduledExecutionTime := t\<rparr>)) (ExecuteCallbacks (run_callback U levels n k) cfuel w)"
    unfolding ExecuteCallbacks_def v_def[symmetric]
  proof (rule ends_mono[OF due_round[OF U start(1) small]])
    fix u :: unit and w' :: "('e, 'u) world"
    assume w': "between w0 levels n hs w' \<and> nothing_due w' \<and> m_nextScheduledExecutionTime w' = m_nextScheduledExecutionTime v \<and>
      effort levels P budget w' \<le> effort levels P budget v \<and> reserve levels P budget w' \<le> reserve levels P budget v"
    then have b: "between w0 levels n hs w'" and d: "nothing_due w'" and time: "m_nextScheduledExecutionTime w' = m_nextScheduledExecutionTime w"
      by (simp_all add: v_def)
    have bw: "in_round w0 levels n w'" "staffed w0 levels hs w'" "same_wiring w0 w'" "messages_ok w'" using b by (simp_all add: between_def)
    have ok: "director_ok w'" using bw(1) by (simp add: in_round_def)
    obtain t where t: "GetNextQueuedExecutionTime w' = Inr t" "m_nextScheduledExecutionTime w' < t"
      using next_time_later[OF ok d] soon time by auto
    let ?w = "w'\<lparr>m_nextScheduledExecutionTime := t\<rparr>"
    note fin = finished_round[OF b d]
    have "\<not> IsWaitingForInputHandler qt \<and> (m_inputQueue qt = [] \<or> hd (m_inputQueue qt) = None)"
      if "ports w' q = Some qt \<and> accessors w' (p_owner qt) = Some y \<and> takes qt y \<and> m_parent y = Some g \<and> leads_to w' h m g"
      for q qt y g h m
      using that by (elim conjE) (rule fin(2))
    then have rest: "at_rest w'" unfolding at_rest_def using fin(1) by blast
    have wire: "same_wiring w' ?w" by (rule same_wiring_director) simp_all
    have "staffed w0 levels hs ?w" by (rule staffed_cong[OF bw(2) wire]) (use bw(2) in \<open>simp add: staffed_def\<close>)
    moreover have "same_wiring w0 ?w" by (rule same_wiring_trans[OF bw(3) wire])
    moreover have "messages_ok ?w"
      by (rule messages_ok_director[OF bw(4)])
        (use ok bw(4) in \<open>auto simp: director_ok_def messages_ok_def reactions_ok_but_def request_answered_def reaction_scheduled_def\<close>)
    moreover have "composites ?w = composites w0" using bw(1) by (simp add: in_round_def composites_def)
    moreover have "callbacks_sound w0 levels n ?w"
      using bw(1) t(2) by (fastforce simp: in_round_def callbacks_sound_def periods_positive_def)
    moreover have "enough levels P budget j ?w < min k cfuel"
    proof -
      have sp: "spread levels w' = spread levels w" using spread_cong[OF bw(3)] spread_cong[OF st(2)] by metis
      note nxt = next_round[OF ok t(1), of levels P budget]
      have r: "reserve levels P budget w' \<le> reserve levels P budget w" and e: "effort levels P budget w' \<le> effort levels P budget w"
        using w' start(2,3) by metis+
      have "enough levels P budget j ?w \<le> enough levels P budget (Suc j) w"
      proof (rule enough_Suc)
        show "spread levels ?w = spread levels w" using sp by (simp add: spread_def)
        show "effort levels P budget ?w \<le> Suc (spread levels w) * reserve levels P budget w + effort levels P budget w"
          using nxt(1) e mult_le_mono2[OF r, of "Suc (spread levels w)"] unfolding sp by linarith
        show "reserve levels P budget ?w \<le> 2 * reserve levels P budget w" using nxt(2) r by linarith
      qed
      then show ?thesis using bound by linarith
    qed
    ultimately have "steady w0 levels n P budget U hu fu hs k cfuel j ?w" using U by (simp add: steady_def)
    moreover have "at_rest ?w" by (rule at_rest_more[OF rest]) simp
    ultimately show "\<exists>t. GetNextQueuedExecutionTime w' = Inr t \<and> m_nextScheduledExecutionTime w < t \<and>
        steady w0 levels n P budget U hu fu hs k cfuel j (w'\<lparr>m_nextScheduledExecutionTime := t\<rparr>) \<and>
        at_rest (w'\<lparr>m_nextScheduledExecutionTime := t\<rparr>)"
      using t time by auto
  qed
qed

interpretation execution: director_rounds "run_callback U levels n k" cfuel "steady w0 levels n P budget U hu fu hs k cfuel" at_rest
  for w0 levels n P budget U hu fu hs k cfuel
  by unfold_locales (rule steady_round steady_queue at_rest_more steady_Reset; assumption)+

section \<open>The execution\<close>




end
