(* ===== verification/HostStates.thy ===== *)
theory HostStates
  imports Runtime DirectorExecution
begin

text \<open>
  The host's life cycle, \<open>src/src/HostImpl.cpp\<close> without the priorities: its state, its event
  listeners, \<open>Setup\<close>, \<open>Iterate\<close>, \<open>Pause\<close>, \<open>Run\<close>, \<open>RunOnCurrentThread\<close>, \<open>Exit\<close>, construction and
  destruction. The members of the host are kept in the user's part of the model's state, so
  that callbacks, listeners and \<open>AdditionalSetup\<close> can call the host. Here calls run one after
  the other; \<open>HostThreads\<close> interleaves them.
\<close>

section \<open>State\<close>

datatype host_state =
  NeedsSetup | SettingUp | ReadyToRun | Running | Paused | Exiting | Finished | Corrupted

record 'u host =
  m_state :: host_state
  m_listeners :: "(int, nat) smap"   \<comment> \<open>weak pointers to listeners\<close>
  m_nextListenerId :: int
  liveListeners :: "nat list"        \<comment> \<open>the listeners that exist\<close>
  hostThreads :: nat                 \<comment> \<open>threads started by \<open>Run\<close> that have not begun\<close>
  ownState :: 'u

type_synonym ('a, 'e, 'u) host_op = "('a, 'e, 'u host) op"

text \<open>What a listener is told.\<close>

datatype notice = NotifyOfException exn | NotifyOfStateChange host_state host_state

record ('e, 'u) host_code =
  h_user :: "('e, 'u host) user_code"
  h_listener :: "nat \<Rightarrow> notice \<Rightarrow> (unit, 'e, 'u) host_op"
  h_additionalSetup :: "(unit, 'e, 'u) host_op"

text \<open>
  The bounds of a call: levels of the tree, lengths of port chains, steps of the loops over a
  tree, of the loops of the director and of the loop over the listeners.
\<close>

record bounds =
  b_levels :: nat
  b_ports :: nat
  b_tree :: nat
  b_callbacks :: nat
  b_internal :: nat
  b_rounds :: nat
  b_listeners :: nat

definition modify_host :: "('u host \<Rightarrow> 'u host) \<Rightarrow> ('e, 'u host) world \<Rightarrow> ('e, 'u host) world" where
  "modify_host f w = w\<lparr>userState := f (userState w)\<rparr>"

definition GetState :: "('e, 'u host) world \<Rightarrow> host_state" where
  "GetState w = m_state (userState w)"

definition store_state :: "host_state \<Rightarrow> ('e, 'u host) world \<Rightarrow> ('e, 'u host) world" where
  "store_state s = modify_host (\<lambda>h. h\<lparr>m_state := s\<rparr>)"

section \<open>Event listeners\<close>

definition EventListenerIsRegistered :: "int \<Rightarrow> ('e, 'u host) world \<Rightarrow> bool" where
  "EventListenerIsRegistered listenerId w \<longleftrightarrow> map_of (m_listeners (userState w)) listenerId \<noteq> None"

definition AddEventListener :: "nat \<Rightarrow> (int, 'e, 'u) host_op" where
  "AddEventListener listener w =
     (let listenerId = m_nextListenerId (userState w) in
      if \<not> fits_int (listenerId + 1) then Throw (Fatal SignedOverflow) w
      else Ret listenerId (modify_host (\<lambda>h. h\<lparr>m_nextListenerId := listenerId + 1,
             m_listeners := smap_emplace listenerId listener (m_listeners h)\<rparr>) w))"

definition RemoveEventListener :: "int \<Rightarrow> (unit, 'e, 'u) host_op" where
  "RemoveEventListener listenerId w =
     Ret () (modify_host (\<lambda>h. h\<lparr>m_listeners := smap_erase listenerId (m_listeners h)\<rparr>) w)"

text \<open>
  The loop over the listeners, at a position of the map. A listener that is gone, or that throws
  a \<open>std::exception\<close>, is erased; the loop then reads the iterator of the erased entry. A
  listener may register and remove listeners; removing the one the loop is at also leaves an
  invalid iterator.
\<close>

definition first_listener :: "(int, nat) smap \<Rightarrow> int option" where
  "first_listener m = (case m of [] \<Rightarrow> None | e # _ \<Rightarrow> Some (fst e))"

definition next_listener :: "int \<Rightarrow> (int, nat) smap \<Rightarrow> int option" where
  "next_listener i m = first_listener (filter (\<lambda>e. i < fst e) m)"

fun notify_loop ::
  "('e, 'u) host_code \<Rightarrow> notice \<Rightarrow> nat \<Rightarrow> int option \<Rightarrow> (unit, 'e, 'u) host_op" where
  "notify_loop C notice 0 it w = Diverge"
| "notify_loop C notice (Suc n) None w = Ret () w"
| "notify_loop C notice (Suc n) (Some i) w =
     (case map_of (m_listeners (userState w)) i of
        None \<Rightarrow> Throw (Fatal DanglingPointer) w
      | Some l \<Rightarrow>
          let erased = modify_host (\<lambda>h. h\<lparr>m_listeners := smap_erase i (m_listeners h)\<rparr>) in
          if l \<in> set (liveListeners (userState w))
          then (case h_listener C l notice w of
                  Diverge \<Rightarrow> Diverge
                | Ret _ w1 \<Rightarrow>
                    if map_of (m_listeners (userState w1)) i = None
                    then Throw (Fatal DanglingPointer) w1
                    else notify_loop C notice n (next_listener i (m_listeners (userState w1))) w1
                | Throw e w1 \<Rightarrow>
                    if is_std_exception e then Throw (Fatal DanglingPointer) (erased w1) else Throw e w1)
          else Throw (Fatal DanglingPointer) (erased w))"

definition NotifyListenersOfException :: "('e, 'u) host_code \<Rightarrow> nat \<Rightarrow> exn \<Rightarrow> (unit, 'e, 'u) host_op" where
  "NotifyListenersOfException C n e w =
     notify_loop C (NotifyOfException e) n (first_listener (m_listeners (userState w))) w"

definition NotifyListenersOfStateChange ::
  "('e, 'u) host_code \<Rightarrow> nat \<Rightarrow> host_state \<Rightarrow> host_state \<Rightarrow> (unit, 'e, 'u) host_op" where
  "NotifyListenersOfStateChange C n oldState newState w =
     notify_loop C (NotifyOfStateChange oldState newState) n (first_listener (m_listeners (userState w))) w"

section \<open>States\<close>

definition SetState :: "('e, 'u) host_code \<Rightarrow> nat \<Rightarrow> host_state \<Rightarrow> (unit, 'e, 'u) host_op" where
  "SetState C n newState w =
     (let oldState = GetState w; w1 = store_state newState w in
      if oldState \<noteq> newState then NotifyListenersOfStateChange C n oldState newState w1 else Ret () w1)"

definition ValidateHostCanRun :: "(unit, 'e, 'u) host_op" where
  "ValidateHostCanRun w =
     (if GetState w = Running then Throw HostAlreadyRunning w
      else if GetState w \<noteq> ReadyToRun \<and> GetState w \<noteq> Paused then Throw HostNotRunnable w
      else Ret () w)"

definition Setup :: "('e, 'u) host_code \<Rightarrow> bounds \<Rightarrow> nat \<Rightarrow> (unit, 'e, 'u) host_op" where
  "Setup C b h w =
     (if GetState w \<noteq> NeedsSetup then Throw HostDoesNotNeedSetup w
      else run_bind (SetState C (b_listeners b) SettingUp w) (\<lambda>_ w.
           run_bind (h_additionalSetup C w) (\<lambda>_ w.
           run_bind (ComputeAccessorPriorities (b_tree b) h False w) (\<lambda>_ w.
           run_bind (Initialize (h_user C) (b_tree b) h w) (\<lambda>_.
           SetState C (b_listeners b) ReadyToRun)))))"

text \<open>What \<open>Iterate\<close> and \<open>RunOnCurrentThread\<close> do around the director's \<open>Execute\<close>.\<close>

definition execute_director ::
  "('e, 'u) host_code \<Rightarrow> bounds \<Rightarrow> int \<Rightarrow> (unit, 'e, 'u) host_op" where
  "execute_director C b numberOfIterations w =
     run_bind (SetState C (b_listeners b) Running w) (\<lambda>_ w.
       case Execute (run_callback (h_user C) (b_levels b) (b_ports b) (b_tree b))
              (b_callbacks b) (b_internal b) (b_rounds b) numberOfIterations w of
         Diverge \<Rightarrow> Diverge
       | Ret _ w \<Rightarrow> SetState C (b_listeners b) Paused w
       | Throw e w \<Rightarrow>
           if is_std_exception e
           then run_bind (NotifyListenersOfException C (b_listeners b) e (store_state Corrupted w))
                  (\<lambda>_. SetState C (b_listeners b) Paused)
           else Throw e w)"

definition Iterate :: "('e, 'u) host_code \<Rightarrow> bounds \<Rightarrow> int \<Rightarrow> (unit, 'e, 'u) host_op" where
  "Iterate C b numberOfIterations w =
     run_bind (ValidateHostCanRun w) (\<lambda>_. execute_director C b numberOfIterations)"

definition RunOnCurrentThread :: "('e, 'u) host_code \<Rightarrow> bounds \<Rightarrow> (unit, 'e, 'u) host_op" where
  "RunOnCurrentThread C b w = run_bind (ValidateHostCanRun w) (\<lambda>_. execute_director C b 0)"

definition Pause :: "('e, 'u) host_code \<Rightarrow> bounds \<Rightarrow> (unit, 'e, 'u) host_op" where
  "Pause C b w =
     (if GetState w \<noteq> Running then Throw HostNotRunning w
      else SetState C (b_listeners b) Paused (StopExecution w))"

definition Exit :: "('e, 'u) host_code \<Rightarrow> bounds \<Rightarrow> (unit, 'e, 'u) host_op" where
  "Exit C b w = run_bind (SetState C (b_listeners b) Exiting w) (\<lambda>_ w.
     SetState C (b_listeners b) Finished (StopExecution w))"

text \<open>The loop around the constructor of the host's thread.\<close>

fun spawn_thread :: "spawn_outcome list \<Rightarrow> bool \<times> spawn_outcome list" where
  "spawn_thread [] = (True, [])"
| "spawn_thread (SpawnOk # os) = (True, os)"
| "spawn_thread (SpawnAgain # os) = spawn_thread os"
| "spawn_thread (SpawnFailed # os) = (False, os)"

definition Run :: "(unit, 'e, 'u) host_op" where
  "Run w = run_bind (ValidateHostCanRun w) (\<lambda>_ w.
     let (started, os) = spawn_thread (spawnOutcomes w); w1 = w\<lparr>spawnOutcomes := os\<rparr> in
     if started then Ret () (modify_host (\<lambda>h. h\<lparr>hostThreads := Suc (hostThreads h)\<rparr>) w1)
     else Throw SystemError w1)"

text \<open>A thread that \<open>Run\<close> started, run to its end: no exception may leave it.\<close>

definition host_thread :: "('e, 'u) host_code \<Rightarrow> bounds \<Rightarrow> (unit, 'e, 'u) host_op" where
  "host_thread C b w = noexcept_run
     (RunOnCurrentThread C b (modify_host (\<lambda>h. h\<lparr>hostThreads := hostThreads h - 1\<rparr>) w))"

section \<open>Construction and destruction\<close>

definition Host_construct :: "nat \<Rightarrow> string \<Rightarrow> (unit, 'e, 'u) host_op" where
  "Host_construct h name w =
     run_bind (CompositeAccessor_construct h name True [] [] w) (\<lambda>_ w.
       Ret () (SetPriority h HostPriority
         (modify_host (\<lambda>m. m\<lparr>m_state := NeedsSetup, m_listeners := [], m_nextListenerId := 0\<rparr>) w)))"

text \<open>\<open>~Director\<close> resets; afterwards the host is an accessor without a director.\<close>

definition Host_destroy :: "nat \<Rightarrow> nat \<Rightarrow> (unit, 'e, 'u) host_op" where
  "Host_destroy n h w = noexcept_run
     (run_bind (RemoveAllChildren n h w) (\<lambda>_ w.
      run_bind (ClearAllScheduledCallbacks h w) (\<lambda>_ w. Ret () (Reset w))))"

end
