(* ===== verification/HostListeners.thy ===== *)
theory HostListeners
  imports HostStates
begin

text \<open>
  What the listeners of a host see, and what a host does when the model throws: every listener
  is told of every change once, in the order of registration, unless one of them is gone; and
  an exception of the model leaves no trace in the state.
\<close>

section \<open>Registration\<close>

text \<open>The identifiers in use are below the next one.\<close>

definition listeners_ok :: "('e, 'u host) world \<Rightarrow> bool" where
  "listeners_ok w \<longleftrightarrow> smap_wf (m_listeners (userState w)) \<and>
     (\<forall>i \<in> fst ` set (m_listeners (userState w)). i < m_nextListenerId (userState w))"

lemma smap_put_last:
  "(\<And>j. j \<in> fst ` set m \<Longrightarrow> j < k) \<Longrightarrow> smap_put k v m = m @ [(k, v)]" for k :: "'k::linorder"
proof (induction m)
  case (Cons e m)
  have e: "fst e < k" and m: "smap_put k v m = m @ [(k, v)]" using Cons by auto
  then show ?case by (cases e) auto
qed simp

lemma AddEventListener_ok:
  assumes "listeners_ok w" and "fits_int (m_nextListenerId (userState w) + 1)"
  shows "\<exists>w'. AddEventListener l w = Ret (m_nextListenerId (userState w)) w' \<and> listeners_ok w' \<and>
    m_listeners (userState w') = m_listeners (userState w) @ [(m_nextListenerId (userState w), l)]"
proof -
  let ?m = "m_listeners (userState w)" and ?i = "m_nextListenerId (userState w)"
  have less: "\<And>j. j \<in> fst ` set ?m \<Longrightarrow> j < ?i" using assms(1) unfolding listeners_ok_def by blast
  then have "map_of ?m ?i = None" by (metis less_irrefl map_of_eq_None_iff)
  then have put: "smap_emplace ?i l ?m = ?m @ [(?i, l)]" using smap_put_last[OF less] by (simp add: smap_emplace_def)
  moreover have "smap_wf (smap_emplace ?i l ?m)" using assms(1) by (intro smap_wf_emplace) (simp add: listeners_ok_def)
  moreover have "\<forall>j \<in> fst ` set (?m @ [(?i, l)]). j < ?i + 1" using less by fastforce
  ultimately show ?thesis using assms(2)
    by (simp add: AddEventListener_def Let_def modify_host_def listeners_ok_def)
qed

lemma RemoveEventListener_ok:
  assumes "listeners_ok w" and "RemoveEventListener i w = Ret () w'"
  shows "listeners_ok w'" "EventListenerIsRegistered j w' \<longleftrightarrow> j \<noteq> i \<and> EventListenerIsRegistered j w"
proof -
  have m: "m_listeners (userState w') = smap_erase i (m_listeners (userState w))"
      "m_nextListenerId (userState w') = m_nextListenerId (userState w)"
    using assms(2) by (auto simp: RemoveEventListener_def modify_host_def)
  then show "listeners_ok w'"
    using assms(1) smap_wf_erase by (auto simp: listeners_ok_def) (auto simp: smap_erase_def)
  show "EventListenerIsRegistered j w' \<longleftrightarrow> j \<noteq> i \<and> EventListenerIsRegistered j w"
    by (simp add: EventListenerIsRegistered_def m)
qed

text \<open>
  Registering a listener returns a new identifier under which the listener is registered,
  after all the others; removing it restores the listeners there were, and the identifier is
  not given out again.
\<close>

theorem AddEventListener_roundtrip:
  assumes "listeners_ok w" and "fits_int (m_nextListenerId (userState w) + 1)"
  shows "\<exists>i v u. AddEventListener l w = Ret i v \<and> \<not> EventListenerIsRegistered i w \<and>
    EventListenerIsRegistered i v \<and> map snd (m_listeners (userState v)) = map snd (m_listeners (userState w)) @ [l] \<and>
    RemoveEventListener i v = Ret () u \<and> m_listeners (userState u) = m_listeners (userState w) \<and>
    listeners_ok u \<and> i < m_nextListenerId (userState u)"
proof -
  let ?m = "m_listeners (userState w)" and ?i = "m_nextListenerId (userState w)"
  obtain v where v: "AddEventListener l w = Ret ?i v" "listeners_ok v"
      "m_listeners (userState v) = ?m @ [(?i, l)]" using AddEventListener_ok[OF assms] by blast
  have less: "\<And>j. j \<in> fst ` set ?m \<Longrightarrow> j < ?i" using assms(1) unfolding listeners_ok_def by blast
  then have fresh: "?i \<notin> fst ` set ?m" by blast
  then have none: "map_of ?m ?i = None" by (simp add: map_of_eq_None_iff)
  have "filter (\<lambda>e. fst e \<noteq> ?i) ?m = ?m" using fresh by (force intro!: filter_True)
  then have gone: "smap_erase ?i (m_listeners (userState v)) = ?m" by (simp add: v(3) smap_erase_def)
  let ?u = "modify_host (\<lambda>h. h\<lparr>m_listeners := smap_erase ?i (m_listeners h)\<rparr>) v"
  have u: "RemoveEventListener ?i v = Ret () ?u" by (simp add: RemoveEventListener_def)
  moreover have "m_listeners (userState ?u) = ?m" using gone by (simp add: modify_host_def)
  moreover have "m_nextListenerId (userState ?u) = ?i + 1"
    using v(1) assms(2) by (auto simp: AddEventListener_def Let_def modify_host_def)
  ultimately show ?thesis
    using v none RemoveEventListener_ok(1)[OF v(2) u]
    by (intro exI[of _ ?i] exI[of _ v] exI[of _ ?u]) (simp add: EventListenerIsRegistered_def)
qed

section \<open>Telling the listeners\<close>

text \<open>A calm listener returns and changes nothing but its own state; a bad one is gone or throws.\<close>

definition calm :: "('e, 'u) host_code \<Rightarrow> (nat \<Rightarrow> notice \<Rightarrow> 'u \<Rightarrow> 'u) \<Rightarrow> nat \<Rightarrow> bool" where
  "calm C tell l \<longleftrightarrow> (\<forall>n w. h_listener C l n w = Ret () (modify_host (\<lambda>h. h\<lparr>ownState := tell l n (ownState h)\<rparr>) w))"

definition throws_std :: "('e, 'u) host_code \<Rightarrow> nat \<Rightarrow> bool" where
  "throws_std C l \<longleftrightarrow> (\<forall>n w. \<exists>e w'. h_listener C l n w = Throw e w' \<and> is_std_exception e)"

definition told :: "(nat \<Rightarrow> notice \<Rightarrow> 'u \<Rightarrow> 'u) \<Rightarrow> notice \<Rightarrow> nat list \<Rightarrow> ('e, 'u host) world \<Rightarrow> ('e, 'u host) world" where
  "told tell n ls = modify_host (\<lambda>h. h\<lparr>ownState := fold (\<lambda>l. tell l n) ls (ownState h)\<rparr>)"

lemma told_simps [simp]:
  "m_listeners (userState (told tell n ls w)) = m_listeners (userState w)"
  "liveListeners (userState (told tell n ls w)) = liveListeners (userState w)"
  "m_state (userState (told tell n ls w)) = m_state (userState w)"
  "ownState (userState (told tell n ls w)) = fold (\<lambda>l. tell l n) ls (ownState (userState w))"
  "told tell n [] w = w"
  by (simp_all add: told_def modify_host_def)

lemma told_Cons: "told tell n ls (told tell n [l] w) = told tell n (l # ls) w"
  by (simp add: told_def modify_host_def)

lemma next_listener_at:
  assumes "smap_wf (pre @ (i, l) # rest)"
  shows "next_listener i (pre @ (i, l) # rest) = first_listener rest"
proof -
  have "filter (\<lambda>e. i < fst e) pre = []" "filter (\<lambda>e. i < fst e) rest = rest"
    using assms by (auto simp: smap_wf_def sorted_wrt_append filter_empty_conv filter_id_conv)
  then show ?thesis by (simp add: next_listener_def)
qed

lemma map_of_at: "smap_wf (pre @ (i, l) # rest) \<Longrightarrow> map_of (pre @ (i, l) # rest) i = Some l"
  using smap_wf_distinct[of "pre @ (i, l) # rest"] by (auto simp: map_of_eq_None_iff map_add_Some_iff)

definition attentive :: "('e, 'u) host_code \<Rightarrow> (nat \<Rightarrow> notice \<Rightarrow> 'u \<Rightarrow> 'u) \<Rightarrow> (int \<times> nat) list \<Rightarrow> ('e, 'u host) world \<Rightarrow> bool" where
  "attentive C tell es w \<longleftrightarrow> (\<forall>l \<in> snd ` set es. calm C tell l \<and> l \<in> set (liveListeners (userState w)))"

lemma notify_step:
  assumes "m_listeners (userState w) = pre @ (i, l) # rest" and "smap_wf (pre @ (i, l) # rest)"
    and "calm C tell l" and "l \<in> set (liveListeners (userState w))"
  shows "notify_loop C n (Suc k) (Some i) w = notify_loop C n k (first_listener rest) (told tell n [l] w)"
proof -
  have m: "map_of (m_listeners (userState w)) i = Some l" by (simp only: assms(1) map_of_at[OF assms(2)])
  have t: "m_listeners (userState (told tell n [l] w)) = m_listeners (userState w)" by simp
  have h: "h_listener C l n w = Ret () (told tell n [l] w)" using assms(3) by (simp add: calm_def told_def)
  have "next_listener i (m_listeners (userState (told tell n [l] w))) = first_listener rest"
    by (simp only: t assms(1) next_listener_at[OF assms(2)])
  then show ?thesis using assms(4) m t h by (simp add: Let_def)
qed

lemma notify_prefix:
  "m_listeners (userState w) = pre @ es @ rest \<Longrightarrow> smap_wf (pre @ es @ rest) \<Longrightarrow> attentive C tell es w \<Longrightarrow>
    notify_loop C n (length es + k) (first_listener (es @ rest)) w =
    notify_loop C n k (first_listener rest) (told tell n (map snd es) w)"
proof (induction es arbitrary: pre w)
  case (Cons e es)
  obtain i l where e: "e = (i, l)" by (cases e)
  have "notify_loop C n (Suc (length es + k)) (Some i) w =
      notify_loop C n (length es + k) (first_listener (es @ rest)) (told tell n [l] w)"
    by (rule notify_step[of _ pre]) (use Cons.prems e in \<open>auto simp: attentive_def\<close>)
  also have "\<dots> = notify_loop C n k (first_listener rest) (told tell n (map snd es) (told tell n [l] w))"
    by (rule Cons.IH[of _ "pre @ [e]"]) (use Cons.prems in \<open>auto simp: attentive_def\<close>)
  finally show ?case by (simp add: e told_Cons first_listener_def)
qed simp

lemma notify_all:
  assumes "smap_wf (m_listeners (userState w))" and "attentive C tell (m_listeners (userState w)) w"
    and "length (m_listeners (userState w)) < k"
  shows "notify_loop C n k (first_listener (m_listeners (userState w))) w =
    Ret () (told tell n (map snd (m_listeners (userState w))) w)"
proof -
  obtain j where j: "k = length (m_listeners (userState w)) + Suc j" using assms(3) less_iff_Suc_add by auto
  show ?thesis
    using notify_prefix[of w "[]" "m_listeners (userState w)" "[]" C tell n "Suc j"] assms
    by (simp add: j first_listener_def)
qed

text \<open>
  C26. A change of state. If every listener exists and returns without touching the host, the call returns in the new
  state, and each listener has been told of the change exactly once, in the order of
  registration; a change to the state the host is in tells nobody.
\<close>

theorem SetState_notifies:
  fixes w :: "('e, 'u host) world"
  assumes "smap_wf (m_listeners (userState w))" and "attentive C tell (m_listeners (userState w)) w"
    and "length (m_listeners (userState w)) < n"
  shows "SetState C n s w = Ret () (store_state s
    (told tell (NotifyOfStateChange (GetState w) s)
      (if GetState w = s then [] else map snd (m_listeners (userState w))) w))"
proof -
  let ?w = "store_state s w"
  have same: "m_listeners (userState ?w) = m_listeners (userState w)"
      "attentive C tell (m_listeners (userState w)) ?w"
    using assms(2) by (simp_all add: store_state_def modify_host_def attentive_def)
  have "notify_loop C (NotifyOfStateChange (GetState w) s) n (first_listener (m_listeners (userState w))) ?w =
      Ret () (told tell (NotifyOfStateChange (GetState w) s) (map snd (m_listeners (userState w))) ?w)"
    using notify_all[of ?w C tell n "NotifyOfStateChange (GetState w) s"] assms same by simp
  moreover have "told tell n ls (store_state s v) = store_state s (told tell n ls v)"
    for n ls and v :: "('e, 'u host) world" by (simp add: told_def store_state_def modify_host_def)
  ultimately show ?thesis
    by (simp add: SetState_def Let_def NotifyListenersOfStateChange_def same(1))
qed

definition ready_host :: "(nat, nat list host) world" where
  "ready_host = dstate.extend (Director_new (\<lambda>_. Some (1000, 0)) [])
     \<lparr>ports = \<lambda>_. None, accessors = [8 \<mapsto> Accessor_new ''Host'' (Composite (plain_composite True []))], nextPort = 0,
      userState = \<lparr>m_state = ReadyToRun, m_listeners = [(0, 4), (2, 5)], m_nextListenerId = 3, liveListeners = [4, 5],
        hostThreads = 1, ownState = []\<rparr>\<rparr>"

lemma ready_host_simps [simp]:
  "userState ready_host = \<lparr>m_state = ReadyToRun, m_listeners = [(0, 4), (2, 5)], m_nextListenerId = 3,
     liveListeners = [4, 5], hostThreads = 1, ownState = []\<rparr>"
  "smap_wf [(0::int, 4::nat), (2, 5)]"
  by (simp_all add: ready_host_def dstate.extend_def smap_wf_def)

lemma AddEventListener_roundtrip_witness:
  "\<exists>v. AddEventListener 9 ready_host = Ret 3 v \<and> map snd (m_listeners (userState v)) = [4, 5, 9]"
proof -
  have "listeners_ok ready_host" "fits_int (m_nextListenerId (userState ready_host) + 1)"
    by (simp_all add: listeners_ok_def fits_int_def)
  from AddEventListener_roundtrip[OF this, of 9] show ?thesis
    by (auto simp: AddEventListener_def Let_def fits_int_def)
qed

text \<open>Listeners that note who was told, and how.\<close>

definition noting_code :: "('e, nat list) host_code" where
  "noting_code = \<lparr>h_user = \<lparr>u_initialize = \<lambda>_. Ret (), u_fire = \<lambda>_. Ret (), u_handler = \<lambda>_ _. Ret (), u_callback = \<lambda>i. Throw (UserOther i)\<rparr>,
     h_listener = \<lambda>l n w. Ret () (modify_host (\<lambda>h. h\<lparr>ownState := ownState h @ [l]\<rparr>) w), h_additionalSetup = Ret ()\<rparr>"

lemma noting_calm: "calm noting_code (\<lambda>l n xs. xs @ [l]) l"
  by (simp add: calm_def noting_code_def)

lemma noting_attentive: "snd ` set es \<subseteq> set (liveListeners (userState w)) \<Longrightarrow> attentive noting_code (\<lambda>l n xs. xs @ [l]) es w"
  using noting_calm by (auto simp: attentive_def)

lemma SetState_notifies_witness:
  "\<exists>w'. SetState noting_code 3 Exiting ready_host = Ret () w' \<and> ownState (userState w') = [4, 5] \<and> GetState w' = Exiting"
proof -
  have a: "attentive noting_code (\<lambda>l n xs. xs @ [l]) (m_listeners (userState ready_host)) ready_host"
    by (rule noting_attentive) simp
  from SetState_notifies[OF _ a, of 3 Exiting] show ?thesis by (simp add: GetState_def store_state_def modify_host_def told_def)
qed

text \<open>
  C37. One listener that is gone, or that throws a \<open>std::exception\<close>, and no change of the host's
  state can be announced any more: the entry is erased while the loop stands on it, and the loop
  goes on from the invalid iterator, which is undefined behaviour.
\<close>

theorem bad_listener_is_fatal:
  fixes w :: "('e, 'u host) world"
  assumes "m_listeners (userState w) = good @ (i, l) # rest" and "smap_wf (m_listeners (userState w))"
    and "attentive C tell good w" and "l \<notin> set (liveListeners (userState w)) \<or> throws_std C l"
    and "GetState w \<noteq> s" and "length good < n"
  shows "\<exists>w'. SetState C n s w = Throw (Fatal DanglingPointer) w'"
proof -
  let ?w = "store_state s w" and ?n = "NotifyOfStateChange (GetState w) s"
  let ?v = "told tell ?n (map snd good) ?w"
  obtain j where j: "n = length good + Suc j" using assms(6) less_iff_Suc_add by auto
  have same: "userState ?v = (userState w)\<lparr>m_state := s, ownState := ownState (userState ?v)\<rparr>"
    by (simp add: told_def store_state_def modify_host_def)
  have "attentive C tell good ?w" using assms(3) by (simp add: attentive_def store_state_def modify_host_def)
  then have "notify_loop C ?n (length good + Suc j) (first_listener (m_listeners (userState w))) ?w =
      notify_loop C ?n (Suc j) (first_listener ((i, l) # rest)) ?v"
    using notify_prefix[of ?w "[]" good "(i, l) # rest" C tell ?n "Suc j"] assms(1,2)
    by (simp add: store_state_def modify_host_def)
  moreover have "\<exists>w'. notify_loop C ?n (Suc j) (Some i) ?v = Throw (Fatal DanglingPointer) w'"
  proof -
    have "m_listeners (userState ?v) = good @ (i, l) # rest" "liveListeners (userState ?v) = liveListeners (userState w)"
      by (subst same, simp add: assms(1))+
    moreover have "map_of (good @ (i, l) # rest) i = Some l" using map_of_at assms(1,2) by metis
    moreover obtain e u where "throws_std C l \<Longrightarrow> h_listener C l ?n ?v = Throw e u \<and> is_std_exception e"
      unfolding throws_std_def by blast
    ultimately show ?thesis using assms(4) by (auto simp: Let_def)
  qed
  moreover have "m_listeners (userState ?w) = m_listeners (userState w)" by (simp add: store_state_def modify_host_def)
  ultimately show ?thesis
    using assms(5) by (simp add: SetState_def Let_def NotifyListenersOfStateChange_def j first_listener_def)
qed

lemma bad_listener_is_fatal_witness:
  "\<exists>w'. SetState noting_code 3 Exiting (modify_host (\<lambda>h. h\<lparr>liveListeners := [4]\<rparr>) ready_host) = Throw (Fatal DanglingPointer) w'"
proof -
  let ?w = "modify_host (\<lambda>h. h\<lparr>liveListeners := [4]\<rparr>) ready_host"
  have u: "userState ?w = (userState ready_host)\<lparr>liveListeners := [4]\<rparr>" by (simp add: modify_host_def)
  have "m_listeners (userState ?w) = [(0, 4)] @ (2, 5) # []" "smap_wf (m_listeners (userState ?w))"
      "5 \<notin> set (liveListeners (userState ?w)) \<or> throws_std noting_code 5" "GetState ?w \<noteq> Exiting"
    by (simp_all add: u GetState_def)
  moreover have "attentive noting_code (\<lambda>l n xs. xs @ [l]) [(0, 4)] ?w" by (rule noting_attentive) (simp add: u)
  ultimately show ?thesis using bad_listener_is_fatal[of ?w "[(0, 4)]" 2 5 "[]" noting_code _ Exiting 3] by simp
qed

section \<open>Exceptions of the model\<close>

abbreviation director_run :: "('e, 'u) host_code \<Rightarrow> bounds \<Rightarrow> int \<Rightarrow> (unit, 'e, 'u) host_op" where
  "director_run C b k \<equiv> Execute (run_callback (h_user C) (b_levels b) (b_ports b) (b_tree b))
     (b_callbacks b) (b_internal b) (b_rounds b) k"

text \<open>The state in which the director is entered.\<close>

definition entered :: "(nat \<Rightarrow> notice \<Rightarrow> 'u \<Rightarrow> 'u) \<Rightarrow> ('e, 'u host) world \<Rightarrow> ('e, 'u host) world" where
  "entered tell w = store_state Running
     (told tell (NotifyOfStateChange (GetState w) Running) (map snd (m_listeners (userState w))) w)"

lemma entered_simps [simp]:
  "GetState (entered tell w) = Running" "m_listeners (userState (entered tell w)) = m_listeners (userState w)"
  "liveListeners (userState (entered tell w)) = liveListeners (userState w)"
  "ownState (userState (entered tell w)) = ownState (userState
     (told tell (NotifyOfStateChange (GetState w) Running) (map snd (m_listeners (userState w))) w))"
  by (simp_all add: entered_def store_state_def GetState_def modify_host_def told_def)

lemma Iterate_enters:
  assumes "GetState w = ReadyToRun \<or> GetState w = Paused" and "smap_wf (m_listeners (userState w))"
    and "attentive C tell (m_listeners (userState w)) w" and "length (m_listeners (userState w)) < b_listeners b"
  shows "Iterate C b k w = (case director_run C b k (entered tell w) of
         Diverge \<Rightarrow> Diverge
       | Ret _ w \<Rightarrow> SetState C (b_listeners b) Paused w
       | Throw e w \<Rightarrow>
           if is_std_exception e
           then run_bind (NotifyListenersOfException C (b_listeners b) e (store_state Corrupted w))
                  (\<lambda>_. SetState C (b_listeners b) Paused)
           else Throw e w)"
proof -
  have v: "ValidateHostCanRun w = Ret () w" "GetState w \<noteq> Running" using assms(1) by (auto simp: ValidateHostCanRun_def)
  have s: "SetState C (b_listeners b) Running w = Ret () (entered tell w)"
    using SetState_notifies[OF assms(2-4), of Running] v(2) by (simp add: entered_def)
  show ?thesis unfolding Iterate_def execute_director_def v(1) run_bind.simps s ..
qed

text \<open>
  C35. Let the director's run throw a \<open>std::exception\<close>, whatever user code has done to its own
  state before, as long as it did not register, remove or destroy listeners; and let every
  listener exist and return without touching the host. Then \<open>Iterate\<close> returns as if nothing had
  happened: the listeners are told of the exception and then of a change from corrupted to paused,
  the host is paused, and it can be run again.
\<close>

theorem Iterate_hides_corruption:
  fixes w :: "('e, 'u host) world"
  assumes "GetState w = ReadyToRun \<or> GetState w = Paused" and "smap_wf (m_listeners (userState w))"
    and "attentive C tell (m_listeners (userState w)) w" and "length (m_listeners (userState w)) < b_listeners b"
    and "director_run C b k (entered tell w) = Throw e v" and "is_std_exception e"
    and "m_listeners (userState v) = m_listeners (userState w)"
    and "liveListeners (userState v) = liveListeners (userState w)"
  shows "\<exists>w'. Iterate C b k w = Ret () w' \<and> GetState w' = Paused \<and> ValidateHostCanRun w' = Ret () w' \<and>
    (let ls = map snd (m_listeners (userState w)) in
     ownState (userState w') = fold (\<lambda>l. tell l (NotifyOfStateChange Corrupted Paused)) ls
       (fold (\<lambda>l. tell l (NotifyOfException e)) ls (ownState (userState v))))"
proof -
  let ?ls = "map snd (m_listeners (userState w))"
  let ?u = "told tell (NotifyOfException e) ?ls (store_state Corrupted v)"
  have c: "m_listeners (userState (store_state s v)) = m_listeners (userState w)"
      "liveListeners (userState (store_state s v)) = liveListeners (userState w)"
      "ownState (userState (store_state s v)) = ownState (userState v)" for s
    using assms(7,8) by (simp_all add: store_state_def modify_host_def)
  have att: "attentive C tell (m_listeners (userState w)) (store_state Corrupted v)"
      "attentive C tell (m_listeners (userState w)) ?u"
    using assms(3) by (simp_all add: attentive_def c)
  have 1: "NotifyListenersOfException C (b_listeners b) e (store_state Corrupted v) = Ret () ?u"
    unfolding NotifyListenersOfException_def
    using notify_all[of "store_state Corrupted v" C tell "b_listeners b" "NotifyOfException e"] assms(2,4) att by (simp add: c)
  have g: "GetState ?u = Corrupted" by (simp add: GetState_def store_state_def modify_host_def)
  have 2: "SetState C (b_listeners b) Paused ?u = Ret () (store_state Paused
      (told tell (NotifyOfStateChange Corrupted Paused) ?ls ?u))"
    using SetState_notifies[of ?u C tell "b_listeners b" Paused] assms(2,4) att g by (simp add: c)
  have it: "Iterate C b k w = Ret () (store_state Paused (told tell (NotifyOfStateChange Corrupted Paused) ?ls ?u))"
    using Iterate_enters[OF assms(1-4), of k] assms(5,6) 1 2 by simp
  have own: "ownState (userState (store_state Paused t)) = ownState (userState t)"
      "GetState (store_state Paused t) = Paused" for t :: "('e, 'u host) world"
    by (simp_all add: store_state_def modify_host_def GetState_def)
  show ?thesis
    by (rule exI[of _ "store_state Paused (told tell (NotifyOfStateChange Corrupted Paused) ?ls ?u)"])
      (simp add: it own c Let_def ValidateHostCanRun_def)
qed

definition five_bounds :: bounds where
  "five_bounds = \<lparr>b_levels = 5, b_ports = 5, b_tree = 5, b_callbacks = 5, b_internal = 5, b_rounds = 5, b_listeners = 5\<rparr>"

definition doomed_host :: "(nat, nat list host) world" where
  "doomed_host = ready_host\<lparr>m_nextCallbackId := 1, m_callbackQueue := [0], m_nextScheduledExecutionTime := 1000000,
     m_scheduledCallbacks := [(0, new_callback (UserCallback 6) 0 False 1 1000000)]\<rparr>"

text \<open>Here a callback of the model notes its number in the program's state and then throws.\<close>

definition failing_code :: "('e, nat list) host_code" where
  "failing_code = noting_code\<lparr>h_user := \<lparr>u_initialize = \<lambda>_. Ret (), u_fire = \<lambda>_. Ret (), u_handler = \<lambda>_ _. Ret (),
     u_callback = \<lambda>i w. Throw (UserStd i) (modify_host (\<lambda>h. h\<lparr>ownState := ownState h @ [i]\<rparr>) w)\<rparr>\<rparr>"

lemma failing_attentive: "snd ` set es \<subseteq> set (liveListeners (userState w)) \<Longrightarrow> attentive failing_code (\<lambda>l n xs. xs @ [l]) es w"
  using noting_attentive[of es w] by (simp add: attentive_def calm_def failing_code_def)

lemma Iterate_hides_corruption_witness:
  "\<exists>w'. Iterate failing_code five_bounds 1 doomed_host = Ret () w' \<and>
     GetState w' = Paused \<and> ownState (userState w') = [4, 5, 6, 4, 5, 4, 5]"
proof -
  let ?w = "doomed_host" and ?t = "\<lambda>l n xs. xs @ [l]"
  have s: "userState ?w = userState ready_host" by (simp add: doomed_host_def)
  have a: "attentive failing_code ?t (m_listeners (userState ?w)) ?w" by (rule failing_attentive) (simp add: s)
  have "\<exists>v. director_run failing_code five_bounds 1 (entered ?t ?w) = Throw (UserStd 6) v \<and>
      m_listeners (userState v) = m_listeners (userState ?w) \<and>
      liveListeners (userState v) = liveListeners (userState ?w) \<and> ownState (userState v) = [4, 5, 6]"
    by (simp add: Execute_def entered_def store_state_def modify_host_def told_def doomed_host_def ready_host_def
        dstate.extend_def Director_new_def Let_def ScheduleNextExecution_def PosixUtcInMilliseconds_def
        timespec_to_milliseconds_def fits_llong_def trunc_div_def five_bounds_def eval_nat_numeral
        token_canceled_def future_get_def find_activation_def ExecuteInternal_def sleep_until_due_def NeedsReset_def ExecuteCallbacks_def
        GetNextQueuedExecutionTime_def new_callback_def execute_front_def call_callback_def RemoveScheduledCallbackFromMap_def failing_code_def noting_code_def
        set_promise_def take_result_def IsCanceled_def new_token_def)
  then obtain v where v: "director_run failing_code five_bounds 1 (entered ?t ?w) = Throw (UserStd 6) v"
      "m_listeners (userState v) = m_listeners (userState ?w)"
      "liveListeners (userState v) = liveListeners (userState ?w)" "ownState (userState v) = [4, 5, 6]" by blast
  have "GetState ?w = ReadyToRun" by (simp add: GetState_def s)
  then show ?thesis
    using Iterate_hides_corruption[OF _ _ a _ v(1) _ v(2,3)] v(4) by (auto simp: five_bounds_def Let_def s)
qed

text \<open>
  When the model throws anything else, \<open>Iterate\<close> passes it on and the host is left running with
  nobody running it: every later attempt to run it, from this thread or another one, is refused.
\<close>

theorem foreign_exception_leaves_running:
  fixes w :: "('e, 'u host) world"
  assumes "GetState w = ReadyToRun \<or> GetState w = Paused" and "smap_wf (m_listeners (userState w))"
    and "attentive C tell (m_listeners (userState w)) w" and "length (m_listeners (userState w)) < b_listeners b"
    and "director_run C b k (entered tell w) = Throw e v" and "\<not> is_std_exception e"
    and "userState v = userState (entered tell w)"
  shows "Iterate C b k w = Throw e v \<and> GetState v = Running \<and> Iterate C b j v = Throw HostAlreadyRunning v \<and>
    RunOnCurrentThread C b v = Throw HostAlreadyRunning v \<and> Run v = Throw HostAlreadyRunning v \<and>
    Setup C b h v = Throw HostDoesNotNeedSetup v"
proof -
  have s: "GetState v = Running" using assms(7) entered_simps(1)[of tell w] by (simp add: GetState_def)
  moreover have "Iterate C b k w = Throw e v" using Iterate_enters[OF assms(1-4), of k] assms(5,6) by simp
  ultimately show ?thesis
    by (simp add: Iterate_def RunOnCurrentThread_def Run_def Setup_def ValidateHostCanRun_def)
qed

lemma foreign_exception_leaves_running_witness:
  "\<exists>v. Iterate noting_code five_bounds 1 doomed_host = Throw (UserOther 6) v \<and> GetState v = Running"
proof -
  let ?w = "doomed_host" and ?t = "\<lambda>l n xs. xs @ [l]"
  have s: "userState ?w = userState ready_host" by (simp add: doomed_host_def)
  have a: "attentive noting_code ?t (m_listeners (userState ?w)) ?w" by (rule noting_attentive) (simp add: s)
  have "\<exists>v. director_run noting_code five_bounds 1 (entered ?t ?w) = Throw (UserOther 6) v \<and>
      userState v = userState (entered ?t ?w)"
    by (simp add: Execute_def entered_def store_state_def modify_host_def told_def doomed_host_def ready_host_def
        dstate.extend_def Director_new_def Let_def ScheduleNextExecution_def PosixUtcInMilliseconds_def
        timespec_to_milliseconds_def fits_llong_def trunc_div_def five_bounds_def eval_nat_numeral
        token_canceled_def future_get_def find_activation_def ExecuteInternal_def sleep_until_due_def NeedsReset_def ExecuteCallbacks_def
        GetNextQueuedExecutionTime_def new_callback_def execute_front_def call_callback_def noting_code_def
        set_promise_def take_result_def IsCanceled_def new_token_def)
  then obtain v where v: "director_run noting_code five_bounds 1 (entered ?t ?w) = Throw (UserOther 6) v"
      "userState v = userState (entered ?t ?w)" by blast
  have "GetState ?w = ReadyToRun" by (simp add: GetState_def s)
  then show ?thesis
    using foreign_exception_leaves_running[OF _ _ a _ v(1) _ v(2)] by (simp add: five_bounds_def s)
qed

end
