(* ===== verification/Hypervisor.thy ===== *)
theory Hypervisor
  imports HostListeners "HOL-Library.Multiset"
begin

text \<open>
  \<open>src/src/HostHypervisorImpl.h\<close> and \<open>HostHypervisorImpl.cpp\<close>: a map of hosts, each with its own
  model, and the methods that run on all of them. \<open>std::async\<close> starts one task per host; the
  order in which the tasks run is a parameter, as is the task that could not be started, if
  there is one. The exception of a task stays in its future.
\<close>

section \<open>State and operations\<close>

record ('e, 'u) managed_host =
  mh_code :: "('e, 'u) host_code"
  mh_accessor :: nat
  mh_model :: "('e, 'u host) world"

record ('e, 'u) hypervisor =
  m_nextHostId :: int
  m_hosts :: "(int, ('e, 'u) managed_host) smap"

type_synonym ('a, 'e, 'u) hypervisor_op = "('e, 'u) hypervisor \<Rightarrow> ('a, ('e, 'u) hypervisor) run"

definition Hypervisor_new :: "('e, 'u) hypervisor" where
  "Hypervisor_new = \<lparr>m_nextHostId = 0, m_hosts = []\<rparr>"

text \<open>The increment of an atomic \<open>int\<close> wraps around.\<close>

definition wrap_int :: "int \<Rightarrow> int" where
  "wrap_int x = (x - INT_MIN) mod 4294967296 + INT_MIN"

text \<open>
  A host that leaves the map is destroyed; \<open>n\<close> bounds the steps of a destruction. \<open>AddHost\<close> owns
  the host it is given, so a host whose number is taken (after the counter wrapped) goes too.
\<close>

definition destroy_managed :: "nat \<Rightarrow> ('e, 'u) managed_host \<Rightarrow> (unit, 'e, 'u) hypervisor_op" where
  "destroy_managed n m hv =
     (case Host_destroy n (mh_accessor m) (mh_model m) of
        Ret _ _ \<Rightarrow> Ret () hv
      | Throw e _ \<Rightarrow> Throw e hv
      | Diverge \<Rightarrow> Diverge)"

definition AddHost :: "nat \<Rightarrow> ('e, 'u) managed_host \<Rightarrow> (int, 'e, 'u) hypervisor_op" where
  "AddHost n m hv =
     (let hostId = m_nextHostId hv;
          hv1 = hv\<lparr>m_nextHostId := wrap_int (hostId + 1), m_hosts := smap_emplace hostId m (m_hosts hv)\<rparr>
      in run_bind (if map_of (m_hosts hv) hostId = None then Ret () hv1 else destroy_managed n m hv1)
           (\<lambda>_. Ret hostId))"

definition put_model :: "int \<Rightarrow> ('e, 'u host) world \<Rightarrow> ('e, 'u) hypervisor \<Rightarrow> ('e, 'u) hypervisor" where
  "put_model hostId w hv = hv\<lparr>m_hosts :=
     map (\<lambda>e. if fst e = hostId then (hostId, (snd e)\<lparr>mh_model := w\<rparr>) else e) (m_hosts hv)\<rparr>"

text \<open>A call of the host that \<open>m_hosts.at(hostId)\<close> finds.\<close>

definition on_host :: "int \<Rightarrow> (('e, 'u) managed_host \<Rightarrow> ('a, 'e, 'u) host_op) \<Rightarrow> ('a, 'e, 'u) hypervisor_op" where
  "on_host hostId f hv =
     (case map_of (m_hosts hv) hostId of
        None \<Rightarrow> Throw OutOfRange hv
      | Some m \<Rightarrow> (case f m (mh_model m) of
          Ret x w \<Rightarrow> Ret x (put_model hostId w hv)
        | Throw e w \<Rightarrow> Throw e (put_model hostId w hv)
        | Diverge \<Rightarrow> Diverge))"

definition RemoveHost :: "nat \<Rightarrow> int \<Rightarrow> (unit, 'e, 'u) hypervisor_op" where
  "RemoveHost n hostId hv =
     (case map_of (m_hosts hv) hostId of
        None \<Rightarrow> Ret () hv
      | Some m \<Rightarrow> destroy_managed n m (hv\<lparr>m_hosts := smap_erase hostId (m_hosts hv)\<rparr>))"

definition RemoveAllHosts :: "nat \<Rightarrow> (unit, 'e, 'u) hypervisor_op" where
  "RemoveAllHosts n hv = run_each (RemoveHost n) (map fst (m_hosts hv)) hv"

definition GetHostName :: "int \<Rightarrow> (string, 'e, 'u) hypervisor_op" where
  "GetHostName hostId = on_host hostId (\<lambda>m. with_accessor (mh_accessor m) (\<lambda>x. Ret (m_name x)))"

definition GetHostState :: "int \<Rightarrow> (host_state, 'e, 'u) hypervisor_op" where
  "GetHostState hostId = on_host hostId (\<lambda>m w. Ret (GetState w) w)"

definition SetupHost :: "bounds \<Rightarrow> int \<Rightarrow> (unit, 'e, 'u) hypervisor_op" where
  "SetupHost b hostId = on_host hostId (\<lambda>m. Setup (mh_code m) b (mh_accessor m))"

definition PauseHost :: "bounds \<Rightarrow> int \<Rightarrow> (unit, 'e, 'u) hypervisor_op" where
  "PauseHost b hostId = on_host hostId (\<lambda>m. Pause (mh_code m) b)"

definition RunHost :: "int \<Rightarrow> (unit, 'e, 'u) hypervisor_op" where
  "RunHost hostId = on_host hostId (\<lambda>m. Run)"

section \<open>All hosts\<close>

record async =
  task_order :: "int list \<Rightarrow> int list"  \<comment> \<open>the order in which the tasks run\<close>
  refused :: "nat option"               \<comment> \<open>the index of the task that could not be started\<close>

definition fair :: "async \<Rightarrow> bool" where
  "fair A \<longleftrightarrow> (\<forall>ids. mset (task_order A ids) = mset ids)"

text \<open>The tasks, one after the other; what a task throws stays in its future.\<close>

fun run_tasks :: "(int \<Rightarrow> (unit, 'e, 'u) hypervisor_op) \<Rightarrow> int list \<Rightarrow> (unit, 'e, 'u) hypervisor_op" where
  "run_tasks task [] hv = Ret () hv"
| "run_tasks task (i # is) hv =
     (case task i hv of
        Ret _ hv1 \<Rightarrow> run_tasks task is hv1
      | Throw e hv1 \<Rightarrow> if is_catchable e then run_tasks task is hv1 else Throw e hv1
      | Diverge \<Rightarrow> Diverge)"

definition launched :: "async \<Rightarrow> int list \<Rightarrow> int list" where
  "launched A ids = task_order A (case refused A of None \<Rightarrow> ids | Some k \<Rightarrow> take k ids)"

definition RunMethodOnAllHosts ::
  "async \<Rightarrow> (int \<Rightarrow> (unit, 'e, 'u) hypervisor_op) \<Rightarrow> (unit, 'e, 'u) hypervisor_op" where
  "RunMethodOnAllHosts A task hv =
     run_bind (run_tasks task (launched A (map fst (m_hosts hv))) hv) (\<lambda>_ hv1.
       case refused A of
         Some k \<Rightarrow> if k < length (m_hosts hv) then Throw SystemError hv1 else Ret () hv1
       | None \<Rightarrow> Ret () hv1)"

text \<open>The results are entered in the map when a task has its result.\<close>

fun run_result_tasks ::
  "(int \<Rightarrow> ('a, 'e, 'u) hypervisor_op) \<Rightarrow> int list \<Rightarrow> (int, 'a) smap \<Rightarrow> ((int, 'a) smap, 'e, 'u) hypervisor_op" where
  "run_result_tasks task [] results hv = Ret results hv"
| "run_result_tasks task (i # is) results hv =
     (case task i hv of
        Ret x hv1 \<Rightarrow> run_result_tasks task is (smap_emplace i x results) hv1
      | Throw e hv1 \<Rightarrow> if is_catchable e then run_result_tasks task is results hv1 else Throw e hv1
      | Diverge \<Rightarrow> Diverge)"

definition RunMethodOnAllHostsWithResult ::
  "async \<Rightarrow> (int \<Rightarrow> ('a, 'e, 'u) hypervisor_op) \<Rightarrow> ((int, 'a) smap, 'e, 'u) hypervisor_op" where
  "RunMethodOnAllHostsWithResult A task hv =
     run_bind (run_result_tasks task (launched A (map fst (m_hosts hv))) [] hv) (\<lambda>results hv1.
       case refused A of
         Some k \<Rightarrow> if k < length (m_hosts hv) then Throw SystemError hv1 else Ret results hv1
       | None \<Rightarrow> Ret results hv1)"

definition GetHostNames :: "async \<Rightarrow> ((int, string) smap, 'e, 'u) hypervisor_op" where
  "GetHostNames A = RunMethodOnAllHostsWithResult A GetHostName"

definition GetHostStates :: "async \<Rightarrow> ((int, host_state) smap, 'e, 'u) hypervisor_op" where
  "GetHostStates A = RunMethodOnAllHostsWithResult A GetHostState"

definition SetupHosts :: "async \<Rightarrow> bounds \<Rightarrow> (unit, 'e, 'u) hypervisor_op" where
  "SetupHosts A b = RunMethodOnAllHosts A (SetupHost b)"

definition PauseHosts :: "async \<Rightarrow> bounds \<Rightarrow> (unit, 'e, 'u) hypervisor_op" where
  "PauseHosts A b = RunMethodOnAllHosts A (PauseHost b)"

definition RunHosts :: "async \<Rightarrow> (unit, 'e, 'u) hypervisor_op" where
  "RunHosts A = RunMethodOnAllHosts A RunHost"

text \<open>The first host runs on the calling thread, after the others were started.\<close>

definition RunHostsOnCurrentThread :: "bounds \<Rightarrow> (unit, 'e, 'u) hypervisor_op" where
  "RunHostsOnCurrentThread b hv =
     (case m_hosts hv of
        [] \<Rightarrow> Throw (Fatal EmptyContainer) hv
      | (first, _) # others \<Rightarrow>
          run_bind (run_each RunHost (map fst others) hv)
            (\<lambda>_. on_host first (\<lambda>m. RunOnCurrentThread (mh_code m) b)))"

section \<open>Every task works on its own host\<close>

text \<open>The effect of a task on its host, and of all tasks on all hosts.\<close>

definition model_after :: "(('e, 'u) managed_host \<Rightarrow> ('a, 'e, 'u) host_op) \<Rightarrow> ('e, 'u) managed_host \<Rightarrow> ('e, 'u) managed_host" where
  "model_after f m = (case run_state (f m (mh_model m)) of None \<Rightarrow> m | Some w \<Rightarrow> m\<lparr>mh_model := w\<rparr>)"

definition survives :: "('a, 's) run \<Rightarrow> bool" where
  "survives r \<longleftrightarrow> (case r of Ret _ _ \<Rightarrow> True | Throw e _ \<Rightarrow> is_catchable e | Diverge \<Rightarrow> False)"

definition visited :: "(('e, 'u) managed_host \<Rightarrow> ('a, 'e, 'u) host_op) \<Rightarrow> int set \<Rightarrow>
    (int, ('e, 'u) managed_host) smap \<Rightarrow> (int, ('e, 'u) managed_host) smap" where
  "visited f ids hosts = map (\<lambda>(i, m). (i, if i \<in> ids then model_after f m else m)) hosts"

lemma map_of_visited: "map_of (visited f ids hosts) i = map_option (\<lambda>m. if i \<in> ids then model_after f m else m) (map_of hosts i)"
  by (induction hosts) (auto simp: visited_def)

lemma put_visited:
  assumes "smap_wf hosts" and "map_of hosts i = Some m" and "run_state (f m (mh_model m)) = Some w" and "i \<notin> ids"
    and "m_hosts hv = visited f ids hosts"
  shows "put_model i w hv = hv\<lparr>m_hosts := visited f (insert i ids) hosts\<rparr>"
proof -
  have "e \<in> set hosts \<Longrightarrow> fst e = i \<Longrightarrow> snd e = m" for e
    using assms(1,2) smap_wf_distinct map_of_is_SomeI by (metis option.inject surjective_pairing)
  then have "map (\<lambda>e. if fst e = i then (i, (snd e)\<lparr>mh_model := w\<rparr>) else e) (visited f ids hosts) =
      visited f (insert i ids) hosts"
    using assms(3,4) by (fastforce simp: visited_def model_after_def)
  then show ?thesis by (simp add: put_model_def assms(5))
qed

lemma run_tasks_visit:
  assumes "smap_wf hosts" and "\<And>m. m \<in> snd ` set hosts \<Longrightarrow> survives (f m (mh_model m))"
  shows "distinct todo \<Longrightarrow> set todo \<subseteq> fst ` set hosts \<Longrightarrow> set todo \<inter> ids = {} \<Longrightarrow> m_hosts hv = visited f ids hosts \<Longrightarrow>
    run_tasks (\<lambda>i. on_host i f) todo hv = Ret () (hv\<lparr>m_hosts := visited f (set todo \<union> ids) hosts\<rparr>)"
proof (induction todo arbitrary: hv ids)
  case Nil
  then show ?case by simp
next
  case (Cons i js)
  from Cons.prems(2) obtain m where m: "(i, m) \<in> set hosts" by auto
  then have look: "map_of hosts i = Some m" using smap_wf_distinct[OF assms(1)] by simp
  have at: "map_of (m_hosts hv) i = Some m" using Cons.prems(3,4) look by (simp add: map_of_visited)
  have s: "survives (f m (mh_model m))" using assms(2) m by force
  then obtain w where w: "run_state (f m (mh_model m)) = Some w" by (cases "f m (mh_model m)") (auto simp: survives_def)
  have put: "put_model i w hv = hv\<lparr>m_hosts := visited f (insert i ids) hosts\<rparr>"
    by (rule put_visited[where f = f, OF assms(1) look w]) (use Cons.prems in auto)
  have "run_tasks (\<lambda>i. on_host i f) (i # js) hv = run_tasks (\<lambda>i. on_host i f) js (put_model i w hv)"
    using s w at by (cases "f m (mh_model m)") (auto simp: survives_def on_host_def)
  also have "\<dots> = Ret () ((put_model i w hv)\<lparr>m_hosts := visited f (set js \<union> insert i ids) hosts\<rparr>)"
    by (rule Cons.IH) (use Cons.prems put in auto)
  finally show ?case by (simp add: put)
qed

lemma visited_all: "fst ` set hosts \<subseteq> ids \<Longrightarrow> visited f ids hosts = map (\<lambda>(i, m). (i, model_after f m)) hosts"
  by (force simp: visited_def)

lemma visited_none: "visited f {} hosts = hosts"
  by (induction hosts) (auto simp: visited_def)

lemma fair_ids:
  assumes "fair A" and "refused A = None" and "smap_wf hosts"
  shows "distinct (launched A (map fst hosts))" "set (launched A (map fst hosts)) = fst ` set hosts"
proof -
  have m: "mset (launched A (map fst hosts)) = mset (map fst hosts)" using assms(1,2) by (simp add: fair_def launched_def)
  show "distinct (launched A (map fst hosts))"
    using mset_eq_imp_distinct_iff[OF m] smap_wf_distinct[OF assms(3)] by simp
  show "set (launched A (map fst hosts)) = fst ` set hosts" using mset_eq_setD[OF m] by simp
qed

lemma RunMethodOnAllHosts_ok:
  assumes "fair A" and "refused A = None" and "smap_wf (m_hosts hv)"
    and "\<And>m. m \<in> snd ` set (m_hosts hv) \<Longrightarrow> survives (f m (mh_model m))"
  shows "RunMethodOnAllHosts A (\<lambda>i. on_host i f) hv =
    Ret () (hv\<lparr>m_hosts := map (\<lambda>(i, m). (i, model_after f m)) (m_hosts hv)\<rparr>)"
proof -
  note ids = fair_ids[OF assms(1-3)]
  have "run_tasks (\<lambda>i. on_host i f) (launched A (map fst (m_hosts hv))) hv =
      Ret () (hv\<lparr>m_hosts := visited f (fst ` set (m_hosts hv) \<union> {}) (m_hosts hv)\<rparr>)"
    using run_tasks_visit[where f = f, OF assms(3,4), where hv = hv and ids = "{}" and todo = "launched A (map fst (m_hosts hv))"]
    by (simp add: ids visited_none)
  then show ?thesis by (simp add: RunMethodOnAllHosts_def assms(2) visited_all)
qed

text \<open>
  C27. Setting up, pausing or starting all hosts: in whatever order the tasks run, each host gets
  its call exactly once and no host sees another; the call returns.
\<close>

theorem all_hosts_any_order:
  assumes "fair A" and "refused A = None" and "smap_wf (m_hosts hv)"
  shows "((\<forall>m \<in> snd ` set (m_hosts hv). survives (Setup (mh_code m) b (mh_accessor m) (mh_model m))) \<longrightarrow>
      SetupHosts A b hv = Ret () (hv\<lparr>m_hosts :=
        map (\<lambda>(i, m). (i, model_after (\<lambda>m. Setup (mh_code m) b (mh_accessor m)) m)) (m_hosts hv)\<rparr>)) \<and>
    ((\<forall>m \<in> snd ` set (m_hosts hv). survives (Pause (mh_code m) b (mh_model m))) \<longrightarrow>
      PauseHosts A b hv = Ret () (hv\<lparr>m_hosts := map (\<lambda>(i, m). (i, model_after (\<lambda>m. Pause (mh_code m) b) m)) (m_hosts hv)\<rparr>)) \<and>
    ((\<forall>m \<in> snd ` set (m_hosts hv). survives (Run (mh_model m))) \<longrightarrow>
      RunHosts A hv = Ret () (hv\<lparr>m_hosts := map (\<lambda>(i, m). (i, model_after (\<lambda>m. Run) m)) (m_hosts hv)\<rparr>))"
proof -
  have tasks: "SetupHost b = (\<lambda>i. on_host i (\<lambda>m. Setup (mh_code m) b (mh_accessor m)))"
      "PauseHost b = (\<lambda>i. on_host i (\<lambda>m. Pause (mh_code m) b))" "RunHost = (\<lambda>i. on_host i (\<lambda>m. Run))"
    by (simp_all add: fun_eq_iff SetupHost_def PauseHost_def RunHost_def)
  show ?thesis
    unfolding SetupHosts_def PauseHosts_def RunHosts_def tasks
    using RunMethodOnAllHosts_ok[where f = "\<lambda>m. Setup (mh_code m) b (mh_accessor m)", OF assms(1-3)]
      RunMethodOnAllHosts_ok[where f = "\<lambda>m. Pause (mh_code m) b", OF assms(1-3)]
      RunMethodOnAllHosts_ok[where f = "\<lambda>m. Run", OF assms(1-3)] by blast
qed

definition two_hosts :: "(nat, nat list) hypervisor" where
  "two_hosts = \<lparr>m_nextHostId = 2, m_hosts = [(0, \<lparr>mh_code = noting_code, mh_accessor = 8, mh_model = ready_host\<rparr>),
     (1, \<lparr>mh_code = noting_code, mh_accessor = 8, mh_model = store_state Running ready_host\<rparr>)]\<rparr>"

definition last_first :: async where
  "last_first = \<lparr>task_order = rev, refused = None\<rparr>"

lemma two_hosts_survive:
  "m \<in> snd ` set (m_hosts two_hosts) \<Longrightarrow> survives (Setup (mh_code m) five_bounds (mh_accessor m) (mh_model m)) \<and>
    survives (Pause (mh_code m) five_bounds (mh_model m)) \<and> survives (Run (mh_model m))"
proof -
  let ?w = "StopExecution (store_state Running ready_host)"
  have u: "userState ?w = (userState ready_host)\<lparr>m_state := Running\<rparr>"
    using world_of_more(4)[of ?w "store_state Running ready_host"] by (simp add: store_state_def modify_host_def)
  have a: "attentive noting_code (\<lambda>l n xs. xs @ [l]) (m_listeners (userState ?w)) ?w"
    by (rule noting_attentive) (simp add: u)
  have "survives (Pause noting_code five_bounds (store_state Running ready_host))"
    using SetState_notifies[OF _ a, of 5 Paused] u
    by (simp add: survives_def Pause_def five_bounds_def GetState_def store_state_def modify_host_def)
  moreover have "survives (Run ready_host)"
    by (simp add: survives_def Run_def ValidateHostCanRun_def GetState_def Let_def split: prod.split)
  ultimately show "m \<in> snd ` set (m_hosts two_hosts) \<Longrightarrow> survives (Setup (mh_code m) five_bounds (mh_accessor m) (mh_model m)) \<and>
    survives (Pause (mh_code m) five_bounds (mh_model m)) \<and> survives (Run (mh_model m))"
    by (auto simp: two_hosts_def survives_def Setup_def Pause_def Run_def ValidateHostCanRun_def GetState_def
        store_state_def modify_host_def)
qed

lemma two_hosts_wf: "smap_wf (m_hosts two_hosts)"
  by (simp add: two_hosts_def smap_wf_def)

lemma last_first_fair: "fair last_first" "refused last_first = None"
  by (simp_all add: fair_def last_first_def)

lemma all_hosts_any_order_witness:
  "\<exists>hv. SetupHosts last_first five_bounds two_hosts = Ret () hv \<and> map fst (m_hosts hv) = [0, 1]"
proof -
  have "\<forall>m \<in> snd ` set (m_hosts two_hosts). survives (Setup (mh_code m) five_bounds (mh_accessor m) (mh_model m))"
    using two_hosts_survive by blast
  with all_hosts_any_order[OF last_first_fair two_hosts_wf, of five_bounds] show ?thesis by (simp add: two_hosts_def)
qed

text \<open>
  A call of all hosts never fails because of a host: if the call throws in some host, the
  exception is lost with the future and the caller is told nothing. Here a host that cannot be
  set up, which stays in the state it was in.
\<close>

theorem SetupHosts_hides_failures:
  assumes "fair A" and "refused A = None" and "smap_wf (m_hosts hv)"
    and "\<forall>m \<in> snd ` set (m_hosts hv). survives (Setup (mh_code m) b (mh_accessor m) (mh_model m))"
    and "map_of (m_hosts hv) i = Some m" and "Setup (mh_code m) b (mh_accessor m) (mh_model m) = Throw e w"
  shows "SetupHost b i hv = Throw e (put_model i w hv) \<and>
    (\<exists>hv'. SetupHosts A b hv = Ret () hv' \<and> map_of (m_hosts hv') i = Some (m\<lparr>mh_model := w\<rparr>))"
proof -
  let ?f = "\<lambda>m. Setup (mh_code m) b (mh_accessor m)"
  have task: "SetupHost b = (\<lambda>i. on_host i ?f)" by (simp add: fun_eq_iff SetupHost_def)
  have "SetupHosts A b hv = Ret () (hv\<lparr>m_hosts := map (\<lambda>(i, m). (i, model_after ?f m)) (m_hosts hv)\<rparr>)"
    unfolding SetupHosts_def task using RunMethodOnAllHosts_ok[where f = ?f, OF assms(1-3)] assms(4) by blast
  moreover have "map_of (map (\<lambda>(i, m). (i, model_after ?f m)) (m_hosts hv)) i = Some (m\<lparr>mh_model := w\<rparr>)"
    using assms(5,6) by (simp add: map_of_map model_after_def)
  ultimately show ?thesis using assms(5,6) by (simp add: SetupHost_def on_host_def)
qed

lemma SetupHosts_hides_failures_witness:
  "\<exists>hv. SetupHosts last_first five_bounds two_hosts = Ret () hv \<and>
     SetupHost five_bounds 1 two_hosts \<noteq> Ret () (hv :: (nat, nat list) hypervisor)"
proof -
  have s: "\<forall>m \<in> snd ` set (m_hosts two_hosts). survives (Setup (mh_code m) five_bounds (mh_accessor m) (mh_model m))"
    using two_hosts_survive by blast
  let ?m = "\<lparr>mh_code = noting_code, mh_accessor = 8, mh_model = store_state Running ready_host\<rparr>"
  have m: "map_of (m_hosts two_hosts) 1 = Some ?m" by (simp add: two_hosts_def)
  have "Setup (mh_code ?m) five_bounds (mh_accessor ?m) (mh_model ?m) = Throw HostDoesNotNeedSetup (mh_model ?m)"
    by (simp add: Setup_def GetState_def store_state_def modify_host_def)
  from SetupHosts_hides_failures[OF last_first_fair two_hosts_wf s m this] show ?thesis by auto
qed

section \<open>Results\<close>

lemma smap_eqI:
  assumes "smap_wf m" and "smap_wf m'" and "map_of m = map_of m'"
  shows "m = m'"
proof -
  have "set m = set m'" using assms smap_wf_distinct map_of_inject_set by blast
  moreover have "inj_on fst (set m)" using smap_wf_distinct[OF assms(1)] by (simp add: distinct_map)
  moreover have "sorted (map fst m)" "sorted (map fst m')" using assms(1,2) by (simp_all add: smap_wf_def strict_sorted_imp_sorted)
  ultimately show ?thesis
    using map_sorted_distinct_set_unique[of fst m m'] smap_wf_distinct[OF assms(1)] smap_wf_distinct[OF assms(2)] by simp
qed

lemma run_result_tasks_ok:
  assumes "\<And>i. i \<in> set todo \<Longrightarrow> task i hv = Ret (g i) hv"
  shows "distinct todo \<Longrightarrow> smap_wf results \<Longrightarrow> set todo \<inter> fst ` set results = {} \<Longrightarrow>
    \<exists>out. run_result_tasks task todo results hv = Ret out hv \<and> smap_wf out \<and>
      map_of out = (\<lambda>i. if i \<in> set todo then Some (g i) else map_of results i)"
  using assms
proof (induction todo arbitrary: results)
  case (Cons i js)
  let ?r = "smap_emplace i (g i) results"
  have new: "map_of results i = None" using Cons.prems(3) by (simp add: map_of_eq_None_iff)
  then have r: "map_of ?r = (map_of results)(i \<mapsto> g i)" by (simp add: map_of_smap_emplace)
  then have "fst ` set ?r = insert i (fst ` set results)" by (metis dom_fun_upd dom_map_of_conv_image_fst option.simps(3))
  then obtain out where "run_result_tasks task js ?r hv = Ret out hv \<and> smap_wf out \<and>
      map_of out = (\<lambda>j. if j \<in> set js then Some (g j) else map_of ?r j)"
    using Cons.IH[of ?r] Cons.prems smap_wf_emplace by auto
  then show ?case using Cons.prems by (auto simp: r fun_eq_iff)
qed simp

text \<open>
  The names of all hosts: in whatever order the tasks run, the result has the name of every
  host under its identifier, in the order of the identifiers, and nothing has changed.
\<close>

theorem GetHostNames_complete:
  assumes "fair A" and "refused A = None" and "smap_wf (m_hosts hv)"
    and "\<forall>m \<in> snd ` set (m_hosts hv). accessors (mh_model m) (mh_accessor m) \<noteq> None"
  shows "GetHostNames A hv =
    Ret (map (\<lambda>(i, m). (i, m_name (the (accessors (mh_model m) (mh_accessor m))))) (m_hosts hv)) hv"
proof -
  let ?name = "\<lambda>m. m_name (the (accessors (mh_model m) (mh_accessor m)))"
  let ?g = "\<lambda>i. ?name (the (map_of (m_hosts hv) i))"
  let ?out = "map (\<lambda>(i, m). (i, ?name m)) (m_hosts hv)"
  note ids = fair_ids[OF assms(1-3)]
  have "GetHostName i hv = Ret (?g i) hv" if "i \<in> fst ` set (m_hosts hv)" for i
  proof -
    from that obtain m where m: "(i, m) \<in> set (m_hosts hv)" by auto
    then have look: "map_of (m_hosts hv) i = Some m" using smap_wf_distinct[OF assms(3)] by simp
    have "e \<in> set (m_hosts hv) \<Longrightarrow> fst e = i \<Longrightarrow> snd e = m" for e
      using m smap_wf_distinct[OF assms(3)] by (cases e) (auto dest: eq_key_imp_eq_value)
    then have "map (\<lambda>e. if fst e = i then (i, (snd e)\<lparr>mh_model := mh_model m\<rparr>) else e) (m_hosts hv) = m_hosts hv"
      by (auto intro!: map_idI)
    then have "put_model i (mh_model m) hv = hv" by (simp add: put_model_def)
    moreover obtain x where "accessors (mh_model m) (mh_accessor m) = Some x" using assms(4) m by force
    ultimately show ?thesis by (simp add: GetHostName_def on_host_def look with_accessor_def)
  qed
  then obtain out where out: "run_result_tasks GetHostName (launched A (map fst (m_hosts hv))) [] hv = Ret out hv"
      "smap_wf out" "map_of out = (\<lambda>i. if i \<in> fst ` set (m_hosts hv) then Some (?g i) else None)"
    using run_result_tasks_ok[of "launched A (map fst (m_hosts hv))" GetHostName hv ?g "[]"] ids by (auto cong: if_cong)
  have same: "map_of out = map_of ?out"
  proof
    fix i show "map_of out i = map_of ?out i"
    proof (cases "map_of (m_hosts hv) i")
      case None
      then have "i \<notin> fst ` set (m_hosts hv)" by (simp add: map_of_eq_None_iff)
      then show ?thesis by (simp add: map_of_map out(3) None)
    next
      case (Some m)
      then have "i \<in> fst ` set (m_hosts hv)" by (metis domI dom_map_of_conv_image_fst)
      then show ?thesis by (simp add: map_of_map out(3) Some)
    qed
  qed
  have "smap_wf ?out" using assms(3) by (simp add: smap_wf_def case_prod_unfold comp_def)
  from smap_eqI[OF out(2) this same] have "out = ?out" .
  then show ?thesis using out(1) by (simp add: GetHostNames_def RunMethodOnAllHostsWithResult_def assms(2))
qed

lemma GetHostNames_complete_witness:
  "GetHostNames last_first two_hosts = Ret [(0, ''Host''), (1, ''Host'')] two_hosts"
proof -
  have "\<forall>m \<in> snd ` set (m_hosts two_hosts). accessors (mh_model m) (mh_accessor m) \<noteq> None"
    by (simp add: two_hosts_def ready_host_def dstate.extend_def store_state_def modify_host_def)
  from GetHostNames_complete[OF last_first_fair two_hosts_wf this] show ?thesis
    by (simp add: two_hosts_def ready_host_def dstate.extend_def store_state_def modify_host_def Accessor_new_def)
qed

section \<open>All hosts, one of them on the calling thread\<close>

lemma run_each_visit:
  assumes "smap_wf hosts"
  shows "distinct todo \<Longrightarrow> set todo \<inter> ids = {} \<Longrightarrow> m_hosts hv = visited f ids hosts \<Longrightarrow>
    (\<And>i. i \<in> set todo \<Longrightarrow> \<exists>m. map_of hosts i = Some m \<and> run_returns (f m (mh_model m))) \<Longrightarrow>
    run_each (\<lambda>i. on_host i f) todo hv = Ret () (hv\<lparr>m_hosts := visited f (set todo \<union> ids) hosts\<rparr>)"
proof (induction todo arbitrary: hv ids)
  case Nil
  then show ?case by simp
next
  case (Cons i js)
  from Cons.prems(4) obtain m where look: "map_of hosts i = Some m" "run_returns (f m (mh_model m))" by force
  then obtain x w where w: "f m (mh_model m) = Ret x w" by (cases "f m (mh_model m)") auto
  have at: "map_of (m_hosts hv) i = Some m" using Cons.prems(2,3) look by (simp add: map_of_visited)
  have put: "put_model i w hv = hv\<lparr>m_hosts := visited f (insert i ids) hosts\<rparr>"
    by (rule put_visited[where f = f, OF assms look(1)]) (use Cons.prems w in auto)
  have "run_each (\<lambda>i. on_host i f) (i # js) hv = run_each (\<lambda>i. on_host i f) js (put_model i w hv)"
    using w at by (simp add: on_host_def)
  also have "\<dots> = Ret () ((put_model i w hv)\<lparr>m_hosts := visited f (set js \<union> insert i ids) hosts\<rparr>)"
    by (rule Cons.IH) (use Cons.prems put in auto)
  finally show ?case by (simp add: put)
qed

lemma run_each_append: "run_each f (xs @ ys) s = run_bind (run_each f xs s) (\<lambda>_. run_each f ys)"
proof (induction xs arbitrary: s)
  case (Cons x xs)
  have "run_each f (xs @ ys) = (\<lambda>s. run_bind (run_each f xs s) (\<lambda>_. run_each f ys))" by (rule ext) (rule Cons)
  then show ?case by (simp add: run_bind_assoc)
qed simp

lemma run_all_started:
  assumes "smap_wf (m_hosts hv)" and "m_hosts hv = pre @ es @ post"
    and "\<forall>m \<in> snd ` set es. run_returns (Run (mh_model m))"
  shows "run_each RunHost (map fst es) hv =
    Ret () (hv\<lparr>m_hosts := pre @ map (\<lambda>(i, m). (i, model_after (\<lambda>m. Run) m)) es @ post\<rparr>)"
proof -
  let ?f = "\<lambda>m :: ('a, 'b) managed_host. Run"
  have d: "distinct (map fst (pre @ es @ post))" using smap_wf_distinct[OF assms(1)] assms(2) by simp
  have "\<exists>m. map_of (m_hosts hv) i = Some m \<and> run_returns (?f m (mh_model m))" if "i \<in> set (map fst es)" for i
  proof -
    from that obtain m where m: "(i, m) \<in> set es" by auto
    then have "(i, m) \<in> set (m_hosts hv)" by (simp add: assms(2))
    then have "map_of (m_hosts hv) i = Some m" by (rule map_of_is_SomeI[OF smap_wf_distinct[OF assms(1)]])
    then show ?thesis using assms(3) m by force
  qed
  then have "run_each (\<lambda>i. on_host i ?f) (map fst es) hv = Ret () (hv\<lparr>m_hosts := visited ?f (set (map fst es) \<union> {}) (m_hosts hv)\<rparr>)"
    by (intro run_each_visit[where f = ?f, OF assms(1)]) (use d in \<open>simp_all add: visited_none\<close>)
  moreover have "visited ?f (set (map fst es)) (m_hosts hv) = pre @ map (\<lambda>(i, m). (i, model_after ?f m)) es @ post"
  proof -
    have "visited ?f (set (map fst es)) pre = pre" "visited ?f (set (map fst es)) post = post"
      using d by (force simp: visited_def intro!: map_idI)+
    moreover have "visited ?f (set (map fst es)) es = map (\<lambda>(i, m). (i, model_after ?f m)) es"
      by (rule visited_all) simp
    ultimately show ?thesis by (simp add: assms(2) visited_def)
  qed
  moreover have "RunHost = (\<lambda>i. on_host i ?f)" by (simp add: fun_eq_iff RunHost_def)
  ultimately show ?thesis by simp
qed

text \<open>
  C28. Running all hosts, the first one on the calling thread. Without a host this is undefined
  behaviour. If every other host can be started, they are started in the order of their
  identifiers and the first one is run by the caller; if one cannot, the call throws there: the
  hosts before it have been started, and neither those after it nor the first host are run.
\<close>

theorem RunHostsOnCurrentThread_spec:
  assumes "smap_wf (m_hosts hv)"
  shows "(m_hosts hv = [] \<longrightarrow> RunHostsOnCurrentThread b hv = Throw (Fatal EmptyContainer) hv) \<and>
    (\<forall>i m0 others. m_hosts hv = (i, m0) # others \<and> (\<forall>m \<in> snd ` set others. run_returns (Run (mh_model m))) \<longrightarrow>
       RunHostsOnCurrentThread b hv = on_host i (\<lambda>m. RunOnCurrentThread (mh_code m) b)
         (hv\<lparr>m_hosts := (i, m0) # map (\<lambda>(j, m). (j, model_after (\<lambda>m. Run) m)) others\<rparr>)) \<and>
    (\<forall>i m0 started j m rest e w. m_hosts hv = (i, m0) # started @ (j, m) # rest \<and>
       (\<forall>m \<in> snd ` set started. run_returns (Run (mh_model m))) \<and> Run (mh_model m) = Throw e w \<longrightarrow>
       RunHostsOnCurrentThread b hv = Throw e (hv\<lparr>m_hosts := (i, m0) #
         map (\<lambda>(j, m). (j, model_after (\<lambda>m. Run) m)) started @ (j, m\<lparr>mh_model := w\<rparr>) # rest\<rparr>))"
proof (intro conjI allI impI)
  fix i m0 others
  assume h: "m_hosts hv = (i, m0) # others \<and> (\<forall>m \<in> snd ` set others. run_returns (Run (mh_model m)))"
  then show "RunHostsOnCurrentThread b hv = on_host i (\<lambda>m. RunOnCurrentThread (mh_code m) b)
      (hv\<lparr>m_hosts := (i, m0) # map (\<lambda>(j, m). (j, model_after (\<lambda>m. Run) m)) others\<rparr>)"
    using run_all_started[OF assms, of "[(i, m0)]" others "[]"] by (simp add: RunHostsOnCurrentThread_def)
next
  fix i m0 started j m rest e w
  assume h: "m_hosts hv = (i, m0) # started @ (j, m) # rest \<and>
    (\<forall>m \<in> snd ` set started. run_returns (Run (mh_model m))) \<and> Run (mh_model m) = Throw e w"
  let ?s = "map (\<lambda>(j, m). (j, model_after (\<lambda>m. Run) m)) started"
  let ?hv = "hv\<lparr>m_hosts := (i, m0) # ?s @ (j, m) # rest\<rparr>"
  have started: "run_each RunHost (map fst started) hv = Ret () ?hv"
    using run_all_started[OF assms, of "[(i, m0)]" started "(j, m) # rest"] h by simp
  have d: "distinct (i # map fst started @ j # map fst rest)" using smap_wf_distinct[OF assms] h by simp
  have keys: "map fst ?s = map fst started" by (simp add: case_prod_unfold comp_def)
  have j: "j \<noteq> i" "j \<notin> fst ` set ?s" "j \<notin> fst ` set rest"
    using d unfolding set_map[symmetric] keys by auto
  then have "map_of (m_hosts ?hv) j = Some m" by (simp add: map_add_dom_app_simps(3) dom_map_of_conv_image_fst)
  moreover have "put_model j w ?hv = hv\<lparr>m_hosts := (i, m0) # ?s @ (j, m\<lparr>mh_model := w\<rparr>) # rest\<rparr>"
  proof -
    have skip: "map (\<lambda>e. if fst e = j then (j, (snd e)\<lparr>mh_model := w\<rparr>) else e) es = es" if "j \<notin> fst ` set es" for es
      using that by (intro map_idI) auto
    show ?thesis using skip[OF j(2)] skip[OF j(3)] j(1) by (simp add: put_model_def)
  qed
  ultimately have "RunHost j ?hv = Throw e (hv\<lparr>m_hosts := (i, m0) # ?s @ (j, m\<lparr>mh_model := w\<rparr>) # rest\<rparr>)"
    using h by (simp add: RunHost_def on_host_def)
  then show "RunHostsOnCurrentThread b hv = Throw e (hv\<lparr>m_hosts := (i, m0) # ?s @ (j, m\<lparr>mh_model := w\<rparr>) # rest\<rparr>)"
    using h started by (simp add: RunHostsOnCurrentThread_def run_each_append)
qed (simp add: RunHostsOnCurrentThread_def)

lemma RunHostsOnCurrentThread_spec_witness:
  "\<exists>hv. RunHostsOnCurrentThread five_bounds two_hosts = Throw HostAlreadyRunning hv"
proof -
  let ?m = "\<lparr>mh_code = noting_code, mh_accessor = 8, mh_model = store_state Running ready_host\<rparr>"
  have "m_hosts two_hosts = (0, \<lparr>mh_code = noting_code, mh_accessor = 8, mh_model = ready_host\<rparr>) # [] @ (1, ?m) # []"
    by (simp add: two_hosts_def)
  moreover have "Run (mh_model ?m) = Throw HostAlreadyRunning (mh_model ?m)"
    by (simp add: Run_def ValidateHostCanRun_def GetState_def store_state_def modify_host_def)
  ultimately show ?thesis
    using RunHostsOnCurrentThread_spec[OF two_hosts_wf, of five_bounds, THEN conjunct2, THEN conjunct2, rule_format,
        of 0 "\<lparr>mh_code = noting_code, mh_accessor = 8, mh_model = ready_host\<rparr>" "[]" 1 ?m "[]" HostAlreadyRunning "mh_model ?m"]
    by simp
qed

end
