(* ===== verification/HostThreads.thy ===== *)
theory HostThreads
  imports HostStates "HOL-Library.Multiset"
begin

text \<open>
  The life cycle of a host under concurrent calls: the accesses to the atomic \<open>m_state\<close> in
  \<open>src/src/HostImpl.cpp\<close> as a step relation. A configuration is the state and the multiset of
  the places at which threads are inside a call. One step is one load, exchange or store of
  \<open>m_state\<close>, or a stretch of code between two of them, whose outcome is not determined here.
  A stretch that need not end is a place where the thread can also stay: the director goes through
  another round of its loop, user code inside \<open>Setup\<close> goes on, or \<open>Run\<close> tries again to start its thread.
\<close>

section \<open>Places in the calls\<close>

text \<open>Who validates: \<open>Run\<close>, or \<open>Iterate\<close> and \<open>RunOnCurrentThread\<close>, called by the client or by the thread of \<open>Run\<close>.\<close>

datatype goal = Spawn | Drive bool

datatype place =
    SetupCheck | SetupEnter | SetupWork | SetupLeave
  | Check1 goal | Check2 goal | Check3 goal | Go goal
  | Work bool | Corrupt bool | Leave bool | Departed bool
  | PauseCheck | PauseStop | PauseSet
  | ExitEnter | ExitStop | ExitSet
  | Aborted   \<comment> \<open>\<open>std::terminate\<close>\<close>

text \<open>An exception leaves the call: the program ends if the call is the body of a thread.\<close>

fun thrown :: "goal \<Rightarrow> place list" where
  "thrown (Drive True) = [Aborted]"
| "thrown _ = []"

text \<open>\<open>F\<close> says whether user code may throw what is not a \<open>std::exception\<close>.\<close>

inductive place_step :: "bool \<Rightarrow> host_state \<Rightarrow> place \<Rightarrow> host_state \<Rightarrow> place list \<Rightarrow> bool" for F where
  setup_refused: "s \<noteq> NeedsSetup \<Longrightarrow> place_step F s SetupCheck s []"
| setup_checked: "place_step F NeedsSetup SetupCheck NeedsSetup [SetupEnter]"
| setup_enter: "place_step F s SetupEnter SettingUp [SetupWork]"
| setup_round: "place_step F s SetupWork s [SetupWork]"
| setup_failed: "place_step F s SetupWork s []"
| setup_worked: "place_step F s SetupWork s [SetupLeave]"
| setup_leave: "place_step F s SetupLeave ReadyToRun []"
| check1_refused: "place_step F Running (Check1 g) Running (thrown g)"
| check1: "s \<noteq> Running \<Longrightarrow> place_step F s (Check1 g) s [Check2 g]"
| check2_ready: "place_step F ReadyToRun (Check2 g) ReadyToRun [Go g]"
| check2: "s \<noteq> ReadyToRun \<Longrightarrow> place_step F s (Check2 g) s [Check3 g]"
| check3_paused: "place_step F Paused (Check3 g) Paused [Go g]"
| check3_refused: "s \<noteq> Paused \<Longrightarrow> place_step F s (Check3 g) s (thrown g)"
| spawn: "place_step F s (Go Spawn) s [Check1 (Drive True)]"
| spawn_again: "place_step F s (Go Spawn) s [Go Spawn]"
| spawn_failed: "place_step F s (Go Spawn) s []"
| enter: "place_step F s (Go (Drive t)) Running [Work t]"
| round: "place_step F s (Work t) s [Work t]"
| worked: "place_step F s (Work t) s [Leave t]"
| work_threw: "place_step F s (Work t) s [Corrupt t]"
| work_foreign: "F \<Longrightarrow> place_step F s (Work t) s (thrown (Drive t))"
| corrupt: "place_step F s (Corrupt t) Corrupted [Leave t]"
| leave_foreign: "F \<Longrightarrow> place_step F s (Leave t) s (thrown (Drive t))"
| leave: "place_step F s (Leave t) Paused [Departed t]"
| departed: "place_step F s (Departed t) s []"
| departed_foreign: "F \<Longrightarrow> place_step F s (Departed t) s (thrown (Drive t))"
| pause_refused: "s \<noteq> Running \<Longrightarrow> place_step F s PauseCheck s []"
| pause_checked: "place_step F Running PauseCheck Running [PauseStop]"
| pause_stop: "place_step F s PauseStop s [PauseSet]"
| pause_set: "place_step F s PauseSet Paused []"
| exit_enter: "place_step F s ExitEnter Exiting [ExitStop]"
| exit_foreign: "F \<Longrightarrow> place_step F s ExitStop s []"
| exit_stop: "place_step F s ExitStop s [ExitSet]"
| exit_set: "place_step F s ExitSet Finished []"

inductive_cases place_stepE [elim]: "place_step F s p s' ps"

code_pred (modes: i \<Rightarrow> i \<Rightarrow> i \<Rightarrow> o \<Rightarrow> o \<Rightarrow> bool) place_step .

inductive_simps place_step_simps:
  "place_step F s SetupCheck s' ps" "place_step F s (Check1 g) s' ps" "place_step F s (Go (Drive t)) s' ps"
  "place_step F s Aborted s' ps"

text \<open>The places at which a client's call begins.\<close>

definition entries_of_calls :: "place set" where
  "entries_of_calls = {SetupCheck, Check1 Spawn, Check1 (Drive False), PauseCheck, ExitEnter}"

type_synonym config = "host_state \<times> place multiset"

inductive thread_step :: "bool \<Rightarrow> config \<Rightarrow> config \<Rightarrow> bool" for F where
  thread_step: "place_step F s p s' ps \<Longrightarrow> Aborted \<notin># M \<Longrightarrow> thread_step F (s, add_mset p M) (s', mset ps + M)"

inductive host_step :: "bool \<Rightarrow> config \<Rightarrow> config \<Rightarrow> bool" for F where
  call: "p \<in> entries_of_calls \<Longrightarrow> Aborted \<notin># M \<Longrightarrow> host_step F (s, M) (s, add_mset p M)"
| thread: "thread_step F c c' \<Longrightarrow> host_step F c c'"

definition new_host :: config where
  "new_host = (NeedsSetup, {#})"

definition reachable :: "bool \<Rightarrow> config \<Rightarrow> bool" where
  "reachable F c \<longleftrightarrow> (host_step F)\<^sup>*\<^sup>* new_host c"

lemma reachable_induct [consumes 1, case_names new call thread]:
  assumes "reachable F c" and "P new_host"
    and "\<And>s M p. reachable F (s, M) \<Longrightarrow> P (s, M) \<Longrightarrow> p \<in> entries_of_calls \<Longrightarrow> P (s, add_mset p M)"
    and "\<And>s M p s' ps. reachable F (s, add_mset p M) \<Longrightarrow> P (s, add_mset p M) \<Longrightarrow> Aborted \<notin># M \<Longrightarrow>
       place_step F s p s' ps \<Longrightarrow> P (s', mset ps + M)"
  shows "P c"
proof -
  have "(host_step F)\<^sup>*\<^sup>* new_host c" using assms(1) by (simp add: reachable_def)
  then show ?thesis
  proof (induction rule: rtranclp_induct)
    case (step c d)
    then have c: "reachable F c" by (simp add: reachable_def)
    from step(2) show ?case
    proof cases
      case (call p M s)
      then show ?thesis using assms(3) c step.IH by simp
    next
      case thread
      then show ?thesis by cases (use assms(4) c step.IH in auto)
    qed
  qed (rule assms(2))
qed

section \<open>The states in which a host rests\<close>

instantiation host_state :: enum
begin

definition enum_host_state :: "host_state list" where
  "enum_host_state = [NeedsSetup, SettingUp, ReadyToRun, Running, Paused, Exiting, Finished, Corrupted]"

definition enum_all_host_state :: "(host_state \<Rightarrow> bool) \<Rightarrow> bool" where
  "enum_all_host_state P \<longleftrightarrow> list_all P [NeedsSetup, SettingUp, ReadyToRun, Running, Paused, Exiting, Finished, Corrupted]"

definition enum_ex_host_state :: "(host_state \<Rightarrow> bool) \<Rightarrow> bool" where
  "enum_ex_host_state P \<longleftrightarrow> list_ex P [NeedsSetup, SettingUp, ReadyToRun, Running, Paused, Exiting, Finished, Corrupted]"

instance
proof
  have all: "s \<in> set [NeedsSetup, SettingUp, ReadyToRun, Running, Paused, Exiting, Finished, Corrupted]" for s
    by (cases s) simp_all
  show "(UNIV :: host_state set) = set enum_class.enum" unfolding enum_host_state_def using all by blast
  show "distinct (enum_class.enum :: host_state list)" by (simp add: enum_host_state_def)
  show "enum_class.enum_all P \<longleftrightarrow> Ball (UNIV :: host_state set) P" for P
    unfolding enum_all_host_state_def list_all_iff using all by blast
  show "enum_class.enum_ex P \<longleftrightarrow> Bex (UNIV :: host_state set) P" for P
    unfolding enum_ex_host_state_def list_ex_iff using all by blast
qed

end

text \<open>The states that are not passed through.\<close>

lemma resting_states: "UNIV - {Running, Corrupted, Exiting} = {NeedsSetup, SettingUp, ReadyToRun, Paused, Finished}"
  unfolding UNIV_enum enum_host_state_def by auto

text \<open>A passing state is one that a thread inside a call will change.\<close>

definition passing :: "config \<Rightarrow> bool" where
  "passing c \<longleftrightarrow>
     (fst c = Running \<longrightarrow> (\<exists>t. Work t \<in># snd c \<or> Corrupt t \<in># snd c \<or> Leave t \<in># snd c) \<or> Aborted \<in># snd c) \<and>
     (fst c = Corrupted \<longrightarrow> (\<exists>t. Leave t \<in># snd c) \<or> Aborted \<in># snd c) \<and>
     (fst c = Exiting \<longrightarrow> ExitStop \<in># snd c \<or> ExitSet \<in># snd c \<or> Aborted \<in># snd c)"

lemma passing_step:
  assumes "passing (s, add_mset p M)" and "place_step False s p s' ps"
  shows "passing (s', mset ps + M)"
  using assms(2,1) by cases (auto simp: passing_def)

lemma reachable_passing: "reachable False c \<Longrightarrow> passing c"
proof (induction rule: reachable_induct)
  case (call s M p)
  then show ?case by (auto simp: passing_def)
next
  case (thread s M p s' ps)
  then show ?case using passing_step by blast
qed (simp add: passing_def new_host_def)

section \<open>Calls end\<close>

text \<open>How many steps a thread has before it at a place.\<close>

fun steps_left :: "place \<Rightarrow> nat" where
  "steps_left SetupCheck = 4" | "steps_left SetupEnter = 3" | "steps_left SetupWork = 2" | "steps_left SetupLeave = 1"
| "steps_left (Check1 g) = (if g = Spawn then 12 else 8)"
| "steps_left (Check2 g) = (if g = Spawn then 11 else 7)"
| "steps_left (Check3 g) = (if g = Spawn then 10 else 6)"
| "steps_left (Go g) = (if g = Spawn then 9 else 5)"
| "steps_left (Work t) = 4" | "steps_left (Corrupt t) = 3" | "steps_left (Leave t) = 2" | "steps_left (Departed t) = 1"
| "steps_left PauseCheck = 3" | "steps_left PauseStop = 2" | "steps_left PauseSet = 1"
| "steps_left ExitEnter = 3" | "steps_left ExitStop = 2" | "steps_left ExitSet = 1"
| "steps_left Aborted = 0"

definition work_left :: "config \<Rightarrow> nat" where
  "work_left c = sum_mset (image_mset steps_left (snd c))"

lemma thrown_no_work [simp]: "sum_list (map steps_left (thrown g)) = 0"
  by (cases g rule: thrown.cases) simp_all

lemma place_step_less:
  "place_step F s p s' ps \<Longrightarrow> s' = s \<and> ps = [p] \<or> sum_list (map steps_left ps) < steps_left p"
  by (induction rule: place_step.induct) (simp_all split: if_split)

lemma thread_step_less: "thread_step F c d \<Longrightarrow> d = c \<or> work_left d < work_left c"
proof (induction rule: thread_step.induct)
  case (thread_step s p s' ps M)
  then show ?case using place_step_less[OF thread_step(1)]
    by (auto simp: work_left_def sum_mset_sum_list[symmetric] simp flip: mset_map)
qed

lemma place_can_step:
  assumes "p \<noteq> Aborted"
  shows "\<exists>s' ps. place_step F s p s' ps"
proof (cases p)
  case SetupCheck
  then show ?thesis using setup_refused[of s F] setup_checked[of F] by (cases "s = NeedsSetup") blast+
next
  case (Check1 g)
  then show ?thesis using check1_refused[of F g] check1[of s F g] by (cases "s = Running") blast+
next
  case (Check2 g)
  then show ?thesis using check2_ready[of F g] check2[of s F g] by (cases "s = ReadyToRun") blast+
next
  case (Check3 g)
  then show ?thesis using check3_paused[of F g] check3_refused[of s F g] by (cases "s = Paused") blast+
next
  case (Go g)
  then show ?thesis using spawn[of F s] enter[of F s] by (cases g) blast+
next
  case (Leave t)
  then show ?thesis using leave[of F s t] by blast
next
  case (Departed t)
  then show ?thesis using departed[of F s t] by blast
next
  case PauseCheck
  then show ?thesis using pause_refused[of s F] pause_checked[of F] by (cases "s = Running") blast+
qed (use assms setup_enter[of F s] setup_worked[of F s] setup_leave[of F s] worked[of F s] corrupt[of F s]
    pause_stop[of F s] pause_set[of F s] exit_enter[of F s] exit_stop[of F s]
    exit_set[of F s] in auto)

lemma thread_can_step:
  assumes "Aborted \<notin># snd c" and "snd c \<noteq> {#}"
  shows "\<exists>d. thread_step F c d"
proof -
  obtain s N where c: "c = (s, N)" by force
  with assms(2) obtain p M where N: "N = add_mset p M" by (cases N) auto
  with assms c have "p \<noteq> Aborted" "Aborted \<notin># M" by auto
  then show ?thesis using place_can_step thread_step.intros c N by metis
qed

text \<open>
  A schedule of the threads that are inside calls, without end: at each moment one of them makes
  a step, or none can. It goes on when it does not stay for ever at a moment where a thread could
  step: that is, every run of the director returns, user code in \<open>Setup\<close> returns, a thread can
  at last be started, and the system lets some thread run. Nothing is said about which thread.
\<close>

definition schedule :: "(nat \<Rightarrow> config) \<Rightarrow> bool" where
  "schedule f \<longleftrightarrow>
     (\<forall>i. thread_step False (f i) (f (Suc i)) \<or> f (Suc i) = f i \<and> (\<nexists>d. thread_step False (f i) d))"

definition goes_on :: "(nat \<Rightarrow> config) \<Rightarrow> bool" where
  "goes_on f \<longleftrightarrow> (\<forall>i. (\<exists>d. thread_step False (f i) d) \<longrightarrow> (\<exists>j\<ge>i. f (Suc j) \<noteq> f j))"

text \<open>How many moves there were before the moment \<open>i\<close>.\<close>

fun moves_made :: "(nat \<Rightarrow> config) \<Rightarrow> nat \<Rightarrow> nat" where
  "moves_made f 0 = 0"
| "moves_made f (Suc i) = moves_made f i + (if f (Suc i) = f i then 0 else 1)"

lemma schedule_reachable:
  assumes "schedule f" and "reachable False (f 0)"
  shows "reachable False (f i)"
proof (induction i)
  case (Suc i)
  from assms(1) have "thread_step False (f i) (f (Suc i)) \<or> f (Suc i) = f i" by (auto simp: schedule_def)
  then show ?case
    using Suc unfolding reachable_def by (metis host_step.thread rtranclp.rtrancl_into_rtrancl)
qed (rule assms)

lemma schedule_bound:
  assumes "schedule f"
  shows "moves_made f i + work_left (f i) \<le> work_left (f 0)"
proof (induction i)
  case (Suc i)
  from assms have "thread_step False (f i) (f (Suc i)) \<or> f (Suc i) = f i" by (auto simp: schedule_def)
  then have "f (Suc i) = f i \<or> work_left (f (Suc i)) < work_left (f i)" using thread_step_less by blast
  then show ?case using Suc by auto
qed simp

lemma schedule_stops:
  assumes "schedule f" and "goes_on f"
  shows "\<exists>n. \<nexists>d. thread_step False (f n) d"
proof (rule ccontr)
  assume busy: "\<not> ?thesis"
  have "\<exists>j\<ge>i. work_left (f (Suc j)) < work_left (f j)" for i
  proof -
    from busy assms(2) obtain j where "j \<ge> i" "f (Suc j) \<noteq> f j" by (auto simp: goes_on_def)
    moreover from this assms(1) have "thread_step False (f j) (f (Suc j))" by (auto simp: schedule_def)
    ultimately show ?thesis using thread_step_less by blast
  qed
  moreover have down: "work_left (f j) \<le> work_left (f i)" if "i \<le> j" for i j
    by (rule lift_Suc_antimono_le[OF _ that])
      (metis (no_types) assms(1) schedule_def thread_step_less order_refl less_imp_le)
  ultimately have less: "\<exists>j. work_left (f j) < work_left (f i)" for i
    by (metis order_less_le_trans)
  have "\<exists>j. work_left (f j) + n \<le> work_left (f 0)" for n
  proof (induction n)
    case (Suc n)
    then obtain j where "work_left (f j) + n \<le> work_left (f 0)" by blast
    with less[of j] show ?case by (metis Suc_leI add_Suc_right add_Suc add_mono_thms_linordered_semiring(3) le_trans)
  qed auto
  from this[of "Suc (work_left (f 0))"] show False by auto
qed

lemma schedule_stays:
  assumes "schedule f" and "\<nexists>d. thread_step False (f n) d" and "n \<le> m"
  shows "f m = f n"
  using assms(3)
proof (induction m rule: dec_induct)
  case (step m)
  then show ?case using assms(1,2) unfolding schedule_def by metis
qed simp

lemma rest_states:
  assumes "reachable False c" and "\<nexists>d. thread_step False c d" and "Aborted \<notin># snd c"
  shows "snd c = {#} \<and> fst c \<in> {NeedsSetup, SettingUp, ReadyToRun, Paused, Finished}"
proof -
  have "snd c = {#}" using thread_can_step[OF assms(3)] assms(2) by blast
  moreover from this have "fst c \<in> UNIV - {Running, Corrupted, Exiting}"
    using reachable_passing[OF assms(1)] by (auto simp: passing_def)
  ultimately show ?thesis unfolding resting_states by simp
qed

text \<open>
  C11. Let user code throw nothing but \<open>std::exception\<close>s, and let every run of the director
  return, every \<open>Setup\<close> return, and a thread be available in the end. Then whatever calls have
  been made, from any number of threads, in any schedule the calls under way make a bounded
  number of moves and then all have ended: either the program was aborted by \<open>std::terminate\<close>
  (an exception left a thread that \<open>Run\<close> had started), or no thread is inside a call any more
  and the host rests in one of five states: it is neither running nor exiting, and never corrupted.
\<close>

theorem host_comes_to_rest:
  assumes "reachable False (f 0)" and "schedule f" and "goes_on f"
  shows "\<exists>n. (\<forall>m\<ge>n. f m = f n) \<and> moves_made f n \<le> work_left (f 0) \<and>
    (Aborted \<in># snd (f n) \<or>
     snd (f n) = {#} \<and> fst (f n) \<in> {NeedsSetup, SettingUp, ReadyToRun, Paused, Finished})"
proof -
  obtain n where n: "\<nexists>d. thread_step False (f n) d" using schedule_stops[OF assms(2,3)] by blast
  have "\<forall>m\<ge>n. f m = f n" using schedule_stays[OF assms(2) n] by blast
  moreover have "moves_made f n \<le> work_left (f 0)" using schedule_bound[OF assms(2), of n] by simp
  ultimately show ?thesis using rest_states[OF schedule_reachable[OF assms(2,1)] n] by blast
qed

section \<open>Paths of single calls\<close>

lemma step_on:
  assumes "place_step F s p s' ps" and "Aborted \<notin># M"
  shows "(host_step F)\<^sup>*\<^sup>* (s, add_mset p M) (s', mset ps + M)"
  using assms by (blast intro: host_step.thread thread_step.intros)

lemma step_then:
  assumes "place_step F s p s' [q]" and "Aborted \<notin># M" and "(host_step F)\<^sup>*\<^sup>* (s', add_mset q M) c"
  shows "(host_step F)\<^sup>*\<^sup>* (s, add_mset p M) c"
  using step_on[OF assms(1,2)] assms(3) by simp

lemma call_then:
  assumes "p \<in> entries_of_calls" and "Aborted \<notin># M" and "(host_step F)\<^sup>*\<^sup>* (s, add_mset p M) c"
  shows "(host_step F)\<^sup>*\<^sup>* (s, M) c"
  using assms by (blast intro: host_step.call converse_rtranclp_into_rtranclp)

lemma validate_passes:
  assumes "s = ReadyToRun \<or> s = Paused" and "Aborted \<notin># M"
  shows "(host_step F)\<^sup>*\<^sup>* (s, add_mset (Check1 g) M) (s, add_mset (Go g) M)"
  using assms(1)
proof
  assume s: "s = ReadyToRun"
  show ?thesis unfolding s by (rule step_then[OF check1 assms(2)], simp, rule step_then[OF check2_ready assms(2)], simp)
next
  assume s: "s = Paused"
  show ?thesis
    unfolding s by (rule step_then[OF check1 assms(2)], simp, rule step_then[OF check2 assms(2)], simp,
      rule step_then[OF check3_paused assms(2)], simp)
qed

lemma validate_throws:
  assumes "s \<noteq> ReadyToRun" and "s \<noteq> Paused" and "Aborted \<notin># M"
  shows "(host_step F)\<^sup>*\<^sup>* (s, add_mset (Check1 g) M) (s, mset (thrown g) + M)"
proof (cases "s = Running")
  case True
  then show ?thesis using step_on[OF check1_refused assms(3)] by simp
next
  case False
  show ?thesis
    by (rule step_then[OF check1 assms(3)], rule False, rule step_then[OF check2 assms(3)], rule assms,
        rule step_on[OF check3_refused assms(3)], rule assms)
qed

lemma setup_path: "Aborted \<notin># M \<Longrightarrow> (host_step F)\<^sup>*\<^sup>* (NeedsSetup, M) (ReadyToRun, M)"
  by (rule call_then[of SetupCheck], simp add: entries_of_calls_def, assumption,
      rule step_then[OF setup_checked], assumption, rule step_then[OF setup_enter], assumption,
      rule step_then[OF setup_worked], assumption, use step_on[OF setup_leave, of M F SettingUp] in simp)

lemma drive_enters:
  assumes "s = ReadyToRun \<or> s = Paused" and "Aborted \<notin># M"
  shows "(host_step F)\<^sup>*\<^sup>* (s, add_mset (Check1 (Drive t)) M) (Running, add_mset (Work t) M)"
  using validate_passes[OF assms, of F "Drive t"] step_on[OF enter assms(2), of F s t] by simp

lemma drive_leaves:
  assumes "Aborted \<notin># M"
  shows "(host_step F)\<^sup>*\<^sup>* (s, add_mset (Work t) M) (Paused, M)"
  by (rule step_then[OF worked assms], rule step_then[OF leave assms], use step_on[OF departed assms, of F Paused] in simp)

lemma drive_path:
  assumes "s = ReadyToRun \<or> s = Paused" and "Aborted \<notin># M"
  shows "(host_step F)\<^sup>*\<^sup>* (s, M) (Running, add_mset (Work False) M)"
  by (rule call_then[of "Check1 (Drive False)", OF _ assms(2) drive_enters[OF assms]]) (simp add: entries_of_calls_def)

lemma run_path:
  assumes "s = ReadyToRun \<or> s = Paused" and "Aborted \<notin># M"
  shows "(host_step F)\<^sup>*\<^sup>* (s, M) (s, add_mset (Check1 (Drive True)) M)"
  by (rule call_then[of "Check1 Spawn", OF _ assms(2) rtranclp_trans[OF validate_passes[OF assms]]])
    (use step_on[OF spawn assms(2), of F s] in \<open>simp_all add: entries_of_calls_def\<close>)

lemma exit_path: "Aborted \<notin># M \<Longrightarrow> (host_step F)\<^sup>*\<^sup>* (s, M) (Finished, M)"
  by (rule call_then[of ExitEnter], simp add: entries_of_calls_def, assumption,
      rule step_then[OF exit_enter], assumption, rule step_then[OF exit_stop], assumption,
      use step_on[OF exit_set, of M F Exiting] in simp)

lemma driven_reachable: "reachable F (Running, {#Work False#})"
  using setup_path[of "{#}" F] drive_path[of ReadyToRun "{#}" F] by (simp add: reachable_def new_host_def)

text \<open>A driven host whose director goes through one more round before it returns.\<close>

definition one_round :: "nat \<Rightarrow> config" where
  "one_round i =
     (if i \<le> 1 then (Running, {#Work False#}) else if i = 2 then (Running, {#Leave False#})
      else if i = 3 then (Paused, {#Departed False#}) else (Paused, {#}))"

lemma no_thread_no_step: "\<not> thread_step F (s, {#}) d"
  by (auto elim: thread_step.cases)

lemma one_round_schedule: "schedule one_round" "goes_on one_round"
proof -
  have steps: "thread_step False (Running, {#Work False#}) (Running, {#Work False#})"
    "thread_step False (Running, {#Work False#}) (Running, {#Leave False#})"
    "thread_step False (Running, {#Leave False#}) (Paused, {#Departed False#})"
    "thread_step False (Paused, {#Departed False#}) (Paused, {#})"
    using thread_step.intros[OF round, of "{#}" False Running False] thread_step.intros[OF worked, of "{#}" False Running False]
      thread_step.intros[OF leave, of "{#}" False Running False] thread_step.intros[OF departed, of "{#}" False Paused False]
    by simp_all
  show "schedule one_round"
    unfolding schedule_def
  proof
    fix i :: nat
    consider "i = 0" | "i = 1" | "i = 2" | "i = 3" | "i \<ge> 4" by linarith
    then show "thread_step False (one_round i) (one_round (Suc i)) \<or>
        one_round (Suc i) = one_round i \<and> (\<nexists>d. thread_step False (one_round i) d)"
      by cases (use steps in \<open>simp_all add: one_round_def no_thread_no_step\<close>)
  qed
  show "goes_on one_round"
    unfolding goes_on_def
  proof (intro allI impI)
    fix i
    assume "\<exists>d. thread_step False (one_round i) d"
    then have "i \<le> 3" by (rule contrapos_pp) (simp add: one_round_def no_thread_no_step)
    then show "\<exists>j\<ge>i. one_round (Suc j) \<noteq> one_round j"
      by (intro exI[of _ 3]) (simp add: one_round_def)
  qed
qed

lemma host_comes_to_rest_witness:
  "(\<exists>n. (\<forall>m\<ge>n. one_round m = one_round n) \<and> moves_made one_round n \<le> 4 \<and> snd (one_round n) = {#})"
proof -
  have "one_round 0 = (Running, {#Work False#})" "Aborted \<notin># snd (one_round n)" for n
    by (simp_all add: one_round_def)
  then show ?thesis
    using host_comes_to_rest[of one_round, OF _ one_round_schedule] driven_reachable[of False]
    by (auto simp: work_left_def)
qed

text \<open>
  C33. \<open>Exit\<close> does not last. If a host exits while a thread drives it, it does finish; but when
  that thread returns from the director it sets the state to paused, and the finished host can
  be run again.
\<close>

theorem finished_host_runs_again:
  "reachable False (Finished, {#Work False#}) \<and>
   (thread_step False)\<^sup>*\<^sup>* (Finished, {#Work False#}) (Paused, {#}) \<and>
   (host_step False)\<^sup>*\<^sup>* (Paused, {#}) (Running, {#Work False#})"
proof (intro conjI)
  have "(host_step False)\<^sup>*\<^sup>* new_host (Running, {#Work False#})"
    using setup_path[of "{#}" False] drive_path[of ReadyToRun "{#}" False] by (simp add: new_host_def)
  then show "reachable False (Finished, {#Work False#})"
    unfolding reachable_def using exit_path[of "{#Work False#}" False Running] by simp
  have "thread_step False (Finished, {#Work False#}) (Finished, {#Leave False#})"
    using thread_step.intros[OF worked, of "{#}" False Finished False] by simp
  moreover have "thread_step False (Finished, {#Leave False#}) (Paused, {#Departed False#})"
    using thread_step.intros[OF leave, of "{#}" False Finished False] by simp
  moreover have "thread_step False (Paused, {#Departed False#}) (Paused, {#})"
    using thread_step.intros[OF departed, of "{#}" False Paused False] by simp
  ultimately show "(thread_step False)\<^sup>*\<^sup>* (Finished, {#Work False#}) (Paused, {#})" by force
  show "(host_step False)\<^sup>*\<^sup>* (Paused, {#}) (Running, {#Work False#})"
    using drive_path[of Paused "{#}" False] by simp
qed

text \<open>
  C34. Two calls of \<open>Run\<close>, one after the other, both succeed while the first thread has not set
  the state. Then either both threads are inside the director at once, or the second one throws
  out of its thread and the program is aborted.
\<close>

theorem two_runs_collide:
  "reachable False (ReadyToRun, {#Check1 (Drive True), Check1 (Drive True)#}) \<and>
   (thread_step False)\<^sup>*\<^sup>* (ReadyToRun, {#Check1 (Drive True), Check1 (Drive True)#}) (Running, {#Work True, Work True#}) \<and>
   (thread_step False)\<^sup>*\<^sup>* (ReadyToRun, {#Check1 (Drive True), Check1 (Drive True)#}) (Running, {#Work True, Aborted#})"
proof (intro conjI)
  let ?p = "Check1 (Drive True)"
  have "(host_step False)\<^sup>*\<^sup>* (ReadyToRun, {#}) (ReadyToRun, {#?p, ?p#})"
    using run_path[of ReadyToRun "{#}" False] run_path[of ReadyToRun "{#?p#}" False] by simp
  then show "reachable False (ReadyToRun, {#?p, ?p#})"
    unfolding reachable_def new_host_def using setup_path[of "{#}" False] by simp
  have at: "thread_step False (s, add_mset p {#q#}) (s', add_mset p' {#q#})"
    if "place_step False s p s' [p']" "q \<noteq> Aborted" for s p s' p' q
    using thread_step.intros[OF that(1), of "{#q#}"] that(2) by (simp add: add_mset_commute)
  have first: "(thread_step False)\<^sup>*\<^sup>* (ReadyToRun, {#?p, q#}) (ReadyToRun, {#Go (Drive True), q#})"
    if "q \<noteq> Aborted" for q
    using at[OF check1[of ReadyToRun False "Drive True"] that] at[OF check2_ready[of False "Drive True"] that]
    by (simp add: converse_rtranclp_into_rtranclp)
  have go: "thread_step False (s, {#Go (Drive True), q#}) (Running, {#Work True, q#})" if "q \<noteq> Aborted" for s q
    by (rule at[OF enter that])
  have "(thread_step False)\<^sup>*\<^sup>* (ReadyToRun, {#?p, ?p#}) (Running, {#Work True, ?p#})"
    using first[of ?p] go[of ?p ReadyToRun] by simp
  moreover have "thread_step False (Running, {#Work True, ?p#}) (Running, {#Work True, Aborted#})"
    using thread_step.intros[OF check1_refused[of False "Drive True"], of "{#Work True#}"] by (simp add: add_mset_commute)
  ultimately show "(thread_step False)\<^sup>*\<^sup>* (ReadyToRun, {#?p, ?p#}) (Running, {#Work True, Aborted#})" by simp
  have "(thread_step False)\<^sup>*\<^sup>* (ReadyToRun, {#?p, ?p#}) (ReadyToRun, {#Go (Drive True), Go (Drive True)#})"
    using first[of ?p] first[of "Go (Drive True)"] by (simp add: add_mset_commute)
  moreover have "thread_step False (Running, {#Work True, Go (Drive True)#}) (Running, {#Work True, Work True#})"
    using go[of "Work True" Running] by (simp add: add_mset_commute)
  ultimately show "(thread_step False)\<^sup>*\<^sup>* (ReadyToRun, {#?p, ?p#}) (Running, {#Work True, Work True#})"
    using go[of "Go (Drive True)" ReadyToRun] by simp
qed

end
