(* ===== verification/UserState.thy ===== *)
theory UserState
  imports ReactionFrame DirectorExecution
begin

text \<open>
  The framework never touches the user's state by itself: a relation between states that holds
  whenever the user's state is the same, that is transitive, and that every piece of user code
  keeps, is kept by the execution of the director with the framework's callbacks. The two
  locales are the interfaces: what the director relies on, and what the model relies on, which
  gives the interface of \<open>ReactionFrame\<close>.
\<close>

section \<open>The director\<close>

locale director_frame =
  fixes T :: "('cb, 'z) dstate_scheme \<Rightarrow> ('cb, 'z) dstate_scheme \<Rightarrow> bool"
  assumes T_trans: "T d e \<Longrightarrow> T e f \<Longrightarrow> T d f"
    and T_more: "dstate.more e = dstate.more d \<Longrightarrow> T d e"
begin

lemma after: "T d e \<Longrightarrow> run_prop (T e) r \<Longrightarrow> run_prop (T d) r"
  by (auto elim!: run_prop_mono T_trans)

lemma bind: "run_prop (T d) r \<Longrightarrow> (\<And>x e. run_prop (T e) (f x e)) \<Longrightarrow> run_prop (T d) (run_bind r f)"
  by (cases r) (auto intro: after)

lemma more: "run_prop (\<lambda>e. dstate.more e = dstate.more d) r \<Longrightarrow> run_prop (T d) r"
  by (auto elim!: run_prop_mono T_more)

lemma ScheduleCallback_keeps: "run_prop (T d) (ScheduleCallback f delay p prio d)"
  by (rule more) (rule ScheduleCallback_more)

lemma ScheduleNextExecution_keeps: "run_prop (T d) (ScheduleNextExecution d)"
  by (rule more) (rule ScheduleNextExecution_more)

lemma QueueScheduledCallback_keeps: "run_prop (T d) (QueueScheduledCallback i d)"
  by (rule more) (rule QueueScheduledCallback_more)

lemma update_priorities_keeps: "run_prop (T d) (update_priorities old new ids d)"
proof (induction ids arbitrary: d)
  case Nil
  then show ?case by (simp add: T_more)
next
  case (Cons i ids)
  have "run_prop (T d) (run_bind (QueueScheduledCallback i (d\<lparr>m_scheduledCallbacks := m, m_callbackQueue := q\<rparr>))
      (\<lambda>_. update_priorities old new ids))" for m q
    by (rule bind[OF after[OF T_more QueueScheduledCallback_keeps] Cons]) simp
  moreover have "run_prop (T d) (update_priorities old new ids (d\<lparr>m_scheduledCallbacks := m\<rparr>))" for m
    by (rule after[OF T_more Cons]) simp
  ultimately show ?case using Cons by (simp add: Let_def split: option.split)
qed

lemma HandlePriorityUpdate_keeps: "run_prop (T d) (HandlePriorityUpdate old new d)"
  by (simp add: HandlePriorityUpdate_def update_priorities_keeps)

lemma reschedule_keeps: "run_prop (T d) (reschedule_or_remove i d)"
proof -
  have "run_prop (T d) (QueueScheduledCallback i (d\<lparr>m_scheduledCallbacks := m\<rparr>))" for m
    by (rule after[OF T_more QueueScheduledCallback_keeps]) simp
  then show ?thesis
    by (simp add: reschedule_or_remove_def Let_def RemoveScheduledCallbackFromMap_def T_more split: option.split)
qed

lemma StopExecution_keeps: "T d (StopExecution d)"
  by (simp add: T_more)

lemma Reset_keeps: "T d (Reset d)"
  by (rule T_more) (simp add: Reset_def PosixUtcInMilliseconds_def Let_def)

lemma set_promise_keeps: "run_prop (T d) (set_promise pr v d)"
  by (simp add: set_promise_def T_more split: option.split)

lemma take_result_keeps: "run_prop (T d) (take_result f d)"
  by (simp add: take_result_def Let_def T_more split: future_state.split)

lemma execute_front_keeps:
  assumes "\<And>f d. run_prop (T d) (run f d)"
  shows "run_prop (T d) (execute_front run i d)"
proof -
  have call: "run_prop (T d) (call_callback run i (d\<lparr>m_callbackQueue := q\<rparr>))" for q
    by (rule after[of _ "d\<lparr>m_callbackQueue := q\<rparr>"]) (simp_all add: call_callback_def T_more assms split: option.split)
  show ?thesis
  proof (cases "call_callback run i (d\<lparr>m_callbackQueue := tl (m_callbackQueue d)\<rparr>)")
    case (Ret u e)
    then have "T d e" using call[of "tl (m_callbackQueue d)"] by simp
    then show ?thesis using Ret after[OF _ reschedule_keeps] by (simp add: execute_front_def)
  next
    case (Throw x e)
    then have "T d e" using call[of "tl (m_callbackQueue d)"] by simp
    moreover have "T e (RemoveScheduledCallbackFromMap i e)" by (simp add: RemoveScheduledCallbackFromMap_def T_more)
    ultimately show ?thesis using Throw T_trans by (auto simp: execute_front_def)
  qed (simp add: execute_front_def)
qed

lemma execute_due_keeps:
  assumes "\<And>f d. run_prop (T d) (run f d)"
  shows "run_prop (T d) (execute_due run n d)"
proof (induction n arbitrary: d)
  case (Suc n)
  have "run_prop (T d) (run_bind (execute_front run i d) (\<lambda>_. execute_due run n))" for i
    by (rule bind[OF execute_front_keeps[OF assms] Suc])
  then show ?case by (simp add: T_more split: list.split sum.split)
qed simp

lemma ExecuteCallbacks_keeps:
  assumes "\<And>f d. run_prop (T d) (run f d)"
  shows "run_prop (T d) (ExecuteCallbacks run n d)"
  unfolding ExecuteCallbacks_def by (rule after[OF T_more execute_due_keeps[OF assms]]) simp

lemma internal_loop_keeps:
  assumes "\<And>f d. run_prop (T d) (run f d)"
  shows "run_prop (T d) (internal_loop run cfuel tok n d)"
proof (induction n arbitrary: d)
  case (Suc n)
  let ?d = "d\<lparr>ticks := Suc (ticks d)\<rparr>"
  have d: "T d ?d" by (simp add: T_more)
  have round: "run_prop (T d) (ExecuteCallbacks run cfuel ?d)" by (rule after[OF d ExecuteCallbacks_keeps[OF assms]])
  show ?case
  proof (cases "ExecuteCallbacks run cfuel ?d")
    case (Ret u e)
    then have e: "T d e" using round by simp
    then have "run_prop (T d) (internal_loop run cfuel tok n e)" using after Suc by blast
    moreover have "run_prop (T d) (internal_loop run cfuel tok n (e\<lparr>m_nextScheduledExecutionTime := t\<rparr>))" for t
      by (rule after[OF _ Suc], rule T_trans[OF e], rule T_more) simp
    ultimately show ?thesis using Ret d e
      by (simp add: PosixUtcInMilliseconds_def T_more split: sum.split)
  next
    case (Throw x e)
    then have "T d e" using round by simp
    then show ?thesis using Throw d by (simp add: PosixUtcInMilliseconds_def T_more)
  qed (use d in \<open>simp add: PosixUtcInMilliseconds_def T_more\<close>)
qed simp

lemma ExecuteInternal_keeps:
  assumes "\<And>f d. run_prop (T d) (run f d)"
  shows "run_prop (T d) (ExecuteInternal run cfuel n a d)"
  unfolding ExecuteInternal_def
proof (rule bind[OF after[OF _ internal_loop_keeps[OF assms]]])
  show "T d (sleep_until_due a d)" by (rule T_more) (simp add: sleep_until_due_def)
  fix thrown e
  have "run_prop (T e) (ScheduleNextExecution (if NeedsReset e then Reset e else e))"
    using after[OF Reset_keeps ScheduleNextExecution_keeps, of e] ScheduleNextExecution_keeps[of e] by simp
  then have "run_prop (T e) (case ScheduleNextExecution (if NeedsReset e then Reset e else e) of
      Ret x d2 \<Rightarrow> set_promise (act_promise a) (Ready False) d2
    | Throw y d2 \<Rightarrow> Throw (if is_catchable y then Fatal Terminated else y) d2 | Diverge \<Rightarrow> Diverge)"
    by (cases "ScheduleNextExecution (if NeedsReset e then Reset e else e)") (simp_all add: after[OF _ set_promise_keeps])
  then show "run_prop (T e) (case thrown of Some y \<Rightarrow> set_promise (act_promise a) (Failed y) e
    | None \<Rightarrow> let executionWasCanceled = token_canceled (act_token a) e in
        if executionWasCanceled then set_promise (act_promise a) (Ready True) e
        else (case ScheduleNextExecution (if NeedsReset e then Reset e else e) of
                Ret x d2 \<Rightarrow> set_promise (act_promise a) (Ready False) d2
              | Throw y d2 \<Rightarrow> Throw (if is_catchable y then Fatal Terminated else y) d2 | Diverge \<Rightarrow> Diverge))"
    using set_promise_keeps by (cases thrown) (simp_all add: Let_def)
qed

lemma future_get_keeps:
  assumes "\<And>f d. run_prop (T d) (run f d)"
  shows "run_prop (T d) (future_get run cfuel n f d)"
proof -
  have "run_prop (T d) (run_bind (ExecuteInternal run cfuel n a (d\<lparr>threads := ts\<rparr>)) (\<lambda>_. take_result f))" for a ts
    by (rule bind[OF after[OF T_more ExecuteInternal_keeps[OF assms]] take_result_keeps]) simp
  then show ?thesis using take_result_keeps by (simp add: future_get_def split: option.split)
qed

lemma execute_rounds_keeps:
  assumes "\<And>f d. run_prop (T d) (run f d)"
  shows "run_prop (T d) (execute_rounds run cfuel m k n i f d)"
proof (induction n arbitrary: i f d)
  case (Suc n)
  have step: "run_prop (T d) (run_bind (future_get run cfuel m g d) (\<lambda>wasCanceled d1.
      if wasCanceled \<and> m_executionResult d1 = None then Ret () d1
      else execute_rounds run cfuel m k n (if k \<noteq> 0 then i + 1 else i) (m_executionResult d1) d1))" for g
    by (rule bind[OF future_get_keeps[OF assms]]) (simp add: Suc T_more)
  show ?case
  proof (cases "m_executionCancellationToken d")
    case (Some tok)
    show ?thesis
    proof (cases f)
      case (Some g)
      with \<open>m_executionCancellationToken d = Some tok\<close> step[of g] show ?thesis
        by (simp add: T_more cong: if_cong)
    qed (use Some in \<open>simp add: T_more\<close>)
  qed (simp add: T_more)
qed simp

lemma Execute_keeps:
  assumes "\<And>f d. run_prop (T d) (run f d)"
  shows "run_prop (T d) (Execute run cfuel n rounds k d)"
  unfolding Execute_def
  by (intro bind execute_rounds_keeps assms)
    (simp_all add: ScheduleNextExecution_keeps T_more split: option.split)

end

section \<open>The model\<close>

locale user_frame =
  fixes T :: "('e, 'u) world \<Rightarrow> ('e, 'u) world \<Rightarrow> bool"
  assumes trans: "T u v \<Longrightarrow> T v w \<Longrightarrow> T u w"
    and same_user: "userState w = userState v \<Longrightarrow> T v w"

sublocale user_frame \<subseteq> director_frame T
  by unfold_locales (auto intro: trans same_user world_of_more)

sublocale user_frame \<subseteq> reaction: reaction_frame T
  by unfold_locales (auto intro: trans same_user ScheduleCallback_keeps simp: quiet_def)

text \<open>The contract of user code.\<close>

definition code_keeps :: "(('e, 'u) world \<Rightarrow> ('e, 'u) world \<Rightarrow> bool) \<Rightarrow> ('e, 'u) user_code \<Rightarrow> bool" where
  "code_keeps T U \<longleftrightarrow> (\<forall>w. (\<forall>a. run_prop (T w) (u_initialize U a w)) \<and> (\<forall>a. run_prop (T w) (u_fire U a w)) \<and>
     (\<forall>h ev. run_prop (T w) (u_handler U h ev w)) \<and> (\<forall>f. run_prop (T w) (u_callback U f w)))"

context user_frame
begin

lemma reactions: "code_keeps T U \<Longrightarrow> reactions_keep T U"
  by (simp add: code_keeps_def reactions_keep_def)

lemmas with_keeps = reaction.with_keeps

lemma user_modify [simp]:
  "userState (modify_accessor a f w) = userState w" "userState (modify_composite a g w) = userState w"
  "userState (SetPriority a p w) = userState w" "userState (erase_handler a name i hs w) = userState w"
  by (simp_all add: modify_accessor_def modify_composite_def SetPriority_def erase_handler_def modify_atomic_def)

lemma after_same: "userState w' = userState w \<Longrightarrow> run_prop (T w') r \<Longrightarrow> run_prop (T w) r"
  using after same_user by blast

lemma Accessor_ScheduleCallback_keeps: "run_prop (T w) (Accessor_ScheduleCallback a f delay p w)"
  unfolding Accessor_ScheduleCallback_def
  by (intro with_keeps bind ScheduleCallback_keeps) (simp add: same_user)

lemma ComputeAccessorPriorities_keeps: "run_prop (T w) (ComputeAccessorPriorities k a upd w)"
proof -
  have accs: "run_prop (T w) (assign_accessors upd as p w)" for upd as p w
  proof (induction as arbitrary: p w)
    case (Cons b as)
    have "run_prop (T w) (assign_accessors upd as q (SetPriority b p w))" for q w
      by (rule after_same[OF _ Cons]) simp
    then show ?case
      unfolding assign_accessors.simps
      by (intro with_keeps bind) (simp_all add: HandlePriorityUpdate_keeps same_user)
  qed (simp add: same_user)
  have "run_prop (T w) (assign_depths upd es p w)" for es p w
    by (induction upd es p w rule: assign_depths.induct) (auto simp: same_user intro!: bind accs)
  then show ?thesis by (simp add: ComputeAccessorPriorities_def same_user split: run.split)
qed

lemma Initialize_keeps:
  assumes "code_keeps T U"
  shows "run_prop (T w) (Initialize U k a w)"
proof (induction k arbitrary: a w)
  case (Suc k)
  have init: "run_prop (T w) (u_initialize U a w)" for w using assms by (simp add: code_keeps_def)
  have "run_prop (T w) (each_child (Initialize U k) a bs cs (modify_accessor a f w))" for bs cs f w
    by (rule after_same[of "modify_accessor a f w"], simp, rule reaction.each_child_keeps, rule Suc)
  then show ?case
    unfolding Initialize.simps
    by (intro with_keeps bind init) (simp add: Let_def same_user split: accessor_kind.split)
qed simp

lemma initialize_new_keeps: "code_keeps T U \<Longrightarrow> run_prop (T w) (initialize_new U k b w)"
  unfolding initialize_new_def by (intro with_keeps) (simp add: same_user Initialize_keeps)

lemma update_model_keeps: "code_keeps T U \<Longrightarrow> run_prop (T w) (update_model U k a w)"
  unfolding update_model_def
  by (intro bind ComputeAccessorPriorities_keeps with_keeps initialize_new_keeps)

lemma run_callback_keeps: "code_keeps T U \<Longrightarrow> run_prop (T w) (run_callback U levels n k f w)"
  by (cases f) (simp_all add: reaction.send_output_keeps reaction.ProcessChildEventQueue_keeps reactions update_model_keeps code_keeps_def)

lemma Execute_callbacks_keeps:
  "code_keeps T U \<Longrightarrow> run_prop (T w) (Execute (run_callback U levels n k) cfuel m rounds i w)"
  by (rule Execute_keeps) (rule run_callback_keeps)

end

text \<open>The strictest instance: user code that leaves the user's state alone.\<close>

interpretation untouched: user_frame "\<lambda>v w. userState w = userState v"
  by unfold_locales simp_all

end
