(* ===== verification/HostRefinement.thy ===== *)
theory HostRefinement
  imports HostThreads HostListeners UserState
begin

text \<open>
  The operations of \<open>HostStates\<close> implement the step relation of \<open>HostThreads\<close>: whatever the
  model, its user code and its listeners do (they may call the host in turn), each call of the
  host is a path of the relation, and so is the body of a thread that \<open>Run\<close> started.
\<close>

section \<open>Paths under a call\<close>

definition config_of :: "('e, 'u host) world \<Rightarrow> place multiset \<Rightarrow> config" where
  "config_of w M = (GetState w, replicate_mset (hostThreads (userState w)) (Check1 (Drive True)) + M)"

definition moves_to :: "place list \<Rightarrow> ('e, 'u host) world \<Rightarrow> place list \<Rightarrow> ('e, 'u host) world \<Rightarrow> bool" where
  "moves_to p w q w' \<longleftrightarrow> (\<forall>M. Aborted \<notin># M \<longrightarrow>
     (host_step True)\<^sup>*\<^sup>* (config_of w (mset p + M)) (config_of w' (mset q + M)))"

definition host_calls :: "('e, 'u host) world \<Rightarrow> ('e, 'u host) world \<Rightarrow> bool" where
  "host_calls w w' \<longleftrightarrow> moves_to [] w [] w'"

lemma moves_refl: "userState w' = userState w \<Longrightarrow> moves_to p w p w'"
  by (simp add: moves_to_def config_of_def GetState_def)

lemma moves_trans: "moves_to p u q v \<Longrightarrow> moves_to q v r w \<Longrightarrow> moves_to p u r w"
  unfolding moves_to_def by (meson rtranclp_trans)

lemma moves_frame:
  assumes "host_calls w w'" and "Aborted \<notin> set p"
  shows "moves_to p w p w'"
  unfolding moves_to_def
proof (intro allI impI)
  fix M :: "place multiset" assume "Aborted \<notin># M"
  then have "Aborted \<notin># mset p + M" using assms(2) by simp
  then show "(host_step True)\<^sup>*\<^sup>* (config_of w (mset p + M)) (config_of w' (mset p + M))"
    using assms(1) by (simp add: host_calls_def moves_to_def)
qed

interpretation calls: user_frame host_calls
proof
  fix u v w :: "('e, 'u host) world"
  show "host_calls u v \<Longrightarrow> host_calls v w \<Longrightarrow> host_calls u w" unfolding host_calls_def by (rule moves_trans)
  show "userState w = userState v \<Longrightarrow> host_calls v w" unfolding host_calls_def by (rule moves_refl)
qed

lemma moves_step:
  assumes "place_step True (GetState w) p (GetState w') ps"
    and "hostThreads (userState w') = hostThreads (userState w)"
  shows "moves_to [p] w ps w'"
  unfolding moves_to_def
proof (intro allI impI)
  fix M :: "place multiset" assume M: "Aborted \<notin># M"
  let ?N = "replicate_mset (hostThreads (userState w)) (Check1 (Drive True)) + M"
  have "Aborted \<notin># ?N" using M by simp
  from step_on[OF assms(1) this] show "(host_step True)\<^sup>*\<^sup>* (config_of w (mset [p] + M)) (config_of w' (mset ps + M))"
    by (simp add: config_of_def assms(2) ac_simps)
qed

lemma moves_call: "p \<in> entries_of_calls \<Longrightarrow> moves_to [] w [p] w"
  unfolding moves_to_def config_of_def
  by (auto intro!: r_into_rtranclp host_step.call split: if_splits)

text \<open>A run that starts at \<open>p\<close> is at \<open>q\<close> when it returns and at \<open>z\<close> when it throws.\<close>

fun run_moves :: "place list \<Rightarrow> place list \<Rightarrow> ('e, 'u host) world \<Rightarrow> place list \<Rightarrow> ('a, ('e, 'u host) world) run \<Rightarrow> bool" where
  "run_moves z p w q (Ret x w') = moves_to p w q w'"
| "run_moves z p w q (Throw e w') = moves_to p w z w'"
| "run_moves z p w q Diverge = True"

lemma run_moves_bind:
  assumes "run_moves z p w q r" and "\<And>x w'. run_moves z q w' q' (f x w')"
  shows "run_moves z p w q' (run_bind r f)"
proof (cases r)
  case (Ret x w')
  then have "moves_to p w q w'" using assms(1) by simp
  then show ?thesis using Ret assms(2)[of w' x] by (cases "f x w'") (auto intro: moves_trans)
qed (use assms(1) in simp_all)

lemma run_moves_after: "moves_to p w p' w' \<Longrightarrow> run_moves z p' w' q r \<Longrightarrow> run_moves z p w q r"
  by (cases r) (auto intro: moves_trans)

lemma run_moves_calls: "run_moves [] [] w [] r \<longleftrightarrow> run_prop (host_calls w) r"
  by (cases r) (simp_all add: host_calls_def)

text \<open>User code at a place that a throw can abandon.\<close>

lemma run_moves_user:
  assumes "run_prop (host_calls w) r" and "p \<noteq> Aborted" and "\<And>s. place_step True s p s z"
  shows "run_moves z [p] w [p] r"
proof -
  have gone: "moves_to [p] w' z w'" for w' :: "('e, 'u host) world" by (rule moves_step) (use assms(3) in simp_all)
  have here: "moves_to [p] w [p] w'" if "host_calls w w'" for w' using that assms(2) by (simp add: moves_frame)
  show ?thesis using assms(1) by (cases r) (auto intro: here moves_trans gone)
qed

section \<open>Listeners\<close>

text \<open>The contract of a host's user code: it calls the host, at most.\<close>

definition host_code_ok :: "('e, 'u) host_code \<Rightarrow> bool" where
  "host_code_ok C \<longleftrightarrow> code_keeps host_calls (h_user C) \<and>
     (\<forall>l n w. run_prop (host_calls w) (h_listener C l n w)) \<and> (\<forall>w. run_prop (host_calls w) (h_additionalSetup C w))"

lemma host_calls_own: "m_state (f (userState w)) = m_state (userState w) \<Longrightarrow>
    hostThreads (f (userState w)) = hostThreads (userState w) \<Longrightarrow> host_calls w (modify_host f w)"
  by (simp add: host_calls_def moves_to_def config_of_def GetState_def modify_host_def)

lemma notify_calls:
  assumes "host_code_ok C"
  shows "run_prop (host_calls w) (notify_loop C notice n it w)"
proof (induction n arbitrary: it w)
  case (Suc n)
  have erase: "host_calls v (modify_host (\<lambda>h. h\<lparr>m_listeners := smap_erase i (m_listeners h)\<rparr>) v)"
    for v :: "('e, 'u host) world" and i
    by (rule host_calls_own) simp_all
  show ?case
  proof (cases "\<exists>i l. it = Some i \<and> map_of (m_listeners (userState w)) i = Some l")
    case True
    then obtain i l where it: "it = Some i" "map_of (m_listeners (userState w)) i = Some l" by blast
    have "run_prop (host_calls w) (h_listener C l notice w)" using assms by (simp add: host_code_ok_def)
    then show ?thesis using it erase
      by (cases "h_listener C l notice w")
        (auto simp: Let_def calls.same_user intro: calls.after[OF _ Suc] calls.trans[OF _ erase])
  next
    case False
    then show ?thesis by (cases it) (auto simp: calls.same_user split: option.split)
  qed
qed simp

section \<open>The calls\<close>

lemma SetState_moves:
  assumes "host_code_ok C" and "\<And>s. place_step True s p newState [q]"
    and "\<And>s. place_step True s q s z" and "q \<noteq> Aborted"
  shows "run_moves z [p] w [q] (SetState C n newState w)"
proof -
  have first: "moves_to [p] w [q] (store_state newState w)"
    by (rule moves_step) (simp_all add: assms(2) store_state_def modify_host_def GetState_def)
  have "run_moves z [q] (store_state newState w) [q]
      (NotifyListenersOfStateChange C n (GetState w) newState (store_state newState w))"
    unfolding NotifyListenersOfStateChange_def
    by (rule run_moves_user[OF notify_calls[OF assms(1)] assms(4) assms(3)])
  from run_moves_after[OF first this] first show ?thesis by (simp add: SetState_def Let_def)
qed

lemma SetState_last:
  assumes "host_code_ok C" and "\<And>s. place_step True s p newState []"
  shows "run_moves [] [p] w [] (SetState C n newState w)"
proof -
  have first: "moves_to [p] w [] (store_state newState w)"
    by (rule moves_step) (simp_all add: assms(2) store_state_def modify_host_def GetState_def)
  have "run_moves [] [] (store_state newState w) []
      (NotifyListenersOfStateChange C n (GetState w) newState (store_state newState w))"
    unfolding NotifyListenersOfStateChange_def run_moves_calls by (rule notify_calls[OF assms(1)])
  from run_moves_after[OF first this] first show ?thesis by (simp add: SetState_def Let_def)
qed

lemma ValidateHostCanRun_moves:
  "run_moves (thrown g) [Check1 g] w [Go g] (ValidateHostCanRun w)"
proof -
  have "moves_to [Check1 g] w [Go g] w" if "GetState w = ReadyToRun \<or> GetState w = Paused"
    unfolding moves_to_def config_of_def
    by (auto simp: ac_simps intro!: validate_passes[OF that] split: if_splits)
  moreover have "moves_to [Check1 g] w (thrown g) w" if "GetState w \<noteq> ReadyToRun" "GetState w \<noteq> Paused"
    unfolding moves_to_def config_of_def
    using validate_throws[OF that, of "replicate_mset (hostThreads (userState w)) (Check1 (Drive True)) + M" for M]
    by (auto simp: ac_simps split: if_splits)
  ultimately show ?thesis by (auto simp: ValidateHostCanRun_def)
qed

lemma execute_director_moves:
  assumes "host_code_ok C"
  shows "run_moves (thrown (Drive t)) [Go (Drive t)] w [] (execute_director C b k w)"
proof -
  let ?z = "thrown (Drive t)"
  let ?run = "\<lambda>w. Execute (run_callback (h_user C) (b_levels b) (b_ports b) (b_tree b))
      (b_callbacks b) (b_internal b) (b_rounds b) k w"
  have foreign: "place_step True s q s ?z" if "q \<in> {Work t, Leave t, Departed t}" for s q
    using that work_foreign[of True s t] leave_foreign[of True s t] departed_foreign[of True s t] by auto
  have paused: "run_moves ?z [Leave t] w [] (SetState C n Paused w)" for w n
  proof -
    have "run_moves ?z [Leave t] w [Departed t] (SetState C n Paused w)"
      by (rule SetState_moves[OF assms leave]) (simp_all add: foreign)
    moreover have "moves_to [Departed t] w' [] w'" for w' :: "('e, 'u host) world"
      by (rule moves_step[OF departed]) simp
    ultimately show ?thesis by (cases "SetState C n Paused w") (auto intro: moves_trans)
  qed
  have "run_moves ?z [Work t] w [] (case ?run w of
         Diverge \<Rightarrow> Diverge
       | Ret _ w \<Rightarrow> SetState C n Paused w
       | Throw e w \<Rightarrow>
           if is_std_exception e
           then run_bind (NotifyListenersOfException C n e (store_state Corrupted w)) (\<lambda>_. SetState C n Paused)
           else Throw e w)" for w n
  proof -
    have run: "run_prop (host_calls w) (?run w)"
      by (rule calls.Execute_callbacks_keeps) (use assms in \<open>simp add: host_code_ok_def\<close>)
    show ?thesis
    proof (cases "?run w")
      case (Ret u v)
      then have "moves_to [Work t] w [Work t] v" using run by (simp add: moves_frame)
      moreover have "moves_to [Work t] v [Leave t] v" by (rule moves_step[OF worked]) simp
      ultimately have "moves_to [Work t] w [Leave t] v" by (rule moves_trans)
      from run_moves_after[OF this paused] show ?thesis using Ret by simp
    next
      case (Throw e v)
      then have here: "moves_to [Work t] w [Work t] v" using run by (simp add: moves_frame)
      have gone: "moves_to [Work t] v ?z v" by (rule moves_step) (simp_all add: foreign)
      have "moves_to [Work t] v [Corrupt t] v" by (rule moves_step[OF work_threw]) simp
      moreover have "moves_to [Corrupt t] v [Leave t] (store_state Corrupted v)"
        by (rule moves_step) (simp_all add: corrupt store_state_def modify_host_def GetState_def)
      ultimately have stored: "moves_to [Work t] w [Leave t] (store_state Corrupted v)"
        using here moves_trans by blast
      have "run_moves ?z [Leave t] (store_state Corrupted v) [Leave t]
          (NotifyListenersOfException C n e (store_state Corrupted v))"
        unfolding NotifyListenersOfException_def
        by (rule run_moves_user[OF notify_calls[OF assms]]) (simp_all add: foreign)
      then have "run_moves ?z [Work t] w []
          (run_bind (NotifyListenersOfException C n e (store_state Corrupted v)) (\<lambda>_. SetState C n Paused))"
        by (rule run_moves_after[OF stored run_moves_bind]) (rule paused)
      then show ?thesis using Throw moves_trans[OF here gone] by simp
    qed simp
  qed
  then show ?thesis
    unfolding execute_director_def
    by (intro run_moves_bind[OF SetState_moves[OF assms enter]]) (simp_all add: foreign)
qed

lemma ends_call: "run_moves [] [p] w [] r \<Longrightarrow> p \<in> entries_of_calls \<Longrightarrow> run_prop (host_calls w) r"
  using run_moves_after[OF moves_call] run_moves_calls by blast

lemma Setup_calls:
  assumes "host_code_ok C"
  shows "run_prop (host_calls w) (Setup C b h w)"
proof (rule ends_call)
  have work: "run_moves [] [SetupWork] w [SetupWork] r" if "run_prop (host_calls w) r" for w and r :: "(unit, ('e, 'u host) world) run"
    by (rule run_moves_user[OF that]) (simp_all add: setup_failed)
  have ok: "code_keeps host_calls (h_user C)" and add: "run_prop (host_calls w) (h_additionalSetup C w)" for w
    using assms by (simp_all add: host_code_ok_def)
  have worked: "moves_to [SetupWork] w [SetupLeave] w" for w :: "('e, 'u host) world"
    by (rule moves_step[OF setup_worked]) simp
  have all: "run_moves [] [SetupWork] w [] (run_bind (h_additionalSetup C w) (\<lambda>_ w.
      run_bind (ComputeAccessorPriorities (b_tree b) h False w) (\<lambda>_ w.
      run_bind (Initialize (h_user C) (b_tree b) h w) (\<lambda>_. SetState C (b_listeners b) ReadyToRun))))" for w
    by (intro run_moves_bind[OF work[OF add]] run_moves_bind[OF work[OF calls.ComputeAccessorPriorities_keeps]]
        run_moves_bind[OF work[OF calls.Initialize_keeps[OF ok]]]
        run_moves_after[OF worked SetState_last[OF assms setup_leave]])
  have "run_moves [] [SetupEnter] w [] (run_bind (SetState C (b_listeners b) SettingUp w) (\<lambda>_ w.
      run_bind (h_additionalSetup C w) (\<lambda>_ w.
      run_bind (ComputeAccessorPriorities (b_tree b) h False w) (\<lambda>_ w.
      run_bind (Initialize (h_user C) (b_tree b) h w) (\<lambda>_. SetState C (b_listeners b) ReadyToRun)))))" for w
    by (rule run_moves_bind[OF SetState_moves[OF assms setup_enter setup_failed] all]) simp
  from run_moves_after[OF moves_step this, of w] have
    "GetState w = NeedsSetup \<Longrightarrow> run_moves [] [SetupCheck] w [] (Setup C b h w)"
    by (simp add: Setup_def setup_checked)
  moreover have "GetState w \<noteq> NeedsSetup \<Longrightarrow> run_moves [] [SetupCheck] w [] (Setup C b h w)"
    by (simp add: Setup_def moves_step setup_refused)
  ultimately show "run_moves [] [SetupCheck] w [] (Setup C b h w)" by blast
qed (simp add: entries_of_calls_def)

lemma execute_moves:
  assumes "host_code_ok C"
  shows "run_moves (thrown (Drive t)) [Check1 (Drive t)] w []
    (run_bind (ValidateHostCanRun w) (\<lambda>_. execute_director C b k))"
  by (rule run_moves_bind[OF ValidateHostCanRun_moves execute_director_moves[OF assms]])

lemma Iterate_calls: "host_code_ok C \<Longrightarrow> run_prop (host_calls w) (Iterate C b k w)"
  unfolding Iterate_def using execute_moves[of C False]
  by (intro ends_call[of "Check1 (Drive False)"]) (simp_all add: entries_of_calls_def)

lemma RunOnCurrentThread_calls: "host_code_ok C \<Longrightarrow> run_prop (host_calls w) (RunOnCurrentThread C b w)"
  unfolding RunOnCurrentThread_def using execute_moves[of C False]
  by (intro ends_call[of "Check1 (Drive False)"]) (simp_all add: entries_of_calls_def)

lemma Pause_calls:
  assumes "host_code_ok C"
  shows "run_prop (host_calls w) (Pause C b w)"
proof (rule ends_call)
  let ?v = "StopExecution w"
  have v: "userState ?v = userState w" by (rule world_of_more) simp
  show "run_moves [] [PauseCheck] w [] (Pause C b w)"
  proof (cases "GetState w = Running")
    case True
    have "moves_to [PauseCheck] w [PauseStop] w" by (rule moves_step) (simp_all add: True pause_checked)
    moreover have "moves_to [PauseStop] w [PauseSet] ?v" by (rule moves_step) (simp_all add: v GetState_def pause_stop)
    ultimately have "moves_to [PauseCheck] w [PauseSet] ?v" by (rule moves_trans)
    from run_moves_after[OF this SetState_last[OF assms pause_set]] show ?thesis by (simp add: Pause_def True)
  next
    case False
    then show ?thesis by (simp add: Pause_def moves_step pause_refused)
  qed
qed (simp add: entries_of_calls_def)

lemma Exit_calls:
  fixes w :: "('e, 'u host) world"
  assumes "host_code_ok C"
  shows "run_prop (host_calls w) (Exit C b w)"
  unfolding Exit_def
proof (rule ends_call, rule run_moves_bind)
  show "run_moves [] [ExitEnter] w [ExitStop] (SetState C (b_listeners b) Exiting w)"
    by (rule SetState_moves[OF assms exit_enter exit_foreign]) simp_all
next
  fix u and w :: "('e, 'u host) world"
  let ?v = "StopExecution w"
  have v: "userState ?v = userState w" by (rule world_of_more) simp
  have "moves_to [ExitStop] w [ExitSet] ?v" by (rule moves_step) (simp_all add: v GetState_def exit_stop)
  then show "run_moves [] [ExitStop] w [] (SetState C (b_listeners b) Finished ?v)"
    by (rule run_moves_after[OF _ SetState_last[OF assms exit_set]])
qed (simp add: entries_of_calls_def)

lemma Run_calls: "run_prop (host_calls w) (Run w)"
  unfolding Run_def
proof (rule ends_call, rule run_moves_bind)
  show "run_moves [] [Check1 Spawn] w [Go Spawn] (ValidateHostCanRun w)"
    using ValidateHostCanRun_moves[of Spawn w] by simp
next
  fix u and w :: "('e, 'u host) world"
  obtain started os where s: "spawn_thread (spawnOutcomes w) = (started, os)" by (cases "spawn_thread (spawnOutcomes w)")
  have "moves_to [Go Spawn] w [] (w\<lparr>spawnOutcomes := os\<rparr>)"
    by (rule moves_step) (simp_all add: GetState_def spawn_failed)
  moreover have "moves_to [Go Spawn] w [] (modify_host (\<lambda>h. h\<lparr>hostThreads := Suc (hostThreads h)\<rparr>) (w\<lparr>spawnOutcomes := os\<rparr>))"
    unfolding moves_to_def
  proof (intro allI impI)
    fix M :: "place multiset" assume "Aborted \<notin># M"
    then have "Aborted \<notin># replicate_mset (hostThreads (userState w)) (Check1 (Drive True)) + M" by simp
    from step_on[OF spawn this, of True "GetState w"] show "(host_step True)\<^sup>*\<^sup>* (config_of w (mset [Go Spawn] + M))
        (config_of (modify_host (\<lambda>h. h\<lparr>hostThreads := Suc (hostThreads h)\<rparr>) (w\<lparr>spawnOutcomes := os\<rparr>)) (mset [] + M))"
      by (simp add: config_of_def GetState_def modify_host_def)
  qed
  ultimately show "run_moves [] [Go Spawn] w [] (let (started, os) = spawn_thread (spawnOutcomes w);
      w1 = w\<lparr>spawnOutcomes := os\<rparr> in
      if started then Ret () (modify_host (\<lambda>h. h\<lparr>hostThreads := Suc (hostThreads h)\<rparr>) w1) else Throw SystemError w1)"
    by (simp add: s Let_def)
qed (simp add: entries_of_calls_def)

lemma host_thread_moves:
  assumes "host_code_ok C" and "0 < hostThreads (userState w)"
  shows "run_moves [Aborted] [] w [] (host_thread C b w)"
proof -
  let ?v = "modify_host (\<lambda>h. h\<lparr>hostThreads := hostThreads h - 1\<rparr>) w"
  obtain n where n: "hostThreads (userState w) = Suc n" using assms(2) by (cases "hostThreads (userState w)") simp_all
  have "moves_to [] w [Check1 (Drive True)] ?v"
    by (simp add: moves_to_def config_of_def GetState_def modify_host_def n)
  from run_moves_after[OF this, of "[Aborted]" "[]" "RunOnCurrentThread C b ?v"] execute_moves[OF assms(1), of True]
  have "run_moves [Aborted] [] w [] (RunOnCurrentThread C b ?v)" by (simp add: RunOnCurrentThread_def)
  then show ?thesis
    by (cases "RunOnCurrentThread C b ?v") (simp_all add: host_thread_def noexcept_run_def)
qed

section \<open>Refinement\<close>

datatype host_call =
  CallSetup | CallIterate int | CallPause | CallRun | CallRunOnCurrentThread | CallExit

fun perform :: "('e, 'u) host_code \<Rightarrow> bounds \<Rightarrow> nat \<Rightarrow> host_call \<Rightarrow> (unit, 'e, 'u) host_op" where
  "perform C b h CallSetup = Setup C b h"
| "perform C b h (CallIterate k) = Iterate C b k"
| "perform C b h CallPause = Pause C b"
| "perform C b h CallRun = Run"
| "perform C b h CallRunOnCurrentThread = RunOnCurrentThread C b"
| "perform C b h CallExit = Exit C b"

lemma perform_calls: "host_code_ok C \<Longrightarrow> run_prop (host_calls w) (perform C b h c w)"
  by (cases c) (simp_all add: Setup_calls Iterate_calls Pause_calls Run_calls RunOnCurrentThread_calls Exit_calls)

text \<open>
  C10. The calls of the host implement the step relation. If the user's code and the listeners do
  nothing to the host but call it, then every call, however it ends, is a path from the
  configuration of the state before to that of the state after, whatever other threads are
  inside calls; and a thread that \<open>Run\<close> started is such a path, ending in an aborted program if
  an exception leaves it.
\<close>

theorem host_calls_refine:
  assumes "host_code_ok C"
  shows "(\<forall>M. Aborted \<notin># M \<longrightarrow> run_prop (\<lambda>w'. (host_step True)\<^sup>*\<^sup>* (config_of w M) (config_of w' M)) (perform C b h c w)) \<and>
    (\<forall>M. Aborted \<notin># M \<and> 0 < hostThreads (userState w) \<longrightarrow>
       (case host_thread C b w of
          Ret _ w' \<Rightarrow> (host_step True)\<^sup>*\<^sup>* (config_of w M) (config_of w' M)
        | Throw _ w' \<Rightarrow> (host_step True)\<^sup>*\<^sup>* (config_of w M) (config_of w' (add_mset Aborted M))
        | Diverge \<Rightarrow> True))"
proof (intro conjI allI impI)
  fix M :: "place multiset" assume M: "Aborted \<notin># M"
  show "run_prop (\<lambda>w'. (host_step True)\<^sup>*\<^sup>* (config_of w M) (config_of w' M)) (perform C b h c w)"
    using perform_calls[OF assms, of w b h c] by (rule run_prop_mono) (use M in \<open>simp add: host_calls_def moves_to_def\<close>)
next
  fix M :: "place multiset" assume M: "Aborted \<notin># M \<and> 0 < hostThreads (userState w)"
  then show "case host_thread C b w of
          Ret _ w' \<Rightarrow> (host_step True)\<^sup>*\<^sup>* (config_of w M) (config_of w' M)
        | Throw _ w' \<Rightarrow> (host_step True)\<^sup>*\<^sup>* (config_of w M) (config_of w' (add_mset Aborted M))
        | Diverge \<Rightarrow> True"
    using host_thread_moves[OF assms, of w b] by (cases "host_thread C b w") (simp_all add: moves_to_def)
qed

text \<open>A host whose listener pauses it as soon as it runs.\<close>

definition no_user_code :: "('e, 'u) user_code" where
  "no_user_code = \<lparr>u_initialize = \<lambda>_. Ret (), u_fire = \<lambda>_. Ret (), u_handler = \<lambda>_ _. Ret (), u_callback = \<lambda>_. Ret ()\<rparr>"

definition silent_code :: "('e, 'u) host_code" where
  "silent_code = \<lparr>h_user = no_user_code, h_listener = \<lambda>_ _. Ret (), h_additionalSetup = Ret ()\<rparr>"

definition small_bounds :: bounds where
  "small_bounds = \<lparr>b_levels = 3, b_ports = 3, b_tree = 3, b_callbacks = 3, b_internal = 3, b_rounds = 3, b_listeners = 3\<rparr>"

definition pausing_code :: "('e, 'u) host_code" where
  "pausing_code = silent_code\<lparr>h_listener := \<lambda>l notice w.
     if notice = NotifyOfStateChange ReadyToRun Running then Pause silent_code small_bounds w else Ret () w\<rparr>"

lemma silent_code_ok: "host_code_ok silent_code"
  by (simp add: host_code_ok_def silent_code_def code_keeps_def no_user_code_def calls.same_user)

lemma pausing_code_ok: "host_code_ok (pausing_code :: ('e, 'u) host_code)"
proof -
  have "run_prop (host_calls w) (Pause silent_code b w)" for b and w :: "('e, 'u host) world"
    by (rule Pause_calls[OF silent_code_ok])
  moreover have "host_code_ok (silent_code :: ('e, 'u) host_code)" by (rule silent_code_ok)
  ultimately show ?thesis by (simp add: host_code_ok_def pausing_code_def calls.same_user)
qed

lemma host_calls_refine_witness:
  "run_prop (\<lambda>w'. (host_step True)\<^sup>*\<^sup>* (config_of ready_host {#PauseCheck#}) (config_of w' {#PauseCheck#}))
     (perform pausing_code small_bounds 8 (CallIterate 1) ready_host)"
proof -
  have "Aborted \<notin># {#PauseCheck#}" by simp
  then show ?thesis using host_calls_refine[OF pausing_code_ok, of ready_host small_bounds 8 "CallIterate 1"] by blast
qed

section \<open>A host is set up once\<close>

text \<open>A client that makes one call after the other and catches what they throw.\<close>

fun attempts :: "('e, 'u) host_code \<Rightarrow> bounds \<Rightarrow> nat \<Rightarrow> host_call list \<Rightarrow> ('e, 'u host) world \<Rightarrow> ('e, 'u host) world option" where
  "attempts C b h [] w = Some w"
| "attempts C b h (c # cs) w =
     (case perform C b h c w of
        Ret _ w1 \<Rightarrow> attempts C b h cs w1
      | Throw e w1 \<Rightarrow> if is_catchable e then attempts C b h cs w1 else None
      | Diverge \<Rightarrow> None)"

fun_cases attempts_ConsE: "attempts C b h (c # cs) w = Some w'"

lemma attempts_calls:
  "host_code_ok C \<Longrightarrow> attempts C b h cs w = Some w' \<Longrightarrow> host_calls w w'"
proof (induction cs arbitrary: w)
  case Nil
  then show ?case by (simp add: calls.same_user)
next
  case (Cons c cs)
  show ?case
    using Cons.prems(2) perform_calls[OF Cons.prems(1), of w b h c] Cons.IH[OF Cons.prems(1)]
    by (auto elim!: attempts_ConsE intro: calls.trans split: run.splits if_splits)
qed

lemma thread_keeps_set_up: "thread_step F c d \<Longrightarrow> fst c \<noteq> NeedsSetup \<Longrightarrow> fst d \<noteq> NeedsSetup"
  by (induction rule: thread_step.induct) auto

lemma steps_keep_set_up: "(host_step F)\<^sup>*\<^sup>* c d \<Longrightarrow> fst c \<noteq> NeedsSetup \<Longrightarrow> fst d \<noteq> NeedsSetup"
proof (induction rule: rtranclp_induct)
  case (step d e)
  from step(2) show ?case
  proof cases
    case call
    then show ?thesis using step by simp
  next
    case thread
    then show ?thesis using thread_keeps_set_up step by blast
  qed
qed

text \<open>
  C29. A host is set up at most once: once its state has changed, then after any further calls
  that a client makes, failing ones included, \<open>Setup\<close> throws and changes nothing. A failed
  \<open>Setup\<close> is final: the host stays unusable.
\<close>

theorem set_up_once:
  assumes "host_code_ok C" and "GetState w \<noteq> NeedsSetup" and "attempts C b h cs w = Some w'"
  shows "Setup C b h w' = Throw HostDoesNotNeedSetup w'"
proof -
  have "host_calls w w'" using attempts_calls[OF assms(1,3)] .
  then have "(host_step True)\<^sup>*\<^sup>* (config_of w {#}) (config_of w' {#})" by (simp add: host_calls_def moves_to_def)
  from steps_keep_set_up[OF this] assms(2) have "GetState w' \<noteq> NeedsSetup" by (simp add: config_of_def)
  then show ?thesis by (simp add: Setup_def)
qed

lemma set_up_once_witness:
  "attempts silent_code small_bounds 8 [CallPause] ready_host = Some ready_host \<and>
   Setup silent_code small_bounds 8 ready_host = Throw HostDoesNotNeedSetup ready_host"
proof -
  have "attempts silent_code small_bounds 8 [CallPause] ready_host = Some ready_host" and "GetState ready_host \<noteq> NeedsSetup"
    by (simp_all add: Pause_def GetState_def ready_host_def dstate.extend_def)
  then show ?thesis using set_up_once[OF silent_code_ok] by blast
qed

end
