(* ===== verification/Facade.thy ===== *)
theory Facade
  imports Runtime Hypervisor HostRefinement
begin

text \<open>
  The public classes of \<open>src/src/Accessor.cpp\<close> and \<open>src/src/Host.cpp\<close>: what a derived class or a
  client can ask for, one constructor per method, and what each call does, which is to forward to
  the implementation. The cast to \<open>CompositeAccessor::Impl\<close> or \<open>AtomicAccessor::Impl\<close> is not
  checked: on an object of another class it is undefined behaviour. The main result is that no
  sequence of calls, errors included, breaks the names and ports of a model.
\<close>

section \<open>Accessors\<close>

text \<open>The constructors. \<open>AtomicAccessor\<close> always hands over its \<open>Fire\<close>, which may do nothing.\<close>

definition new_composite :: "nat \<Rightarrow> string \<Rightarrow> string list \<Rightarrow> string list \<Rightarrow> (unit, 'e, 'u) op" where
  "new_composite a name inputPortNames outputPortNames =
     CompositeAccessor_construct a name False inputPortNames outputPortNames"

definition new_atomic ::
  "nat \<Rightarrow> string \<Rightarrow> string list \<Rightarrow> string list \<Rightarrow> string list \<Rightarrow> (string, nat list) smap \<Rightarrow> (unit, 'e, 'u) op" where
  "new_atomic a name inputPortNames outputPortNames spontaneousOutputPortNames inputHandlers =
     AtomicAccessor_construct a name inputPortNames outputPortNames spontaneousOutputPortNames inputHandlers True"

datatype 'e answer = Done | Identifier int | Flag bool | Name string | Latest "'e option"

definition silent :: "(unit, 'e, 'u) op \<Rightarrow> ('e answer, 'e, 'u) op" where
  "silent f w = run_bind (f w) (\<lambda>_. Ret Done)"

datatype 'e accessor_call =
    CallGetName
  | CallNameIsValid string
  | CallScheduleCallback nat int bool
  | CallClearScheduledCallback int
  | CallClearAllScheduledCallbacks
  | CallNewPortNameIsValid string
  | CallAddInputPort string
  | CallAddInputPorts "string list"
  | CallAddOutputPort string
  | CallAddOutputPorts "string list"
  | CallConnectMyInputToMyOutput string string
  | CallConnectMyOutputToMyInput string string
  | CallGetLatestInput string
  | CallSendOutput string "'e option"

fun accessor_api :: "nat \<Rightarrow> 'e accessor_call \<Rightarrow> ('e answer, 'e, 'u) op" where
  "accessor_api a CallGetName = with_accessor a (\<lambda>x. Ret (Name (m_name x)))"
| "accessor_api a (CallNameIsValid name) = Ret (Flag (NameIsValid name))"
| "accessor_api a (CallScheduleCallback f delay repeat) =
     (\<lambda>w. run_bind (Accessor_ScheduleCallback a (UserCallback f) delay repeat w) (\<lambda>i. Ret (Identifier i)))"
| "accessor_api a (CallClearScheduledCallback i) = silent (Accessor_ClearScheduledCallback a i)"
| "accessor_api a CallClearAllScheduledCallbacks = silent (ClearAllScheduledCallbacks a)"
| "accessor_api a (CallNewPortNameIsValid name) = with_accessor a (\<lambda>x. Ret (Flag (NewPortNameIsValid name x)))"
| "accessor_api a (CallAddInputPort name) = silent (AddInputPort a name)"
| "accessor_api a (CallAddInputPorts names) = silent (AddInputPorts a names)"
| "accessor_api a (CallAddOutputPort name) = silent (AddOutputPort a name)"
| "accessor_api a (CallAddOutputPorts names) = silent (AddOutputPorts a names)"
| "accessor_api a (CallConnectMyInputToMyOutput i out) = silent (ConnectMyInputToMyOutput a i out)"
| "accessor_api a (CallConnectMyOutputToMyInput out i) = silent (ConnectMyOutputToMyInput a out i)"
| "accessor_api a (CallGetLatestInput name) =
     (\<lambda>w. run_bind (Accessor_GetLatestInput a name w) (\<lambda>e. Ret (Latest e)))"
| "accessor_api a (CallSendOutput name out) = silent (SendOutput a name out)"

datatype composite_call =
    CallNewChildNameIsValid string
  | CallAddChild nat
  | CallRemoveChild string
  | CallRemoveAllChildren
  | CallConnectMyInputToChildInput string string string
  | CallConnectChildOutputToMyOutput string string string
  | CallConnectChildren string string string string
  | CallChildrenChanged

text \<open>\<open>n\<close> bounds the steps of a destruction and the depth of the tree.\<close>

fun composite_api :: "('e, 'u) user_code \<Rightarrow> nat \<Rightarrow> nat \<Rightarrow> composite_call \<Rightarrow> ('e answer, 'e, 'u) op" where
  "composite_api U n a (CallNewChildNameIsValid name) =
     with_composite a (\<lambda>x c. Ret (Flag (NewChildNameIsValid name x c)))"
| "composite_api U n a (CallAddChild b) = silent (AddChild n a b)"
| "composite_api U n a (CallRemoveChild name) = silent (RemoveChild n a name)"
| "composite_api U n a CallRemoveAllChildren = silent (RemoveAllChildren n a)"
| "composite_api U n a (CallConnectMyInputToChildInput i child j) = silent (ConnectMyInputToChildInput a i child j)"
| "composite_api U n a (CallConnectChildOutputToMyOutput child out out') =
     silent (ConnectChildOutputToMyOutput a child out out')"
| "composite_api U n a (CallConnectChildren source out destination i) =
     silent (ConnectChildren a source out destination i)"
| "composite_api U n a CallChildrenChanged = silent (ChildrenChanged U n a)"

datatype atomic_call =
    CallAccessorStateDependsOn string
  | CallRemoveDependency string string
  | CallRemoveDependencies string "string list"
  | CallAddSpontaneousOutputPort string
  | CallAddSpontaneousOutputPorts "string list"
  | CallAddInputHandler string nat
  | CallAddInputHandlers string "nat list"

fun atomic_api :: "nat \<Rightarrow> atomic_call \<Rightarrow> ('e answer, 'e, 'u) op" where
  "atomic_api a (CallAccessorStateDependsOn i) = silent (AccessorStateDependsOn a i)"
| "atomic_api a (CallRemoveDependency i out) = silent (RemoveDependency a i out)"
| "atomic_api a (CallRemoveDependencies i outs) = silent (RemoveDependencies a i outs)"
| "atomic_api a (CallAddSpontaneousOutputPort name) = silent (AddSpontaneousOutputPort a name)"
| "atomic_api a (CallAddSpontaneousOutputPorts names) = silent (AddSpontaneousOutputPorts a names)"
| "atomic_api a (CallAddInputHandler i h) = silent (AddInputHandler a i h)"
| "atomic_api a (CallAddInputHandlers i hs) = silent (AddInputHandlers a i hs)"

section \<open>Hosts and the hypervisor\<close>

datatype host_answer = HostDone | ListenerId int | IsRegistered bool | StateIs host_state

datatype host_request =
    RequestGetState
  | RequestEventListenerIsRegistered int
  | RequestAddEventListener nat
  | RequestRemoveEventListener int
  | Request host_call

fun host_api :: "('e, 'u) host_code \<Rightarrow> bounds \<Rightarrow> nat \<Rightarrow> host_request \<Rightarrow> (host_answer, 'e, 'u) host_op" where
  "host_api C b h RequestGetState = (\<lambda>w. Ret (StateIs (GetState w)) w)"
| "host_api C b h (RequestEventListenerIsRegistered i) = (\<lambda>w. Ret (IsRegistered (EventListenerIsRegistered i w)) w)"
| "host_api C b h (RequestAddEventListener l) = (\<lambda>w. run_bind (AddEventListener l w) (\<lambda>i. Ret (ListenerId i)))"
| "host_api C b h (RequestRemoveEventListener i) = (\<lambda>w. run_bind (RemoveEventListener i w) (\<lambda>_. Ret HostDone))"
| "host_api C b h (Request c) = (\<lambda>w. run_bind (perform C b h c w) (\<lambda>_. Ret HostDone))"

datatype hypervisor_answer =
  HypervisorDone | HostId int | HostName string | HostStateIs host_state |
  HostNames "(int, string) smap" | HostStates "(int, host_state) smap"

datatype ('e, 'u) hypervisor_call =
    CallAddHost "('e, 'u) managed_host"
  | CallRemoveHost int
  | CallGetHostName int
  | CallGetHostState int
  | CallSetupHost int
  | CallPauseHost int
  | CallRunHost int
  | CallRemoveAllHosts
  | CallGetHostNames
  | CallGetHostStates
  | CallSetupHosts
  | CallPauseHosts
  | CallRunHosts
  | CallRunHostsOnCurrentThread

fun hypervisor_api :: "async \<Rightarrow> bounds \<Rightarrow> nat \<Rightarrow> ('e, 'u) hypervisor_call \<Rightarrow> (hypervisor_answer, 'e, 'u) hypervisor_op" where
  "hypervisor_api A b n (CallAddHost m) = (\<lambda>hv. run_bind (AddHost n m hv) (\<lambda>i. Ret (HostId i)))"
| "hypervisor_api A b n (CallRemoveHost i) = (\<lambda>hv. run_bind (RemoveHost n i hv) (\<lambda>_. Ret HypervisorDone))"
| "hypervisor_api A b n (CallGetHostName i) = (\<lambda>hv. run_bind (GetHostName i hv) (\<lambda>s. Ret (HostName s)))"
| "hypervisor_api A b n (CallGetHostState i) = (\<lambda>hv. run_bind (GetHostState i hv) (\<lambda>s. Ret (HostStateIs s)))"
| "hypervisor_api A b n (CallSetupHost i) = (\<lambda>hv. run_bind (SetupHost b i hv) (\<lambda>_. Ret HypervisorDone))"
| "hypervisor_api A b n (CallPauseHost i) = (\<lambda>hv. run_bind (PauseHost b i hv) (\<lambda>_. Ret HypervisorDone))"
| "hypervisor_api A b n (CallRunHost i) = (\<lambda>hv. run_bind (RunHost i hv) (\<lambda>_. Ret HypervisorDone))"
| "hypervisor_api A b n CallRemoveAllHosts = (\<lambda>hv. run_bind (RemoveAllHosts n hv) (\<lambda>_. Ret HypervisorDone))"
| "hypervisor_api A b n CallGetHostNames = (\<lambda>hv. run_bind (GetHostNames A hv) (\<lambda>m. Ret (HostNames m)))"
| "hypervisor_api A b n CallGetHostStates = (\<lambda>hv. run_bind (GetHostStates A hv) (\<lambda>m. Ret (HostStates m)))"
| "hypervisor_api A b n CallSetupHosts = (\<lambda>hv. run_bind (SetupHosts A b hv) (\<lambda>_. Ret HypervisorDone))"
| "hypervisor_api A b n CallPauseHosts = (\<lambda>hv. run_bind (PauseHosts A b hv) (\<lambda>_. Ret HypervisorDone))"
| "hypervisor_api A b n CallRunHosts = (\<lambda>hv. run_bind (RunHosts A hv) (\<lambda>_. Ret HypervisorDone))"
| "hypervisor_api A b n CallRunHostsOnCurrentThread =
     (\<lambda>hv. run_bind (RunHostsOnCurrentThread b hv) (\<lambda>_. Ret HypervisorDone))"

section \<open>Calls keep the names\<close>

text \<open>
  After undefined behaviour nothing is claimed; an exception that user code may catch leaves a
  state like a return does.
\<close>

fun run_safe :: "('s \<Rightarrow> bool) \<Rightarrow> ('a, 's) run \<Rightarrow> bool" where
  "run_safe P (Ret _ s) = P s"
| "run_safe P (Throw e s) = (is_catchable e \<longrightarrow> P s)"
| "run_safe P Diverge = True"

lemma run_safe_prop: "run_prop P r \<Longrightarrow> run_safe P r"
  by (cases r) simp_all

lemma run_safe_bind: "run_safe P r \<Longrightarrow> (\<And>x s. P s \<Longrightarrow> run_safe P (f x s)) \<Longrightarrow> run_safe P (run_bind r f)"
  by (cases r) simp_all

lemma run_safe_each:
  assumes "\<And>x s. x \<in> set xs \<Longrightarrow> P s \<Longrightarrow> run_safe P (f x s)"
  shows "P s \<Longrightarrow> run_safe P (run_each f xs s)"
  using assms by (induction xs arbitrary: s) (auto intro!: run_safe_bind)

lemma with_accessor_safe:
  "P w \<Longrightarrow> (\<And>x. accessors w a = Some x \<Longrightarrow> run_safe P (f x w)) \<Longrightarrow> run_safe P (with_accessor a f w)"
  by (simp add: with_accessor_def split: option.split)

lemma with_composite_safe:
  "P w \<Longrightarrow> (\<And>x c. accessors w a = Some x \<Longrightarrow> a_kind x = Composite c \<Longrightarrow> run_safe P (f x c w)) \<Longrightarrow>
   run_safe P (with_composite a f w)"
  by (simp add: with_composite_def with_accessor_def split: option.split accessor_kind.split)

lemma with_director_safe: "P w \<Longrightarrow> run_safe P (f w) \<Longrightarrow> run_safe P (with_director a f w)"
  by (simp add: with_director_def split: option.split sum.split)

lemma silent_safe: "run_safe P (f w) \<Longrightarrow> run_safe P (silent f w)"
  by (auto simp: silent_def intro: run_safe_bind)

lemma silent_prop: "run_prop P (f w) \<Longrightarrow> run_safe P (silent f w)"
  by (intro silent_safe run_safe_prop)

text \<open>What leaves the names alone: the director, and the parts of an accessor that are not its ports.\<close>

lemma world_ok_same:
  "ports w' = ports w \<Longrightarrow> nextPort w' = nextPort w \<Longrightarrow> accessors w' = accessors w \<Longrightarrow> world_ok w' = world_ok w"
  by (simp add: world_ok_def)

lemma world_ok_director: "dstate.more w' = dstate.more w \<Longrightarrow> world_ok w' = world_ok w"
  by (rule world_ok_same) (erule world_of_more)+

lemma world_ok_callbacks [wf_intros]:
  "world_ok w \<Longrightarrow> world_ok (modify_accessor a (\<lambda>x. x\<lparr>m_callbackIds := f x\<rparr>) w)"
  "world_ok w \<Longrightarrow> world_ok (modify_accessor a (\<lambda>x. x\<lparr>m_initialized := b\<rparr>) w)"
  "world_ok w \<Longrightarrow> world_ok (SetPriority a q w)"
  unfolding SetPriority_def by (rule world_ok_modify, assumption, simp add: accessor_ok_def)+

lemma Clear_more: "dstate.more (ClearScheduledCallback i d) = dstate.more d"
  by (simp add: ClearScheduledCallback_def Reset_def PosixUtcInMilliseconds_def RemoveScheduledCallbackFromMap_def Let_def
      split: list.split)

lemma world_ok_Clear [wf_intros]: "world_ok w \<Longrightarrow> world_ok (ClearScheduledCallback i w)"
  by (simp add: world_ok_director[of "ClearScheduledCallback i w" w] Clear_more)

lemma Schedule_safe:
  fixes w :: "('e, 'u) world"
  assumes "world_ok w"
  shows "run_safe world_ok (ScheduleCallback cb delay repeat prio w)"
proof -
  have "run_prop (\<lambda>w'. dstate.more w' = dstate.more w) (ScheduleCallback cb delay repeat prio w)"
    using ScheduleCallback_more[of w cb delay repeat prio] by (cases "ScheduleCallback cb delay repeat prio w") simp_all
  then have "run_prop world_ok (ScheduleCallback cb delay repeat prio w)"
    by (rule run_prop_mono) (use assms world_ok_director in blast)
  then show ?thesis by (rule run_safe_prop)
qed

lemma callbacks_safe [wf_intros]:
  assumes "world_ok w"
  shows "run_safe world_ok (Accessor_ScheduleCallback a cb delay repeat w)"
    and "run_safe world_ok (Accessor_ClearScheduledCallback a i w)"
    and "run_safe world_ok (ClearAllScheduledCallbacks a w)"
    and "run_safe world_ok (SendOutput a name out w)"
proof -
  show sched: "run_safe world_ok (Accessor_ScheduleCallback a cb delay repeat w)" for cb delay repeat
    unfolding Accessor_ScheduleCallback_def using assms
    by (intro with_accessor_safe with_director_safe run_safe_bind Schedule_safe) (auto intro: wf_intros)
  have clear: "run_safe world_ok (Accessor_ClearScheduledCallback a i w)" if "world_ok w" for i and w :: "('a, 'b) world"
    unfolding Accessor_ClearScheduledCallback_def using that
    by (intro with_accessor_safe with_director_safe) (auto intro: wf_intros)
  then show "run_safe world_ok (Accessor_ClearScheduledCallback a i w)" using assms .
  have "run_safe world_ok (clear_callbacks a is w)" if "world_ok w" for "is" and w :: "('a, 'b) world"
    using that by (induction "is" arbitrary: w) (auto intro!: run_safe_bind clear)
  then show "run_safe world_ok (ClearAllScheduledCallbacks a w)"
    unfolding ClearAllScheduledCallbacks_def using assms by (intro with_accessor_safe) auto
  show "run_safe world_ok (SendOutput a name out w)"
    unfolding SendOutput_def using assms
    by (intro with_accessor_safe) (auto intro!: run_safe_bind sched)
qed

lemma destroy_base_safe:
  fixes w :: "('e, 'u) world"
  assumes "world_ok w"
  shows "run_safe world_ok (destroy_base a w)"
proof (cases "destroy_base a w")
  case (Ret u w')
  obtain w1 where w1: "ClearAllScheduledCallbacks a w = Ret () w1"
    using Ret by (cases "ClearAllScheduledCallbacks a w") (simp_all add: destroy_base_def noexcept_run_def)
  have ok: "world_ok w1" using callbacks_safe(3)[OF assms, of a] w1 by simp
  obtain x where x: "accessors w1 a = Some x"
    using Ret w1 by (cases "accessors w1 a") (simp_all add: destroy_base_def noexcept_run_def with_accessor_def)
  let ?ps = "map snd (m_outputPorts x) @ map snd (m_inputPorts x)"
  obtain w2 where w2: "destroy_ports ?ps w1 = Ret () w2" "w' = w2\<lparr>accessors := (accessors w2)(a := None)\<rparr>"
    using Ret w1 x by (cases "destroy_ports ?ps w1") (simp_all add: destroy_base_def noexcept_run_def with_accessor_def)
  obtain S where S: "w2 = w1\<lparr>ports := S\<rparr>" "wiped (ports w1) S (set ?ps)"
    using destroy_ports_places[OF w2(1)] by blast
  have own: "kin_ports w1 {a} = set ?ps" using x by (auto simp: kin_ports_def own_ports_def)
  have "world_ok w'"
    by (rule world_ok_wiped[OF ok, of w' "{a}"]) (use own S w2(2) in \<open>auto split: if_splits\<close>)
  then show ?thesis using Ret by simp
next
  case (Throw e w')
  then have "\<not> is_catchable e" by (auto simp: destroy_base_def noexcept_run_def split: run.splits if_splits)
  then show ?thesis using Throw by simp
qed simp

lemma remove_child_safe:
  fixes w :: "('e, 'u) world"
  assumes "\<And>b w :: ('e, 'u) world. world_ok w \<Longrightarrow> run_safe world_ok (destroy b w)" and "world_ok w"
  shows "run_safe world_ok (remove_child_with destroy a name w)"
  unfolding remove_child_with_def
  by (rule with_composite_safe, rule assms(2))
    (auto simp: Let_def split: option.split intro!: run_safe_bind assms intro: wf_intros)

lemma destroy_accessor_safe:
  fixes w :: "('e, 'u) world"
  shows "world_ok w \<Longrightarrow> run_safe world_ok (destroy_accessor n a w)"
    and "world_ok w \<Longrightarrow> run_safe world_ok (RemoveAllChildren n a w)"
proof (induction n arbitrary: a w)
  case (Suc n)
  {
    case 1
    then show ?case
      unfolding destroy_accessor.simps
      by (intro with_accessor_safe) (auto intro!: run_safe_bind Suc.IH(2) destroy_base_safe)
  next
    case 2
    then show ?case
      unfolding RemoveAllChildren.simps
      by (intro with_composite_safe)
        (auto split: list.split intro!: with_accessor_safe run_safe_bind remove_child_safe Suc.IH)
  }
qed simp_all

lemma world_ok_composite:
  fixes w :: "('e, 'u) world"
  assumes "world_ok w"
  shows "run_prop world_ok (CompositeAccessor_construct a name isHost ins outs w)"
proof -
  have "run_prop world_ok (Accessor_construct a name (Composite \<lparr>c_isHost = isHost, m_reactionRequested = False,
      m_children = [], m_orderedChildren = [], m_childEventQueue = upq_new\<rparr>) ins outs w)"
    unfolding Accessor_construct_def by (intro run_prop_bind run_each_prop world_ok_new_accessor assms wf_intros) simp_all
  then show ?thesis
    using assms unfolding CompositeAccessor_construct_def construct_def by (auto split: run.split)
qed

lemma ports_safe [wf_intros]:
  assumes "world_ok w"
  shows "run_safe world_ok (AddInputPort a n w)" and "run_safe world_ok (AddOutputPort a n w)"
    and "run_safe world_ok (AddInputPorts a ns w)" and "run_safe world_ok (AddOutputPorts a ns w)"
proof -
  have i: "run_prop world_ok (AddInputPort a n v)" if "world_ok v" for n and v :: "('a, 'b) world"
    unfolding AddInputPort_def using that by (intro with_accessor_prop) (auto intro: wf_intros)
  have out: "run_prop world_ok (AddOutputPort a n v)" if "world_ok v" for n and v :: "('a, 'b) world"
    unfolding AddOutputPort_def using that by (intro with_accessor_prop) (auto intro: wf_intros)
  show "run_safe world_ok (AddInputPort a n w)" "run_safe world_ok (AddOutputPort a n w)"
    using i out assms by (auto intro: run_safe_prop)
  show "run_safe world_ok (AddInputPorts a ns w)" "run_safe world_ok (AddOutputPorts a ns w)"
    using assms i out
    by (auto simp: AddInputPorts_def AddOutputPorts_def intro!: run_safe_prop with_accessor_prop run_each_prop)
qed

lemma atomic_api_safe:
  assumes "world_ok w"
  shows "run_safe world_ok (atomic_api a c w)"
  using assms
  by (cases c)
    (auto simp: RemoveDependencies_def AddSpontaneousOutputPorts_def intro!: silent_prop run_each_prop intro: wf_intros)

lemma accessor_api_safe:
  assumes "world_ok w"
  shows "run_safe world_ok (accessor_api a c w)"
proof (cases c)
  case (CallGetLatestInput name)
  have "run_safe world_ok (Accessor_GetLatestInput a name w)"
    unfolding Accessor_GetLatestInput_def using assms
    by (intro with_accessor_safe) (auto split: sum.split option.split)
  then show ?thesis using CallGetLatestInput by (auto intro: run_safe_bind)
next
  case (CallConnectMyInputToMyOutput i out)
  then show ?thesis using assms
    by (auto simp: ConnectMyInputToMyOutput_def intro!: silent_prop with_accessor_prop intro: wf_intros)
next
  case (CallConnectMyOutputToMyInput out i)
  then show ?thesis using assms
    by (auto simp: ConnectMyOutputToMyInput_def intro!: silent_prop with_accessor_prop intro: wf_intros)
qed (use assms in \<open>auto intro!: silent_safe with_accessor_safe run_safe_bind wf_intros\<close>)

text \<open>User code, where a call runs some (\<open>ChildrenChanged\<close> initialises new children), has to keep the names too.\<close>

definition code_safe :: "('e, 'u) user_code \<Rightarrow> bool" where
  "code_safe U \<longleftrightarrow> (\<forall>a w. world_ok w \<longrightarrow> run_safe world_ok (u_initialize U a w))"

lemma each_child_safe:
  assumes "\<And>b v. world_ok v \<Longrightarrow> run_safe world_ok (f b v)"
  shows "world_ok w \<Longrightarrow> run_safe world_ok (each_child f a bs cs w)"
  by (induction cs arbitrary: w) (auto intro!: run_safe_bind assms)

lemma Initialize_safe:
  assumes "code_safe U"
  shows "world_ok w \<Longrightarrow> run_safe world_ok (Initialize U n a w)"
proof (induction n arbitrary: a w)
  case (Suc n)
  then show ?case using assms unfolding Initialize.simps code_safe_def
    by (intro with_accessor_safe run_safe_bind)
      (auto simp: Let_def split: accessor_kind.split intro!: each_child_safe intro: wf_intros)
qed simp

lemma ChildrenChanged_safe:
  assumes "code_safe U"
  shows "world_ok w \<Longrightarrow> run_safe world_ok (ChildrenChanged U n a w)"
proof (induction n arbitrary: a w)
  case (Suc n)
  have host: "run_safe world_ok (Host_ChildrenChanged a v)" if "world_ok v" for v :: "('a, 'b) world"
    unfolding Host_ChildrenChanged_def using that by (intro run_safe_bind) (auto intro: wf_intros)
  have new: "run_safe world_ok (initialize_new U n b v)" if "world_ok v" for b and v :: "('a, 'b) world"
    unfolding initialize_new_def using that Initialize_safe[OF assms] by (intro with_accessor_safe) auto
  show ?case unfolding ChildrenChanged.simps using Suc
    by (intro with_composite_safe)
      (auto split: option.split intro!: run_safe_bind with_composite_safe each_child_safe host new)
qed simp

lemma connections_safe [wf_intros]:
  assumes "world_ok w"
  shows "run_safe world_ok (ConnectMyInputToChildInput a i child j w)"
    and "run_safe world_ok (ConnectChildOutputToMyOutput a child out out' w)"
    and "run_safe world_ok (ConnectChildren a source out destination i w)"
  unfolding ConnectMyInputToChildInput_def ConnectChildOutputToMyOutput_def ConnectChildren_def
  by (rule with_composite_safe, rule assms, rule run_safe_prop, rule world_ok_connect_found, rule assms)+

lemma composite_api_safe:
  assumes "code_safe U" and "world_ok w"
  shows "run_safe world_ok (composite_api U n a c w)"
proof (cases c)
  case (CallAddChild b)
  have "run_safe world_ok (add_child a b w)"
    unfolding add_child_def SetParent_def using assms(2)
    by (intro with_composite_safe with_accessor_safe)
      (auto simp: Let_def intro!: wf_intros world_ok_modify simp: accessor_ok_def)
  then have "run_safe world_ok (AddChild n a b w)"
    unfolding AddChild_def using destroy_accessor_safe(1)[of _ n b]
    by (cases "add_child a b w") (auto intro!: run_safe_bind)
  then show ?thesis using CallAddChild by (auto intro: silent_safe)
next
  case (CallRemoveChild name)
  then show ?thesis using assms(2)
    by (auto simp: RemoveChild_def intro!: silent_safe remove_child_safe destroy_accessor_safe)
next
  case CallRemoveAllChildren
  then show ?thesis using assms(2) by (auto intro!: silent_safe destroy_accessor_safe)
next
  case CallChildrenChanged
  then show ?thesis using assms by (auto intro!: silent_safe ChildrenChanged_safe)
qed (use assms(2) in \<open>auto intro!: with_composite_safe silent_safe intro: wf_intros\<close>)

section \<open>Programs of calls\<close>

text \<open>A new object has a number that no other has.\<close>

datatype 'e client_step =
    NewComposite nat string "string list" "string list"
  | NewAtomic nat string "string list" "string list" "string list" "(string, nat list) smap"
  | OnAccessor nat "'e accessor_call"
  | OnComposite nat composite_call
  | OnAtomic nat atomic_call

fun make_call :: "('e, 'u) user_code \<Rightarrow> nat \<Rightarrow> 'e client_step \<Rightarrow> ('e answer, 'e, 'u) op" where
  "make_call U n (NewComposite a name ins outs) w =
     (if accessors w a \<noteq> None then Ret Done w else silent (new_composite a name ins outs) w)"
| "make_call U n (NewAtomic a name ins outs sp hs) w =
     (if accessors w a \<noteq> None then Ret Done w else silent (new_atomic a name ins outs sp hs) w)"
| "make_call U n (OnAccessor a c) w = accessor_api a c w"
| "make_call U n (OnComposite a c) w = composite_api U n a c w"
| "make_call U n (OnAtomic a c) w = atomic_api a c w"

text \<open>An exception is caught; undefined behaviour and a call that does not return end the program.\<close>

definition run_client :: "('e, 'u) user_code \<Rightarrow> nat \<Rightarrow> 'e client_step \<Rightarrow> ('e, 'u) world option \<Rightarrow> ('e, 'u) world option" where
  "run_client U n c v =
     (case v of
        None \<Rightarrow> None
      | Some w \<Rightarrow> (case make_call U n c w of
          Ret _ w' \<Rightarrow> Some w'
        | Throw e w' \<Rightarrow> if is_catchable e then Some w' else None
        | Diverge \<Rightarrow> None))"

lemma client_step_safe:
  assumes "code_safe U" and "world_ok w"
  shows "run_safe world_ok (make_call U n c w)"
  using assms
  by (cases c)
    (auto simp: new_composite_def new_atomic_def
      intro!: silent_prop world_ok_composite world_ok_construct accessor_api_safe composite_api_safe atomic_api_safe)

interpretation client: invariant_machine "run_client U n"
  "\<lambda>v. code_safe U \<longrightarrow> (case v of None \<Rightarrow> True | Some w \<Rightarrow> world_ok w)" for U :: "('e, 'u) user_code" and n
proof unfold_locales
  fix U :: "('e, 'u) user_code" and n and v :: "('e, 'u) world option" and c :: "'e client_step"
  assume v: "code_safe U \<longrightarrow> (case v of None \<Rightarrow> True | Some w \<Rightarrow> world_ok w)"
  show "code_safe U \<longrightarrow> (case run_client U n c v of None \<Rightarrow> True | Some w \<Rightarrow> world_ok w)"
  proof (cases v)
    case (Some w)
    then have "run_safe world_ok (make_call U n c w)" if "code_safe U" using client_step_safe v that by simp
    then show ?thesis using Some by (cases "make_call U n c w") (auto simp: run_client_def)
  qed (simp add: run_client_def)
qed

text \<open>
  C15. No sequence of calls of the public interface breaks the names of a model, whatever
  exceptions it runs into: objects are created and destroyed, ports and children added and
  removed, ports connected, handlers and dependencies declared, callbacks scheduled and cleared,
  children announced. Afterwards every accessor's port names are valid and unique over both
  directions, looking a port up by its name yields a port of that name and direction that belongs
  to the accessor and still exists, and the ordered lists hold each port once.
\<close>

theorem calls_keep_names:
  assumes "code_safe U" and "world_ok w0" and "fold (run_client U n) cs (Some w0) = Some w" and "accessors w a = Some x"
  shows "distinct (input_names w a @ output_names w a) \<and>
    (\<forall>n \<in> set (input_names w a @ output_names w a). NameIsValid n) \<and>
    (\<forall>n p. GetInputPort n x = Inr p \<longrightarrow> p \<in> set (GetInputPorts x) \<and> port_of (ports w) a n p True) \<and>
    (\<forall>n p. GetOutputPort n x = Inr p \<longrightarrow> p \<in> set (GetOutputPorts x) \<and> port_of (ports w) a n p False)"
proof (rule world_ok_names[OF _ assms(4)])
  show "world_ok w" using client.ops_keep[of U "Some w0" n cs] assms(1-3) by simp
qed

lemma calls_keep_names_witness:
  "\<exists>w x. fold (run_client no_user_code 3)
       [NewAtomic 7 ''Sum'' [''Left''] [''Sum''] [] [], OnAccessor 7 (CallAddInputPorts [''Right'', ''Left''])]
       (Some empty_world) = Some w \<and> accessors w 7 = Some x \<and>
     distinct (input_names w 7 @ output_names w 7)"
proof -
  let ?cs = "[NewAtomic 7 ''Sum'' [''Left''] [''Sum''] [] [], OnAccessor 7 (CallAddInputPorts [''Right'', ''Left''])]"
  have U: "code_safe (no_user_code :: (nat, unit) user_code)" by (simp add: code_safe_def no_user_code_def)
  have w0: "world_ok empty_world" by (auto simp: world_ok_def empty_world_def dstate.extend_def)
  have "\<exists>w x. fold (run_client no_user_code 3) ?cs (Some empty_world) = Some w \<and> accessors w 7 = Some x"
    by (simp add: run_client_def silent_def new_atomic_def AtomicAccessor_construct_def construct_def Accessor_construct_def
        AddSpontaneousOutputPorts_def AddInputPorts_def AddInputPort_def add_input_port_def
        add_output_port_def with_accessor_def ValidatePortName_def NewPortNameIsValid_def
        HasInputPortWithName_def HasOutputPortWithName_def Accessor_new_def empty_world_def
        dstate.extend_def NameIsValid_def forbidden_chars_def smap_emplace_def Let_def)
  then obtain w x where w: "fold (run_client no_user_code 3) ?cs (Some empty_world) = Some w" "accessors w 7 = Some x" by blast
  from calls_keep_names[OF U w0 w] w show ?thesis by blast
qed

end
