(* ===== verification/Spec2Isabelle.thy ===== *)
theory Spec2Isabelle
  imports BaseObject UniquePriorityQueue DirectorHazards HostHazards HostReset ReactionOrder ExecutionRounds Facade
begin

text \<open>
  A model of the Accessor Framework: accessors (components with named ports) are composed into a
  tree, a host drives the tree, and a director runs callbacks in the order of logical time.

  \<^bold>\<open>The parts of the program and their theories\<close>, all under \<open>src/src/\<close>:

  \<^item> \<open>Prelude\<close>: integer bounds, exceptions (one constructor per throw site, \<open>Fatal\<close> for undefined
    behaviour), the result type \<open>run\<close> (\<open>Ret\<close>, \<open>Throw\<close> with the state at the throw, \<open>Diverge\<close>),
    \<open>std::map\<close> and \<open>std::set\<close> as sorted lists.
  \<^item> \<open>BaseObject\<close>: \<open>BaseObject.h\<close>, names and parents. \<open>CancellationToken\<close>: \<open>CancellationToken.h\<close>.
    \<open>UniquePriorityQueue\<close>: \<open>UniquePriorityQueue.h\<close> over a binary heap.
  \<^item> \<open>Director\<close>: \<open>Director.h\<close>, \<open>Director.cpp\<close>, the callback queue, its map and the clock (the record
    \<open>dstate\<close> holds the members). \<open>DirectorExecution\<close>: \<open>Execute\<close>, \<open>ExecuteInternal\<close>,
    \<open>ExecuteCallbacks\<close>. \<open>DirectorProgress\<close>: what a round does and when it ends. \<open>Executions\<close>: the locale
    that says what the loops around the rounds use of them, and that they end.
    \<open>DirectorHazards\<close>: callbacks that clear callbacks.
  \<^item> \<open>Port\<close>: \<open>Port.h\<close>, \<open>Port.cpp\<close>, connections and input queues. \<open>Messages\<close>: \<open>SendData\<close>,
    \<open>ReceiveData\<close>, \<open>AlertNewInput\<close>. \<open>Delivery\<close>: the ports an event reaches.
  \<^item> \<open>AccessorImpl\<close>, \<open>AtomicAccessor\<close>, \<open>CompositeAccessor\<close>: the files of those names. The record
    \<open>world\<close> extends the director's state with the accessors and ports (stores from numbers, which
    stand for pointers) and the user's state. \<open>Runtime\<close>: what runs user code (\<open>ProcessInputs\<close>,
    \<open>ProcessChildEventQueue\<close>, \<open>Initialize\<close>, \<open>ChildrenChanged\<close>) and what the framework's own
    callbacks mean.
  \<^item> \<open>Reactions\<close>, \<open>ReactionRounds\<close>: what a reaction does, and that it ends. \<open>ReactionOrder\<close>: the
    order in which it serves the accessors, against a reference without queues. \<open>ReactionFrame\<close>: the
    locale that says what these parts use of the director. \<open>RoundDirector\<close>, \<open>ReactionPrices\<close>, \<open>Rounds\<close>: a
    round of the director that runs the framework's callbacks, put together from all of these, and what
    its callbacks, reactions and outputs cost. \<open>ExecutionRounds\<close>: a whole execution, from \<open>Execute\<close> down
    to the handlers; \<open>Relay\<close>: an example for it, a periodic source and two accessors behind it.
  \<^item> \<open>HostDepths\<close>, \<open>HostPriorities\<close>, \<open>HostOrder\<close>, \<open>HostReset\<close>, \<open>HostHazards\<close>: \<open>HostImpl.cpp\<close>, the
    depths of ports and accessors, the priorities they give, and what those priorities mean.
  \<^item> \<open>HostStates\<close>, \<open>HostListeners\<close>: \<open>HostImpl.cpp\<close>, the life cycle and the listeners of a host, as
    operations on a \<open>host\<close> record that takes the place of the user's state. \<open>HostThreads\<close>: the
    same life cycle as a step relation, one step per access to the atomic state, for calls of
    several threads; a thread inside the director, in user code of \<open>Setup\<close>, or trying to start
    another thread may stay where it is, so that a run that never returns is a run of the model too. \<open>HostRefinement\<close>: the operations implement the step relation. \<open>UserState\<close>:
    the locale that says the framework leaves the user's state (here, the host) to user code.
  \<^item> \<open>Hypervisor\<close>: \<open>HostHypervisorImpl.h\<close>, \<open>HostHypervisorImpl.cpp\<close>.
  \<^item> \<open>Facade\<close>: the public classes, \<open>Accessor.cpp\<close> and \<open>Host.cpp\<close>: their calls as datatypes, one
    constructor per method, and what each call does.

  The parts meet as in the code: a port's \<open>SendData\<close> alerts the accessor of a destination, which
  queues itself at its parent, and so on up to the host, which schedules the callback
  \<open>ProcessQueueOf\<close> at its director; the director runs it, and the reaction hands the events to
  the handlers, which send further events by scheduling callbacks.

  \<^bold>\<open>What the lemmas show.\<close> For the director: from a new director on, between rounds, the queue holds
  exactly the registered callbacks, sorted by time and priority, if the callbacks do not reset the director; the
  specification of every operation; a round with callbacks that leave the director alone runs the due
  occurrences and ends if no due callback has period 0. For ports and names: connections are symmetric, refused
  connections change nothing, names stay valid and unique whatever a client calls. For messages: an event arrives
  exactly at the ports the connections lead to, and no waiting input is without a reaction that
  will handle it. For reactions, with handlers that keep to a contract: the events of every port are handled in the order
  of arrival, once each; accessors react in the order of the priorities; a reaction ends with nothing
  waiting. For composites: which children are refused, and that a refused one is destroyed with all below it. For all of them together: a round of the director, with events that cause
  further events at the same time, ends and leaves neither a due callback nor a waiting input; and so
  does an execution of as many rounds as the clock leaves time for, with periodic sources.
  For priorities: an accessor all of whose outputs need an output of another comes after that one (and
  need not if it has a further output), a causality loop is reported, the search for equivalent
  ports computes the closure. For hosts: every call is a run of the step relation; if the runs of the director
  return and user code throws only \<open>std::exception\<close>s, the calls end and the host rests, or the program is
  aborted; listeners that keep to their contract see every change once. For the hypervisor: calls on all hosts do not depend on the order of the tasks.
  The interfaces between components are locales, interpreted on the definitions of the
  component that provides them: \<open>ordered_map\<close> on the sorted maps, \<open>reaction_queue\<close> on the unique
  priority queue, \<open>callback_registry\<close> on the director, \<open>input_channel\<close> on the port's input queue,
  \<open>invariant_machine\<close> on director operations and on the client's calls, \<open>causality\<close> (the port queries
  of the depth computation) on the model's ports, \<open>reaction_frame\<close> on what a round may do to the director
  and on what it leaves of the execution, \<open>director_rounds\<close> on the rounds with the framework's callbacks,
  and \<open>director_frame\<close>, extended by \<open>user_frame\<close>, which gives \<open>reaction_frame\<close>, on the relations
  that the host's calls keep.

  \<^bold>\<open>Bounds.\<close> Where the C++ recursion or loop is not structural the definition takes a number, and
  running out of it is the result \<open>Diverge\<close>, as is a loop that never ends; the theorems say how
  much is enough, or that nothing is. \<open>ExecuteCallbacks\<close>: more than \<open>workload\<close>, the number of
  due occurrences. The port recursion: \<open>port_fuel\<close>, twice the number of ports and one, since each
  visit marks a port. \<open>DisconnectAll\<close>: the number of destinations. \<open>SendData\<close>: the length of the
  longest chain of ports (\<open>routed\<close>). \<open>ScheduleReaction\<close>: the depth of the tree (\<open>hosted\<close>).
  \<open>ProcessChildEventQueue\<close>: more than \<open>load\<close>, the entries of all event queues and the queued
  reactions plus, for each queued event, the depth of the tree and one. A whole round with its
  reactions: more than \<open>effort\<close>, \<open>load\<close> plus, for each due callback and each that may still be
  scheduled, what one event at every port costs. What may still be scheduled is bounded by the record
  \<open>prices\<close>, a contract of user code: a handler, \<open>Fire\<close> or a callback schedules no more than its price,
  an event in an input queue carries the price of its handlers, and an output that of the inputs it
  reaches; what user code schedules beyond that, such as outputs around a cycle of connections, it pays
  from a budget in its state. An execution (\<open>ExecuteInternal\<close>): more rounds than
  milliseconds from the first due time to the latest reading of the clock, as each round is for a later
  time; and as each round may at most double what is in reserve, \<open>effort\<close> plus the reserve's cost that
  many times doubled (\<open>enough\<close>). The record \<open>bounds\<close> of \<open>HostStates\<close> collects the bounds of
  one call of a host.

  \<^bold>\<open>What is a parameter.\<close> User code (handlers, callbacks, \<open>Fire\<close>, \<open>Initialize\<close>, listeners,
  \<open>AdditionalSetup\<close>) is an argument: an operation on the whole state that may throw. What several theorems
  ask of it, each in its own words, is to throw nothing but the failures of its own calls (\<open>polite\<close>), not to change the
  structure of the model while it reacts, and to stay within its prices. The clock,
  the outcomes of starting a thread, what other threads do to a cancellation token during a
  sleep, and the order in which asynchronous tasks run are arguments or fields of the state. The thread of
  an execution sleeps until the first callback is due by the model of \<open>SleepFor\<close>, which records the time-outs
  (\<open>naps\<close>); the readings of the clock are those of any clock, they are not made to follow from the sleep. A reading
  whose milliseconds do not fit a \<open>long long\<close> (292 million years) is outside the model.

  \<^bold>\<open>What is not modelled.\<close> The debug macros print; build files and tests hold no state of the
  program. Threads are interleaved at the accesses to the host's atomic state and
  at the wait for the director's thread; a director thread otherwise runs to its end when it is
  waited for, and data races on the model itself are outside. A vector that user code changes
  while the framework iterates over it is undefined behaviour, as in C++. Allocation never fails.
\<close>

end
